(* ===== verification/GoPrelude.thy ===== *)
theory GoPrelude
  imports Main "HOL-Library.Word"
begin

unbundle bit_operations_syntax

text \<open>
  Shared vocabulary of the development: Go's fixed-width integers, its shift
  operators, the ways a Go function can fail, slices with bounds checks, and the
  counting loop \<open>for k := lo; k < hi; k++\<close>.

  The sources are amd64 only, so \<open>uint\<close>, \<open>uint64\<close> and \<open>uintptr\<close> are all 64 bits
  wide. Go's shifts by a count of at least the width give zero, which is what
  \<^const>\<open>push_bit\<close> and \<^const>\<open>drop_bit\<close> do on words.
\<close>

section \<open>Integers\<close>

type_synonym u8 = "8 word"
type_synonym u16 = "16 word"
type_synonym u32 = "32 word"
type_synonym u64 = "64 word"
type_synonym uintptr = "64 word"

text \<open>The lemma collections that the component theories extend and use.\<close>

named_theorems go_simps \<open>unfolding rules of the failure monad and of slices\<close>
named_theorems word_nat \<open>transfer of 64-bit word arithmetic to natural numbers\<close>

definition shl :: "'a::len word \<Rightarrow> u64 \<Rightarrow> 'a word" where
  "shl x n = push_bit (unat n) x"

definition shr :: "'a::len word \<Rightarrow> u64 \<Rightarrow> 'a word" where
  "shr x n = drop_bit (unat n) x"

text \<open>Go's bit clear operator: \<open>x &^ y\<close>.\<close>

definition andnot :: "'a::len word \<Rightarrow> 'a word \<Rightarrow> 'a word" where
  "andnot x y = x AND NOT y"

lemma bit_shl [bit_simps]:
  "bit (shl x n) k \<longleftrightarrow> unat n \<le> k \<and> k < LENGTH('a) \<and> bit x (k - unat n)"
  for x :: "'a::len word"
  by (auto simp: shl_def bit_simps dest: bit_imp_le_length)

lemma bit_shr [bit_simps]: "bit (shr x n) k \<longleftrightarrow> bit x (unat n + k)"
  by (simp add: shr_def bit_simps)

lemma bit_andnot [bit_simps]: "bit (andnot x y) k \<longleftrightarrow> bit x k \<and> \<not> bit y k"
  for x :: "'a::len word"
  by (auto simp: andnot_def bit_simps dest: bit_imp_le_length)

lemma unat_add_noov: "unat x + unat y < 2 ^ 64 \<Longrightarrow> unat (x + y) = unat x + unat y" for x y :: u64
  by (simp add: unat_word_ariths)

lemma bit_unat: "bit (unat x) k \<longleftrightarrow> bit x k" for x :: "'a::len word"
  by (auto simp: bit_unsigned_iff possible_bit_def)

lemma less_exp_bit: "unat x < 2 ^ n \<Longrightarrow> bit x k \<Longrightarrow> k < n" for x :: "'a::len word"
  by (metis bit_take_bit_iff bit_unat take_bit_nat_eq_self_iff)

lemma unat_exp:
  assumes "n < LENGTH('a)"
  shows "unat (2 ^ n :: 'a::len word) = 2 ^ n"
proof -
  have "unat (of_nat (2 ^ n) :: 'a word) = 2 ^ n"
    using assms by (simp only: unat_of_nat mod_less power_strict_increasing one_less_numeral_iff
        semiring_norm(76))
  then show ?thesis by simp
qed

lemma unat_of_nat64: "n < 2 ^ 64 \<Longrightarrow> unat (of_nat n :: u64) = n"
  by (simp add: unat_of_nat)

section \<open>Failures\<close>

text \<open>
  A Go function that returns normally gives \<open>Inr\<close>; the run-time panics, an explicit
  \<open>panic\<close> and the runtime's fatal \<open>throw\<close> are values of \<open>gofail\<close>. The message of an
  explicit failure is the source's string. \<open>Loops\<close> stands for a call that never returns: a loop
  modelled by \<open>partial_function\<close> has the value \<open>None\<close> then, which \<open>returns\<close> turns into a failure.
\<close>

datatype gofail =
    IndexPanic
  | DividePanic
  | NilPanic
  | Panic string
  | Throw string
  | Loops

type_synonym 'a res = "gofail + 'a"

definition go_bind :: "'a res \<Rightarrow> ('a \<Rightarrow> 'b res) \<Rightarrow> 'b res" where
  "go_bind m f = (case m of Inl e \<Rightarrow> Inl e | Inr x \<Rightarrow> f x)"

lemma go_bind_simps [simp]:
  "go_bind (Inl e) f = Inl e"
  "go_bind (Inr x) f = f x"
  by (simp_all add: go_bind_def)

lemma go_bind_eq_Inr: "go_bind m f = Inr y \<longleftrightarrow> (\<exists>x. m = Inr x \<and> f x = Inr y)"
  by (cases m) auto

lemma go_bind_cong [fundef_cong]:
  assumes "m = m'" and "\<And>x. m' = Inr x \<Longrightarrow> f x = f' x"
  shows "go_bind m f = go_bind m' f'"
  using assms by (cases m') auto

definition returns :: "'a option \<Rightarrow> 'a res" where
  "returns m = (case m of None \<Rightarrow> Inl Loops | Some x \<Rightarrow> Inr x)"

lemma returns_simps [simp]: "returns None = Inl Loops" "returns (Some x) = Inr x"
  by (simp_all add: returns_def)

section \<open>Slices\<close>

text \<open>Reading and writing an element; out of range, Go panics.\<close>

definition slice_get :: "'a list \<Rightarrow> u64 \<Rightarrow> 'a res" where
  "slice_get xs i = (if unat i < length xs then Inr (xs ! unat i) else Inl IndexPanic)"

definition slice_set :: "'a list \<Rightarrow> u64 \<Rightarrow> 'a \<Rightarrow> 'a list res" where
  "slice_set xs i v =
     (if unat i < length xs then Inr (xs[unat i := v]) else Inl IndexPanic)"

lemma slice_get_Inr [simp]: "unat i < length xs \<Longrightarrow> slice_get xs i = Inr (xs ! unat i)"
  by (simp add: slice_get_def)

lemma slice_set_Inr [simp]: "unat i < length xs \<Longrightarrow> slice_set xs i v = Inr (xs[unat i := v])"
  by (simp add: slice_set_def)

lemma slice_get_Inl [simp]: "length xs \<le> unat i \<Longrightarrow> slice_get xs i = Inl IndexPanic"
  by (simp add: slice_get_def)

lemma slice_set_Inl [simp]: "length xs \<le> unat i \<Longrightarrow> slice_set xs i v = Inl IndexPanic"
  by (simp add: slice_set_def)

text \<open>\<open>copy(dst[k:], src)\<close>: as many elements as fit.\<close>

definition copy_at :: "'a list \<Rightarrow> nat \<Rightarrow> 'a list \<Rightarrow> 'a list" where
  "copy_at dst k src = take k dst @ take (length dst - k) src @ drop (k + length src) dst"

section \<open>Counting loops\<close>

text \<open>
  \<open>go_for lo hi body s\<close> is \<open>for k := lo; k < hi; k++ { body }\<close> over the state \<open>s\<close>.
  The increment cannot wrap inside the loop, because \<open>k < hi\<close>.
\<close>

lemma unat_inc_below: "k < hi \<Longrightarrow> unat (k + 1) = Suc (unat k)" for k hi :: u64
  by unat_arith

function go_for :: "u64 \<Rightarrow> u64 \<Rightarrow> (u64 \<Rightarrow> 's \<Rightarrow> 's res) \<Rightarrow> 's \<Rightarrow> 's res" where
  "go_for k hi body s =
     (if k < hi then go_bind (body k s) (\<lambda>s'. go_for (k + 1) hi body s') else Inr s)"
  by pat_completeness auto
termination
proof (relation "measure (\<lambda>(k, hi, body, s). unat hi - unat k)", goal_cases)
  case 1
  show ?case by simp
next
  case (2 k hi body s x)
  with unat_inc_below [of k hi] show ?case by (simp add: word_less_nat_alt)
qed

declare go_for.simps [simp del]

end
