(* ===== verification/BitOps.thy ===== *)
theory BitOps
  imports GoPrelude
begin

unbundle bit_operations_syntax

text \<open>
  The bit-twiddling primitives of \<open>src/memory_and_heap/stubs.go\<close>: alignment, the
  table-driven bit length, the de Bruijn multiplication that counts trailing zeros and
  the parallel population count. Each is shown equal to a naive reference definition
  (\<open>tz\<close>, \<open>lz\<close>, \<open>popcount\<close>), and only the references are used by the allocator theories.

  Go's \<open>int\<close> results lie in \<open>0..64\<close> here and are converted to \<open>uint\<close> by every caller;
  both are 64 bits wide, so they are modelled by the same word type.
\<close>

section \<open>Definitions\<close>

definition alignUp :: "uintptr \<Rightarrow> uintptr \<Rightarrow> uintptr" where
  "alignUp n a = andnot (n + a - 1) (a - 1)"

definition alignDown :: "uintptr \<Rightarrow> uintptr \<Rightarrow> uintptr" where
  "alignDown n a = andnot n (a - 1)"

definition len8tab :: "u8 list" where
  "len8tab =
    [0x00, 0x01, 0x02, 0x02, 0x03, 0x03, 0x03, 0x03, 0x04, 0x04, 0x04, 0x04, 0x04, 0x04, 0x04, 0x04,
     0x05, 0x05, 0x05, 0x05, 0x05, 0x05, 0x05, 0x05, 0x05, 0x05, 0x05, 0x05, 0x05, 0x05, 0x05, 0x05,
     0x06, 0x06, 0x06, 0x06, 0x06, 0x06, 0x06, 0x06, 0x06, 0x06, 0x06, 0x06, 0x06, 0x06, 0x06, 0x06,
     0x06, 0x06, 0x06, 0x06, 0x06, 0x06, 0x06, 0x06, 0x06, 0x06, 0x06, 0x06, 0x06, 0x06, 0x06, 0x06,
     0x07, 0x07, 0x07, 0x07, 0x07, 0x07, 0x07, 0x07, 0x07, 0x07, 0x07, 0x07, 0x07, 0x07, 0x07, 0x07,
     0x07, 0x07, 0x07, 0x07, 0x07, 0x07, 0x07, 0x07, 0x07, 0x07, 0x07, 0x07, 0x07, 0x07, 0x07, 0x07,
     0x07, 0x07, 0x07, 0x07, 0x07, 0x07, 0x07, 0x07, 0x07, 0x07, 0x07, 0x07, 0x07, 0x07, 0x07, 0x07,
     0x07, 0x07, 0x07, 0x07, 0x07, 0x07, 0x07, 0x07, 0x07, 0x07, 0x07, 0x07, 0x07, 0x07, 0x07, 0x07,
     0x08, 0x08, 0x08, 0x08, 0x08, 0x08, 0x08, 0x08, 0x08, 0x08, 0x08, 0x08, 0x08, 0x08, 0x08, 0x08,
     0x08, 0x08, 0x08, 0x08, 0x08, 0x08, 0x08, 0x08, 0x08, 0x08, 0x08, 0x08, 0x08, 0x08, 0x08, 0x08,
     0x08, 0x08, 0x08, 0x08, 0x08, 0x08, 0x08, 0x08, 0x08, 0x08, 0x08, 0x08, 0x08, 0x08, 0x08, 0x08,
     0x08, 0x08, 0x08, 0x08, 0x08, 0x08, 0x08, 0x08, 0x08, 0x08, 0x08, 0x08, 0x08, 0x08, 0x08, 0x08,
     0x08, 0x08, 0x08, 0x08, 0x08, 0x08, 0x08, 0x08, 0x08, 0x08, 0x08, 0x08, 0x08, 0x08, 0x08, 0x08,
     0x08, 0x08, 0x08, 0x08, 0x08, 0x08, 0x08, 0x08, 0x08, 0x08, 0x08, 0x08, 0x08, 0x08, 0x08, 0x08,
     0x08, 0x08, 0x08, 0x08, 0x08, 0x08, 0x08, 0x08, 0x08, 0x08, 0x08, 0x08, 0x08, 0x08, 0x08, 0x08,
     0x08, 0x08, 0x08, 0x08, 0x08, 0x08, 0x08, 0x08, 0x08, 0x08, 0x08, 0x08, 0x08, 0x08, 0x08, 0x08]"

definition Len64 :: "u64 \<Rightarrow> u64" where
  "Len64 x0 =
     (let (x1, n1) = (if x0 \<ge> shl 1 32 then (shr x0 32, 32) else (x0, 0));
          (x2, n2) = (if x1 \<ge> shl 1 16 then (shr x1 16, n1 + 16) else (x1, n1));
          (x3, n3) = (if x2 \<ge> shl 1 8 then (shr x2 8, n2 + 8) else (x2, n2))
      in n3 + ucast (len8tab ! unat x3))"

definition m0 :: u64 where "m0 = 0x5555555555555555"
definition m1 :: u64 where "m1 = 0x3333333333333333"
definition m2 :: u64 where "m2 = 0x0f0f0f0f0f0f0f0f"

definition OnesCount64 :: "u64 \<Rightarrow> u64" where
  "OnesCount64 x =
     (let x = (shr x 1 AND m0) + (x AND m0);
          x = (shr x 2 AND m1) + (x AND m1);
          x = (shr x 4 + x) AND m2;
          x = x + shr x 8;
          x = x + shr x 16;
          x = x + shr x 32
      in x AND (shl 1 7 - 1))"

definition deBruijn64tab :: "u8 list" where
  "deBruijn64tab =
    [0, 1, 56, 2, 57, 49, 28, 3, 61, 58, 42, 50, 38, 29, 17, 4,
     62, 47, 59, 36, 45, 43, 51, 22, 53, 39, 33, 30, 24, 18, 12, 5,
     63, 55, 48, 27, 60, 41, 37, 16, 46, 35, 44, 21, 52, 32, 23, 11,
     54, 26, 40, 15, 34, 20, 31, 10, 25, 14, 19, 9, 13, 8, 7, 6]"

definition deBruijn64 :: u64 where
  "deBruijn64 = 0x03f79d71b4ca8b09"

definition TrailingZeros64 :: "u64 \<Rightarrow> u64" where
  "TrailingZeros64 x =
     (if x = 0 then 64
      else ucast (deBruijn64tab ! unat (shr ((x AND - x) * deBruijn64) (64 - 6))))"

definition LeadingZeros64 :: "u64 \<Rightarrow> u64" where
  "LeadingZeros64 x = 64 - Len64 x"

text \<open>The reference definitions.\<close>

definition tz :: "u64 \<Rightarrow> nat" where
  "tz x = length (takeWhile (\<lambda>i. \<not> bit x i) [0..<64])"

definition lz :: "u64 \<Rightarrow> nat" where
  "lz x = length (takeWhile (\<lambda>i. \<not> bit x (63 - i)) [0..<64])"

definition popcount :: "u64 \<Rightarrow> nat" where
  "popcount x = length (filter (bit x) [0..<64])"

section \<open>Trailing zeros\<close>

lemma length_takeWhile_upt:
  assumes "k \<le> n" and "\<And>i. i < k \<Longrightarrow> P i" and "k < n \<Longrightarrow> \<not> P k"
  shows "length (takeWhile P [0..<n]) = k"
proof -
  have "[0..<n] = [0..<k] @ [k..<n]"
    using assms(1) by (metis le0 upt_add_eq_append le_add_diff_inverse)
  moreover have "takeWhile P ([0..<k] @ [k..<n]) = [0..<k] @ takeWhile P [k..<n]"
    by (rule takeWhile_append2) (use assms(2) in auto)
  moreover have "takeWhile P [k..<n] = []"
    using assms(1,3) by (cases "k < n") (auto simp: upt_conv_Cons)
  ultimately show ?thesis by simp
qed

lemma tz_eqI: "bit x k \<Longrightarrow> (\<And>i. i < k \<Longrightarrow> \<not> bit x i) \<Longrightarrow> tz x = k"
  unfolding tz_def by (rule length_takeWhile_upt) (use bit_imp_le_length [of x k] in auto)

lemma tz_0 [simp]: "tz 0 = 64"
  unfolding tz_def by (rule length_takeWhile_upt) auto

lemma tz_nonzero:
  assumes "x \<noteq> 0"
  shows tz_less: "tz x < 64" and bit_tz: "bit x (tz x)"
    and not_bit_below_tz: "i < tz x \<Longrightarrow> \<not> bit x i"
proof -
  obtain n where n: "bit x n"
    using assms by (metis bit_word_eqI bit_0_eq bot_apply bot_bool_def)
  define k where "k = (LEAST n. bit x n)"
  have k: "bit x k" unfolding k_def using n by (rule LeastI)
  have l: "\<not> bit x i" if "i < k" for i using not_less_Least that unfolding k_def by blast
  have "tz x = k" using k l by (rule tz_eqI)
  then show "tz x < 64" "bit x (tz x)" "i < tz x \<Longrightarrow> \<not> bit x i"
    using k l bit_imp_le_length [OF k] by auto
qed

lemma tz_le: "tz x \<le> 64"
  using tz_less by (cases "x = 0") (auto simp: less_imp_le)

lemma tz_64_iff: "tz x = 64 \<longleftrightarrow> x = 0"
  using tz_less by (cases "x = 0") fastforce+

lemma not_bit_below: "i < tz x \<Longrightarrow> \<not> bit x i"
  by (cases "x = 0") (auto simp: not_bit_below_tz)

lemma odd_and_minus:
  fixes y :: u64
  assumes "odd y"
  shows "y AND - y = 1"
proof (rule bit_word_eqI)
  fix n
  assume n: "n < LENGTH(64)"
  have "y = (y AND NOT 1) OR 1"
    using assms by (auto intro!: bit_word_eqI simp: bit_simps bit_0)
  also have "\<dots> = (y AND NOT 1) + 1"
    by (subst disjunctive_add) (auto simp: bit_simps)
  finally have "y - 1 = y AND NOT 1" by (simp add: algebra_simps)
  then have "- y = NOT (y AND NOT 1)" using minus_eq_not_minus_1 [of y] by simp
  then have "bit (- y) n \<longleftrightarrow> n = 0 \<or> \<not> bit y n"
    using n by (auto simp: bit_simps)
  with assms n show "bit (y AND - y) n \<longleftrightarrow> bit (1 :: u64) n"
    by (cases n) (auto simp: bit_simps bit_0 even_and_iff)
qed

lemma isolate_lowest_bit:
  assumes "x \<noteq> 0"
  shows "x AND - x = push_bit (tz x) 1"
proof -
  let ?y = "drop_bit (tz x) x"
  have odd: "odd ?y"
    using bit_tz [OF assms] by (simp add: bit_iff_odd_drop_bit)
  have x: "x = push_bit (tz x) ?y"
    by (rule bit_word_eqI) (metis bit_push_bit_iff bit_drop_bit_eq comp_apply
        not_bit_below_tz [OF assms] not_le possible_bit_word le_add_diff_inverse)
  have "push_bit (tz x) ?y AND - push_bit (tz x) ?y = push_bit (tz x) (?y AND - ?y)"
    by (simp add: push_bit_minus)
  then show ?thesis
    using odd_and_minus [OF odd] by (simp flip: x)
qed

lemma deBruijn_table:
  assumes "k < 64"
  shows "deBruijn64tab ! unat (shr (push_bit k 1 * deBruijn64) 58) = of_nat k"
proof -
  have "list_all (\<lambda>k. deBruijn64tab ! unat (shr (push_bit k 1 * deBruijn64) 58) = of_nat k) [0..<64]"
    by code_simp
  then show ?thesis using assms by (simp only: list_all_iff) simp
qed

lemma TrailingZeros64_tz: "TrailingZeros64 x = of_nat (tz x)"
proof (cases "x = 0")
  case True
  then show ?thesis by (simp add: TrailingZeros64_def)
next
  case False
  have "TrailingZeros64 x = ucast (of_nat (tz x) :: u8)"
    using False deBruijn_table [OF tz_less [OF False]]
    by (simp add: TrailingZeros64_def isolate_lowest_bit)
  also have "\<dots> = of_nat (tz x)"
    using tz_less [OF False] by (simp add: word_unat_eq_iff unsigned_ucast_eq unat_of_nat take_bit_eq_mod)
  finally show ?thesis .
qed

lemma unat_TrailingZeros64 [simp]: "unat (TrailingZeros64 x) = tz x"
  using tz_le [of x] by (simp add: TrailingZeros64_tz unat_of_nat)

section \<open>Bit length and leading zeros\<close>

lemma len8tab_range: "n < 256 \<Longrightarrow> n < length len8tab"
  by (simp add: len8tab_def)

text \<open>\<open>is_len m b\<close>: the number \<open>m\<close> needs exactly \<open>b\<close> bits.\<close>

definition is_len :: "nat \<Rightarrow> nat \<Rightarrow> bool" where
  "is_len m b \<longleftrightarrow> m < 2 ^ b \<and> (b > 0 \<longrightarrow> 2 ^ (b - 1) \<le> m)"

lemma is_len_tab: "n < 256 \<Longrightarrow> is_len n (unat (len8tab ! n)) \<and> unat (len8tab ! n) \<le> 8"
proof -
  have "list_all (\<lambda>n. is_len n (unat (len8tab ! n)) \<and> unat (len8tab ! n) \<le> 8) [0..<256]"
    by code_simp
  then show "n < 256 \<Longrightarrow> ?thesis" by (simp only: list_all_iff) simp
qed

lemma is_len_shift:
  assumes "is_len (m div 2 ^ s) b" and "2 ^ s \<le> m"
  shows "is_len m (s + b)"
proof -
  have "m div 2 ^ s \<noteq> 0" using assms(2) by (simp add: div_eq_0_iff)
  then have b: "b > 0" using assms(1) by (cases b) (auto simp: is_len_def)
  have "m < 2 ^ s * 2 ^ b"
    using assms(1) by (simp add: is_len_def div_less_iff_less_mult mult.commute)
  moreover have "2 ^ s * 2 ^ (b - 1) \<le> m"
    using assms(1) b by (simp add: is_len_def less_eq_div_iff_mult_less_eq mult.commute)
  moreover have "s + b - 1 = s + (b - 1)" using b by simp
  ultimately show ?thesis by (simp add: is_len_def power_add del: One_nat_def)
qed

lemma unat_shr: "unat (shr x n) = unat x div 2 ^ unat n" for x :: u64
  unfolding shr_def unat_drop_bit_eq by (simp add: drop_bit_eq_div)

lemma unat_pow2: "k < 64 \<Longrightarrow> unat ((2 :: u64) ^ k) = 2 ^ k"
proof -
  have "unat (of_nat (2 ^ k) :: u64) = 2 ^ k" if "k < 64"
    using that power_strict_increasing [of k 64 "2::nat"] by (simp only: unat_of_nat) simp
  then show "k < 64 \<Longrightarrow> ?thesis" by simp
qed

lemma shl_1_le_iff: "unat n < 64 \<Longrightarrow> shl 1 n \<le> x \<longleftrightarrow> 2 ^ unat n \<le> unat x" for x :: u64
  by (simp add: shl_def word_le_nat_alt unat_pow2)

text \<open>One halving step of \<open>Len64\<close>: shift when the upper part is not empty.\<close>

lemma len_step:
  fixes x :: u64
  assumes "(x', n') = (if shl 1 s \<le> x then (shr x s, n + s) else (x, n))"
    and "unat s < 64" and "unat n + unat s < 64" and "unat x < 2 ^ (2 * unat s)"
  shows "unat x' < 2 ^ unat s"
    and "is_len (unat x') b \<Longrightarrow> is_len (unat x) (b + (unat n' - unat n))"
    and "unat n' = unat n \<or> unat n' = unat n + unat s"
proof -
  show "unat x' < 2 ^ unat s"
  proof (cases "shl 1 s \<le> x")
    case True
    then have "x' = shr x s" using assms(1) by simp
    then have "unat x' = unat x div 2 ^ unat s" by (simp only: unat_shr)
    then show ?thesis using assms(4) by (simp add: less_mult_imp_div_less mult_2 power_add)
  next
    case False
    then show ?thesis using assms shl_1_le_iff [of s x] by simp
  qed
  have n: "unat (n + s) = unat n + unat s" using assms(3) by (simp add: unat_word_ariths)
  then show "unat n' = unat n \<or> unat n' = unat n + unat s" using assms by (auto split: if_splits)
  show "is_len (unat x') b \<Longrightarrow> is_len (unat x) (b + (unat n' - unat n))"
    using assms n is_len_shift [of "unat x" "unat s" b]
    by (auto simp: shl_1_le_iff unat_shr add.commute split: if_splits)
qed

lemma is_len_Len64: "is_len (unat x) (unat (Len64 x)) \<and> unat (Len64 x) \<le> 64"
proof -
  obtain x1 n1 where 1: "(x1, n1) = (if shl 1 32 \<le> x then (shr x 32, 0 + 32) else (x, 0 :: u64))"
    by (metis surj_pair)
  obtain x2 n2 where 2: "(x2, n2) = (if shl 1 16 \<le> x1 then (shr x1 16, n1 + 16) else (x1, n1))"
    by (metis surj_pair)
  obtain x3 n3 where 3: "(x3, n3) = (if shl 1 8 \<le> x2 then (shr x2 8, n2 + 8) else (x2, n2))"
    by (metis surj_pair)
  have L: "Len64 x = n3 + ucast (len8tab ! unat x3)"
    by (simp only: Len64_def Let_def 1 [symmetric, simplified add_0] 2 [symmetric] 3 [symmetric] prod.case)
  note s1 = len_step [OF 1] and s2 = len_step [OF 2] and s3 = len_step [OF 3]
  have b1: "unat x1 < 2 ^ 32" "unat n1 = 0 \<or> unat n1 = 32"
    using s1(1,3) unsigned_less [of x] by simp_all
  have b2: "unat x2 < 2 ^ 16" "unat n2 = unat n1 \<or> unat n2 = unat n1 + 16"
    using s2(1,3) b1 by auto
  have b3: "unat x3 < 256" "unat n3 = unat n2 \<or> unat n3 = unat n2 + 8"
    using s3(1,3) b1 b2 by auto
  have t: "is_len (unat x3) (unat (len8tab ! unat x3))" "unat (len8tab ! unat x3) \<le> 8"
    using is_len_tab [OF b3(1)] by auto
  have u: "unat (Len64 x) = unat n3 + unat (len8tab ! unat x3)"
    using t(2) b1 b2 b3 unfolding L by (auto simp: unat_word_ariths unsigned_ucast_eq take_bit_eq_mod)
  have "is_len (unat x2) (unat (len8tab ! unat x3) + (unat n3 - unat n2))"
    using s3(2) [OF _ _ _ t(1)] b1 b2 by auto
  then have "is_len (unat x1) (unat (len8tab ! unat x3) + (unat n3 - unat n2) + (unat n2 - unat n1))"
    using s2(2) b1 by auto
  then have "is_len (unat x) (unat (len8tab ! unat x3) + (unat n3 - unat n2) + (unat n2 - unat n1) + unat n1)"
    using s1(2) unsigned_less [of x] by auto
  moreover have "unat (len8tab ! unat x3) + (unat n3 - unat n2) + (unat n2 - unat n1) + unat n1
      = unat (Len64 x)"
    using u b1 b2 b3 by auto
  ultimately have "is_len (unat x) (unat (Len64 x))" by (simp only:)
  moreover have "unat (Len64 x) \<le> 64" using u t(2) b1 b2 b3 by auto
  ultimately show ?thesis ..
qed

lemma lz_eqI: "bit x k \<Longrightarrow> (\<And>i. k < i \<Longrightarrow> \<not> bit x i) \<Longrightarrow> lz x = 63 - k"
  unfolding lz_def by (rule length_takeWhile_upt) (use bit_imp_le_length [of x k] in auto)

lemma lz_0 [simp]: "lz 0 = 64"
  unfolding lz_def by (rule length_takeWhile_upt) auto

lemma lz_is_len:
  assumes "is_len (unat x) b" and "b \<le> 64"
  shows "lz x = 64 - b"
proof (cases b)
  case 0
  then have "x = 0" using assms by (simp add: is_len_def unat_eq_zero)
  with 0 show ?thesis by simp
next
  case (Suc c)
  then have "unat x div 2 ^ c = 1"
    using assms by (simp add: is_len_def div_nat_eqI)
  then have "bit x c" by (simp flip: bit_unat add: bit_iff_odd)
  moreover have "\<not> bit x i" if "c < i" for i
  proof -
    have "unat x < 2 ^ i"
      using assms(1) Suc that power_increasing [of "Suc c" i "2::nat"] by (simp add: is_len_def)
    then show ?thesis by (simp flip: bit_unat add: bit_iff_odd)
  qed
  ultimately show ?thesis using Suc by (simp add: lz_eqI)
qed

lemma unat_LeadingZeros64 [simp]: "unat (LeadingZeros64 x) = lz x"
  using is_len_Len64 [of x] lz_is_len [of x "unat (Len64 x)"]
  by (simp add: LeadingZeros64_def unat_sub_if' word_le_nat_alt)

lemma lz_nonzero:
  assumes "x \<noteq> 0"
  shows lz_less: "lz x < 64" and bit_lz: "bit x (63 - lz x)"
    and not_bit_above_lz: "63 - lz x < i \<Longrightarrow> \<not> bit x i"
proof -
  have "finite {n. bit x n}" by (rule finite_subset [of _ "{..<64}"]) (auto dest: bit_imp_le_length)
  moreover have "{n. bit x n} \<noteq> {}"
    using bit_tz [OF assms] by auto
  ultimately obtain k where k: "bit x k" "\<And>i. k < i \<Longrightarrow> \<not> bit x i"
    by (metis Max_in Max_ge mem_Collect_eq not_le)
  have "lz x = 63 - k" using k by (rule lz_eqI)
  then show "lz x < 64" "bit x (63 - lz x)" "63 - lz x < i \<Longrightarrow> \<not> bit x i"
    using k bit_imp_le_length [OF k(1)] by auto
qed

lemma lz_le: "lz x \<le> 64"
  using lz_less by (cases "x = 0") (auto simp: less_imp_le)

lemma lz_64_iff: "lz x = 64 \<longleftrightarrow> x = 0"
  using lz_less by (cases "x = 0") fastforce+

section \<open>Population count\<close>

text \<open>
  \<open>fields w n d\<close> is the number whose \<open>n\<close> fields of \<open>w\<close> bits are \<open>d 0, d 1, \<dots>\<close>, lowest first.
\<close>

primrec fields :: "nat \<Rightarrow> nat \<Rightarrow> (nat \<Rightarrow> nat) \<Rightarrow> nat" where
  "fields w 0 d = 0"
| "fields w (Suc n) d = d 0 + 2 ^ w * fields w n (\<lambda>k. d (Suc k))"

lemma fields_add: "fields w n d + fields w n e = fields w n (\<lambda>k. d k + e k)"
  by (induction n arbitrary: d e) (simp_all add: algebra_simps flip: distrib_left)

lemma fields_less: "(\<And>k. d k < 2 ^ w) \<Longrightarrow> fields w n d < 2 ^ (w * n)"
proof (induction n arbitrary: d)
  case (Suc n)
  then have "Suc (fields w n (\<lambda>k. d (Suc k))) \<le> 2 ^ (w * n)" by (simp add: Suc_le_eq)
  then have "2 ^ w * Suc (fields w n (\<lambda>k. d (Suc k))) \<le> 2 ^ w * 2 ^ (w * n)"
    by (rule mult_le_mono2)
  moreover have "d 0 < 2 ^ w" using Suc.prems .
  ultimately show ?case by (simp add: power_add)
qed simp

lemma fields_snoc: "fields w (Suc n) d = fields w n d + 2 ^ (w * n) * d n"
proof (induction n arbitrary: d)
  case (Suc n)
  have "fields w (Suc (Suc n)) d = d 0 + 2 ^ w * fields w (Suc n) (\<lambda>k. d (Suc k))" by simp
  also have "\<dots> = fields w (Suc n) d + 2 ^ (w * Suc n) * d (Suc n)"
    unfolding Suc [of "\<lambda>k. d (Suc k)"] by (simp add: distrib_left power_add)
  finally show ?case .
qed simp

lemma fields_div:
  assumes "d 0 < 2 ^ w" and "d n = 0"
  shows "fields w n d div 2 ^ w = fields w n (\<lambda>k. d (Suc k))"
proof (cases n)
  case (Suc m)
  have "fields w n d div 2 ^ w = fields w m (\<lambda>k. d (Suc k))"
    using assms(1) Suc by simp
  also have "\<dots> = fields w (Suc m) (\<lambda>k. d (Suc k))"
    using assms(2) unfolding fields_snoc by (simp add: Suc)
  finally show ?thesis by (simp only: Suc)
qed simp

lemma bit_low_high:
  fixes a A :: nat
  assumes "a < 2 ^ v"
  shows "bit (a + 2 ^ v * A) i \<longleftrightarrow> (if i < v then bit a i else bit A (i - v))"
proof (cases "i < v")
  case True
  then have v: "2 ^ v = (2::nat) ^ i * (2 * 2 ^ (v - i - 1))"
    by (simp flip: power_add power_Suc)
  have "(a + 2 ^ v * A) div 2 ^ i = a div 2 ^ i + 2 * (2 ^ (v - i - 1) * A)"
    unfolding v by (simp add: mult.assoc)
  with True show ?thesis by (simp add: bit_iff_odd)
next
  case False
  then have i: "2 ^ i = (2::nat) ^ v * 2 ^ (i - v)" by (simp flip: power_add)
  have "(a + 2 ^ v * A) div 2 ^ i = A div 2 ^ (i - v)"
    unfolding i div_mult2_eq using assms by simp
  with False show ?thesis by (simp add: bit_iff_odd)
qed

lemma and_low_high:
  fixes a A :: nat
  assumes "a < 2 ^ v" "c < 2 ^ v"
  shows "(a + 2 ^ v * A) AND (c + 2 ^ v * C) = (a AND c) + 2 ^ v * (A AND C)"
proof -
  have ac: "a AND c < 2 ^ v"
    using assms by (simp flip: take_bit_nat_eq_self_iff)
  show ?thesis
    by (rule bit_eqI) (simp add: bit_and_iff bit_low_high assms ac)
qed

lemma and_low_mask: "n AND (2 ^ w - 1) = n mod 2 ^ w" for n :: nat
  using take_bit_eq_mask [of w n] by (simp add: take_bit_eq_mod mask_eq_exp_minus_1)

lemma fields_and_even:
  assumes "\<And>k. d k < 2 ^ w" and "w > 0"
  shows "fields w (2 * n) d AND fields (2 * w) n (\<lambda>_. 2 ^ w - 1) = fields (2 * w) n (\<lambda>k. d (2 * k))"
  using assms(1)
proof (induction n arbitrary: d)
  case (Suc n)
  let ?r = "fields w (2 * n) (\<lambda>k. d (Suc (Suc k)))" and ?m = "fields (2 * w) n (\<lambda>_. 2 ^ w - 1)"
  have f: "fields w (2 * Suc n) d = (d 0 + 2 ^ w * d 1) + 2 ^ (2 * w) * ?r"
    by (simp add: distrib_left mult.assoc power_add mult_2)
  have m: "fields (2 * w) (Suc n) (\<lambda>_. 2 ^ w - 1) = (2 ^ w - 1) + 2 ^ (2 * w) * ?m"
    by (simp only: fields.simps)
  have "d 0 + 2 ^ w * d 1 < 2 ^ (2 * w)"
    using fields_less [of d w 2] Suc.prems by (simp add: numeral_2_eq_2 mult.commute)
  moreover have "(2 ^ w - 1 :: nat) < 2 ^ (2 * w)"
    using power_increasing [of w "2 * w" "2::nat"] by (auto intro: less_le_trans [of _ "2 ^ w"])
  ultimately have "fields w (2 * Suc n) d AND fields (2 * w) (Suc n) (\<lambda>_. 2 ^ w - 1)
      = ((d 0 + 2 ^ w * d 1) AND (2 ^ w - 1)) + 2 ^ (2 * w) * (?r AND ?m)"
    unfolding f m by (rule and_low_high)
  also have "(d 0 + 2 ^ w * d 1) AND (2 ^ w - 1) = d 0"
    using Suc.prems [of 0] by (simp only: and_low_mask) simp
  also have "?r AND ?m = fields (2 * w) n (\<lambda>k. d (2 * Suc k))"
    using Suc.IH [of "\<lambda>k. d (Suc (Suc k))"] Suc.prems by simp
  finally show ?case by simp
qed simp

lemma sum_pairs: "(\<Sum>k<2 * n. f k) = (\<Sum>k<n. f (2 * k) + f (2 * k + 1))" for f :: "nat \<Rightarrow> nat"
  by (induction n) simp_all

lemma unat_fields: "unat x = fields 1 64 (\<lambda>k. of_bool (bit x k))" for x :: u64
proof -
  have *: "unat x mod 2 ^ n = fields 1 n (\<lambda>k. of_bool (bit x k))" for n
  proof (induction n)
    case (Suc n)
    have "unat x mod 2 ^ Suc n = unat x mod 2 ^ n + 2 ^ n * (unat x div 2 ^ n mod 2)"
      by (simp only: power_Suc2 mod_mult2_eq add.commute)
    also have "unat x div 2 ^ n mod 2 = of_bool (bit x n)"
      by (simp add: mod_2_eq_odd bit_unat flip: bit_iff_odd)
    finally show ?case by (simp only: Suc fields_snoc) simp
  qed simp
  have "unat x < 2 ^ LENGTH(64)" by (rule unsigned_less)
  then have "unat x mod 2 ^ 64 = unat x" by simp
  then show ?thesis using * [of 64] by simp
qed

lemma unat_and: "unat (x AND y) = unat x AND unat y" for x y :: u64
  by (rule bit_eqI) (simp add: bit_and_iff bit_unat)

lemma fields_const: "(2 ^ w - 1) * fields w n (\<lambda>_. c) + c = c * 2 ^ (w * n)"
proof (induction n)
  case (Suc n)
  obtain q where q: "(2::nat) ^ w = Suc q" by (metis Suc_pred' zero_less_power zero_less_numeral)
  have "(2 ^ w - 1) * fields w (Suc n) (\<lambda>_. c) + c = 2 ^ w * ((2 ^ w - 1) * fields w n (\<lambda>_. c) + c)"
    by (simp add: q algebra_simps)
  then show ?case unfolding Suc by (simp add: power_add algebra_simps)
qed simp

lemma mask_fields:
  "unat m0 = fields 2 32 (\<lambda>_. 1)" "unat m1 = fields 4 16 (\<lambda>_. 3)" "unat m2 = fields 8 8 (\<lambda>_. 15)"
  unfolding m0_def m1_def m2_def
  using fields_const [of 2 32 1] fields_const [of 4 16 3] fields_const [of 8 8 15] by simp_all


lemma unat_shr_fields:
  fixes x :: u64
  assumes "unat x = fields w n d" and "\<And>k. d k < 2 ^ w" and "\<And>k. n \<le> k \<Longrightarrow> d k = 0"
    and "unat s = w * j"
  shows "unat (shr x s) = fields w n (\<lambda>k. d (k + j))"
proof -
  have "fields w n d div 2 ^ (w * j) = fields w n (\<lambda>k. d (k + j))" for j
  proof (induction j)
    case (Suc j)
    have "fields w n d div 2 ^ (w * Suc j) = fields w n d div 2 ^ (w * j) div 2 ^ w"
      by (simp only: mult_Suc_right power_add div_mult2_eq add.commute [of w])
    also have "\<dots> = fields w n (\<lambda>k. d (k + Suc j))"
      unfolding Suc by (subst fields_div) (use assms(2,3) in auto)
    finally show ?case .
  qed simp
  then show ?thesis using assms(1,4) by (simp add: unat_shr)
qed

lemma halve_fields:
  fixes x :: u64
  assumes x: "unat x = fields w (2 * n) d" and d: "\<And>k. d k < 2 ^ w" "\<And>k. 2 * n \<le> k \<Longrightarrow> d k = 0"
    and m: "unat m = fields (2 * w) n (\<lambda>_. 2 ^ w - 1)" and "unat s = w" "w > 0" "2 * w * n \<le> 64"
  shows "unat ((shr x s AND m) + (x AND m)) = fields (2 * w) n (\<lambda>k. d (2 * k) + d (2 * k + 1))"
proof -
  note dw = d(1)
  have "unat (shr x s) = fields w (2 * n) (\<lambda>k. d (k + 1))"
    by (rule unat_shr_fields) (use assms dw in auto)
  then have 1: "unat (shr x s AND m) = fields (2 * w) n (\<lambda>k. d (2 * k + 1))"
    using fields_and_even [of "\<lambda>k. d (k + 1)" w n] dw assms by (simp add: unat_and)
  have 2: "unat (x AND m) = fields (2 * w) n (\<lambda>k. d (2 * k))"
    using fields_and_even [of d w n] dw assms by (simp add: unat_and)
  have "d (2 * k) + d (2 * k + 1) < 2 ^ (2 * w)" for k
    using d(1) [of "2 * k"] d(1) [of "2 * k + 1"] power_increasing [of "w + 1" "2 * w" "2::nat"] assms(6)
    by simp
  then have "fields (2 * w) n (\<lambda>k. d (2 * k) + d (2 * k + 1)) < 2 ^ (2 * w * n)"
    by (rule fields_less)
  also have "\<dots> \<le> 2 ^ 64" using assms(7) by (intro power_increasing) auto
  finally have "unat (shr x s AND m) + unat (x AND m) < 2 ^ 64"
    by (simp add: 1 2 fields_add add.commute)
  then show ?thesis by (simp only: unat_add_noov 1 2 fields_add add.commute)
qed

lemma add_shr_fields:
  fixes x :: u64
  assumes x: "unat x = fields w n d" and d: "\<And>k. d k \<le> c" "\<And>k. n \<le> k \<Longrightarrow> d k = 0"
    and "unat s = w * j" "2 * c < 2 ^ w" "w * n \<le> 64"
  shows "unat (x + shr x s) = fields w n (\<lambda>k. d k + d (k + j))"
proof -
  have dw: "d k < 2 ^ w" for k using d(1) [of k] assms(5) by simp
  have 1: "unat (shr x s) = fields w n (\<lambda>k. d (k + j))"
    by (rule unat_shr_fields) (use assms dw in auto)
  have "d k + d (k + j) < 2 ^ w" for k using d(1) [of k] d(1) [of "k + j"] assms(5) by simp
  then have "fields w n (\<lambda>k. d k + d (k + j)) < 2 ^ (w * n)" by (rule fields_less)
  also have "\<dots> \<le> 2 ^ 64" using assms(6) by (intro power_increasing) auto
  finally show ?thesis by (simp add: unat_add_noov x 1 fields_add)
qed

lemma fields_mod:
  assumes "v \<le> w"
  shows "fields w (Suc n) d mod 2 ^ v = d 0 mod 2 ^ v"
proof -
  have "2 ^ w = (2::nat) ^ v * 2 ^ (w - v)" using assms by (simp flip: power_add)
  then show ?thesis by (simp add: mult.assoc)
qed

lemma length_filter_upt: "length (filter P [0..<n]) = (\<Sum>k<n. of_bool (P k))"
  by (induction n) simp_all

text \<open>The first three steps leave, in each byte, the number of ones of that byte.\<close>

lemma byte_counts:
  fixes x :: u64
  defines "x1 \<equiv> (shr x 1 AND m0) + (x AND m0)"
  defines "x2 \<equiv> (shr x1 2 AND m1) + (x1 AND m1)"
  obtains e where "unat ((shr x2 4 + x2) AND m2) = fields 8 8 e" and "\<And>k. e k \<le> 8"
    and "\<And>k. 8 \<le> k \<Longrightarrow> e k = 0" and "(\<Sum>k<8. e k) = popcount x"
proof -
  define d where "d k = (of_bool (bit x k) :: nat)" for k
  define d1 where "d1 k = d (2 * k) + d (2 * k + 1)" for k
  define d2 where "d2 k = d1 (2 * k) + d1 (2 * k + 1)" for k
  define e where "e k = d2 (2 * k) + d2 (2 * k + 1)" for k
  have dz: "d k = 0" if "64 \<le> k" for k using that by (auto simp: d_def dest: bit_imp_le_length)
  have du: "d k \<le> 1" for k by (simp add: d_def)
  have d1: "d1 k \<le> 2" "32 \<le> k \<Longrightarrow> d1 k = 0" for k
    using du [of "2 * k"] du [of "2 * k + 1"] by (auto simp: d1_def dz)
  have d1': "d1 k < 4" for k using d1(1) [of k] by simp
  have d2: "d2 k \<le> 4" "16 \<le> k \<Longrightarrow> d2 k = 0" for k
    using d1(1) [of "2 * k"] d1(1) [of "2 * k + 1"] by (auto simp: d2_def d1(2))
  have e: "e k \<le> 8" "8 \<le> k \<Longrightarrow> e k = 0" for k
    using d2(1) [of "2 * k"] d2(1) [of "2 * k + 1"] by (auto simp: e_def d2(2))
  have f0: "unat x = fields 1 (2 * 32) d" using unat_fields [of x] by (simp add: d_def [abs_def])
  have f1: "unat x1 = fields 2 (2 * 16) d1"
    unfolding x1_def d1_def [abs_def]
    using halve_fields [OF f0, of m0 1] du dz by (simp add: mask_fields le_imp_less_Suc numeral_2_eq_2)
  have f2: "unat x2 = fields 4 (2 * 8) d2"
    unfolding x2_def d2_def [abs_def]
    using halve_fields [OF f1, of m1 2] d1 d1' by (simp add: mask_fields)
  have "unat (x2 + shr x2 4) = fields 4 (2 * 8) (\<lambda>k. d2 k + d2 (k + 1))"
    by (rule add_shr_fields [OF f2 d2(1)]) (use d2 in auto)
  moreover have "d2 k + d2 (k + 1) < 2 ^ 4" for k using d2(1) [of k] d2(1) [of "k + 1"] by simp
  ultimately have f3: "unat ((shr x2 4 + x2) AND m2) = fields 8 8 e"
    using fields_and_even [of "\<lambda>k. d2 k + d2 (k + 1)" 4 8]
    by (simp add: unat_and mask_fields add.commute [of "shr x2 4"] e_def [abs_def])
  have "popcount x = (\<Sum>k<64. d k)"
    unfolding popcount_def d_def by (simp add: length_filter_upt)
  then have "(\<Sum>k<8. e k) = popcount x"
    using sum_pairs [of d 32] sum_pairs [of d1 16] sum_pairs [of d2 8]
    by (simp add: d1_def d2_def e_def)
  with f3 e show thesis by (rule that)
qed

text \<open>The last three steps add up the bytes in the lowest one.\<close>

lemma fold_bytes:
  fixes x3 :: u64
  assumes f3: "unat x3 = fields 8 8 e" and e: "\<And>k. e k \<le> 8" "\<And>k. 8 \<le> k \<Longrightarrow> e k = 0"
  defines "x4 \<equiv> x3 + shr x3 8"
  defines "x5 \<equiv> x4 + shr x4 16"
  shows "unat ((x5 + shr x5 32) AND 127) = (\<Sum>k<8. e k)"
proof -
  have f4: "unat x4 = fields 8 8 (\<lambda>k. e k + e (k + 1))"
    unfolding x4_def by (rule add_shr_fields [OF f3 e(1)]) (use e in auto)
  have b4: "e k + e (k + 1) \<le> 16" for k using e(1) [of k] e(1) [of "k + 1"] by simp
  have f5: "unat x5 = fields 8 8 (\<lambda>k. (e k + e (k + 1)) + (e (k + 2) + e (k + 2 + 1)))"
    unfolding x5_def by (rule add_shr_fields [OF f4 b4]) (use e in auto)
  have b5: "(e k + e (k + 1)) + (e (k + 2) + e (k + 2 + 1)) \<le> 32" for k
    using b4 [of k] b4 [of "k + 2"] by simp
  have f6: "unat (x5 + shr x5 32) = fields 8 8 (\<lambda>k. ((e k + e (k + 1)) + (e (k + 2) + e (k + 2 + 1)))
      + ((e (k + 4) + e (k + 4 + 1)) + (e (k + 4 + 2) + e (k + 4 + 2 + 1))))"
    by (rule add_shr_fields [OF f5 b5]) (use e in auto)
  have E: "(\<Sum>k<8. e k) = e 0 + e 1 + e 2 + e 3 + e 4 + e 5 + e 6 + e 7"
    by (simp add: numeral_eq_Suc)
  have le: "(\<Sum>k<8. e k) \<le> 64"
    using sum_bounded_above [of "{..<8::nat}" e 8] e(1) by simp
  have "unat ((x5 + shr x5 32) AND 127) = unat (x5 + shr x5 32) mod 2 ^ 7"
    using and_low_mask [of "unat (x5 + shr x5 32)" 7] by (simp add: unat_and)
  also have "\<dots> = (\<Sum>k<8. e k) mod 2 ^ 7"
    unfolding f6 E using fields_mod [of 7 8 7] by (simp add: numeral_2_eq_2 numeral_3_eq_3 add.assoc)
  finally show ?thesis using le by simp
qed

lemma unat_OnesCount64 [simp]: "unat (OnesCount64 x) = popcount x"
  by (rule byte_counts [of x]) (simp add: OnesCount64_def Let_def shl_def fold_bytes)

section \<open>Alignment\<close>

lemma and_not_mask_unat: "unat (andnot x (2 ^ k - 1)) = unat x div 2 ^ k * 2 ^ k" for x :: u64
proof -
  have "andnot x (2 ^ k - 1) = push_bit k (drop_bit k x)"
    by (rule bit_word_eqI) (auto simp: bit_simps simp flip: mask_eq_exp_minus_1)
  also have "\<dots> = x - take_bit k x" by (metis add_diff_cancel_left' bits_ident add.commute)
  finally have "andnot x (2 ^ k - 1) = x - take_bit k x" .
  moreover have "unat (take_bit k x) = unat x mod 2 ^ k"
    using unsigned_take_bit_eq [of k x] by (simp add: take_bit_eq_mod)
  ultimately have "unat (andnot x (2 ^ k - 1)) = unat x - unat x mod 2 ^ k"
    by (simp add: unat_sub_if')
  then show ?thesis by (simp add: minus_mod_eq_div_mult)
qed

section \<open>Properties\<close>

text \<open>
  \<open>TrailingZeros64\<close> returns the index of the lowest set bit, and 64 for zero, although it is a
  multiplication with a de Bruijn constant and one table lookup.
\<close>

lemma TrailingZeros64_correct:
  "if x = 0 then TrailingZeros64 x = 64
   else bit x (unat (TrailingZeros64 x)) \<and> {i. bit x i \<and> i < unat (TrailingZeros64 x)} = {}"
  using bit_tz [of x] not_bit_below [of _ x] tz_64_iff [of x] by (auto simp: word_unat_eq_iff)

text \<open>
  \<open>Len64\<close> returns the length of the binary representation, and \<open>LeadingZeros64\<close> the number of
  zero bits above it.
\<close>

lemma Len64_correct:
  "is_len (unat x) (unat (Len64 x)) \<and> unat (Len64 x) + unat (LeadingZeros64 x) = 64"
  using is_len_Len64 [of x] by (simp add: LeadingZeros64_def unat_sub_if' word_le_nat_alt)

text \<open>
  \<open>OnesCount64\<close>, which adds up the bits in parallel in ever wider fields, returns the number of
  set bits.
\<close>

lemma OnesCount64_correct: "unat (OnesCount64 x) = card {i. bit x i}"
proof -
  have "{i. bit x i} = set (filter (bit x) [0..<64])" using bit_imp_le_length [of x] by auto
  then have "card {i. bit x i} = length (filter (bit x) [0..<64])" by (simp only: distinct_card distinct_filter distinct_upt)
  then show ?thesis by (simp add: popcount_def)
qed

text \<open>
  \<open>alignUp\<close> and \<open>alignDown\<close> round to a multiple of a power of two, up and down; rounding up has
  to stay below \<open>2\<^sup>6\<^sup>4\<close>.
\<close>

lemma align_correct:
  assumes "a = 2 ^ k" and "k < 64" and "unat n + (2 ^ k - 1) < 2 ^ 64"
  shows "unat (alignDown n a) = unat n div 2 ^ k * 2 ^ k \<and>
    unat (alignUp n a) = (unat n + 2 ^ k - 1) div 2 ^ k * 2 ^ k"
proof -
  have a: "unat (2 ^ k :: u64) = 2 ^ k" using assms(2) by (rule unat_pow2)
  then have "unat (2 ^ k - 1 :: u64) = 2 ^ k - 1" by (simp add: unat_sub_if' word_le_nat_alt)
  then have "unat (n + 2 ^ k - 1) = unat n + (2 ^ k - 1)"
    using unat_add_noov [of n "2 ^ k - 1"] assms(3) by (simp add: add_diff_eq)
  then show ?thesis unfolding alignUp_def alignDown_def assms(1) and_not_mask_unat by simp
qed

end
