(* ===== verification/PallocBits.thy ===== *)
theory PallocBits
  imports BitOps
begin

unbundle bit_operations_syntax

text \<open>
  The page bitmap of one chunk, \<open>src/memory_and_heap/mpallocbits.go\<close>. A \<open>pageBits\<close> is an
  array of eight \<open>uint64\<close>, one bit per page, \<open>1\<close> for an allocated page; it is modelled by the
  list of its words, with bounds checks written out. Loops of the form
  \<open>for i := lo; i < len(b); i++\<close> that only read \<open>b\<close> recurse over the suffix \<open>drop lo b\<close>
  together with the running index.

  The theory of the searches and of the summary is in \<open>PallocFind\<close> and \<open>PallocSummary\<close>; here are
  the definitions, the effect of the range updates and the population count of a range.
\<close>

section \<open>The source\<close>

type_synonym pageBits = "u64 list"
type_synonym pallocBits = pageBits

definition pageBits_get :: "pageBits \<Rightarrow> u64 \<Rightarrow> u64 res" where
  "pageBits_get b i =
     go_bind (slice_get b (i div 64)) (\<lambda>x. Inr (shr x (i mod 64) AND 1))"

definition pageBits_block64 :: "pageBits \<Rightarrow> u64 \<Rightarrow> u64 res" where
  "pageBits_block64 b i = slice_get b (i div 64)"

text \<open>\<open>b[k] = f(b[k])\<close>, the shape of every in-place update.\<close>

definition word_upd :: "pageBits \<Rightarrow> u64 \<Rightarrow> (u64 \<Rightarrow> u64) \<Rightarrow> pageBits res" where
  "word_upd b k f = go_bind (slice_get b k) (\<lambda>x. slice_set b k (f x))"

definition pageBits_set :: "pageBits \<Rightarrow> u64 \<Rightarrow> pageBits res" where
  "pageBits_set b i = word_upd b (i div 64) (\<lambda>x. x OR shl 1 (i mod 64))"

definition pageBits_setRange :: "pageBits \<Rightarrow> u64 \<Rightarrow> u64 \<Rightarrow> pageBits res" where
  "pageBits_setRange b i n =
     go_bind (slice_get b (i div 64)) (\<lambda>_.
       if n = 1 then pageBits_set b i
       else let j = i + n - 1 in
         go_bind (if i div 64 = j div 64
                  then word_upd b (i div 64) (\<lambda>x. x OR shl (shl 1 n - 1) (i mod 64))
                  else Inr b) (\<lambda>b.
         go_bind (slice_get b (j div 64)) (\<lambda>_.
         go_bind (slice_set b (i div 64) (shl (NOT 0) (i mod 64))) (\<lambda>b.
         go_bind (go_for (i div 64 + 1) (j div 64) (\<lambda>k b. slice_set b k (NOT 0)) b) (\<lambda>b.
         slice_set b (j div 64) (shl 1 (j mod 64 + 1) - 1))))))"

definition pageBits_setAll :: "pageBits \<Rightarrow> pageBits" where
  "pageBits_setAll b = map (\<lambda>_. NOT 0) b"

definition pageBits_setBlock64 :: "pageBits \<Rightarrow> u64 \<Rightarrow> u64 \<Rightarrow> pageBits res" where
  "pageBits_setBlock64 b i v = word_upd b (i div 64) (\<lambda>x. x OR v)"

definition pageBits_clear :: "pageBits \<Rightarrow> u64 \<Rightarrow> pageBits res" where
  "pageBits_clear b i = word_upd b (i div 64) (\<lambda>x. andnot x (shl 1 (i mod 64)))"

definition pageBits_clearRange :: "pageBits \<Rightarrow> u64 \<Rightarrow> u64 \<Rightarrow> pageBits res" where
  "pageBits_clearRange b i n =
     go_bind (slice_get b (i div 64)) (\<lambda>_.
       if n = 1 then pageBits_clear b i
       else let j = i + n - 1 in
         if i div 64 = j div 64
         then word_upd b (i div 64) (\<lambda>x. andnot x (shl (shl 1 n - 1) (i mod 64)))
         else
           go_bind (slice_get b (j div 64)) (\<lambda>_.
           go_bind (word_upd b (i div 64) (\<lambda>x. andnot x (shl (NOT 0) (i mod 64)))) (\<lambda>b.
           go_bind (go_for (i + 1) (j div 64) (\<lambda>k b. slice_set b k 0) b) (\<lambda>b.
           word_upd b (j div 64) (\<lambda>x. andnot x (shl 1 (j mod 64 + 1) - 1))))))"

definition pageBits_clearAll :: "pageBits \<Rightarrow> pageBits" where
  "pageBits_clearAll b = map (\<lambda>_. 0) b"

definition pageBits_clearBlock64 :: "pageBits \<Rightarrow> u64 \<Rightarrow> u64 \<Rightarrow> pageBits res" where
  "pageBits_clearBlock64 b i v = word_upd b (i div 64) (\<lambda>x. andnot x v)"

definition pageBits_popcntRange :: "pageBits \<Rightarrow> u64 \<Rightarrow> u64 \<Rightarrow> u64 res" where
  "pageBits_popcntRange b i n =
     (if n = 1
      then if i = 0 then Inl DividePanic
           else go_bind (slice_get b (64 div i)) (\<lambda>x. Inr (shr x (i mod 64) AND 1))
      else go_bind (slice_get b (i div 64)) (\<lambda>bi.
        let j = i + n - 1 in
        if i div 64 = j div 64
        then Inr (OnesCount64 (shr bi (i mod 64) AND (shl 1 n - 1)))
        else
          go_bind (slice_get b (j div 64)) (\<lambda>bj.
          go_bind (go_for (i div 64 + 1) (j div 64)
                     (\<lambda>k s. go_bind (slice_get b k) (\<lambda>x. Inr (s + OnesCount64 x)))
                     (OnesCount64 (shr bi (i mod 64)))) (\<lambda>s.
          Inr (s + OnesCount64 (bj AND (shl 1 (j mod 64 + 1) - 1)))))))"

text \<open>\<open>findBitRange64\<close>: the loop removes \<open>p\<close> ones from the top of every run.\<close>

partial_function (option) findBitRange64_loop :: "u64 \<Rightarrow> u64 \<Rightarrow> u64 \<Rightarrow> u64 option" where
  "findBitRange64_loop c p k =
     (if p > 0
      then if p \<le> k
           then Some (TrailingZeros64 (c AND shr c (p AND 63)))
           else let c' = c AND shr c (k AND 63) in
                if c' = 0 then Some 64
                else findBitRange64_loop c' (p - k) (k * 2)
      else Some (TrailingZeros64 c))"

declare findBitRange64_loop.simps [code]

definition findBitRange64 :: "u64 \<Rightarrow> u64 \<Rightarrow> u64 option" where
  "findBitRange64 c n = findBitRange64_loop c (n - 1) 1"

text \<open>The searches. The value \<open>^uint(0)\<close> stands for failure.\<close>

abbreviation noIdx :: u64 where "noIdx \<equiv> NOT 0"

fun find1_loop :: "u64 \<Rightarrow> u64 list \<Rightarrow> u64" where
  "find1_loop i [] = noIdx"
| "find1_loop i (x # xs) =
     (if NOT x = 0 then find1_loop (i + 1) xs
      else i * 64 + TrailingZeros64 (NOT x))"

definition find1 :: "pallocBits \<Rightarrow> u64 \<Rightarrow> u64" where
  "find1 b searchIdx =
     find1_loop (searchIdx div 64) (drop (unat (searchIdx div 64)) b)"

fun findSmallN_loop ::
  "u64 \<Rightarrow> u64 \<Rightarrow> u64 \<Rightarrow> u64 list \<Rightarrow> u64 \<Rightarrow> u64 \<Rightarrow> (u64 \<times> u64) option" where
  "findSmallN_loop npages searchIdx i [] end newSearchIdx = Some (noIdx, newSearchIdx)"
| "findSmallN_loop npages searchIdx i (bi # bs) end newSearchIdx =
     (if NOT bi = 0 then findSmallN_loop npages searchIdx (i + 1) bs 0 newSearchIdx
      else
        let newSearchIdx = (if newSearchIdx = noIdx then i * 64 + TrailingZeros64 (NOT bi)
                            else newSearchIdx);
            start = TrailingZeros64 bi
        in if end + start \<ge> npages then Some (i * 64 - end, newSearchIdx)
           else (case findBitRange64 (NOT bi) npages of
                   None \<Rightarrow> None
                 | Some j \<Rightarrow>
                     if j < 64 then Some (i * 64 + j, searchIdx)
                     else findSmallN_loop npages searchIdx (i + 1) bs (LeadingZeros64 bi) newSearchIdx))"

definition findSmallN :: "pallocBits \<Rightarrow> u64 \<Rightarrow> u64 \<Rightarrow> (u64 \<times> u64) option" where
  "findSmallN b npages searchIdx =
     findSmallN_loop npages searchIdx (searchIdx div 64) (drop (unat (searchIdx div 64)) b) 0 noIdx"

fun findLargeN_loop ::
  "u64 \<Rightarrow> u64 \<Rightarrow> u64 list \<Rightarrow> u64 \<Rightarrow> u64 \<Rightarrow> u64 \<Rightarrow> u64 \<times> u64" where
  "findLargeN_loop npages i [] start sz newSearchIdx =
     (if sz < npages then (noIdx, newSearchIdx) else (start, newSearchIdx))"
| "findLargeN_loop npages i (x # xs) start sz newSearchIdx =
     (if x = NOT 0 then findLargeN_loop npages (i + 1) xs start 0 newSearchIdx
      else
        let newSearchIdx = (if newSearchIdx = noIdx then i * 64 + TrailingZeros64 (NOT x)
                            else newSearchIdx)
        in if sz = 0
           then let sz = LeadingZeros64 x
                in findLargeN_loop npages (i + 1) xs (i * 64 + 64 - sz) sz newSearchIdx
           else let s = TrailingZeros64 x
                in if s + sz \<ge> npages then (start, newSearchIdx)
                   else if s < 64
                   then let sz = LeadingZeros64 x
                        in findLargeN_loop npages (i + 1) xs (i * 64 + 64 - sz) sz newSearchIdx
                   else findLargeN_loop npages (i + 1) xs start (sz + 64) newSearchIdx)"

definition findLargeN :: "pallocBits \<Rightarrow> u64 \<Rightarrow> u64 \<Rightarrow> u64 \<times> u64" where
  "findLargeN b npages searchIdx =
     findLargeN_loop npages (searchIdx div 64) (drop (unat (searchIdx div 64)) b) noIdx 0 noIdx"

definition pallocBits_find :: "pallocBits \<Rightarrow> u64 \<Rightarrow> u64 \<Rightarrow> (u64 \<times> u64) option" where
  "pallocBits_find b npages searchIdx =
     (if npages = 1 then let addr = find1 b searchIdx in Some (addr, addr)
      else if npages \<le> 64 then findSmallN b npages searchIdx
      else Some (findLargeN b npages searchIdx))"

definition pallocBits_allocRange :: "pallocBits \<Rightarrow> u64 \<Rightarrow> u64 \<Rightarrow> pallocBits res" where
  "pallocBits_allocRange b i n = pageBits_setRange b i n"

definition pallocBits_allocAll :: "pallocBits \<Rightarrow> pallocBits" where
  "pallocBits_allocAll b = pageBits_setAll b"

definition pages64 :: "pallocBits \<Rightarrow> u64 \<Rightarrow> u64 res" where
  "pages64 b i = pageBits_block64 b i"

definition allocPages64 :: "pallocBits \<Rightarrow> u64 \<Rightarrow> u64 \<Rightarrow> pallocBits res" where
  "allocPages64 b i alloc = pageBits_setBlock64 b i alloc"

record pallocData =
  pd_bits :: pallocBits
  pd_scavenged :: pageBits

definition pallocData_allocRange :: "pallocData \<Rightarrow> u64 \<Rightarrow> u64 \<Rightarrow> pallocData res" where
  "pallocData_allocRange m i n =
     go_bind (pallocBits_allocRange (pd_bits m) i n) (\<lambda>b. Inr (m\<lparr>pd_bits := b\<rparr>))"

definition pallocData_allocAll :: "pallocData \<Rightarrow> pallocData" where
  "pallocData_allocAll m = m\<lparr>pd_bits := pallocBits_allocAll (pd_bits m)\<rparr>"

section \<open>The pages of a bitmap\<close>

text \<open>\<open>pbit b p\<close>: page \<open>p\<close> is allocated. A chunk has eight words, 512 pages.\<close>

definition pbit :: "pageBits \<Rightarrow> nat \<Rightarrow> bool" where
  "pbit b p \<longleftrightarrow> bit (b ! (p div 64)) (p mod 64)"

abbreviation chunk_bits :: "pageBits \<Rightarrow> bool" where
  "chunk_bits b \<equiv> length b = 8"

lemma unat_div_mod_64 [word_nat, simp]:
  "unat (i div 64) = unat i div 64" "unat (i mod 64) = unat i mod 64" for i :: u64
  by (simp_all add: unat_div unat_mod)

lemma bit_low_ones [bit_simps]: "bit (shl 1 n - 1 :: 'a::len word) k \<longleftrightarrow> k < LENGTH('a) \<and> k < unat n"
proof -
  have "shl 1 n - 1 = (mask (unat n) :: 'a word)"
    by (simp add: shl_def mask_eq_exp_minus_1)
  then show ?thesis by (auto simp: bit_mask_iff possible_bit_def)
qed

lemma word_upd_Inr: "unat k < length b \<Longrightarrow> word_upd b k f = Inr (b[unat k := f (b ! unat k)])"
  by (simp add: word_upd_def)

lemma pbit_list_update:
  assumes "chunk_bits b" and "k < 8" and "p < 512"
  shows "pbit (b[k := x]) p \<longleftrightarrow> (if p div 64 = k then bit x (p mod 64) else pbit b p)"
  using assms by (auto simp: pbit_def nth_list_update)

text \<open>The loop that stores one value in a range of words.\<close>

lemma go_for_fill:
  assumes "unat hi \<le> length b"
  shows "\<exists>b'. go_for lo hi (\<lambda>k b. slice_set b k v) b = Inr b' \<and> length b' = length b \<and>
    (\<forall>k<length b. b' ! k = (if unat lo \<le> k \<and> k < unat hi then v else b ! k))"
  using assms
proof (induction "unat hi - unat lo" arbitrary: lo b)
  case 0
  then have "\<not> lo < hi" by (simp add: word_less_nat_alt)
  then show ?case by (subst go_for.simps) (use 0 in auto)
next
  case (Suc m)
  then have lt: "lo < hi" by (simp add: word_less_nat_alt)
  then have lo: "unat lo < unat hi" and inc: "unat (lo + 1) = Suc (unat lo)"
    by (simp_all add: word_less_nat_alt unat_inc_below)
  have "\<exists>b'. go_for (lo + 1) hi (\<lambda>k b. slice_set b k v) (b[unat lo := v]) = Inr b' \<and>
      length b' = length (b[unat lo := v]) \<and> (\<forall>k<length (b[unat lo := v]).
        b' ! k = (if unat (lo + 1) \<le> k \<and> k < unat hi then v else b[unat lo := v] ! k))"
    by (rule Suc.hyps) (use Suc inc in auto)
  then show ?case
    using lt lo Suc.prems by (subst go_for.simps) (auto simp: inc nth_list_update)
qed

section \<open>Setting and clearing ranges\<close>

text \<open>The page range \<open>[i, i+n)\<close>, written as the inclusive \<open>[i, j]\<close> the code uses.\<close>

lemma range_last:
  fixes i n :: u64
  assumes "1 \<le> unat n" and "unat i + unat n \<le> 512"
  shows "unat (i + n - 1) = unat i + unat n - 1" "unat i < 512" "unat (i + n - 1) < 512"
proof -
  have "unat (i + n) = unat i + unat n" using assms by (simp add: unat_word_ariths)
  moreover have "i + n \<noteq> 0" using assms calculation by (metis unat_0 add_is_0 not_one_le_zero)
  ultimately show 1: "unat (i + n - 1) = unat i + unat n - 1" by (simp add: unat_minus_one)
  show "unat i < 512" "unat (i + n - 1) < 512" using assms 1 by auto
qed

lemma unat_mod64_Suc: "unat (j mod 64 + 1) = Suc (unat j mod 64)" for j :: u64
  by (simp add: unat_word_ariths)

text \<open>Positions inside one word compare by their offsets.\<close>

lemma same_word:
  fixes p q :: nat
  assumes "p div 64 = q div 64"
  shows same_word_eq: "p mod 64 = q mod 64 \<longleftrightarrow> p = q"
    and same_word_le: "p mod 64 \<le> q mod 64 \<longleftrightarrow> p \<le> q"
    and same_word_less: "p mod 64 < q mod 64 \<longleftrightarrow> p < q"
proof -
  have "p = 64 * (q div 64) + p mod 64" "q = 64 * (q div 64) + q mod 64"
    using assms mult_div_mod_eq [of 64 p] mult_div_mod_eq [of 64 q] by simp_all
  then show "p mod 64 = q mod 64 \<longleftrightarrow> p = q" "p mod 64 \<le> q mod 64 \<longleftrightarrow> p \<le> q"
    "p mod 64 < q mod 64 \<longleftrightarrow> p < q"
    by linarith+
qed

lemma word_lt: "q div 64 < p div 64 \<Longrightarrow> q < p" for p q :: nat
  by (metis div_le_mono not_le)

lemma setRange_one:
  assumes "chunk_bits b" and "unat i < 512"
  shows "\<exists>b'. pageBits_setRange b i 1 = Inr b' \<and> chunk_bits b' \<and>
    (\<forall>p<512. pbit b' p \<longleftrightarrow> p = unat i \<or> pbit b p)"
  using assms
  by (auto simp: pageBits_setRange_def pageBits_set_def word_upd_Inr pbit_list_update bit_simps)
    (auto simp: pbit_def dest!: same_word_eq [of _ "unat i", THEN iffD1])

lemma setRange_single:
  assumes b: "chunk_bits b" and "2 \<le> unat n" and n: "unat i + unat n \<le> 512"
    and w: "i div 64 = (i + n - 1) div 64"
  shows "\<exists>b'. pageBits_setRange b i n = Inr b' \<and> chunk_bits b' \<and>
    (\<forall>p<512. pbit b' p \<longleftrightarrow>
      (if p div 64 = unat i div 64 then p < unat i + unat n else pbit b p))"
proof -
  define j where "j = i + n - 1"
  have j: "unat j = unat i + unat n - 1" "unat i < 512" "unat j < 512"
    using range_last [of n i] assms by (auto simp: j_def)
  have n1: "n \<noteq> 1" using assms(2) by auto
  have w': "unat j div 64 = unat i div 64" using w by (metis j_def unat_div_mod_64(1))
  have nl: "\<not> i div 64 + 1 < j div 64"
    using w' j by (simp add: word_less_nat_alt unat_word_ariths)
  have "pageBits_setRange b i n = Inr (b[unat i div 64 := shl 1 (j mod 64 + 1) - 1])"
    unfolding pageBits_setRange_def Let_def j_def [symmetric]
    using b n1 j w w' nl by (subst go_for.simps) (simp add: word_upd_Inr flip: j_def)
  moreover have "p mod 64 < Suc (unat j mod 64) \<longleftrightarrow> p < unat i + unat n"
    if "p div 64 = unat i div 64" for p
  proof -
    have "p mod 64 \<le> unat j mod 64 \<longleftrightarrow> p \<le> unat j"
      using that w' by (simp add: same_word_le)
    then show ?thesis using j(1) assms(2) by linarith
  qed
  ultimately show ?thesis
    using b j by (auto simp: pbit_list_update bit_simps unat_mod64_Suc)
qed

lemma setRange_multi:
  assumes b: "chunk_bits b" and "2 \<le> unat n" and n: "unat i + unat n \<le> 512"
    and w: "i div 64 \<noteq> (i + n - 1) div 64"
  shows "\<exists>b'. pageBits_setRange b i n = Inr b' \<and> chunk_bits b' \<and>
    (\<forall>p<512. pbit b' p \<longleftrightarrow>
      (if p div 64 < unat i div 64 \<or> (unat i + unat n - 1) div 64 < p div 64 then pbit b p
       else unat i \<le> p \<and> p < unat i + unat n))"
proof -
  define j where "j = i + n - 1"
  have j: "unat j = unat i + unat n - 1" "unat i < 512" "unat j < 512"
    using range_last [of n i] assms by (auto simp: j_def)
  have n1: "n \<noteq> 1" using assms(2) by auto
  have "unat i div 64 \<noteq> unat j div 64"
    using w by (metis j_def unat_div_mod_64(1) word_unat_eq_iff)
  then have w': "unat i div 64 < unat j div 64" 
    using div_le_mono [of "unat i" "unat j" 64] j assms(2) by linarith
  define b1 where "b1 = b[unat i div 64 := shl (NOT 0) (i mod 64)]"
  have b1: "chunk_bits b1" using b by (simp add: b1_def)
  have "unat (j div 64) \<le> length b1" using b1 j(3) by simp
  from go_for_fill [OF this, of "i div 64 + 1" "NOT 0"] obtain b2
    where b2: "go_for (i div 64 + 1) (j div 64) (\<lambda>k b. slice_set b k (NOT 0)) b1 = Inr b2"
      "chunk_bits b2" "\<forall>k<8. b2 ! k = (if unat (i div 64 + 1) \<le> k \<and> k < unat (j div 64) then NOT 0 else b1 ! k)"
    unfolding b1 by blast
  have inc: "unat (i div 64 + 1) = Suc (unat i div 64)" using j by (simp add: unat_word_ariths)
  have e: "pageBits_setRange b i n = Inr (b2[unat j div 64 := shl 1 (j mod 64 + 1) - 1])"
    unfolding pageBits_setRange_def Let_def j_def [symmetric]
    using b b2(1) [unfolded b1_def] b2(2) n1 j(2,3) w by (simp flip: j_def)
  have "pbit (b2[unat j div 64 := shl 1 (j mod 64 + 1) - 1]) p \<longleftrightarrow>
      (if p div 64 < unat i div 64 \<or> unat j div 64 < p div 64 then pbit b p else unat i \<le> p \<and> p \<le> unat j)"
    if p: "p < 512" for p
  proof -
    consider (last) "p div 64 = unat j div 64" | (first) "p div 64 = unat i div 64"
      | (inner) "unat i div 64 < p div 64" "p div 64 < unat j div 64"
      | (outer) "p div 64 < unat i div 64 \<or> unat j div 64 < p div 64" by linarith
    then show ?thesis
    proof cases
      case last
      then have "unat i < p" using w' by (metis word_lt)
      then show ?thesis using last p b2(2) w' j(3)
        by (simp add: pbit_list_update bit_simps unat_mod64_Suc less_Suc_eq_le same_word_le)
    next
      case first
      then have "p < unat j" using w' by (metis word_lt)
      moreover have "b2 ! (p div 64) = shl (NOT 0) (i mod 64)"
        using first p b2(3) inc b w' by (simp add: b1_def)
      moreover have "p mod 64 - unat i mod 64 < 64" by (simp add: less_imp_diff_less)
      ultimately show ?thesis using first p b2(2) w' j(3)
        by (simp add: pbit_list_update pbit_def bit_simps same_word_le)
    next
      case inner
      then have "p < unat j" "unat i < p" by (metis word_lt)+
      moreover have "b2 ! (p div 64) = NOT 0" using inner p b2(3) inc by simp
      ultimately show ?thesis using inner p b2(2) j(3)
        by (simp add: pbit_list_update pbit_def)
    next
      case outer
      then have "b2 ! (p div 64) = b ! (p div 64)" using p b2(3) inc b w' by (auto simp: b1_def)
      with outer show ?thesis using p b2(2) j(3) w' by (auto simp: pbit_list_update pbit_def)
    qed
  qed
  with e b2 j assms(2) show ?thesis by (auto simp: less_Suc_eq_le)
qed

lemma clearRange_one:
  assumes "chunk_bits b" and "unat i < 512"
  shows "\<exists>b'. pageBits_clearRange b i 1 = Inr b' \<and> chunk_bits b' \<and>
    (\<forall>p<512. pbit b' p \<longleftrightarrow> pbit b p \<and> p \<noteq> unat i)"
  using assms
  by (auto simp: pageBits_clearRange_def pageBits_clear_def word_upd_Inr pbit_list_update bit_simps)
    (auto simp: pbit_def dest!: same_word_eq [of _ "unat i", THEN iffD1])

lemma clearRange_single:
  assumes b: "chunk_bits b" and "2 \<le> unat n" and n: "unat i + unat n \<le> 512"
    and w: "i div 64 = (i + n - 1) div 64"
  shows "\<exists>b'. pageBits_clearRange b i n = Inr b' \<and> chunk_bits b' \<and>
    (\<forall>p<512. pbit b' p \<longleftrightarrow> pbit b p \<and> \<not> (unat i \<le> p \<and> p < unat i + unat n))"
proof -
  define j where "j = i + n - 1"
  have j: "unat j = unat i + unat n - 1" "unat i < 512" "unat j < 512"
    using range_last [of n i] assms by (auto simp: j_def)
  have n1: "n \<noteq> 1" using assms(2) by auto
  have w': "unat j div 64 = unat i div 64" using w by (metis j_def unat_div_mod_64(1))
  have "pageBits_clearRange b i n =
      Inr (b[unat i div 64 := andnot (b ! (unat i div 64)) (shl (shl 1 n - 1) (i mod 64))])"
    unfolding pageBits_clearRange_def Let_def using b n1 j(2) by (simp add: word_upd_Inr flip: w)
  moreover have "(unat i mod 64 \<le> p mod 64 \<and> p mod 64 - unat i mod 64 < unat n)
      \<longleftrightarrow> (unat i \<le> p \<and> p < unat i + unat n)" if "p div 64 = unat i div 64" for p
  proof -
    have "p = 64 * (unat i div 64) + p mod 64" "unat i = 64 * (unat i div 64) + unat i mod 64"
      using that mult_div_mod_eq [of 64 p] by simp_all
    then show ?thesis by linarith
  qed
  moreover have "unat i \<le> p \<and> p < unat i + unat n \<Longrightarrow> p div 64 = unat i div 64" for p
    using div_le_mono [of "unat i" p 64] div_le_mono [of p "unat j" 64] w' j(1) assms(2) by linarith
  moreover have "p mod 64 - unat i mod 64 < 64" for p by (simp add: less_imp_diff_less)
  ultimately show ?thesis
    using b j(2) by (auto simp: pbit_list_update bit_simps) (auto simp: pbit_def)
qed

lemma clearRange_multi:
  assumes b: "chunk_bits b" and "2 \<le> unat n" and n: "unat i + unat n \<le> 512"
    and w: "i div 64 \<noteq> (i + n - 1) div 64"
  shows "\<exists>b'. pageBits_clearRange b i n = Inr b' \<and> chunk_bits b' \<and>
    (\<forall>p<512. pbit b' p \<longleftrightarrow> pbit b p \<and>
      \<not> (unat i \<le> p \<and> p < unat i + unat n \<and>
         (p div 64 = unat i div 64 \<or> p div 64 = (unat i + unat n - 1) div 64 \<or> unat i < p div 64)))"
proof -
  define j where "j = i + n - 1"
  have j: "unat j = unat i + unat n - 1" "unat i < 512" "unat j < 512"
    using range_last [of n i] assms by (auto simp: j_def)
  have n1: "n \<noteq> 1" using assms(2) by auto
  have "unat i div 64 \<noteq> unat j div 64"
    using w by (metis j_def unat_div_mod_64(1) word_unat_eq_iff)
  then have w': "unat i div 64 < unat j div 64"
    using div_le_mono [of "unat i" "unat j" 64] j assms(2) by linarith
  define b1 where "b1 = b[unat i div 64 := andnot (b ! (unat i div 64)) (shl (NOT 0) (i mod 64))]"
  have b1: "chunk_bits b1" using b by (simp add: b1_def)
  have "unat (j div 64) \<le> length b1" using b1 j(3) by simp
  from go_for_fill [OF this, of "i + 1" 0] obtain b2
    where b2: "go_for (i + 1) (j div 64) (\<lambda>k b. slice_set b k 0) b1 = Inr b2"
      "chunk_bits b2" "\<forall>k<8. b2 ! k = (if unat (i + 1) \<le> k \<and> k < unat (j div 64) then 0 else b1 ! k)"
    unfolding b1 by blast
  have inc: "unat (i + 1) = Suc (unat i)" using j(2) by (simp add: unat_word_ariths)
  have e: "pageBits_clearRange b i n = Inr (b2[unat j div 64 :=
      andnot (b2 ! (unat j div 64)) (shl 1 (j mod 64 + 1) - 1)])"
    unfolding pageBits_clearRange_def Let_def j_def [symmetric]
    using b b2(1) [unfolded b1_def] b2(2) n1 j(2,3) w by (simp add: word_upd_Inr flip: j_def)
  have "pbit (b2[unat j div 64 := andnot (b2 ! (unat j div 64)) (shl 1 (j mod 64 + 1) - 1)]) p \<longleftrightarrow>
      pbit b p \<and> \<not> (unat i \<le> p \<and> p \<le> unat j \<and>
        (p div 64 = unat i div 64 \<or> p div 64 = unat j div 64 \<or> unat i < p div 64))"
    if p: "p < 512" for p
  proof -
    consider (last) "p div 64 = unat j div 64" | (first) "p div 64 = unat i div 64"
      | (inner) "unat i div 64 < p div 64" "p div 64 < unat j div 64"
      | (outer) "p div 64 < unat i div 64 \<or> unat j div 64 < p div 64" by linarith
    then show ?thesis
    proof cases
      case last
      then have "unat i < p" using w' by (metis word_lt)
      moreover have "b2 ! (p div 64) = b ! (p div 64)"
        using last p b2(3) inc b w' by (simp add: b1_def)
      ultimately show ?thesis using last p b2(2) w' j(3)
        by (auto simp: pbit_list_update bit_simps unat_mod64_Suc less_Suc_eq_le same_word_le pbit_def)
    next
      case first
      then have "p < unat j" using w' by (metis word_lt)
      moreover have "b2 ! (p div 64) = andnot (b ! (p div 64)) (shl (NOT 0) (i mod 64))"
        using first p b2(3) inc b w' by (auto simp: b1_def)
      moreover have "p mod 64 - unat i mod 64 < 64" by (simp add: less_imp_diff_less)
      ultimately show ?thesis using first p b2(2) w' j(3)
        by (auto simp: pbit_list_update pbit_def bit_simps same_word_le)
    next
      case inner
      then have "p < unat j" "unat i < p" by (metis word_lt)+
      moreover have "b2 ! (p div 64) = (if unat i < p div 64 then 0 else b ! (p div 64))"
        using inner p b2(3) inc by (auto simp: b1_def)
      ultimately show ?thesis using inner p b2(2) j(3)
        by (auto simp: pbit_list_update pbit_def)
    next
      case outer
      then have "b2 ! (p div 64) = b ! (p div 64)" using p b2(3) inc b w' by (auto simp: b1_def)
      moreover have "\<not> (unat i \<le> p \<and> p \<le> unat j)"
        using outer div_le_mono [of "unat i" p 64] div_le_mono [of p "unat j" 64] by linarith
      ultimately show ?thesis using outer p b2(2) j(3) w' by (auto simp: pbit_list_update pbit_def)
    qed
  qed
  with e b2(2) j assms(2) show ?thesis by (auto simp: less_Suc_eq_le)
qed

section \<open>Counting the allocated pages of a range\<close>

definition pcount :: "pageBits \<Rightarrow> nat \<Rightarrow> nat \<Rightarrow> nat" where
  "pcount b lo hi = length (filter (pbit b) [lo..<hi])"

lemma upt_split: "lo \<le> mid \<Longrightarrow> mid \<le> hi \<Longrightarrow> [lo..<hi] = [lo..<mid] @ [mid..<hi]"
  by (metis le_add_diff_inverse upt_add_eq_append)

lemma pcount_split: "lo \<le> mid \<Longrightarrow> mid \<le> hi \<Longrightarrow> pcount b lo hi = pcount b lo mid + pcount b mid hi"
  unfolding pcount_def by (simp add: upt_split [of lo mid hi])

lemma popcount_window:
  assumes "m \<le> 64" and "\<And>t. bit y t \<longleftrightarrow> t < m \<and> pbit b (s + t)"
  shows "popcount y = pcount b s (s + m)"
proof -
  have "filter (bit y) [m..<64] = []" using assms(2) by (auto simp: filter_empty_conv)
  moreover have "filter (bit y) [0..<m] = filter (\<lambda>t. pbit b (s + t)) [0..<m]"
    using assms(2) by (intro filter_cong) auto
  ultimately have "filter (bit y) [0..<64] = filter (\<lambda>t. pbit b (s + t)) [0..<m]"
    unfolding upt_split [OF le0 assms(1)] filter_append by simp
  also have "length \<dots> = length (filter (pbit b) (map (\<lambda>t. s + t) [0..<m]))"
    by (simp add: filter_map comp_def)
  also have "map (\<lambda>t. s + t) [0..<m] = [s..<s + m]" by (simp add: map_add_upt add.commute)
  finally show ?thesis by (simp only: popcount_def pcount_def)
qed

lemma of_nat_popcount: "OnesCount64 x = of_nat (popcount x)"
  by (simp flip: unat_OnesCount64)

lemma go_for_popcount:
  assumes "chunk_bits b" and "unat hi \<le> 8" and "unat lo \<le> unat hi"
  shows "go_for lo hi (\<lambda>k s. go_bind (slice_get b k) (\<lambda>x. Inr (s + OnesCount64 x))) s =
    Inr (s + of_nat (pcount b (64 * unat lo) (64 * unat hi)))"
  using assms
proof (induction "unat hi - unat lo" arbitrary: lo s)
  case 0
  then have "lo = hi" by (simp add: word_unat_eq_iff)
  then show ?case by (subst go_for.simps) (simp add: pcount_def)
next
  case (Suc m)
  then have lt: "lo < hi" by (simp add: word_less_nat_alt)
  then have inc: "unat (lo + 1) = Suc (unat lo)" by (rule unat_inc_below)
  have lo: "unat lo < 8" using lt Suc.prems by (simp add: word_less_nat_alt)
  have w: "popcount (b ! unat lo) = pcount b (64 * unat lo) (64 * unat lo + 64)"
    using bit_imp_le_length [of "b ! unat lo"] by (intro popcount_window) (fastforce simp: pbit_def)+
  have IH: "go_for (lo + 1) hi (\<lambda>k s. go_bind (slice_get b k) (\<lambda>x. Inr (s + OnesCount64 x)))
      (s + OnesCount64 (b ! unat lo))
    = Inr (s + OnesCount64 (b ! unat lo) + of_nat (pcount b (64 * unat (lo + 1)) (64 * unat hi)))"
    by (rule Suc.hyps) (use Suc inc lt in \<open>auto simp: word_less_nat_alt\<close>)
  have "pcount b (64 * unat lo) (64 * unat hi)
    = popcount (b ! unat lo) + pcount b (64 * unat (lo + 1)) (64 * unat hi)"
    unfolding w inc using lt by (subst pcount_split [of _ "64 * unat lo + 64"]) (auto simp: word_less_nat_alt add.commute)
  with IH show ?case
    using lt lo Suc.prems(1) by (subst go_for.simps) (simp add: of_nat_popcount add.assoc)
qed

lemma div_mod_add:
  fixes i t :: nat
  assumes "i mod 64 + t < 64"
  shows "(i + t) div 64 = i div 64" "(i + t) mod 64 = i mod 64 + t"
proof -
  have "i + t = 64 * (i div 64) + (i mod 64 + t)" by simp
  then show "(i + t) div 64 = i div 64" "(i + t) mod 64 = i mod 64 + t"
    using assms by (metis div_mult_self4 div_less add_0_right zero_neq_numeral add.commute,
                    metis mod_mult_self4 mod_less)
qed

lemma popcntRange_single:
  assumes b: "chunk_bits b" and "2 \<le> unat n" and n: "unat i + unat n \<le> 512"
    and w: "i div 64 = (i + n - 1) div 64"
  shows "pageBits_popcntRange b i n = Inr (of_nat (pcount b (unat i) (unat i + unat n)))"
proof -
  have n1: "n \<noteq> 1" using assms(2) by auto
  have w': "(unat i + unat n - 1) div 64 = unat i div 64"
    using w range_last(1) [of n i] assms(2) n by (metis One_nat_def Suc_1 Suc_leD unat_div_mod_64(1))
  have in1: "unat i mod 64 + t < 64 \<and> (unat i + t) div 64 = unat i div 64 \<and> (unat i + t) mod 64 = unat i mod 64 + t"
    if "t < unat n" for t
  proof -
    have "(unat i + t) div 64 = unat i div 64"
      using div_le_mono [of "unat i" "unat i + t" 64] div_le_mono [of "unat i + t" "unat i + unat n - 1" 64]
        w' that by linarith
    then show ?thesis
      by (metis add_diff_cancel_left' add.assoc mod_less_divisor mult_div_mod_eq zero_less_numeral nat_add_left_cancel_less)
  qed
  have "unat n \<le> 64" using in1 [of "unat n - 1"] assms(2) by linarith
  then have "popcount (shr (b ! (unat i div 64)) (i mod 64) AND (shl 1 n - 1)) = pcount b (unat i) (unat i + unat n)"
    using in1 by (intro popcount_window) (fastforce simp: bit_simps pbit_def)+
  then show ?thesis
    using b n1 n assms(2) unfolding pageBits_popcntRange_def Let_def
    by (simp add: of_nat_popcount flip: w)
qed

lemma popcntRange_multi:
  assumes b: "chunk_bits b" and "2 \<le> unat n" and n: "unat i + unat n \<le> 512"
    and w: "i div 64 \<noteq> (i + n - 1) div 64"
  shows "pageBits_popcntRange b i n = Inr (of_nat (pcount b (unat i) (unat i + unat n)))"
proof -
  define j where "j = i + n - 1"
  have j: "unat j = unat i + unat n - 1" "unat i < 512" "unat j < 512"
    using range_last [of n i] assms by (auto simp: j_def)
  let ?wi = "unat i div 64" and ?wj = "unat j div 64"
  have n1: "n \<noteq> 1" using assms(2) by auto
  have "?wi \<noteq> ?wj" using w by (metis j_def unat_div_mod_64(1) word_unat_eq_iff)
  then have w': "?wi < ?wj"
    using div_le_mono [of "unat i" "unat j" 64] j assms(2) by linarith
  have inc: "unat (i div 64 + 1) = Suc ?wi" using j(2) by (simp add: unat_word_ariths)
  have i64: "64 * ?wi + unat i mod 64 = unat i" and j64: "64 * ?wj + unat j mod 64 = unat j"
    and im: "unat i mod 64 < 64" by simp_all
  have 1: "popcount (shr (b ! ?wi) (i mod 64)) = pcount b (unat i) (unat i + (64 - unat i mod 64))"
  proof (rule popcount_window)
    fix t
    show "bit (shr (b ! ?wi) (i mod 64)) t \<longleftrightarrow> t < 64 - unat i mod 64 \<and> pbit b (unat i + t)"
      using bit_imp_le_length [of "b ! ?wi" "unat i mod 64 + t"] div_mod_add [of "unat i" t]
        less_diff_conv2 [of "unat i mod 64" 64 t]
      by (auto simp: bit_simps pbit_def less_diff_conv add.commute)
  qed simp
  have 2: "popcount (b ! ?wj AND (shl 1 (j mod 64 + 1) - 1)) = pcount b (64 * ?wj) (64 * ?wj + (unat j mod 64 + 1))"
  proof (rule popcount_window)
    fix t
    show "bit (b ! ?wj AND (shl 1 (j mod 64 + 1) - 1)) t \<longleftrightarrow> t < unat j mod 64 + 1 \<and> pbit b (64 * ?wj + t)"
      using mod_less_divisor [of 64 "unat j"] by (auto simp: bit_simps pbit_def unat_mod64_Suc)
  qed (simp add: Suc_leI)
  have o: "unat i \<le> 64 * Suc ?wi" "64 * Suc ?wi \<le> 64 * ?wj" "64 * ?wj \<le> unat i + unat n"
    subgoal using i64 im by presburger
    subgoal using w' by simp
    subgoal using j64 j(1) assms(2) by linarith
    done
  have "pcount b (unat i) (unat i + unat n) = pcount b (unat i) (64 * Suc ?wi) +
      (pcount b (64 * Suc ?wi) (64 * ?wj) + pcount b (64 * ?wj) (unat i + unat n))"
    using pcount_split [of "unat i" "64 * Suc ?wi" "unat i + unat n" b]
      pcount_split [of "64 * Suc ?wi" "64 * ?wj" "unat i + unat n" b] o by linarith
  moreover have "unat i + (64 - unat i mod 64) = 64 * Suc ?wi"
    using i64 im by presburger
  moreover have "64 * ?wj + (unat j mod 64 + 1) = unat i + unat n"
    using j64 j(1) assms(2) by linarith
  ultimately have sum: "OnesCount64 (shr (b ! ?wi) (i mod 64)) + of_nat (pcount b (64 * Suc ?wi) (64 * ?wj))
      + OnesCount64 (b ! ?wj AND (shl 1 (j mod 64 + 1) - 1)) = of_nat (pcount b (unat i) (unat i + unat n))"
    using 1 2 by (simp add: of_nat_popcount)
  have loop: "go_for (i div 64 + 1) (j div 64) (\<lambda>k s. go_bind (slice_get b k) (\<lambda>x. Inr (s + OnesCount64 x)))
      (OnesCount64 (shr (b ! ?wi) (i mod 64)))
    = Inr (OnesCount64 (shr (b ! ?wi) (i mod 64)) + of_nat (pcount b (64 * Suc ?wi) (64 * ?wj)))"
    using go_for_popcount [of b "j div 64" "i div 64 + 1"] b j(3) w' inc by simp
  have get: "slice_get b (i div 64) = Inr (b ! ?wi)" "slice_get b (j div 64) = Inr (b ! ?wj)"
    using b j(2,3) by simp_all
  show ?thesis
    using n1 w unfolding pageBits_popcntRange_def Let_def j_def [symmetric]
    by (simp only: get go_bind_simps loop sum if_False)
qed

section \<open>Properties\<close>

text \<open>
  C35: the effect of \<open>setRange\<close> on every page of the chunk, for every range inside it. It sets the
  pages of the range. For one page it leaves the others alone; for more, it overwrites the first and
  the last word it touches: when the range lies in one word, all lower pages of that word end up
  allocated and all higher ones free, otherwise the pages of those two words outside the range end up
  free.
\<close>

theorem setRange_effect:
  assumes "chunk_bits b" and "0 < n" and "unat i + unat n \<le> 512"
  defines "last_page \<equiv> unat i + unat n - 1"
  shows "\<exists>b'. pageBits_setRange b i n = Inr b' \<and> chunk_bits b' \<and> (\<forall>p<512. pbit b' p \<longleftrightarrow>
    (if n = 1 then p = unat i \<or> pbit b p
     else if unat i div 64 = last_page div 64 then (if p div 64 = unat i div 64 then p \<le> last_page else pbit b p)
     else if p div 64 < unat i div 64 \<or> last_page div 64 < p div 64 then pbit b p
     else unat i \<le> p \<and> p \<le> last_page))"
proof (cases "n = 1")
  case True
  then show ?thesis using setRange_one [OF assms(1), of i] assms(3) by simp
next
  case False
  then have n: "2 \<le> unat n" using assms(2) by (simp add: word_less_nat_alt word_unat_eq_iff)
  then have le: "p \<le> last_page \<longleftrightarrow> p < unat i + unat n" for p by (auto simp: last_page_def)
  have w: "i div 64 = (i + n - 1) div 64 \<longleftrightarrow> unat i div 64 = last_page div 64"
    using range_last(1) [of n i] n assms(3) by (simp add: last_page_def word_unat_eq_iff unat_div_mod_64)
  show ?thesis
  proof (cases "unat i div 64 = last_page div 64")
    case True
    then show ?thesis using setRange_single [OF assms(1) n assms(3)] False w by (simp add: le cong: if_cong split del: if_split)
  next
    case nw: False
    then show ?thesis using setRange_multi [OF assms(1) n assms(3), folded last_page_def] False w
      by (simp add: le cong: if_cong split del: if_split)
  qed
qed

theorem setRange_effect_witness:
  "\<exists>b'. pageBits_setRange (replicate 8 0) 60 10 = Inr b' \<and> chunk_bits b' \<and> (\<forall>p<512. pbit b' p \<longleftrightarrow>
    (if (10 :: u64) = 1 then p = unat (60 :: u64) \<or> pbit (replicate 8 0) p
     else if unat (60 :: u64) div 64 = (unat (60 :: u64) + unat (10 :: u64) - 1) div 64
     then (if p div 64 = unat (60 :: u64) div 64 then p \<le> unat (60 :: u64) + unat (10 :: u64) - 1 else pbit (replicate 8 0) p)
     else if p div 64 < unat (60 :: u64) div 64 \<or> (unat (60 :: u64) + unat (10 :: u64) - 1) div 64 < p div 64 then pbit (replicate 8 0) p
     else unat (60 :: u64) \<le> p \<and> p \<le> unat (60 :: u64) + unat (10 :: u64) - 1))"
  by (rule setRange_effect) simp_all

text \<open>
  the effect of \<open>clearRange\<close> on every page of the chunk, for every range inside it. Only pages of
  the range are freed, and a range inside one word is freed entirely. Over several words the pages of
  a word strictly between the first and the last are freed only when the number of the word exceeds
  \<open>i\<close>, the index of the first page, because the loop starts at \<open>i + 1\<close>.
\<close>

lemma clearRange_effect:
  assumes "chunk_bits b" and "0 < n" and "unat i + unat n \<le> 512"
  defines "last_page \<equiv> unat i + unat n - 1"
  shows "\<exists>b'. pageBits_clearRange b i n = Inr b' \<and> chunk_bits b' \<and> (\<forall>p<512. pbit b' p \<longleftrightarrow>
    pbit b p \<and> \<not> (unat i \<le> p \<and> p \<le> last_page \<and>
      (p div 64 = unat i div 64 \<or> p div 64 = last_page div 64 \<or> unat i < p div 64)))"
proof (cases "n = 1")
  case True
  then show ?thesis using clearRange_one [OF assms(1), of i] assms(3) by (auto simp: last_page_def)
next
  case False
  then have n: "2 \<le> unat n" using assms(2) by (simp add: word_less_nat_alt word_unat_eq_iff)
  then have le: "p \<le> last_page \<longleftrightarrow> p < unat i + unat n" for p by (auto simp: last_page_def)
  have w: "i div 64 = (i + n - 1) div 64 \<longleftrightarrow> unat i div 64 = last_page div 64"
    using range_last(1) [of n i] n assms(3) by (simp add: last_page_def word_unat_eq_iff unat_div_mod_64)
  show ?thesis
  proof (cases "unat i div 64 = last_page div 64")
    case True
    then have "p div 64 = unat i div 64" if "unat i \<le> p" "p \<le> last_page" for p
      using that div_le_mono [of "unat i" p 64] div_le_mono [of p last_page 64] by simp
    then show ?thesis using clearRange_single [OF assms(1) n assms(3)] True w by (auto simp: le)
  next
    case False
    then show ?thesis using clearRange_multi [OF assms(1) n assms(3), folded last_page_def] w by (simp add: le)
  qed
qed

text \<open>
  \<open>popcntRange\<close> returns the number of allocated pages of the range, for every range of at least
  two pages inside the chunk.
\<close>

lemma popcntRange_correct:
  assumes "chunk_bits b" and "2 \<le> unat n" and "unat i + unat n \<le> 512"
  shows "pageBits_popcntRange b i n = Inr (of_nat (card {p. unat i \<le> p \<and> p < unat i + unat n \<and> pbit b p}))"
proof -
  have "{p. unat i \<le> p \<and> p < unat i + unat n \<and> pbit b p} = set (filter (pbit b) [unat i..<unat i + unat n])" by auto
  then have "card {p. unat i \<le> p \<and> p < unat i + unat n \<and> pbit b p} = pcount b (unat i) (unat i + unat n)"
    by (simp only: pcount_def distinct_card distinct_filter distinct_upt)
  then show ?thesis using popcntRange_single [OF assms] popcntRange_multi [OF assms] by metis
qed

text \<open>
  for a single page \<open>popcntRange\<close> reads \<open>b[64/i]\<close>, so for the first nine pages of a chunk it does
  not return: page 0 divides by zero and pages 1 to 8 index past the eight words.
\<close>

lemma popcntRange_one_page_panics:
  assumes "chunk_bits b" and "unat i \<le> 8"
  shows "pageBits_popcntRange b i 1 = Inl (if i = 0 then DividePanic else IndexPanic)"
proof (cases "i = 0")
  case False
  then have "0 < unat i" by (simp add: unat_gt_0)
  then have "8 \<le> 64 div unat i" using assms(2) by (simp add: less_eq_div_iff_mult_less_eq)
  then have "\<not> unat (64 div i) < length b" using assms(1) by (simp add: unat_div)
  then show ?thesis using False by (simp add: pageBits_popcntRange_def slice_get_def)
qed (simp add: pageBits_popcntRange_def)

end
