(* ===== verification/PallocFind.thy ===== *)
theory PallocFind
  imports PallocBits
begin

text \<open>
  The searches of \<open>mpallocbits.go\<close>: \<open>findBitRange64\<close>, \<open>find1\<close>, \<open>findSmallN\<close>, \<open>findLargeN\<close> and
  \<open>find\<close>, which dispatches to them. Each loop is shown to keep an invariant on the free tail before
  the current word, and from it that the search is first fit: it terminates and returns the first
  run of free pages of the requested length. The contract is the locale \<open>first_fit\<close>, interpreted on
  the four searches; the properties of \<open>find\<close> follow from the interpretation.
\<close>

section \<open>Runs of ones in a word\<close>

definition ones_at :: "u64 \<Rightarrow> nat \<Rightarrow> nat \<Rightarrow> bool" where
  "ones_at c m i \<longleftrightarrow> (\<forall>t<m. bit c (i + t))"

lemma ones_at_add: "p \<le> m \<Longrightarrow> ones_at c m i \<and> ones_at c m (p + i) \<longleftrightarrow> ones_at c (m + p) i"
proof (safe)
  assume pm: "p \<le> m" and 1: "ones_at c m i" and 2: "ones_at c m (p + i)"
  show "ones_at c (m + p) i"
    unfolding ones_at_def
  proof safe
    fix t assume "t < m + p"
    then show "bit c (i + t)"
      using pm 1 2 [unfolded ones_at_def, rule_format, of "t - p"]
      by (cases "t < m") (auto simp: ones_at_def add.commute add.left_commute)
  qed
next
  assume "p \<le> m" "ones_at c (m + p) i"
  then show "ones_at c m i" "ones_at c m (p + i)"
    unfolding ones_at_def by (auto simp: add.assoc add.left_commute [of p]) 
qed

lemma ones_at_bound: "ones_at c m i \<Longrightarrow> 0 < m \<Longrightarrow> i + m \<le> 64"
  using bit_imp_le_length [of c "i + (m - 1)"] spec [of "\<lambda>t. t < m \<longrightarrow> bit c (i + t)" "m - 1"]
  by (auto simp: ones_at_def)

lemma ones_at_mono: "ones_at c m i \<Longrightarrow> m' \<le> m \<Longrightarrow> ones_at c m' i"
  by (simp add: ones_at_def)

lemma and_63: "unat (p AND 63) = unat p mod 64" for p :: u64
  using and_low_mask [of "unat p" 6] by (simp add: unat_and)

lemma findBitRange64_loop_spec:
  assumes "\<And>i. bit c i \<longleftrightarrow> ones_at c0 m i" and "unat k = m" and "unat p = n - m"
    and "1 \<le> m" and "m \<le> n" and "n \<le> 64"
  shows "\<exists>c'. findBitRange64_loop c p k = Some (TrailingZeros64 c') \<and> (\<forall>i. bit c' i \<longleftrightarrow> ones_at c0 n i)"
  using assms
proof (induction "n - m" arbitrary: c m k p rule: less_induct)
  case less
  have *: "bit (c AND shr c (q AND 63)) i \<longleftrightarrow> ones_at c0 (m + unat q) i" if "unat q \<le> m" "unat q < 64" for q i
    using that less.prems(1) ones_at_add [of "unat q" m c0 i] by (simp add: bit_simps and_63)
  consider "p = 0" | "p \<noteq> 0" "p \<le> k" | "\<not> p \<le> k" by blast
  then show ?case
  proof cases
    case 1
    then have "m = n" using less.prems by simp
    with 1 less.prems(1) show ?thesis by (subst findBitRange64_loop.simps) auto
  next
    case 2
    then have "unat p \<le> m" "unat p < 64" "m + unat p = n"
      using less.prems by (auto simp: word_le_nat_alt)
    with * [of p] 2 show ?thesis
      by (subst findBitRange64_loop.simps) (auto simp: word_gt_0)
  next
    case 3
    then have p: "m < unat p" using less.prems by (simp add: word_le_nat_alt)
    define c' where "c' = c AND shr c (k AND 63)"
    have m: "m < 64" "2 * m < n" using p less.prems by auto
    then have c': "bit c' i \<longleftrightarrow> ones_at c0 (2 * m) i" for i
      using * [of k] less.prems unfolding c'_def by (simp add: mult_2)
    show ?thesis
    proof (cases "c' = 0")
      case True
      then have "\<not> ones_at c0 n i" for i
        using c' m ones_at_mono [of c0 n i "2 * m"] by auto
      with True 3 show ?thesis
        by (subst findBitRange64_loop.simps) (auto simp: c'_def [symmetric] Let_def word_gt_0
            intro: exI [of _ 0] simp: TrailingZeros64_tz)
    next
      case False
      have "\<exists>c''. findBitRange64_loop c' (p - k) (k * 2) = Some (TrailingZeros64 c'') \<and>
          (\<forall>i. bit c'' i \<longleftrightarrow> ones_at c0 n i)"
        by (rule less.hyps [OF _ c'])
          (use less.prems p m 3 in \<open>auto simp: unat_sub_if' unat_word_ariths\<close>)
      then show ?thesis using 3 False
        by (subst findBitRange64_loop.simps) (auto simp: c'_def [symmetric] Let_def word_gt_0)
    qed
  qed
qed

lemma findBitRange64_Some:
  assumes "0 < unat n" and "unat n \<le> 64"
  obtains r where "findBitRange64 c n = Some r" and "unat r \<le> 64"
    and "unat r < 64 \<Longrightarrow> ones_at c (unat n) (unat r)"
    and "\<And>i. i < unat r \<Longrightarrow> \<not> ones_at c (unat n) i"
proof -
  have "n \<noteq> 0" using assms by auto
  then have "unat (n - 1) = unat n - 1" by (simp add: unat_minus_one)
  then obtain c' where c': "findBitRange64 c n = Some (TrailingZeros64 c')"
      "\<forall>i. bit c' i \<longleftrightarrow> ones_at c (unat n) i"
    using findBitRange64_loop_spec [of c c 1 1 "n - 1" "unat n"] assms
    by (auto simp: findBitRange64_def ones_at_def)
  show thesis
    by (rule that [OF c'(1)]) (use tz_le [of c'] tz_64_iff [of c'] bit_tz [of c'] not_bit_below [of _ c'] c'(2) in auto)
qed

section \<open>Runs of free pages in a bitmap\<close>

text \<open>\<open>run_free b n s\<close>: the \<open>n\<close> pages from \<open>s\<close> on exist and are all free.\<close>

definition run_free :: "pageBits \<Rightarrow> nat \<Rightarrow> nat \<Rightarrow> bool" where
  "run_free b n s \<longleftrightarrow> s + n \<le> 512 \<and> (\<forall>t<n. \<not> pbit b (s + t))"

lemma run_free_hit: "run_free b n s \<Longrightarrow> s \<le> p \<Longrightarrow> p < s + n \<Longrightarrow> \<not> pbit b p"
  unfolding run_free_def by (metis le_add_diff_inverse nat_add_left_cancel_less)

lemma pbit_word: "t < 64 \<Longrightarrow> pbit b (64 * i + t) \<longleftrightarrow> bit (b ! i) t"
  by (simp add: pbit_def)

text \<open>What a word says about its 64 pages.\<close>

lemma free_below_tz: "64 * i \<le> p \<Longrightarrow> p < 64 * i + tz (b ! i) \<Longrightarrow> \<not> pbit b p"
  using not_bit_below [of "p - 64 * i" "b ! i"] pbit_word [of "p - 64 * i" b i] tz_le [of "b ! i"] by auto

lemma alloc_at_tz: "b ! i \<noteq> 0 \<Longrightarrow> pbit b (64 * i + tz (b ! i))"
  using bit_tz [of "b ! i"] tz_less [of "b ! i"] by (simp add: pbit_word)

lemma free_above_lz: "64 * i + 64 - lz (b ! i) \<le> p \<Longrightarrow> p < 64 * i + 64 \<Longrightarrow> \<not> pbit b p"
proof -
  assume p: "64 * i + 64 - lz (b ! i) \<le> p" "p < 64 * i + 64"
  show ?thesis
  proof (cases "b ! i = 0")
    case True
    with p pbit_word [of "p - 64 * i" b i] show ?thesis by auto
  next
    case False
    then show ?thesis
      using p pbit_word [of "p - 64 * i" b i] not_bit_above_lz [OF False, of "p - 64 * i"] lz_less [OF False]
      by auto
  qed
qed

lemma alloc_at_lz: "b ! i \<noteq> 0 \<Longrightarrow> pbit b (64 * i + 63 - lz (b ! i))"
  using bit_lz [of "b ! i"] lz_less [of "b ! i"] pbit_word [of "63 - lz (b ! i)" b i] by simp

lemma all_ones: "NOT x = 0 \<longleftrightarrow> (\<forall>t<64. bit x t)" for x :: u64
proof
  assume "\<forall>t<64. bit x t"
  then have "x = NOT 0" by (auto intro: bit_word_eqI)
  then show "NOT x = 0" by simp
next
  assume "NOT x = 0"
  then have "bit (NOT x) t = bit 0 t" for t by simp
  then show "\<forall>t<64. bit x t" by (auto simp: bit_simps)
qed

text \<open>\<open>first_free b lo r\<close>: \<open>r\<close> is the first free page from \<open>lo\<close> on, or \<open>^uint(0)\<close>.\<close>

definition first_free :: "pageBits \<Rightarrow> nat \<Rightarrow> u64 \<Rightarrow> bool" where
  "first_free b lo r \<longleftrightarrow>
     (if r = noIdx then \<forall>p. lo \<le> p \<and> p < 512 \<longrightarrow> pbit b p
      else lo \<le> unat r \<and> unat r < 512 \<and> \<not> pbit b (unat r) \<and> (\<forall>p. lo \<le> p \<and> p < unat r \<longrightarrow> pbit b p))"

text \<open>\<open>first_run b n lo r\<close>: \<open>r\<close> is the first place from \<open>lo\<close> on where \<open>n\<close> pages are free.\<close>

definition first_run :: "pageBits \<Rightarrow> nat \<Rightarrow> nat \<Rightarrow> u64 \<Rightarrow> bool" where
  "first_run b n lo r \<longleftrightarrow>
     (if r = noIdx then \<forall>s\<ge>lo. \<not> run_free b n s
      else lo \<le> unat r \<and> run_free b n (unat r) \<and> (\<forall>s. lo \<le> s \<and> s < unat r \<longrightarrow> \<not> run_free b n s))"

lemma small_not_noIdx: "unat r < 1024 \<Longrightarrow> r \<noteq> noIdx"
  by (auto simp: unsigned_minus_1_eq_mask mask_eq_exp_minus_1)

lemma unat_word_index:
  fixes i t :: u64
  assumes "unat i < 8" and "unat t \<le> 64"
  shows "unat (i * 64 + t) = 64 * unat i + unat t"
proof -
  have "unat (i * 64) = 64 * unat i" using assms by (simp add: unat_word_ariths)
  with assms show ?thesis by (simp add: unat_word_ariths)
qed

lemma drop_Cons_nth: "drop k b = x # xs \<Longrightarrow> k < length b \<and> b ! k = x \<and> xs = drop (Suc k) b"
  by (metis Cons_nth_drop_Suc drop_all list.distinct(1) list.inject not_le)

lemma first_free_in_word:
  assumes "unat i < 8" and "NOT (b ! unat i) \<noteq> 0"
  shows "unat (i * 64 + TrailingZeros64 (NOT (b ! unat i))) = 64 * unat i + tz (NOT (b ! unat i))"
    and "tz (NOT (b ! unat i)) < 64" and "\<not> pbit b (64 * unat i + tz (NOT (b ! unat i)))"
    and "64 * unat i \<le> p \<Longrightarrow> p < 64 * unat i + tz (NOT (b ! unat i)) \<Longrightarrow> pbit b p"
proof -
  show t: "tz (NOT (b ! unat i)) < 64" using assms(2) by (rule tz_less)
  show "unat (i * 64 + TrailingZeros64 (NOT (b ! unat i))) = 64 * unat i + tz (NOT (b ! unat i))"
    using assms(1) t by (simp add: unat_word_index)
  show "\<not> pbit b (64 * unat i + tz (NOT (b ! unat i)))"
    using bit_tz [OF assms(2)] t by (simp add: pbit_word bit_simps)
  show "pbit b p" if "64 * unat i \<le> p" "p < 64 * unat i + tz (NOT (b ! unat i))"
    using that not_bit_below_tz [OF assms(2), of "p - 64 * unat i"] pbit_word [of "p - 64 * unat i" b "unat i"] t
    by (auto simp: bit_simps)
qed

lemma first_free_extend:
  assumes "unat i < 8" and "NOT (b ! unat i) \<noteq> 0" and "lo \<le> 64 * unat i"
    and "\<forall>p. lo \<le> p \<and> p < 64 * unat i \<longrightarrow> pbit b p"
  shows "first_free b lo (i * 64 + TrailingZeros64 (NOT (b ! unat i)))"
proof -
  note w = first_free_in_word [OF assms(1,2)]
  have "pbit b p" if "lo \<le> p" "p < 64 * unat i + tz (NOT (b ! unat i))" for p
    using that assms(4) w(4) by (cases "p < 64 * unat i") auto
  moreover have "i * 64 + TrailingZeros64 (NOT (b ! unat i)) \<noteq> noIdx"
    using w assms(1) by (intro small_not_noIdx) simp
  ultimately show ?thesis using w assms(1,3) by (simp add: first_free_def)
qed

lemma find1_loop_spec:
  assumes "chunk_bits b" and "xs = drop (unat i) b"
    and "\<forall>p. lo \<le> p \<and> p < 64 * unat i \<longrightarrow> p < 512 \<longrightarrow> pbit b p" and "lo \<le> 64 * unat i"
  shows "first_free b lo (find1_loop i xs)"
  using assms(2-)
proof (induction xs arbitrary: i)
  case Nil
  then have "8 \<le> unat i" using assms(1) by simp
  with Nil show ?case by (auto simp: first_free_def)
next
  case (Cons x xs)
  then have x: "unat i < 8" "b ! unat i = x" "xs = drop (Suc (unat i)) b"
    using assms(1) drop_Cons_nth [of "unat i" b x xs] by auto
  have inc: "unat (i + 1) = Suc (unat i)" using x(1) by (simp add: unat_word_ariths)
  show ?case
  proof (cases "NOT x = 0")
    case True
    have "\<forall>p. lo \<le> p \<and> p < 64 * unat (i + 1) \<longrightarrow> p < 512 \<longrightarrow> pbit b p"
      using Cons.prems(2) True x(2) pbit_word [of _ b "unat i"]
      by (metis all_ones inc less_diff_conv2 le_add_diff_inverse not_less mult_Suc_right)
    then have "first_free b lo (find1_loop (i + 1) xs)"
      using Cons.prems x inc by (intro Cons.IH) auto
    with True show ?thesis by simp
  next
    case False
    then have "first_free b lo (i * 64 + TrailingZeros64 (NOT x))"
      using first_free_extend [of i b lo] x(1,2) Cons.prems(2,3) by auto
    with False show ?thesis by simp
  qed
qed


lemma find1_first_free:
  assumes "chunk_bits b"
  shows "first_free b (64 * (unat s div 64)) (find1 b s)"
  unfolding find1_def by (rule find1_loop_spec) (use assms in auto)

lemma run_free_1: "run_free b (Suc 0) p \<longleftrightarrow> p < 512 \<and> \<not> pbit b p"
  by (auto simp: run_free_def)

lemma first_free_run: "first_free b lo r \<longleftrightarrow> first_run b (Suc 0) lo r"
  by (auto simp: first_free_def first_run_def run_free_1)


section \<open>At most 64 pages\<close>

text \<open>
  The loop invariant of \<open>findSmallN\<close> before word \<open>i\<close>: the last \<open>e\<close> pages before it are free, fewer
  than requested, and no run starts earlier.
\<close>

definition small_inv :: "pageBits \<Rightarrow> nat \<Rightarrow> nat \<Rightarrow> nat \<Rightarrow> nat \<Rightarrow> bool" where
  "small_inv b n lo i e \<longleftrightarrow> e < n \<and> lo + e \<le> 64 * i \<and>
     (\<forall>p. 64 * i - e \<le> p \<and> p < 64 * i \<longrightarrow> \<not> pbit b p) \<and>
     (\<forall>s. lo \<le> s \<and> s < 64 * i - e \<longrightarrow> \<not> run_free b n s)"

text \<open>A run that starts in the free tail before word \<open>i\<close> would have to cross an allocated page.\<close>

lemma small_inv_cut:
  assumes "small_inv b n lo i e" and "pbit b q" and "64 * i \<le> q" and "q < 64 * i + n - e"
  shows "\<forall>s. lo \<le> s \<and> s \<le> q \<and> (64 * i \<le> s \<longrightarrow> q < s + n) \<longrightarrow> \<not> run_free b n s"
proof (intro allI impI notI)
  fix s
  assume s: "lo \<le> s \<and> s \<le> q \<and> (64 * i \<le> s \<longrightarrow> q < s + n)" and r: "run_free b n s"
  then have "64 * i - e \<le> s" using assms(1) unfolding small_inv_def by (metis not_less)
  then have "q < s + n" using s assms(1,4) by (cases "64 * i \<le> s") (auto simp: small_inv_def)
  then show False using run_free_hit [OF r, of q] s assms(2) by simp
qed

lemma small_inv_full:
  assumes "small_inv b n lo i e" and "NOT (b ! i) = 0"
  shows "small_inv b n lo (Suc i) 0"
proof -
  have full: "pbit b p" if "64 * i \<le> p" "p < 64 * i + 64" for p
    using assms(2) that pbit_word [of "p - 64 * i" b i] by (auto simp: all_ones)
  have "\<not> run_free b n s" if s: "lo \<le> s" "s < 64 * Suc i" for s
  proof (cases "64 * i \<le> s")
    case True
    then show ?thesis
      using full [of s] run_free_hit [of b n s s] s assms(1) by (auto simp: small_inv_def)
  next
    case False
    then show ?thesis
      using small_inv_cut [OF assms(1) full [of "64 * i"]] s assms(1) by (auto simp: small_inv_def)
  qed
  then show ?thesis using assms(1) by (auto simp: small_inv_def)
qed

lemma ones_at_free:
  assumes "0 < n"
  shows "ones_at (NOT (b ! i)) n t \<longleftrightarrow> t + n \<le> 64 \<and> (\<forall>u<n. \<not> pbit b (64 * i + t + u))"
proof
  assume o: "ones_at (NOT (b ! i)) n t"
  then have "t + n \<le> 64" using assms by (intro ones_at_bound) auto
  with o show "t + n \<le> 64 \<and> (\<forall>u<n. \<not> pbit b (64 * i + t + u))"
    using pbit_word [of "t + u" b i for u] by (auto simp: ones_at_def bit_simps add.assoc)
next
  assume "t + n \<le> 64 \<and> (\<forall>u<n. \<not> pbit b (64 * i + t + u))"
  then show "ones_at (NOT (b ! i)) n t"
    using pbit_word [of "t + u" b i for u] by (auto simp: ones_at_def bit_simps add.assoc)
qed

lemma small_inv_next:
  assumes inv: "small_inv b n lo i e" and nz: "b ! i \<noteq> 0" and lt: "e + tz (b ! i) < n"
    and none: "\<And>t. t < 64 \<Longrightarrow> \<not> ones_at (NOT (b ! i)) n t" and n: "n \<le> 64"
  shows "small_inv b n lo (Suc i) (lz (b ! i))"
proof -
  let ?l = "lz (b ! i)" and ?z = "tz (b ! i)"
  have l: "?l < 64" using nz by (rule lz_less)
  have n0: "0 < n" using inv by (simp add: small_inv_def)
  have ln: "?l < n"
  proof (rule ccontr)
    assume "\<not> ?l < n"
    then have "ones_at (NOT (b ! i)) n (64 - ?l)"
      using l n0 free_above_lz [of i b] by (auto simp: ones_at_free)
    then show False using none [of "64 - ?l"] \<open>\<not> ?l < n\<close> n0 by simp
  qed
  have "\<not> run_free b n s" if s: "lo \<le> s" "s < 64 * Suc i - ?l" for s
  proof (cases "64 * i \<le> s")
    case False
    then show ?thesis
      using small_inv_cut [OF inv alloc_at_tz [OF nz]] s lt by auto
  next
    case True
    show ?thesis
    proof (cases "s + n \<le> 64 * Suc i")
      case True
      with \<open>64 * i \<le> s\<close> n0 none [of "s - 64 * i"] show ?thesis
        by (auto simp: ones_at_free run_free_def)
    next
      case False
      then have "s \<le> 64 * i + 63 - ?l" "64 * i + 63 - ?l < s + n" using s l by auto
      then show ?thesis using alloc_at_lz [OF nz] run_free_hit by blast
    qed
  qed
  moreover have "\<not> pbit b p" if "64 * Suc i - ?l \<le> p" "p < 64 * Suc i" for p
    using free_above_lz [of i b p] that by (simp add: algebra_simps)
  ultimately show ?thesis using ln l inv by (auto simp: small_inv_def)
qed


text \<open>What the second result of \<open>findSmallN\<close> says while the loop runs.\<close>

definition idx_inv :: "pageBits \<Rightarrow> nat \<Rightarrow> nat \<Rightarrow> u64 \<Rightarrow> bool" where
  "idx_inv b lo i ns \<longleftrightarrow>
     (if ns = noIdx then \<forall>p. lo \<le> p \<and> p < 64 * i \<and> p < 512 \<longrightarrow> pbit b p else first_free b lo ns)"

lemma idx_inv_full: "idx_inv b lo i ns \<Longrightarrow> NOT (b ! i) = 0 \<Longrightarrow> idx_inv b lo (Suc i) ns"
  using pbit_word [of _ b i]
  by (auto simp: idx_inv_def all_ones) (metis add.commute less_diff_conv2 le_add_diff_inverse not_le)

lemma idx_inv_update:
  assumes "idx_inv b lo (unat i) ns" and "unat i < 8" and "NOT (b ! unat i) \<noteq> 0" and "lo \<le> 64 * unat i"
  shows "first_free b lo (if ns = noIdx then i * 64 + TrailingZeros64 (NOT (b ! unat i)) else ns)"
  using assms first_free_extend [of i b lo] by (auto simp: idx_inv_def)

lemma first_free_idx_inv:
  assumes "first_free b lo ns" shows "idx_inv b lo i ns"
  using assms by (auto simp: idx_inv_def first_free_def)

lemma first_runI:
  assumes "unat r = p" and "p < 512" and "lo \<le> p" and "run_free b n p"
    and "\<And>s. lo \<le> s \<Longrightarrow> s < p \<Longrightarrow> \<not> run_free b n s"
  shows "first_run b n lo r \<and> r \<noteq> noIdx"
  using assms small_not_noIdx [of r] by (auto simp: first_run_def)

lemma small_fit_across:
  assumes inv: "small_inv b n lo (unat i) (unat e)" and i: "unat i < 8" and fit: "n \<le> unat e + tz (b ! unat i)"
  shows "first_run b n lo (i * 64 - e)"
proof -
  let ?p = "64 * unat i - unat e"
  have e: "unat e \<le> 64 * unat i" "lo \<le> ?p" "0 < n" using inv by (auto simp: small_inv_def)
  have i64: "unat (i * 64) = 64 * unat i" using unat_word_index [of i 0] i by simp
  then have p: "unat (i * 64 - e) = ?p" using e by (simp add: unat_sub_if')
  have "\<not> pbit b (?p + t)" if "t < n" for t
  proof (cases "?p + t < 64 * unat i")
    case True
    then show ?thesis using inv by (auto simp: small_inv_def)
  next
    case False
    then show ?thesis using free_below_tz [of "unat i" "?p + t" b] that fit e by auto
  qed
  then have "run_free b n ?p" using fit e tz_le [of "b ! unat i"] i by (auto simp: run_free_def)
  moreover have "?p < 512" using i by simp
  ultimately show ?thesis using first_runI [OF p] e inv by (auto simp: small_inv_def)
qed

lemma small_fit_inside:
  assumes inv: "small_inv b n lo (unat i) (unat e)" and i: "unat i < 8" and nfit: "unat e + tz (b ! unat i) < n"
    and r: "unat r < 64" "ones_at (NOT (b ! unat i)) n (unat r)"
    "\<And>t. t < unat r \<Longrightarrow> \<not> ones_at (NOT (b ! unat i)) n t" and n: "n \<le> 64"
  shows "first_run b n lo (i * 64 + r) \<and> i * 64 + r \<noteq> noIdx"
proof (rule first_runI)
  have n0: "0 < n" using nfit by simp
  have nz: "b ! unat i \<noteq> 0" using nfit n by auto
  show "unat (i * 64 + r) = 64 * unat i + unat r" using unat_word_index [of i r] i r(1) by simp
  show "64 * unat i + unat r < 512" using i r(1) by simp
  show "lo \<le> 64 * unat i + unat r" using inv by (simp add: small_inv_def)
  show "run_free b n (64 * unat i + unat r)" using r(2) n0 i by (auto simp: ones_at_free run_free_def)
  show "\<not> run_free b n s" if s: "lo \<le> s" "s < 64 * unat i + unat r" for s
  proof (cases "64 * unat i \<le> s")
    case True
    then show ?thesis
      using r(2) r(3) [of "s - 64 * unat i"] s n0 by (auto simp: ones_at_free run_free_def)
  next
    case False
    then show ?thesis using small_inv_cut [OF inv alloc_at_tz [OF nz]] s nfit by auto
  qed
qed

lemma findSmallN_loop_spec:
  assumes b: "chunk_bits b" and n: "unat n \<le> 64"
    and "xs = drop (unat i) b" and "small_inv b (unat n) lo (unat i) (unat e)" and "idx_inv b lo (unat i) ns"
  shows "\<exists>r ns'. findSmallN_loop n s i xs e ns = Some (r, ns') \<and> first_run b (unat n) lo r \<and>
    (first_free b lo ns' \<or> ns' = s \<and> r \<noteq> noIdx)"
  using assms(3-)
proof (induction xs arbitrary: i e ns)
  case Nil
  then have i: "8 \<le> unat i" using b by simp
  have "\<not> run_free b (unat n) s" if "lo \<le> s" for s
  proof (cases "s < 64 * unat i - unat e")
    case True
    then show ?thesis using Nil.prems(2) that by (simp add: small_inv_def)
  next
    case False
    then show ?thesis using Nil.prems(2) i by (auto simp: small_inv_def run_free_def)
  qed
  moreover have "first_free b lo ns" using Nil.prems(3) i by (auto simp: idx_inv_def first_free_def)
  ultimately show ?case by (auto simp: first_run_def)
next
  case (Cons x xs)
  then have x: "unat i < 8" "b ! unat i = x" "xs = drop (Suc (unat i)) b"
    using b drop_Cons_nth [of "unat i" b x xs] by auto
  have inc: "unat (i + 1) = Suc (unat i)" using x(1) by (simp add: unat_word_ariths)
  note inv = Cons.prems(2) and idx = Cons.prems(3)
  show ?case
  proof (cases "NOT x = 0")
    case True
    then have "\<exists>r ns'. findSmallN_loop n s (i + 1) xs 0 ns = Some (r, ns') \<and> first_run b (unat n) lo r \<and>
      (first_free b lo ns' \<or> ns' = s \<and> r \<noteq> noIdx)"
      using small_inv_full [OF inv] idx_inv_full [OF idx] x inc by (intro Cons.IH) auto
    with True show ?thesis by simp
  next
    case False
    let ?ns = "if ns = noIdx then i * 64 + TrailingZeros64 (NOT x) else ns"
    have ns: "first_free b lo ?ns"
      using idx_inv_update [OF idx] x False inv by (auto simp: small_inv_def)
    have e: "unat e < 64" "lo + unat e \<le> 64 * unat i" using inv n by (auto simp: small_inv_def)
    have add: "unat (e + TrailingZeros64 x) = unat e + tz x"
      using e tz_le [of x] by (simp add: unat_word_ariths)
    show ?thesis
    proof (cases "n \<le> e + TrailingZeros64 x")
      case True
      have "first_run b (unat n) lo (i * 64 - e)"
        using small_fit_across [OF inv] True x b by (simp add: word_le_nat_alt add)
      with True False ns show ?thesis by (auto simp: Let_def)
    next
      case nfit: False
      then have lt: "unat e + tz x < unat n" by (simp add: word_le_nat_alt add)
      then have nz: "x \<noteq> 0" using n by auto
      obtain r where r: "findBitRange64 (NOT x) n = Some r" "unat r \<le> 64"
          "unat r < 64 \<Longrightarrow> ones_at (NOT x) (unat n) (unat r)"
          "\<And>t. t < unat r \<Longrightarrow> \<not> ones_at (NOT x) (unat n) t"
        using findBitRange64_Some [of n "NOT x"] lt n by auto
      show ?thesis
      proof (cases "r < 64")
        case True
        then have "first_run b (unat n) lo (i * 64 + r) \<and> i * 64 + r \<noteq> noIdx"
          using small_fit_inside [OF inv, of r] r(3,4) lt x n by (simp add: word_less_nat_alt)
        then show ?thesis using True False nfit r(1) by (auto simp: Let_def)
      next
        case r64: False
        then have "\<exists>r' ns'. findSmallN_loop n s (i + 1) xs (LeadingZeros64 x) ?ns = Some (r', ns') \<and>
          first_run b (unat n) lo r' \<and> (first_free b lo ns' \<or> ns' = s \<and> r' \<noteq> noIdx)"
          using small_inv_next [OF inv] nz lt n x inc r(2,4) first_free_idx_inv [OF ns]
          by (intro Cons.IH) (auto simp: word_less_nat_alt)
        with False nfit r64 r(1) show ?thesis by (simp add: Let_def)
      qed
    qed
  qed
qed


lemma findSmallN_spec:
  assumes "chunk_bits b" and "0 < unat n" and "unat n \<le> 64"
  shows "\<exists>r ns. findSmallN b n s = Some (r, ns) \<and> first_run b (unat n) (64 * (unat s div 64)) r \<and>
    (first_free b (64 * (unat s div 64)) ns \<or> ns = s \<and> r \<noteq> noIdx)"
  unfolding findSmallN_def
  by (rule findSmallN_loop_spec) (use assms in \<open>auto simp: small_inv_def idx_inv_def\<close>)

section \<open>More than 64 pages\<close>

text \<open>Before word \<open>i\<close>, the last \<open>e\<close> pages are free and no run of more than 64 pages starts earlier.\<close>

lemma large_inv_restart:
  assumes inv: "small_inv b n lo i e" and n: "64 < n" and e: "e = 0 \<or> e + tz (b ! i) < n \<and> b ! i \<noteq> 0"
  shows "small_inv b n lo (Suc i) (lz (b ! i))"
proof -
  let ?l = "lz (b ! i)"
  have l: "?l \<le> 64" by (rule lz_le)
  have "\<not> run_free b n s" if s: "lo \<le> s" "s < 64 * Suc i - ?l" for s
  proof (cases "64 * i \<le> s")
    case True
    then have nz: "b ! i \<noteq> 0" using s by auto
    have "s \<le> 64 * i + 63 - ?l" "64 * i + 63 - ?l < s + n" using True s n by auto
    then show ?thesis using alloc_at_lz [OF nz] run_free_hit by blast
  next
    case False
    show ?thesis
    proof (cases "e = 0")
      case True
      then show ?thesis using False inv s by (simp add: small_inv_def)
    next
      case nz: False
      then show ?thesis
        using small_inv_cut [OF inv alloc_at_tz] False e s by auto
    qed
  qed
  moreover have "\<not> pbit b p" if "64 * Suc i - ?l \<le> p" "p < 64 * Suc i" for p
    using free_above_lz [of i b p] that by (simp add: algebra_simps)
  ultimately show ?thesis using n l inv by (auto simp: small_inv_def)
qed

lemma large_inv_extend:
  assumes inv: "small_inv b n lo i e" and z: "b ! i = 0" and n: "e + 64 < n"
  shows "small_inv b n lo (Suc i) (e + 64)"
proof -
  have "\<not> pbit b p" if "64 * Suc i - (e + 64) \<le> p" "p < 64 * Suc i" for p
    using that inv free_below_tz [of i p b] z by (cases "p < 64 * i") (auto simp: small_inv_def)
  then show ?thesis using inv n by (auto simp: small_inv_def)
qed

lemma not_zero_iff: "NOT x = 0 \<longleftrightarrow> x = (- 1 :: u64)"
  by (metis bit.compl_zero bit.double_compl)

lemma findLargeN_loop_spec:
  assumes b: "chunk_bits b" and n: "64 < unat n"
    and "xs = drop (unat i) b" and "small_inv b (unat n) lo (unat i) (unat e)" and "idx_inv b lo (unat i) ns"
    and "e \<noteq> 0 \<longrightarrow> st = i * 64 - e" and "unat i \<le> 8 \<or> e = 0"
  shows "\<exists>r ns'. findLargeN_loop n i xs st e ns = (r, ns') \<and> first_run b (unat n) lo r \<and> first_free b lo ns'"
  using assms(3-)
proof (induction xs arbitrary: i e ns st)
  case Nil
  then have i: "8 \<le> unat i" using b by simp
  have e: "unat e < unat n" using Nil.prems(2) by (simp add: small_inv_def)
  have "\<not> run_free b (unat n) s" if "lo \<le> s" for s
  proof (cases "s < 64 * unat i - unat e")
    case True
    then show ?thesis using Nil.prems(2) that by (simp add: small_inv_def)
  next
    case False
    then show ?thesis using e i by (auto simp: run_free_def)
  qed
  moreover have "first_free b lo ns" using Nil.prems(3) i by (auto simp: idx_inv_def first_free_def)
  ultimately show ?case using e by (auto simp: first_run_def word_less_nat_alt)
next
  case (Cons x xs)
  then have x: "unat i < 8" "b ! unat i = x" "xs = drop (Suc (unat i)) b"
    using b drop_Cons_nth [of "unat i" b x xs] by auto
  have inc: "unat (i + 1) = Suc (unat i)" using x(1) by (simp add: unat_word_ariths)
  note inv = Cons.prems(2) and idx = Cons.prems(3)
  let ?ns = "if ns = noIdx then i * 64 + TrailingZeros64 (NOT x) else ns"
  let ?st = "i * 64 + 64 - LeadingZeros64 x"
  have st: "?st = (i + 1) * 64 - LeadingZeros64 x" by (simp add: algebra_simps)
  have e: "lo + unat e \<le> 64 * unat i" using inv by (simp add: small_inv_def)
  have add: "unat (TrailingZeros64 x + e) = unat e + tz x"
    using e x(1) tz_le [of x] by (simp add: unat_word_ariths)
  have ns: "first_free b lo ?ns" if "x \<noteq> NOT 0"
    using idx_inv_update [OF idx x(1)] x that e by (simp add: not_zero_iff split: if_splits)
  have rec: "\<exists>r ns'. findLargeN_loop n (i + 1) xs st' e' ns'' = (r, ns') \<and> first_run b (unat n) lo r \<and> first_free b lo ns'"
    if "small_inv b (unat n) lo (Suc (unat i)) (unat e')" "idx_inv b lo (Suc (unat i)) ns''"
      "e' \<noteq> 0 \<longrightarrow> st' = (i + 1) * 64 - e'" for st' e' ns''
    using that x inc by (intro Cons.IH) auto
  show ?case
  proof (cases "x = NOT 0")
    case True
    then show ?thesis
      using rec [of 0 ns st] small_inv_full [OF inv] idx_inv_full [OF idx] x by (simp add: not_zero_iff)
  next
    case nfull: False
    show ?thesis
    proof (cases "e \<noteq> 0 \<and> unat n \<le> unat e + tz x")
      case True
      then have "n \<le> TrailingZeros64 x + e" by (simp add: word_le_nat_alt add)
      moreover have "first_run b (unat n) lo st"
        using small_fit_across [OF inv] True x Cons.prems(4) by simp
      ultimately show ?thesis using True nfull ns by (simp add: Let_def)
    next
      case nfit: False
      then have lt: "e \<noteq> 0 \<Longrightarrow> \<not> n \<le> TrailingZeros64 x + e" by (simp add: word_le_nat_alt add)
      show ?thesis
      proof (cases "e = 0 \<or> x \<noteq> 0")
        case True
        then have "small_inv b (unat n) lo (Suc (unat i)) (unat (LeadingZeros64 x))"
          using large_inv_restart [OF inv n] nfit x by auto
        note inv' = this
        have "TrailingZeros64 x < 64 \<longleftrightarrow> x \<noteq> 0"
          using tz_64_iff [of x] tz_le [of x] by (simp add: word_less_nat_alt nat_less_le)
        then have "findLargeN_loop n i (x # xs) st e ns = findLargeN_loop n (i + 1) xs ?st (LeadingZeros64 x) ?ns"
          using True lt nfull by (cases "e = 0") (simp_all add: Let_def)
        then show ?thesis
          using rec [OF inv' first_free_idx_inv [OF ns [OF nfull]], of ?st] st by metis
      next
        case False
        then have "small_inv b (unat n) lo (Suc (unat i)) (unat (e + 64))"
          using large_inv_extend [OF inv] nfit x unat_add_noov [of e 64] e by simp
        note inv' = this
        have "TrailingZeros64 x = 64"
          using False tz_64_iff [of x] by (simp only: word_unat_eq_iff unat_TrailingZeros64) simp
        then have "findLargeN_loop n i (x # xs) st e ns = findLargeN_loop n (i + 1) xs st (e + 64) ?ns"
          using False lt nfull by (simp add: Let_def)
        moreover have "st = (i + 1) * 64 - (e + 64)" using Cons.prems(4) False by (simp add: algebra_simps)
        ultimately show ?thesis
          using rec [OF inv' first_free_idx_inv [OF ns [OF nfull]], of st] by metis
      qed
    qed
  qed
qed


lemma findLargeN_spec:
  assumes "chunk_bits b" and "64 < unat n"
  shows "\<exists>r ns. findLargeN b n s = (r, ns) \<and> first_run b (unat n) (64 * (unat s div 64)) r \<and>
    first_free b (64 * (unat s div 64)) ns"
  unfolding findLargeN_def
  by (rule findLargeN_loop_spec) (use assms in \<open>auto simp: small_inv_def idx_inv_def\<close>)


section \<open>The first-fit contract\<close>

text \<open>
  A search is a first-fit search when it returns, for every page count \<open>n\<close> it is written for, the
  first place from the word of \<open>searchIdx\<close> on where \<open>n\<close> pages are free. The contract determines the
  result, so two searches that meet it agree on the index.
\<close>

locale first_fit =
  fixes search :: "pallocBits \<Rightarrow> u64 \<Rightarrow> u64 \<Rightarrow> u64 option" and handles :: "u64 \<Rightarrow> bool"
  assumes finds: "chunk_bits b \<Longrightarrow> handles n \<Longrightarrow>
      \<exists>r. search b n s = Some r \<and> first_run b (unat n) (64 * (unat s div 64)) r"
    and positive: "handles n \<Longrightarrow> 0 < n"
begin

lemma found_free:
  assumes "chunk_bits b" and "handles n" and "search b n s = Some r" and "r \<noteq> noIdx"
  shows "unat r + unat n \<le> 512 \<and> (\<forall>t<unat n. \<not> pbit b (unat r + t))"
  using finds [OF assms(1,2), of s] assms(3-) by (auto simp: first_run_def run_free_def)

lemma found_bound:
  assumes "chunk_bits b" and "handles n" and "search b n s = Some r" and "r \<noteq> noIdx"
  shows "unat r < 512"
  using found_free [OF assms] positive [OF assms(2)] by (simp add: word_less_nat_alt)

lemma not_found:
  assumes "chunk_bits b" and "handles n" and "search b n s = Some noIdx" and "64 * (unat s div 64) \<le> p"
  shows "\<not> run_free b (unat n) p"
  using finds [OF assms(1,2), of s] assms(3-) by (auto simp: first_run_def)

lemma unique:
  assumes "chunk_bits b" and "handles n" and "first_run b (unat n) (64 * (unat s div 64)) r"
  shows "search b n s = Some r"
proof -
  obtain r' where r': "search b n s = Some r'" "first_run b (unat n) (64 * (unat s div 64)) r'"
    using finds [OF assms(1,2), of s] by auto
  have "unat r' = unat r" if "r \<noteq> noIdx" "r' \<noteq> noIdx"
    using that assms(3) r'(2) unfolding first_run_def by (metis linorder_neqE_nat)
  moreover have "r = noIdx \<longleftrightarrow> r' = noIdx"
    using assms(3) r'(2) unfolding first_run_def by (metis (no_types))
  ultimately have "r' = r" by (metis word_unat_eq_iff)
  with r' show ?thesis by simp
qed

end

text \<open>The searches of the source meet it, each for the page counts it is written for.\<close>

interpretation one: first_fit "\<lambda>b n s. Some (find1 b s)" "\<lambda>n. n = 1"
  by unfold_locales (use find1_first_free in \<open>auto simp: first_free_run\<close>)

interpretation small: first_fit "\<lambda>b n s. map_option fst (findSmallN b n s)" "\<lambda>n. 0 < n \<and> n \<le> 64"
proof unfold_locales
  fix b :: pallocBits and n s :: u64
  assume "chunk_bits b" and "0 < n \<and> n \<le> 64"
  then show "\<exists>r. map_option fst (findSmallN b n s) = Some r \<and> first_run b (unat n) (64 * (unat s div 64)) r"
    using findSmallN_spec [of b n s] by (auto simp: word_less_nat_alt word_le_nat_alt)
qed simp

interpretation large: first_fit "\<lambda>b n s. Some (fst (findLargeN b n s))" "\<lambda>n. 64 < n"
proof unfold_locales
  fix b :: pallocBits and n s :: u64
  assume "chunk_bits b" and "64 < n"
  then show "\<exists>r. Some (fst (findLargeN b n s)) = Some r \<and> first_run b (unat n) (64 * (unat s div 64)) r"
    using findLargeN_spec [of b n s] by (auto simp: word_less_nat_alt)
qed (auto simp: word_less_nat_alt)

lemma find_cases:
  "map_option fst (pallocBits_find b n s) =
     (if n = 1 then Some (find1 b s) else if n \<le> 64 then map_option fst (findSmallN b n s)
      else Some (fst (findLargeN b n s)))"
  by (simp add: pallocBits_find_def Let_def)

interpretation find: first_fit "\<lambda>b n s. map_option fst (pallocBits_find b n s)" "\<lambda>n. 0 < n"
proof unfold_locales
  fix b :: pallocBits and n s :: u64
  assume "chunk_bits b" and "0 < n"
  then show "\<exists>r. map_option fst (pallocBits_find b n s) = Some r \<and> first_run b (unat n) (64 * (unat s div 64)) r"
    using one.finds [of b n s] small.finds [of b n s] large.finds [of b n s]
    by (auto simp: find_cases not_le)
qed simp

section \<open>Properties\<close>

text \<open>
  \<open>findBitRange64\<close> terminates for every count from 1 to 64 and returns the index of the first
  run of \<open>n\<close> consecutive set bits of the word, and 64 exactly when there is none.
\<close>

lemma findBitRange64_correct:
  assumes "0 < unat n" and "unat n \<le> 64"
  shows "\<exists>r. findBitRange64 c n = Some r \<and>
    (if \<exists>i. ones_at c (unat n) i then ones_at c (unat n) (unat r) \<and> (\<forall>i<unat r. \<not> ones_at c (unat n) i)
     else r = 64)"
proof -
  obtain r where r: "findBitRange64 c n = Some r" "unat r \<le> 64" "unat r < 64 \<Longrightarrow> ones_at c (unat n) (unat r)"
      "\<And>i. i < unat r \<Longrightarrow> \<not> ones_at c (unat n) i"
    using findBitRange64_Some [OF assms] by blast
  have "i < 64" if "ones_at c (unat n) i" for i using ones_at_bound [OF that] assms by simp
  then have "unat r = 64" if "\<nexists>i. ones_at c (unat n) i" using r(2,3) that by (metis nat_less_le)
  moreover have "unat r < 64" if "ones_at c (unat n) i" for i
    using r(2,4) that \<open>\<And>i. ones_at c (unat n) i \<Longrightarrow> i < 64\<close> by (metis nat_less_le)
  ultimately show ?thesis using r by (auto simp: word_unat_eq_iff)
qed

text \<open>
  C4: \<open>find\<close> terminates on every chunk and every positive page count, whichever of its three
  searches it dispatches to, and returns the first place from the word of \<open>searchIdx\<close> on where
  \<open>npages\<close> contiguous pages are free; \<open>^uint(0)\<close> is returned exactly when there is none.
\<close>

theorem pallocBits_find_first_fit:
  assumes "chunk_bits b" and "0 < npages"
  shows "\<exists>addr idx. pallocBits_find b npages searchIdx = Some (addr, idx) \<and>
    (if addr = noIdx then \<forall>s. 64 * (unat searchIdx div 64) \<le> s \<longrightarrow> \<not> run_free b (unat npages) s
     else 64 * (unat searchIdx div 64) \<le> unat addr \<and> run_free b (unat npages) (unat addr) \<and>
       (\<forall>s. 64 * (unat searchIdx div 64) \<le> s \<and> s < unat addr \<longrightarrow> \<not> run_free b (unat npages) s))"
  using find.finds [OF assms, of searchIdx] by (auto simp: first_run_def)

theorem pallocBits_find_first_fit_witness:
  "\<exists>addr idx. pallocBits_find (0xFF # replicate 7 0) 60 5 = Some (addr, idx) \<and>
    (if addr = noIdx
     then \<forall>s. 64 * (unat (5 :: u64) div 64) \<le> s \<longrightarrow> \<not> run_free (0xFF # replicate 7 0) (unat (60 :: u64)) s
     else 64 * (unat (5 :: u64) div 64) \<le> unat addr \<and>
       run_free (0xFF # replicate 7 0) (unat (60 :: u64)) (unat addr) \<and>
       (\<forall>s. 64 * (unat (5 :: u64) div 64) \<le> s \<and> s < unat addr \<longrightarrow>
          \<not> run_free (0xFF # replicate 7 0) (unat (60 :: u64)) s))"
  by (rule pallocBits_find_first_fit) simp_all

text \<open>
  the second result of \<open>find\<close>, the page below which the caller may stop searching. For one page
  and for more than 64 it is the first free page; for 2 to 64 pages it is the first free page too,
  except when the run lies inside one word, where the code returns the index it was given.
\<close>

lemma pallocBits_find_search_index:
  assumes "chunk_bits b" and "0 < npages" and "pallocBits_find b npages searchIdx = Some (addr, idx)"
  shows "first_free b (64 * (unat searchIdx div 64)) idx \<or>
    1 < npages \<and> npages \<le> 64 \<and> idx = searchIdx \<and> addr \<noteq> noIdx"
proof -
  consider "npages = 1" | "npages \<noteq> 1" "npages \<le> 64" | "64 < npages" by fastforce
  then show ?thesis
  proof cases
    case 1
    then show ?thesis using assms find1_first_free by (auto simp: pallocBits_find_def Let_def)
  next
    case 2
    moreover have "1 < npages" using 2 assms(2) by (auto simp: word_less_nat_alt word_unat_eq_iff)
    ultimately show ?thesis using assms findSmallN_spec [of b npages searchIdx]
      by (auto simp: pallocBits_find_def word_less_nat_alt word_le_nat_alt)
  next
    case 3
    then have "npages \<noteq> 1" "\<not> npages \<le> 64" by auto
    then show ?thesis using assms findLargeN_spec [of b npages searchIdx] 3
      by (auto simp: pallocBits_find_def word_less_nat_alt)
  qed
qed

end
