(* ===== verification/PallocSummary.thy ===== *)
theory PallocSummary
  imports PallocFind
begin

unbundle bit_operations_syntax

text \<open>
  Summaries of page bitmaps: \<open>summarize\<close> of \<open>mpallocbits.go\<close> and \<open>packPallocSum\<close>, \<open>unpack\<close>, the
  accessors and \<open>mergeSummaries\<close> of \<open>mpagealloc.go\<close>. The specification is on lists of booleans, one
  per page: \<open>lead\<close>, \<open>longest\<close> and \<open>trail\<close> are the free pages at the front, in the longest run and at
  the back. A summary of a list is these three numbers packed; \<open>summarize\<close> computes it from the
  words without looking at single bits, and \<open>mergeSummaries\<close> computes the summary of a
  concatenation from the summaries of its parts.
\<close>

section \<open>Packed summaries\<close>

text \<open>
  \<open>pallocSum\<close>: three page counts of 21 bits each, or bit 63 alone for three times \<open>2\<^sup>2\<^sup>1\<close>.
  The constants \<open>logMaxPackedValue = 21\<close> and \<open>maxPackedValue = 1 << 21\<close>.
\<close>

type_synonym pallocSum = u64

definition logMaxPackedValue :: u64 where
  "logMaxPackedValue = 21"

definition maxPackedValue :: u64 where
  "maxPackedValue = 0x200000"

definition freeChunkSum :: pallocSum where
  "freeChunkSum = 512 OR shl 512 logMaxPackedValue OR shl 512 (2 * logMaxPackedValue)"

definition packPallocSum :: "u64 \<Rightarrow> u64 \<Rightarrow> u64 \<Rightarrow> pallocSum" where
  "packPallocSum start mx end =
     (if mx = maxPackedValue then shl 1 63
      else (start AND (maxPackedValue - 1)) OR
           shl (mx AND (maxPackedValue - 1)) logMaxPackedValue OR
           shl (end AND (maxPackedValue - 1)) (2 * logMaxPackedValue))"

definition pallocSum_start :: "pallocSum \<Rightarrow> u64" where
  "pallocSum_start p = (if p AND shl 1 63 \<noteq> 0 then maxPackedValue else p AND (maxPackedValue - 1))"

definition pallocSum_max :: "pallocSum \<Rightarrow> u64" where
  "pallocSum_max p =
     (if p AND shl 1 63 \<noteq> 0 then maxPackedValue else shr p logMaxPackedValue AND (maxPackedValue - 1))"

definition pallocSum_end :: "pallocSum \<Rightarrow> u64" where
  "pallocSum_end p =
     (if p AND shl 1 63 \<noteq> 0 then maxPackedValue else shr p (2 * logMaxPackedValue) AND (maxPackedValue - 1))"

definition pallocSum_unpack :: "pallocSum \<Rightarrow> u64 \<times> u64 \<times> u64" where
  "pallocSum_unpack p =
     (if p AND shl 1 63 \<noteq> 0 then (maxPackedValue, maxPackedValue, maxPackedValue)
      else (p AND (maxPackedValue - 1),
            shr p logMaxPackedValue AND (maxPackedValue - 1),
            shr p (2 * logMaxPackedValue) AND (maxPackedValue - 1)))"

fun mergeSummaries_loop ::
  "u64 \<Rightarrow> u64 \<Rightarrow> pallocSum list \<Rightarrow> u64 \<Rightarrow> u64 \<Rightarrow> u64 \<Rightarrow> u64 \<times> u64 \<times> u64" where
  "mergeSummaries_loop logMaxPagesPerSum i [] start mx end = (start, mx, end)"
| "mergeSummaries_loop logMaxPagesPerSum i (s # sums) start mx end =
     (let (si, mi, ei) = pallocSum_unpack s;
          start = (if start = shl i logMaxPagesPerSum then start + si else start);
          mx = (if end + si > mx then end + si else mx);
          mx = (if mi > mx then mi else mx);
          end = (if ei = shl 1 logMaxPagesPerSum then end + shl 1 logMaxPagesPerSum else ei)
      in mergeSummaries_loop logMaxPagesPerSum (i + 1) sums start mx end)"

fun mergeSummaries :: "pallocSum list \<Rightarrow> u64 \<Rightarrow> pallocSum res" where
  "mergeSummaries [] logMaxPagesPerSum = Inl IndexPanic"
| "mergeSummaries (s # sums) logMaxPagesPerSum =
     (let (start, mx, end) = pallocSum_unpack s;
          (start, mx, end) = mergeSummaries_loop logMaxPagesPerSum 1 sums start mx end
      in Inr (packPallocSum start mx end))"

section \<open>Summarising a chunk\<close>

text \<open>The scan over the words, for the runs that reach a word boundary.\<close>

fun summarize_scan :: "u64 list \<Rightarrow> u64 \<Rightarrow> u64 \<Rightarrow> u64 \<Rightarrow> u64 \<times> u64 \<times> u64" where
  "summarize_scan [] start mx cur = (start, mx, cur)"
| "summarize_scan (x # xs) start mx cur =
     (if x = 0 then summarize_scan xs start mx (cur + 64)
      else
        let t = TrailingZeros64 x;
            l = LeadingZeros64 x;
            cur = cur + t;
            start = (if start = noIdx then cur else start);
            mx = (if cur > mx then cur else mx)
        in summarize_scan xs start mx l)"

text \<open>
  The loop that shrinks every run of zeros of a word by \<open>p\<close>. The inner \<open>None\<close> is \<open>continue outer\<close>:
  no zeros are left below the top one.
\<close>

partial_function (option) summarize_shrink :: "u64 \<Rightarrow> u64 \<Rightarrow> u64 \<Rightarrow> (u64 \<times> u64) option option" where
  "summarize_shrink x p k =
     (if p > 0
      then if p \<le> k
           then let x' = x OR shr x (p AND 63)
                in if x' AND (x' + 1) = 0 then Some None else Some (Some (x', k))
           else let x' = x OR shr x (k AND 63)
                in if x' AND (x' + 1) = 0 then Some None
                   else summarize_shrink x' (p - k) (k * 2)
      else Some (Some (x, k)))"

declare summarize_shrink.simps [code]

text \<open>The loop around it: what is left of the lowest run of zeros is added to the maximum.\<close>

partial_function (option) summarize_grow :: "u64 \<Rightarrow> u64 \<Rightarrow> u64 \<Rightarrow> u64 \<Rightarrow> u64 option" where
  "summarize_grow x p k mx =
     Option.bind (summarize_shrink x p k) (\<lambda>r. case r of
       None \<Rightarrow> Some mx
     | Some (x, k) \<Rightarrow>
         let j = TrailingZeros64 (NOT x);
             x = shr x (j AND 63);
             j = TrailingZeros64 x;
             x = shr x (j AND 63);
             mx = mx + j
         in if x AND (x + 1) = 0 then Some mx else summarize_grow x j k mx)"

declare summarize_grow.simps [code]

fun summarize_words :: "u64 list \<Rightarrow> u64 \<Rightarrow> u64 option" where
  "summarize_words [] mx = Some mx"
| "summarize_words (x # xs) mx =
     (let x = shr x (TrailingZeros64 x AND 63)
      in if x AND (x + 1) = 0 then summarize_words xs mx
         else Option.bind (summarize_grow x mx 1 mx) (\<lambda>mx. summarize_words xs mx))"

definition summarize :: "pallocBits \<Rightarrow> pallocSum option" where
  "summarize b =
     (let (start, mx, cur) = summarize_scan b noIdx 0 0
      in if start = noIdx
         then let n = 64 * of_nat (length b) in Some (packPallocSum n n n)
         else
           let mx = (if cur > mx then cur else mx)
           in if mx \<ge> 64 - 2 then Some (packPallocSum start mx cur)
              else Option.bind (summarize_words b mx) (\<lambda>mx. Some (packPallocSum start mx cur)))"

section \<open>The specification: runs of free pages in a list\<close>

text \<open>Free pages at the front, at the back, and the longest run; \<open>True\<close> is a free page.\<close>

definition lead :: "bool list \<Rightarrow> nat" where
  "lead xs = length (takeWhile id xs)"

definition trail :: "bool list \<Rightarrow> nat" where
  "trail xs = lead (rev xs)"

fun longest :: "bool list \<Rightarrow> nat" where
  "longest [] = 0"
| "longest (x # xs) = max (lead (x # xs)) (longest xs)"

lemma lead_simps [simp]: "lead [] = 0" "lead (True # xs) = Suc (lead xs)" "lead (False # xs) = 0"
  by (simp_all add: lead_def)

lemma trail_Nil [simp]: "trail [] = 0"
  by (simp add: trail_def)

lemma lead_le: "lead xs \<le> length xs"
  by (simp add: lead_def length_takeWhile_le)

lemma trail_le: "trail xs \<le> length xs"
  using lead_le [of "rev xs"] by (simp add: trail_def)

lemma lead_append: "lead (xs @ ys) = (if lead xs = length xs then length xs + lead ys else lead xs)"
proof (induction xs)
  case (Cons x xs)
  then show ?case by (cases x) auto
qed simp

lemma trail_append: "trail (xs @ ys) = (if trail ys = length ys then length ys + trail xs else trail ys)"
  by (simp add: trail_def lead_append)

lemma lead_all: "lead xs = length xs \<longleftrightarrow> (\<forall>x\<in>set xs. x)"
proof (induction xs)
  case (Cons x xs)
  then show ?case by (cases x) auto
qed simp

lemma trail_all: "trail xs = length xs \<longleftrightarrow> lead xs = length xs"
  using lead_all [of "rev xs"] by (simp add: trail_def lead_all)

lemma longest_iff: "n \<le> longest xs \<longleftrightarrow> (\<exists>i. i + n \<le> length xs \<and> (\<forall>t<n. xs ! (i + t)))"
proof (induction xs)
  case Nil
  then show ?case by auto
next
  case (Cons x xs)
  have lead: "n \<le> lead zs \<longleftrightarrow> n \<le> length zs \<and> (\<forall>t<n. zs ! t)" for zs
  proof (induction zs arbitrary: n)
    case (Cons z zs)
    then show ?case by (cases n; cases z) (auto simp: All_less_Suc2)
  qed auto
  have "(\<exists>i. i + n \<le> length (x # xs) \<and> (\<forall>t<n. (x # xs) ! (i + t))) \<longleftrightarrow>
    n \<le> lead (x # xs) \<or> (\<exists>i. i + n \<le> length xs \<and> (\<forall>t<n. xs ! (i + t)))"
    unfolding lead by (rule iffI, metis add_0 add_Suc length_Cons not0_implies_Suc nth_Cons_Suc Suc_le_mono,
        metis add_0 add_Suc length_Cons nth_Cons_Suc Suc_le_mono)
  with Cons show ?case by (auto simp: le_max_iff_disj)
qed

lemma longest_le: "longest xs \<le> length xs"
  using longest_iff [of "longest xs" xs] by auto

lemma lead_le_longest: "lead xs \<le> longest xs"
  by (cases xs) auto

lemma longest_append: "longest (xs @ ys) = max (max (longest xs) (longest ys)) (trail xs + lead ys)"
proof (induction xs)
  case Nil
  then show ?case using lead_le_longest [of ys] by auto
next
  case (Cons x xs)
  have t: "trail (x # xs) = (if trail xs = length xs then length xs + (if x then 1 else 0) else trail xs)"
    using trail_append [of "[x]" xs] by (cases x) (simp_all add: trail_def)
  show ?case
  proof (cases "x \<and> lead xs = length xs")
    case True
    then show ?thesis using Cons lead_append [of xs ys] t trail_all [of xs] by auto
  next
    case False
    then show ?thesis using Cons lead_append [of "x # xs" ys] t trail_all [of xs] lead_le [of xs]
      by (cases x) (auto simp: max_def)
  qed
qed

lemma longest_all: "longest xs = length xs \<longleftrightarrow> lead xs = length xs"
proof
  assume "longest xs = length xs"
  then obtain i where "i + length xs \<le> length xs" "\<forall>t<length xs. xs ! (i + t)"
    using longest_iff [of "length xs" xs] by auto
  then show "lead xs = length xs" by (auto simp: lead_all in_set_conv_nth)
next
  assume "lead xs = length xs"
  then show "longest xs = length xs" using lead_le_longest [of xs] longest_le [of xs] by simp
qed

lemma trail_le_longest: "trail xs \<le> longest xs"
  using longest_append [of xs "[]"] by simp

section \<open>Packing and unpacking\<close>

lemma maxPacked_mask: "maxPackedValue - 1 = mask 21"
  by (simp add: maxPackedValue_def mask_eq_exp_minus_1)

lemma bit_63: "p AND shl 1 63 \<noteq> 0 \<longleftrightarrow> bit p 63" for p :: u64
proof
  assume "p AND shl 1 63 \<noteq> 0"
  then obtain k where "bit (p AND shl 1 63) k" using bit_eqI [of "p AND shl 1 63" 0] by auto
  then show "bit p 63" by (auto simp: bit_simps)
next
  assume "bit p 63"
  then have "bit (p AND shl 1 63) 63" by (simp add: bit_simps)
  then show "p AND shl 1 63 \<noteq> 0" by (metis bit_0_eq bot_apply bot_bool_def)
qed

lemma unpack_pack:
  assumes "unat s < 2 ^ 21" and "unat m < 2 ^ 21" and "unat e < 2 ^ 21"
  shows "pallocSum_unpack (packPallocSum s m e) = (s, m, e)"
proof -
  note lt = assms [THEN less_exp_bit]
  have m: "m \<noteq> maxPackedValue" using assms(2) by (auto simp: maxPackedValue_def)
  have "\<not> bit (packPallocSum s m e) 63"
    using m lt by (auto simp: packPallocSum_def maxPacked_mask logMaxPackedValue_def bit_simps)
  moreover have "packPallocSum s m e AND mask 21 = s"
    using m by (intro bit_word_eqI) (auto simp: packPallocSum_def maxPacked_mask logMaxPackedValue_def bit_simps dest: lt)
  moreover have "shr (packPallocSum s m e) 21 AND mask 21 = m"
    using m by (intro bit_word_eqI) (auto simp: packPallocSum_def maxPacked_mask logMaxPackedValue_def bit_simps dest: lt)
  moreover have "shr (packPallocSum s m e) 42 AND mask 21 = e"
    using m by (intro bit_word_eqI) (auto simp: packPallocSum_def maxPacked_mask logMaxPackedValue_def bit_simps dest: lt)
  ultimately show ?thesis
    by (simp add: pallocSum_unpack_def bit_63 maxPacked_mask logMaxPackedValue_def)
qed

lemma unpack_pack_full: "pallocSum_unpack (packPallocSum s maxPackedValue e) = (maxPackedValue, maxPackedValue, maxPackedValue)"
proof -
  have "shl 1 63 AND shl 1 63 \<noteq> (0 :: u64)" unfolding bit_63 by (simp add: bit_simps)
  then show ?thesis by (simp add: pallocSum_unpack_def packPallocSum_def)
qed

text \<open>The three accessors read the fields that \<open>unpack\<close> returns.\<close>

lemma unpack_accessors: "pallocSum_unpack p = (pallocSum_start p, pallocSum_max p, pallocSum_end p)"
  by (simp add: pallocSum_unpack_def pallocSum_start_def pallocSum_max_def pallocSum_end_def)

text \<open>The summary of a list of pages.\<close>

definition sum_of :: "bool list \<Rightarrow> pallocSum" where
  "sum_of xs = packPallocSum (of_nat (lead xs)) (of_nat (longest xs)) (of_nat (trail xs))"

lemma unat_of_nat_small: "n \<le> 2 ^ 21 \<Longrightarrow> unat (of_nat n :: u64) = n"
  by (simp add: unat_of_nat)

lemma unpack_sum_of:
  assumes "length xs \<le> 2 ^ 21"
  shows "pallocSum_unpack (sum_of xs) = (of_nat (lead xs), of_nat (longest xs), of_nat (trail xs))"
proof (cases "longest xs = 2 ^ 21")
  case True
  then have len: "longest xs = length xs" using assms longest_le [of xs] by simp
  then have "lead xs = length xs" "trail xs = length xs" by (simp_all add: longest_all trail_all)
  then show ?thesis
    using True len unpack_pack_full by (simp add: sum_of_def maxPackedValue_def)
next
  case False
  then have l: "longest xs < 2 ^ 21" using assms longest_le [of xs] by simp
  moreover have "lead xs < 2 ^ 21" "trail xs < 2 ^ 21"
    using l lead_le_longest [of xs] trail_le_longest [of xs] by simp_all
  ultimately show ?thesis unfolding sum_of_def by (intro unpack_pack) (simp_all add: unat_of_nat)
qed

section \<open>Merging\<close>

lemma of_nat_eq_small:
  "a \<le> 2 ^ 22 \<Longrightarrow> b \<le> 2 ^ 22 \<Longrightarrow> (of_nat a :: u64) = of_nat b \<longleftrightarrow> a = b"
  by (simp add: word_of_nat_eq_iff take_bit_nat_eq_self)

lemma of_nat_less_small:
  "a \<le> 2 ^ 22 \<Longrightarrow> b \<le> 2 ^ 22 \<Longrightarrow> (of_nat a :: u64) < of_nat b \<longleftrightarrow> a < b"
  by (simp add: word_of_nat_less_iff take_bit_nat_eq_self)

lemma shl_of_nat: "shl (of_nat i) l = (of_nat (i * 2 ^ unat l) :: u64)"
  by (simp add: shl_def push_bit_eq_mult)

lemma of_nat_max_if:
  "a \<le> 2 ^ 22 \<Longrightarrow> b \<le> 2 ^ 22 \<Longrightarrow> (if (of_nat b :: u64) < of_nat a then of_nat a else of_nat b) = (of_nat (max a b) :: u64)"
  by (auto simp: of_nat_less_small max_def)

lemma merge_step:
  assumes "length F + length xs \<le> 2 ^ 21" and "length xs = 2 ^ unat l" and "length F = i * 2 ^ unat l"
  shows "mergeSummaries_loop l (of_nat i) (sum_of xs # sums) (of_nat (lead F)) (of_nat (longest F)) (of_nat (trail F)) =
    mergeSummaries_loop l (of_nat (Suc i)) sums
      (of_nat (lead (F @ xs))) (of_nat (longest (F @ xs))) (of_nat (trail (F @ xs)))"
proof -
  note b = lead_le [of F] longest_le [of F] trail_le [of F] lead_le [of xs] longest_le [of xs] trail_le [of xs]
  have x: "pallocSum_unpack (sum_of xs) = (of_nat (lead xs), of_nat (longest xs), of_nat (trail xs))"
    using assms(1) by (intro unpack_sum_of) simp
  have eq: "shl (of_nat i) l = (of_nat (length F) :: u64)" by (simp add: shl_of_nat assms(3))
  have st: "(if of_nat (lead F) = (shl (of_nat i) l :: u64) then of_nat (lead F) + of_nat (lead xs) else of_nat (lead F)) =
      (of_nat (lead (F @ xs)) :: u64)"
    using assms b of_nat_eq_small [of "lead F" "length F"] by (simp add: lead_append eq)
  have mx: "(if (of_nat (longest F) :: u64) < of_nat (trail F) + of_nat (lead xs)
       then of_nat (trail F) + of_nat (lead xs) else of_nat (longest F)) =
      (of_nat (max (trail F + lead xs) (longest F)) :: u64)"
    unfolding of_nat_add [symmetric] by (rule of_nat_max_if) (use assms(1) b in simp_all)
  have mx': "(if (of_nat (max (trail F + lead xs) (longest F)) :: u64) < of_nat (longest xs)
       then of_nat (longest xs) else of_nat (max (trail F + lead xs) (longest F))) =
      (of_nat (longest (F @ xs)) :: u64)"
    using assms(1) b of_nat_max_if [of "longest xs" "max (trail F + lead xs) (longest F)"]
    by (simp add: longest_append max.commute max.left_commute)
  have en: "(if of_nat (trail xs) = (shl 1 l :: u64) then of_nat (trail F) + shl 1 l else of_nat (trail xs)) =
      (of_nat (trail (F @ xs)) :: u64)"
    using assms b shl_of_nat [of 1 l] of_nat_eq_small [of "trail xs" "2 ^ unat l"]
    by (simp add: trail_append add.commute)
  have i: "of_nat (Suc i) = of_nat i + (1 :: u64)" by simp
  show ?thesis by (simp only: mergeSummaries_loop.simps x Let_def prod.case st mx mx' en i)
qed

lemma mergeSummaries_loop_spec:
  assumes "\<forall>xs\<in>set xss. length xs = 2 ^ unat l" and "length F = i * 2 ^ unat l"
    and "length F + length xss * 2 ^ unat l \<le> 2 ^ 21"
  shows "mergeSummaries_loop l (of_nat i) (map sum_of xss) (of_nat (lead F)) (of_nat (longest F)) (of_nat (trail F)) =
    (let G = F @ concat xss in (of_nat (lead G), of_nat (longest G), of_nat (trail G)))"
  using assms
proof (induction xss arbitrary: F i)
  case (Cons xs xss)
  have "length F + length xs \<le> 2 ^ 21" "length xs = 2 ^ unat l" using Cons.prems by auto
  moreover have "mergeSummaries_loop l (of_nat (Suc i)) (map sum_of xss)
      (of_nat (lead (F @ xs))) (of_nat (longest (F @ xs))) (of_nat (trail (F @ xs))) =
    (let G = (F @ xs) @ concat xss in (of_nat (lead G), of_nat (longest G), of_nat (trail G)))"
    using Cons.prems by (intro Cons.IH) auto
  ultimately show ?case using Cons.prems(2) by (simp add: merge_step del: of_nat_Suc mergeSummaries_loop.simps)
qed (simp add: Let_def)

lemma mergeSummaries_concat:
  assumes "xss \<noteq> []" and "\<forall>xs\<in>set xss. length xs = 2 ^ unat l" and "length xss * 2 ^ unat l \<le> 2 ^ 21"
  shows "mergeSummaries (map sum_of xss) l = Inr (sum_of (concat xss))"
proof -
  obtain ys yss where x: "xss = ys # yss" using assms(1) by (cases xss) auto
  then have "pallocSum_unpack (sum_of ys) = (of_nat (lead ys), of_nat (longest ys), of_nat (trail ys))"
    using assms by (intro unpack_sum_of) auto
  moreover have "mergeSummaries_loop l (of_nat 1) (map sum_of yss) (of_nat (lead ys)) (of_nat (longest ys)) (of_nat (trail ys)) =
    (let G = ys @ concat yss in (of_nat (lead G), of_nat (longest G), of_nat (trail G)))"
    using assms x by (intro mergeSummaries_loop_spec) auto
  ultimately show ?thesis by (simp add: x Let_def sum_of_def [of "concat xss"] sum_of_def [of "ys @ concat yss"])
qed

section \<open>Runs of zeros below the top one\<close>

text \<open>\<open>hole y n\<close>: the word has \<open>n\<close> consecutive zeros somewhere below a one.\<close>

definition hole :: "u64 \<Rightarrow> nat \<Rightarrow> bool" where
  "hole y n \<longleftrightarrow> (\<exists>i. (\<forall>t<n. \<not> bit y (i + t)) \<and> (\<exists>u\<ge>i + n. bit y u))"

text \<open>\<open>smeared x y s\<close>: \<open>x\<close> is \<open>y\<close> with every run of zeros below a one shrunk by \<open>s\<close>.\<close>

definition smeared :: "u64 \<Rightarrow> u64 \<Rightarrow> nat \<Rightarrow> bool" where
  "smeared x y s \<longleftrightarrow> (\<forall>i. bit x i \<longleftrightarrow> (\<exists>t\<le> s. bit y (i + t)))"

lemma hole_antimono: "hole y n \<Longrightarrow> m \<le> n \<Longrightarrow> hole y m"
  unfolding hole_def by (meson add_le_mono le_refl order_less_le_trans order_trans)

lemma hole_bound: "hole y n \<Longrightarrow> n \<le> 63"
  unfolding hole_def using bit_imp_le_length [of y] by fastforce

lemma hole_one: "hole x 1 \<longleftrightarrow> (\<exists>i u. \<not> bit x i \<and> i < u \<and> bit x u)"
  by (auto simp: hole_def Suc_le_eq)

lemma smeared_refl: "smeared x x 0"
  by (simp add: smeared_def)

lemma smeared_shr:
  assumes "smeared x y s" and "unat p \<le> Suc s" and "unat p < 64"
  shows "smeared (x OR shr x (p AND 63)) y (s + unat p)"
  unfolding smeared_def
proof
  fix i
  have p: "unat (p AND 63) = unat p" using assms(3) by (simp add: and_63)
  have "bit (x OR shr x (p AND 63)) i \<longleftrightarrow> (\<exists>t\<le> s. bit y (i + t)) \<or> (\<exists>t\<le> s. bit y (i + (unat p + t)))"
    using assms(1) by (simp add: bit_simps p smeared_def ac_simps)
  also have "\<dots> \<longleftrightarrow> (\<exists>t\<le> s + unat p. bit y (i + t))"
  proof
    assume "\<exists>t\<le> s + unat p. bit y (i + t)"
    then obtain t where t: "t \<le> s + unat p" "bit y (i + t)" by auto
    show "(\<exists>t\<le> s. bit y (i + t)) \<or> (\<exists>t\<le> s. bit y (i + (unat p + t)))"
    proof (cases "t \<le> s")
      case False
      then have "t - unat p \<le> s" "unat p + (t - unat p) = t" using t assms(2) by auto
      then show ?thesis using t(2) by metis
    qed (use t in blast)
  qed (metis add.commute add_le_cancel_left le_add1 order_trans)
  finally show "bit (x OR shr x (p AND 63)) i \<longleftrightarrow> (\<exists>t\<le> s + unat p. bit y (i + t))" .
qed

lemma hole_smeared:
  assumes "smeared x y s"
  shows "hole x 1 \<longleftrightarrow> hole y (Suc s)"
proof
  assume "hole x 1"
  then obtain i u where "\<not> bit x i" "i < u" "bit x u" by (auto simp only: hole_one)
  then obtain t where "\<forall>t\<le> s. \<not> bit y (i + t)" "bit y (u + t)" using assms by (auto simp: smeared_def)
  moreover have "i + Suc s \<le> u + t"
  proof (rule ccontr)
    assume "\<not> i + Suc s \<le> u + t"
    then have "u + t - i \<le> s" "i + (u + t - i) = u + t" using \<open>i < u\<close> by auto
    then show False using calculation by metis
  qed
  ultimately show "hole y (Suc s)" unfolding hole_def by (auto simp: less_Suc_eq_le)
next
  assume "hole y (Suc s)"
  then obtain i u where i: "\<forall>t\<le> s. \<not> bit y (i + t)" "i + Suc s \<le> u" "bit y u"
    by (auto simp: hole_def less_Suc_eq_le)
  then have "bit x (u - s)" using assms by (auto simp: smeared_def intro!: exI [of _ s])
  moreover have "\<not> bit x i" using i assms by (auto simp: smeared_def)
  ultimately show "hole x 1" using i unfolding hole_one by (intro exI [of _ i] exI [of _ "u - s"]) auto
qed

text \<open>The code's test for it.\<close>

lemma no_hole_mask:
  assumes "\<not> hole x 1"
  shows "x = mask (tz (NOT x))"
proof (rule bit_word_eqI)
  fix i assume i: "i < LENGTH(64)"
  show "bit x i \<longleftrightarrow> bit (mask (tz (NOT x)) :: u64) i"
  proof (cases "i < tz (NOT x)")
    case True
    then show ?thesis using not_bit_below [OF True] i by (simp add: bit_simps)
  next
    case False
    then have "NOT x \<noteq> 0" using i by auto
    then have "\<not> bit x (tz (NOT x))" using bit_tz [of "NOT x"] by (simp add: bit_not_iff)
    then have "\<not> bit x i" using assms False unfolding hole_one by (metis linorder_neqE_nat)
    then show ?thesis using False by (simp add: bit_mask_iff)
  qed
qed

lemma mask_and_exp: "mask n AND (mask n + 1) = (0 :: u64)"
proof -
  have "mask n + 1 = (2 ^ n :: u64)" by (simp add: mask_eq_exp_minus_1)
  then show ?thesis by (auto intro: bit_word_eqI simp: bit_simps)
qed

lemma solid_iff: "x AND (x + 1) = 0 \<longleftrightarrow> \<not> hole x 1" for x :: u64
proof
  assume "\<not> hole x 1"
  then show "x AND (x + 1) = 0" using no_hole_mask mask_and_exp by metis
next
  assume z: "x AND (x + 1) = 0"
  show "\<not> hole x 1"
  proof
    assume "hole x 1"
    then obtain i u where i: "\<not> bit x i" "i < u" "bit x u" by (auto simp only: hole_one)
    define k where "k = tz (NOT x)"
    have u: "u < 64" using bit_imp_le_length [OF i(3)] by simp
    have nx: "NOT x \<noteq> 0" using i u unfolding all_ones by (meson order_less_trans)
    then have k: "k < 64" "\<not> bit x k" and low: "\<And>j. j < k \<Longrightarrow> bit x j"
      using tz_less [OF nx] bit_tz [OF nx] not_bit_below [of _ "NOT x"] by (auto simp: k_def bit_simps)
    have "x = (x AND NOT (mask k)) OR mask k"
      by (rule bit_word_eqI) (auto simp: bit_simps low)
    also have "\<dots> = (x AND NOT (mask k)) + mask k"
      by (rule disjunctive_add [symmetric]) (auto simp: bit_simps)
    finally have "x + 1 = (x AND NOT (mask k)) + (mask k + 1)" by (metis add.assoc)
    also have "\<dots> = (x AND NOT (mask k)) + 2 ^ k" by (simp add: mask_eq_exp_minus_1)
    also have "\<dots> = (x AND NOT (mask k)) OR 2 ^ k"
      by (rule disjunctive_add) (use k in \<open>auto simp: bit_simps\<close>)
    finally have "bit (x + 1) u" using low [of i] i u by (cases "i < k") (auto simp: bit_simps)
    then have "bit (x AND (x + 1)) u" using i by (simp add: bit_simps)
    then show False using z by simp
  qed
qed

section \<open>The loops over one word\<close>

lemma shrink_spec:
  assumes "smeared x y s" and "1 \<le> unat k" and "unat k \<le> Suc s" and "s + unat p \<le> 63" and "hole y (Suc s)"
  shows "(\<exists>x' k'. summarize_shrink x p k = Some (Some (x', k')) \<and> smeared x' y (s + unat p) \<and>
      1 \<le> unat k' \<and> unat k' \<le> Suc (s + unat p) \<and> hole y (Suc (s + unat p))) \<or>
    summarize_shrink x p k = Some None \<and> \<not> hole y (Suc (s + unat p))"
  using assms
proof (induction "unat p" arbitrary: x p k s rule: less_induct)
  case less
  show ?case
  proof (cases "p = 0")
    case True
    then show ?thesis using less.prems by (simp add: summarize_shrink.simps)
  next
    case False
    then have p0: "0 < p" "0 < unat p" by (simp_all add: word_neq_0_conv unat_gt_0)
    show ?thesis
    proof (cases "p \<le> k")
      case True
      let ?x = "x OR shr x (p AND 63)"
      have "smeared ?x y (s + unat p)"
        using less.prems True by (intro smeared_shr) (auto simp: word_le_nat_alt)
      then show ?thesis
        using True p0 less.prems(2,3) hole_smeared [of ?x y "s + unat p"]
        by (simp add: summarize_shrink.simps [of x p k] Let_def solid_iff)
    next
      case kp: False
      let ?x = "x OR shr x (k AND 63)"
      have lt: "unat k < unat p" using kp by (simp add: word_le_nat_alt)
      then have sub: "unat (p - k) = unat p - unat k" by (simp add: unat_sub_if')
      have k2: "unat (k * 2) = 2 * unat k" using lt less.prems(4) by (simp add: unat_word_ariths)
      have sm: "smeared ?x y (s + unat k)"
        using less.prems lt by (intro smeared_shr) auto
      note step = summarize_shrink.simps [of x p k]
      show ?thesis
      proof (cases "hole y (Suc (s + unat k))")
        case True
        then have "summarize_shrink x p k = summarize_shrink ?x (p - k) (k * 2)"
          using step p0 kp hole_smeared [OF sm] by (simp add: Let_def solid_iff)
        moreover have "s + unat k + unat (p - k) = s + unat p" using sub lt by simp
        ultimately show ?thesis
          using less.hyps [of "p - k" ?x "s + unat k" "k * 2"] sub lt k2 sm True less.prems by auto
      next
        case False
        then have "summarize_shrink x p k = Some None"
          using step p0 kp hole_smeared [OF sm] by (simp add: Let_def solid_iff)
        then show ?thesis using False lt hole_antimono [of y "Suc (s + unat p)"] by auto
      qed
    qed
  qed
qed

text \<open>Removing the lowest run of ones and the zeros above it.\<close>

lemma lowest_run:
  assumes "hole x 1"
  obtains a c where "tz (NOT x) = a" and "tz (shr x (of_nat a)) = c" and "0 < c" and "a + c < 64"
    and "\<And>i. i < a \<Longrightarrow> bit x i" and "\<And>i. i < c \<Longrightarrow> \<not> bit x (a + i)" and "bit x (a + c)"
proof -
  obtain i u where i: "\<not> bit x i" "i < u" "bit x u" using assms unfolding hole_one by auto
  then have u: "u < 64" using bit_imp_le_length [OF i(3)] by simp
  have nx: "NOT x \<noteq> 0" using i u unfolding all_ones by (meson order_less_trans)
  define a where "a = tz (NOT x)"
  have a: "a < 64" "\<not> bit x a" "\<And>i. i < a \<Longrightarrow> bit x i"
    using tz_less [OF nx] bit_tz [OF nx] not_bit_below [of _ "NOT x"] by (auto simp: a_def bit_simps)
  then have ai: "a \<le> i" using i(1) by (metis not_le)
  have ua: "unat (of_nat a :: u64) = a" using a(1) by (simp add: unat_of_nat)
  define c where "c = tz (shr x (of_nat a))"
  have "bit (shr x (of_nat a)) (u - a)" using i ai by (simp add: bit_simps ua)
  then have nz: "shr x (of_nat a) \<noteq> 0" by auto
  have c: "bit x (a + c)" "\<And>i. i < c \<Longrightarrow> \<not> bit x (a + i)"
    using bit_tz [OF nz] not_bit_below [of _ "shr x (of_nat a)"] by (auto simp: c_def bit_simps ua)
  moreover have "0 < c" using c(1) a(2) by (cases c) auto
  moreover have "a + c < 64" using bit_imp_le_length [OF c(1)] by simp
  ultimately show ?thesis using that a(3) unfolding a_def c_def by blast
qed

lemma grow_step:
  assumes sm: "smeared x y s" and low: "\<And>i. i < a \<Longrightarrow> bit x i"
    and gap: "\<And>i. i < c \<Longrightarrow> \<not> bit x (a + i)" and top: "bit x (a + c)" and c: "0 < c"
  shows "hole y (s + c)" and "s + c < n \<Longrightarrow> hole y n \<longleftrightarrow> hole (drop_bit (a + c) y) n"
    and "smeared (drop_bit (a + c) x) (drop_bit (a + c) y) s"
proof -
  have zero: "\<not> bit y (a + i)" if "i < c + s" for i
  proof (cases "i < c")
    case True
    then show ?thesis using gap [of i] sm by (force simp: smeared_def)
  next
    case False
    then have "i - (c - 1) \<le> s" "a + (c - 1) + (i - (c - 1)) = a + i" using that c by auto
    then show ?thesis using gap [of "c - 1"] sm c unfolding smeared_def by (metis diff_less zero_less_one)
  qed
  obtain t where t: "t \<le> s" "bit y (a + c + t)" using top sm by (auto simp: smeared_def)
  have ts: "t = s" using zero [of "c + t"] t by (metis add.assoc le_neq_implies_less nat_add_left_cancel_less)
  show "hole y (s + c)" unfolding hole_def
    using zero t ts by (intro exI [of _ a] conjI exI [of _ "a + c + t"]) (auto simp: add.commute)
  show "smeared (drop_bit (a + c) x) (drop_bit (a + c) y) s"
    using sm by (simp add: smeared_def bit_drop_bit_eq add.assoc)
  assume n: "s + c < n"
  show "hole y n \<longleftrightarrow> hole (drop_bit (a + c) y) n"
  proof
    assume "hole y n"
    then obtain i u where i: "\<forall>t<n. \<not> bit y (i + t)" "i + n \<le> u" "bit y u" by (auto simp: hole_def)
    have "a + c \<le> i"
    proof (rule ccontr)
      assume "\<not> a + c \<le> i"
      then consider "i < a" | "a \<le> i" "i < a + c" by linarith
      then show False
      proof cases
        case 1
        then obtain t where "t \<le> s" "bit y (i + t)" using low sm by (auto simp: smeared_def)
        then show False using i(1) n by auto
      next
        case 2
        then have "a + c + s - i < n" "i + (a + c + s - i) = a + c + s" using n by auto
        then show False using i(1) t ts by metis
      qed
    qed
    then show "hole (drop_bit (a + c) y) n" unfolding hole_def
      using i by (intro exI [of _ "i - (a + c)"] conjI exI [of _ "u - (a + c)"]) (auto simp: bit_drop_bit_eq)
  next
    assume "hole (drop_bit (a + c) y) n"
    then show "hole y n" unfolding hole_def bit_drop_bit_eq comp_def
      by (metis add.assoc add_le_cancel_left)
  qed
qed

lemma shr_drop_bit: "unat j < 64 \<Longrightarrow> shr x (j AND 63) = drop_bit (unat j) x" for x :: u64
  by (simp add: shr_def and_63)

lemma grow_spec:
  assumes "smeared x y s" and "1 \<le> unat k" and "unat k \<le> Suc s" and "unat mx = s + unat p" and "s + unat p \<le> 63"
    and "hole y (Suc s)" and "\<And>i. bit y i \<Longrightarrow> i < m"
  shows "\<exists>m'. summarize_grow x p k mx = Some m' \<and> (\<forall>n. n \<le> unat m' \<longleftrightarrow> n \<le> unat mx \<or> hole y n)"
  using assms
proof (induction m arbitrary: x y s k mx p rule: less_induct)
  case (less m)
  note step = summarize_grow.simps [of x p k mx]
  from shrink_spec [OF less.prems(1-3,5,6)] show ?case
  proof (elim disjE exE conjE)
    assume "summarize_shrink x p k = Some None" "\<not> hole y (Suc (s + unat p))"
    then show ?thesis using step hole_antimono [of y _ "Suc (s + unat p)"] less.prems(4)
      by (auto simp flip: not_less_eq_eq)
  next
    fix x' k'
    assume r: "summarize_shrink x p k = Some (Some (x', k'))" and sm: "smeared x' y (s + unat p)"
      and k': "1 \<le> unat k'" "unat k' \<le> Suc (s + unat p)" and h: "hole y (Suc (s + unat p))"
    have "hole x' 1" using hole_smeared [OF sm] h by simp
    then obtain a c where ac: "tz (NOT x') = a" "tz (shr x' (of_nat a)) = c" "0 < c" "a + c < 64"
      "\<And>i. i < a \<Longrightarrow> bit x' i" "\<And>i. i < c \<Longrightarrow> \<not> bit x' (a + i)" "bit x' (a + c)"
      by (rule lowest_run) blast
    note gs = grow_step [OF sm ac(5-7,3)]
    let ?y = "drop_bit (a + c) y" and ?x = "drop_bit (a + c) x'" and ?j = "of_nat c :: u64"
    have u: "unat (of_nat a :: u64) = a" "unat ?j = c" using ac(4) by (simp_all add: unat_of_nat)
    have x1: "shr x' (TrailingZeros64 (NOT x') AND 63) = drop_bit a x'"
      using ac(1,4) by (simp add: shr_drop_bit)
    have tz1: "TrailingZeros64 (drop_bit a x') = ?j"
      using ac(2) u by (simp add: TrailingZeros64_tz shr_def)
    have x2: "shr (drop_bit a x') (?j AND 63) = ?x"
      using ac(4) by (simp add: shr_drop_bit u drop_bit_drop_bit add.commute)
    have sum: "s + unat p + c \<le> 63" using hole_bound [OF gs(1)] by simp
    have mx: "unat (mx + ?j) = s + unat p + c"
      using less.prems(4) sum u by (simp add: unat_word_ariths)
    have eq: "summarize_grow x p k mx =
        (if ?x AND (?x + 1) = 0 then Some (mx + ?j) else summarize_grow ?x ?j k' (mx + ?j))"
      unfolding step r by (simp add: x1 tz1 x2 Let_def)
    have lift: "n \<le> s + unat p + c \<or> hole ?y n \<longleftrightarrow> n \<le> unat mx \<or> hole y n" for n
      using gs(1) gs(2) [of n] hole_antimono [OF gs(1)] less.prems(4) by (cases "n \<le> s + unat p + c") auto
    show ?thesis
    proof (cases "hole ?x 1")
      case False
      then have "\<not> hole ?y n" if "s + unat p + c < n" for n
        using hole_smeared [OF gs(3)] hole_antimono [of ?y n "Suc (s + unat p)"] that by auto
      then show ?thesis using eq False mx lift by (auto simp: solid_iff simp flip: not_less)
    next
      case True
      then have hy: "hole ?y (Suc (s + unat p))" using hole_smeared [OF gs(3)] by simp
      then obtain u where "bit ?y u" by (auto simp: hole_def)
      then have m: "a + c < m" "\<And>i. bit ?y i \<Longrightarrow> i < m - (a + c)"
        using less.prems(7) by (fastforce simp: bit_drop_bit_eq)+
      have "\<exists>m'. summarize_grow ?x ?j k' (mx + ?j) = Some m' \<and>
          (\<forall>n. n \<le> unat m' \<longleftrightarrow> n \<le> unat (mx + ?j) \<or> hole ?y n)"
        using less.IH [of "m - (a + c)" ?x ?y "s + unat p" k' "mx + ?j" ?j] m ac(3) gs(3) k' mx u sum hy by auto
      then show ?thesis using eq True mx lift by (auto simp: solid_iff)
    qed
  qed
qed

text \<open>The free pages inside one word, and what a pass over its interior adds to the maximum.\<close>

definition word_free :: "u64 \<Rightarrow> bool list" where
  "word_free x = map (\<lambda>t. \<not> bit x t) [0..<64]"

definition gap :: "u64 \<Rightarrow> nat" where
  "gap x = longest (map (\<lambda>t. \<not> bit x t) [tz x..<64 - lz x])"

lemma tz_lz: "x \<noteq> 0 \<Longrightarrow> tz x + lz x < 64"
  using not_bit_above_lz [of x "tz x"] bit_tz [of x] lz_less [of x] by (cases "63 - lz x < tz x") auto

lemma gap_0 [simp]: "gap 0 = 0"
  by (simp add: gap_def)

lemma gap_iff: "x \<noteq> 0 \<Longrightarrow> 0 < n \<Longrightarrow> n \<le> gap x \<longleftrightarrow> hole (drop_bit (tz x) x) n"
proof
  let ?len = "64 - lz x - tz x"
  assume x: "x \<noteq> 0" and n: "0 < n"
  then have le: "tz x + lz x < 64" by (intro tz_lz)
  {
    assume "n \<le> gap x"
    then obtain i where i: "i + n \<le> ?len" "\<And>t. t < n \<Longrightarrow> \<not> bit x (tz x + (i + t))"
      unfolding gap_def longest_iff by (auto simp: diff_diff_add)
    have "bit x (tz x + (?len - 1))" using bit_lz [OF x] le by simp
    then have "i + n \<noteq> ?len" using i(2) [of "n - 1"] n by (metis add_diff_assoc diff_less Suc_leI One_nat_def zero_less_one)
    then show "hole (drop_bit (tz x) x) n" unfolding hole_def
      using i \<open>bit x (tz x + (?len - 1))\<close>
      by (intro exI [of _ i] conjI exI [of _ "?len - 1"]) (auto simp: bit_drop_bit_eq)
  next
    assume "hole (drop_bit (tz x) x) n"
    then obtain i u where i: "\<And>t. t < n \<Longrightarrow> \<not> bit x (tz x + (i + t))" "i + n \<le> u" "bit x (tz x + u)"
      by (auto simp: hole_def bit_drop_bit_eq)
    then have "tz x + u \<le> 63 - lz x" using not_bit_above_lz [OF x, of "tz x + u"] by (metis not_le)
    then have "i + n \<le> ?len" using i(2) le by simp
    then show "n \<le> gap x" unfolding gap_def longest_iff
      using i(1) by (intro exI [of _ i]) (auto simp: add.assoc)
  }
qed

lemma gap_le: "gap x \<le> 62"
proof (cases "x = 0")
  case False
  show ?thesis
  proof (rule ccontr)
    assume "\<not> gap x \<le> 62"
    then have "hole (drop_bit (tz x) x) 63" using gap_iff [OF False, of 63] by simp
    then obtain i u where i: "\<And>t. t < 63 \<Longrightarrow> \<not> bit x (tz x + (i + t))" "i + 63 \<le> u" "bit x (tz x + u)"
      by (auto simp: hole_def bit_drop_bit_eq)
    have "tz x + u < 64" using bit_imp_le_length [OF i(3)] by simp
    then have "i = 0" using i(2) by simp
    then show False using i(1) [of 0] bit_tz [OF False] by simp
  qed
qed simp

lemma word_free_split:
  assumes "x \<noteq> 0"
  shows "word_free x = replicate (tz x) True @ map (\<lambda>t. \<not> bit x t) [tz x..<64 - lz x] @ replicate (lz x) True"
proof (rule nth_equalityI)
  note le = tz_lz [OF assms]
  show "length (word_free x) = length (replicate (tz x) True @ map (\<lambda>t. \<not> bit x t) [tz x..<64 - lz x] @ replicate (lz x) True)"
    using le by (simp add: word_free_def)
  fix i assume "i < length (word_free x)"
  then have i: "i < 64" by (simp add: word_free_def)
  have "\<not> bit x i" if "64 - lz x \<le> i" using not_bit_above_lz [OF assms, of i] that le by auto
  then show "word_free x ! i = (replicate (tz x) True @ map (\<lambda>t. \<not> bit x t) [tz x..<64 - lz x] @ replicate (lz x) True) ! i"
    using i le not_bit_below [of i x] by (auto simp: word_free_def nth_append)
qed

lemma word_free_0: "word_free 0 = replicate 64 True"
  by (simp add: word_free_def map_replicate_const)

lemma lead_rep [simp]: "lead (replicate n True) = n"
  by (induction n) auto

lemma trail_rep [simp]: "trail (replicate n True) = n"
  by (simp add: trail_def)

lemma longest_rep [simp]: "longest (replicate n True) = n"
  using longest_all [of "replicate n True"] by simp

lemma middle:
  assumes "x \<noteq> 0"
  shows "lead (map (\<lambda>t. \<not> bit x t) [tz x..<64 - lz x]) = 0" "trail (map (\<lambda>t. \<not> bit x t) [tz x..<64 - lz x]) = 0"
    "map (\<lambda>t. \<not> bit x t) [tz x..<64 - lz x] \<noteq> []"
proof -
  note le = tz_lz [OF assms]
  have "[tz x..<64 - lz x] = tz x # [Suc (tz x)..<64 - lz x]" using le by (intro upt_conv_Cons) simp
  then show "lead (map (\<lambda>t. \<not> bit x t) [tz x..<64 - lz x]) = 0" using bit_tz [OF assms] by simp
  have "64 - lz x = Suc (63 - lz x)" using le by simp
  then have "[tz x..<64 - lz x] = [tz x..<63 - lz x] @ [63 - lz x]" using le by simp
  then show "trail (map (\<lambda>t. \<not> bit x t) [tz x..<64 - lz x]) = 0" using bit_lz [OF assms] by (simp add: trail_def)
  show "map (\<lambda>t. \<not> bit x t) [tz x..<64 - lz x] \<noteq> []" using le by simp
qed

lemma word_free_runs:
  "lead (word_free x) = tz x" "trail (word_free x) = lz x" "length (word_free x) = 64"
  "x \<noteq> 0 \<Longrightarrow> longest (word_free x) = max (max (tz x) (lz x)) (gap x)"
proof -
  show "lead (word_free x) = tz x"
    using middle [of x] word_free_split [of x] tz_lz [of x] by (cases "x = 0") (auto simp: word_free_0 lead_append)
  show "trail (word_free x) = lz x"
    using middle [of x] word_free_split [of x] tz_lz [of x] by (cases "x = 0") (auto simp: word_free_0 trail_append)
  show "length (word_free x) = 64" by (simp add: word_free_def)
  assume "x \<noteq> 0"
  then show "longest (word_free x) = max (max (tz x) (lz x)) (gap x)"
    using middle [of x] word_free_split [of x] tz_lz [of x] by (simp add: longest_append lead_append gap_def)
qed

section \<open>The pass over the words\<close>

definition gaps :: "u64 list \<Rightarrow> nat" where
  "gaps xs = foldr (\<lambda>x m. max (gap x) m) xs 0"

lemma gaps_simps [simp]: "gaps [] = 0" "gaps (x # xs) = max (gap x) (gaps xs)"
  by (simp_all add: gaps_def)

lemma gaps_le: "gaps xs \<le> 62"
  by (induction xs) (use gap_le in auto)

lemma summarize_words_spec:
  "unat mx < 62 \<Longrightarrow> \<exists>m. summarize_words xs mx = Some m \<and> unat m = max (unat mx) (gaps xs)"
proof -
  have "unat mx \<le> 62 \<Longrightarrow> \<exists>m. summarize_words xs mx = Some m \<and> unat m = max (unat mx) (gaps xs)"
  proof (induction xs arbitrary: mx)
    case (Cons x xs)
    show ?case
    proof (cases "x = 0")
      case True
      then show ?thesis using Cons by (simp add: Let_def shr_def)
    next
      case x: False
      let ?y = "drop_bit (tz x) x"
      have y: "shr x (TrailingZeros64 x AND 63) = ?y" using tz_less [OF x] by (simp add: shr_drop_bit)
      show ?thesis
      proof (cases "hole ?y 1")
        case False
        then have "gap x = 0" using gap_iff [OF x, of 1] by simp
        then show ?thesis using Cons False by (simp add: Let_def y solid_iff)
      next
        case True
        have "\<exists>m. summarize_grow ?y mx 1 mx = Some m \<and> (\<forall>n. n \<le> unat m \<longleftrightarrow> n \<le> unat mx \<or> hole ?y n)"
          using True Cons.prems bit_imp_le_length [of ?y]
          by (intro grow_spec [where s = 0 and m = 64]) (auto simp: smeared_refl)
        then obtain m where m: "summarize_grow ?y mx 1 mx = Some m"
            "\<And>n. n \<le> unat m \<longleftrightarrow> n \<le> unat mx \<or> hole ?y n" by blast
        have "n \<le> unat m \<longleftrightarrow> n \<le> max (unat mx) (gap x)" for n
          using m(2) [of n] gap_iff [OF x, of n] by (cases "n = 0") auto
        then have "unat m = max (unat mx) (gap x)" by (meson order_antisym order_refl)
        then show ?thesis using Cons.IH [of m] Cons.prems m(1) True gap_le [of x]
          by (simp add: Let_def y solid_iff max.assoc)
      qed
    qed
  qed simp
  then show "unat mx < 62 \<Longrightarrow> ?thesis" by simp
qed

definition scan_inv :: "bool list \<Rightarrow> nat \<Rightarrow> u64 \<Rightarrow> u64 \<Rightarrow> u64 \<Rightarrow> bool" where
  "scan_inv F g start mx cur \<longleftrightarrow> unat cur = trail F \<and> longest F = max (max (unat mx) (trail F)) g \<and>
     (if start = noIdx then lead F = length F else unat start = lead F \<and> lead F < length F)"

lemma scan_zero:
  assumes "scan_inv F g start mx cur" and "length F \<le> 448"
  shows "scan_inv (F @ word_free 0) g start mx (cur + 64)"
proof -
  have "trail F \<le> 448" using trail_le [of F] assms(2) by simp
  then have "unat (cur + 64) = trail F + 64" using assms(1) by (simp add: scan_inv_def unat_word_ariths)
  then show ?thesis using assms(1) lead_le [of F]
    by (auto simp: scan_inv_def word_free_0 lead_append trail_append longest_append split: if_splits)
qed

lemma scan_nonzero:
  assumes inv: "scan_inv F g start mx cur" and len: "length F \<le> 448" and x: "x \<noteq> 0"
  defines "cur' \<equiv> cur + TrailingZeros64 x"
  shows "scan_inv (F @ word_free x) (max g (gap x)) (if start = noIdx then cur' else start)
    (if mx < cur' then cur' else mx) (LeadingZeros64 x)"
proof -
  have t: "trail F \<le> 448" using trail_le [of F] len by simp
  then have c: "unat cur' = trail F + tz x"
    using inv tz_le [of x] by (simp add: cur'_def scan_inv_def unat_word_ariths)
  then have mx: "unat (if mx < cur' then cur' else mx) = max (unat mx) (trail F + tz x)"
    by (auto simp: word_less_nat_alt)
  have "longest (F @ word_free x) = max (max (max (unat mx) (trail F + tz x)) (lz x)) (max g (gap x))"
    using inv word_free_runs [of x] x by (auto simp: longest_append scan_inv_def max_def)
  moreover have "cur' \<noteq> noIdx" using small_not_noIdx [of cur'] c t tz_le [of x] by simp
  ultimately show ?thesis
    using inv c word_free_runs [of x] tz_less [OF x] lz_less [OF x] trail_all [of F] mx lead_le [of F]
    by (auto simp: scan_inv_def lead_append trail_append split: if_splits)
qed

lemma summarize_scan_spec:
  assumes "scan_inv F g start mx cur" and "length F + 64 * length xs \<le> 512"
  shows "\<exists>start' mx' cur'. summarize_scan xs start mx cur = (start', mx', cur') \<and>
    scan_inv (F @ concat (map word_free xs)) (max g (gaps xs)) start' mx' cur'"
  using assms
proof (induction xs arbitrary: F g start mx cur)
  case (Cons x xs)
  show ?case
  proof (cases "x = 0")
    case True
    then show ?thesis using Cons.IH [OF scan_zero [OF Cons.prems(1)]] Cons.prems(2) word_free_runs(3) by simp
  next
    case False
    then show ?thesis using Cons.IH [OF scan_nonzero [OF Cons.prems(1) _ False]] Cons.prems(2) word_free_runs(3)
      by (simp add: Let_def max.assoc)
  qed
qed simp

definition free_pages :: "pageBits \<Rightarrow> bool list" where
  "free_pages b = map (\<lambda>p. \<not> pbit b p) [0..<64 * length b]"

lemma free_pages_concat: "free_pages b = concat (map word_free b)"
proof (induction b)
  case (Cons x b)
  have "[0..<64 * length (x # b)] = [0..<64] @ map (\<lambda>p. p + 64) [0..<64 * length b]"
    using upt_add_eq_append [of 0 64 "64 * length b"] by (simp add: map_add_upt add.commute)
  moreover have "pbit (x # b) (p + 64) = pbit b p" for p by (simp add: pbit_def div_add_self2)
  moreover have "map (\<lambda>p. \<not> pbit (x # b) p) [0..<64] = word_free x" by (auto simp: pbit_def word_free_def)
  ultimately have "free_pages (x # b) = word_free x @ free_pages b"
    by (simp add: free_pages_def comp_def del: upt_Suc)
  then show ?case using Cons by simp
qed (simp add: free_pages_def)

lemma summarize_spec:
  assumes "chunk_bits b"
  shows "summarize b = Some (sum_of (free_pages b))"
proof -
  let ?F = "free_pages b"
  have len: "length ?F = 512" using assms by (simp add: free_pages_def)
  obtain start mx cur where scan: "summarize_scan b noIdx 0 0 = (start, mx, cur)"
      and inv: "scan_inv ?F (gaps b) start mx cur"
    using summarize_scan_spec [of "[]" 0 noIdx 0 0 b] assms by (auto simp: scan_inv_def free_pages_concat)
  have un: "of_nat (unat x) = x" for x :: u64 by simp
  have cur: "cur = of_nat (trail ?F)" using inv un [of cur] by (simp add: scan_inv_def)
  show ?thesis
  proof (cases "start = noIdx")
    case True
    then have "lead ?F = 512" "longest ?F = 512" "trail ?F = 512"
      using inv len longest_all [of ?F] trail_all [of ?F] by (auto simp: scan_inv_def)
    then show ?thesis using True scan assms by (simp add: summarize_def sum_of_def Let_def)
  next
    case False
    let ?m = "if mx < cur then cur else mx"
    have st: "start = of_nat (lead ?F)" using inv False un [of start] by (simp add: scan_inv_def)
    have m: "longest ?F = max (unat ?m) (gaps b)" using inv by (auto simp: scan_inv_def word_less_nat_alt)
    have big: "?m = of_nat (longest ?F)" if "62 \<le> ?m"
    proof -
      have "unat ?m = longest ?F" using that m gaps_le [of b] unfolding word_le_nat_alt by simp
      then show ?thesis using un [of ?m] by simp
    qed
    show ?thesis
    proof (cases "62 \<le> ?m")
      case True
      show ?thesis unfolding summarize_def scan Let_def prod.case using False True big st cur
        by (simp add: sum_of_def)
    next
      case nb: False
      then obtain m' where m': "summarize_words b ?m = Some m'" "unat m' = longest ?F"
        using summarize_words_spec [of ?m b] m by (auto simp: word_le_nat_alt)
      have "m' = of_nat (longest ?F)" using m'(2) un [of m'] by simp
      then show ?thesis unfolding summarize_def scan Let_def prod.case using False nb m'(1) st cur
        by (simp add: sum_of_def)
    qed
  qed
qed

section \<open>Properties\<close>

lemma run_free_longest:
  assumes "chunk_bits b"
  shows "n \<le> longest (free_pages b) \<longleftrightarrow> (\<exists>s. run_free b n s)"
proof -
  have "(i + n \<le> length (free_pages b) \<and> (\<forall>t<n. free_pages b ! (i + t))) \<longleftrightarrow> run_free b n i" for i
    using assms by (auto simp: run_free_def free_pages_def)
  then show ?thesis by (simp add: longest_iff)
qed

lemma unpack_chunk:
  assumes "chunk_bits b"
  shows "pallocSum_unpack (sum_of (free_pages b)) =
    (of_nat (lead (free_pages b)), of_nat (longest (free_pages b)), of_nat (trail (free_pages b)))"
  using assms by (intro unpack_sum_of) (simp add: free_pages_def)

lemma unat_longest_chunk:
  assumes "chunk_bits b"
  shows "unat (of_nat (longest (free_pages b)) :: u64) = longest (free_pages b)"
  using longest_le [of "free_pages b"] assms by (intro unat_of_nat_small) (simp add: free_pages_def)

text \<open>
  \<open>unpack\<close> inverts \<open>packPallocSum\<close> on every triple the runtime packs: three counts below
  \<open>2\<^sup>2\<^sup>1\<close>, or three counts that all are \<open>2\<^sup>2\<^sup>1\<close>, which a single bit represents.
\<close>

lemma packPallocSum_roundtrip:
  assumes "start < maxPackedValue \<and> mx < maxPackedValue \<and> end < maxPackedValue \<or>
    start = maxPackedValue \<and> mx = maxPackedValue \<and> end = maxPackedValue"
  shows "pallocSum_unpack (packPallocSum start mx end) = (start, mx, end)"
  using assms unpack_pack [of start mx "end"] unpack_pack_full
  by (auto simp: maxPackedValue_def word_less_nat_alt)

text \<open>
  C9: \<open>mergeSummaries\<close> is right: merging the summaries of equally long blocks of \<open>2\<^sup>l\<close> pages gives
  the summary of all their pages together, for up to \<open>2\<^sup>2\<^sup>1\<close> pages in all.
\<close>

theorem mergeSummaries_correct:
  assumes "blocks \<noteq> []" and "\<forall>b\<in>set blocks. length b = 2 ^ unat logMaxPagesPerSum"
    and "length blocks * 2 ^ unat logMaxPagesPerSum \<le> 2 ^ 21"
  shows "mergeSummaries (map sum_of blocks) logMaxPagesPerSum = Inr (sum_of (concat blocks))"
  using assms by (rule mergeSummaries_concat)

theorem mergeSummaries_correct_witness:
  "mergeSummaries (map sum_of [[True, False], [True, True], [True, True]]) 1 =
     Inr (sum_of (concat [[True, False], [True, True], [True, True]]))"
  by (rule mergeSummaries_correct) simp_all

text \<open>
  C1: \<open>summarize\<close> terminates on every chunk and returns the packed triple of the number of free pages
  at the start of the chunk, in its longest run and at its end.
\<close>

theorem summarize_correct:
  assumes "chunk_bits b"
  shows "summarize b = Some (packPallocSum (of_nat (lead (free_pages b)))
      (of_nat (longest (free_pages b))) (of_nat (trail (free_pages b))))"
  using summarize_spec [OF assms] by (simp add: sum_of_def)

theorem summarize_correct_witness:
  "summarize (0xF0F # replicate 7 (NOT 0)) = Some (packPallocSum
      (of_nat (lead (free_pages (0xF0F # replicate 7 (NOT 0)))))
      (of_nat (longest (free_pages (0xF0F # replicate 7 (NOT 0)))))
      (of_nat (trail (free_pages (0xF0F # replicate 7 (NOT 0))))))"
  by (rule summarize_correct) simp

text \<open>
  the summary of a chunk tells exactly which searches in it succeed: \<open>find\<close> from the start of the
  chunk finds \<open>npages\<close> free pages if and only if \<open>npages\<close> is at most the \<open>max\<close> of its summary, which
  is what the radix tree search relies on when it descends to a chunk.
\<close>

lemma summarize_find_agree:
  assumes "chunk_bits b" and "0 < npages"
  shows "\<exists>sum addr idx. summarize b = Some sum \<and> pallocBits_find b npages 0 = Some (addr, idx) \<and>
    (addr \<noteq> noIdx \<longleftrightarrow> npages \<le> pallocSum_max sum)"
proof -
  obtain r where r: "map_option fst (pallocBits_find b npages 0) = Some r" "first_run b (unat npages) 0 r"
    using find.finds [OF assms, of 0] by auto
  have "pallocSum_max (sum_of (free_pages b)) = of_nat (longest (free_pages b))"
    using unpack_chunk [OF assms(1)] by (simp add: unpack_accessors)
  then have "npages \<le> pallocSum_max (sum_of (free_pages b)) \<longleftrightarrow> (\<exists>s. run_free b (unat npages) s)"
    using unat_longest_chunk [OF assms(1)] run_free_longest [OF assms(1)] by (simp add: word_le_nat_alt)
  also have "\<dots> \<longleftrightarrow> r \<noteq> noIdx" using r(2) by (auto simp: first_run_def)
  finally show ?thesis using r(1) summarize_spec [OF assms(1)] by auto
qed

end
