(* ===== verification/Ranges.thy ===== *)
theory Ranges
  imports BitOps
begin

unbundle bit_operations_syntax

text \<open>
  Sets of address ranges, \<open>src/memory_and_heap/mranges.go\<close>: \<open>offAddr\<close>, an address in the linearised
  address space, \<open>addrRange\<close> and \<open>addrRanges\<close>, a sorted slice of disjoint ranges that are coalesced
  eagerly. A slice with spare capacity is its visible part and the rest of its backing array, so
  that reslicing within the capacity and growing are distinguished as in the source.
\<close>

section \<open>Offset addresses\<close>

datatype offAddr = OffAddr (off_a: uintptr)

definition arenaBaseOffset :: uintptr where
  "arenaBaseOffset = 0xffff800000000000"

definition offAddr_add :: "offAddr \<Rightarrow> uintptr \<Rightarrow> offAddr" where
  "offAddr_add l bytes = OffAddr (off_a l + bytes)"

definition offAddr_sub :: "offAddr \<Rightarrow> uintptr \<Rightarrow> offAddr" where
  "offAddr_sub l bytes = OffAddr (off_a l - bytes)"

definition offAddr_diff :: "offAddr \<Rightarrow> offAddr \<Rightarrow> uintptr" where
  "offAddr_diff l1 l2 = off_a l1 - off_a l2"

definition lessThan :: "offAddr \<Rightarrow> offAddr \<Rightarrow> bool" where
  "lessThan l1 l2 \<longleftrightarrow> off_a l1 - arenaBaseOffset < off_a l2 - arenaBaseOffset"

definition lessEqual :: "offAddr \<Rightarrow> offAddr \<Rightarrow> bool" where
  "lessEqual l1 l2 \<longleftrightarrow> off_a l1 - arenaBaseOffset \<le> off_a l2 - arenaBaseOffset"

definition offAddr_equal :: "offAddr \<Rightarrow> offAddr \<Rightarrow> bool" where
  "offAddr_equal l1 l2 \<longleftrightarrow> off_a l1 = off_a l2"

definition addr :: "offAddr \<Rightarrow> uintptr" where
  "addr l = off_a l"

definition minOffAddr :: offAddr where
  "minOffAddr = OffAddr arenaBaseOffset"

definition maxOffAddr :: offAddr where
  "maxOffAddr = OffAddr (shl 1 48 - 1 + arenaBaseOffset)"

text \<open>The two comparisons make the offset addresses a linear order.\<close>

instantiation offAddr :: linorder
begin

definition less_offAddr :: "offAddr \<Rightarrow> offAddr \<Rightarrow> bool" where
  "less_offAddr x y \<longleftrightarrow> lessThan x y"

definition less_eq_offAddr :: "offAddr \<Rightarrow> offAddr \<Rightarrow> bool" where
  "less_eq_offAddr x y \<longleftrightarrow> lessEqual x y"

instance
proof
  fix x y z :: offAddr
  show "(x < y) = (x \<le> y \<and> \<not> y \<le> x)"
    unfolding less_offAddr_def less_eq_offAddr_def lessThan_def lessEqual_def by (rule less_le_not_le)
  show "x \<le> x" "x \<le> y \<or> y \<le> x" by (auto simp: less_eq_offAddr_def lessEqual_def)
  show "x \<le> y \<Longrightarrow> y \<le> z \<Longrightarrow> x \<le> z"
    by (auto simp: less_eq_offAddr_def lessEqual_def)
  show "x \<le> y \<Longrightarrow> y \<le> x \<Longrightarrow> x = y"
    by (cases x; cases y) (auto simp: less_eq_offAddr_def lessEqual_def dest: order_antisym)
qed

end

lemma less_offAddr_iff: "x < y \<longleftrightarrow> off_a x - arenaBaseOffset < off_a y - arenaBaseOffset" for x y :: offAddr
  by (simp only: less_offAddr_def lessThan_def)

lemma compare_simps [simp]:
  "lessThan x y \<longleftrightarrow> x < y" "lessEqual x y \<longleftrightarrow> x \<le> y" "offAddr_equal x y \<longleftrightarrow> x = y" "OffAddr (addr x) = x"
  by (auto simp: less_offAddr_def less_eq_offAddr_def offAddr_equal_def addr_def offAddr.expand)

section \<open>Ranges\<close>

record addrRange =
  base :: offAddr
  limit :: offAddr

definition mkRange :: "offAddr \<Rightarrow> offAddr \<Rightarrow> addrRange" where
  "mkRange b l = \<lparr>base = b, limit = l\<rparr>"

text \<open>The zero value \<open>addrRange{}\<close>.\<close>

definition zeroRange :: addrRange where
  "zeroRange = mkRange (OffAddr 0) (OffAddr 0)"

definition makeAddrRange :: "uintptr \<Rightarrow> uintptr \<Rightarrow> addrRange res" where
  "makeAddrRange bs lim =
     (if (bs - arenaBaseOffset \<ge> bs) \<noteq> (lim - arenaBaseOffset \<ge> lim)
      then Inl (Throw ''addr range base and limit are not in the same memory segment'')
      else Inr (mkRange (OffAddr bs) (OffAddr lim)))"

definition addrRange_size :: "addrRange \<Rightarrow> uintptr" where
  "addrRange_size a = (if lessThan (base a) (limit a) then 0 else offAddr_diff (limit a) (base a))"

definition contains :: "addrRange \<Rightarrow> uintptr \<Rightarrow> bool" where
  "contains a x \<longleftrightarrow> lessEqual (base a) (OffAddr x) \<and> lessThan (OffAddr x) (limit a)"

definition subtract :: "addrRange \<Rightarrow> addrRange \<Rightarrow> addrRange res" where
  "subtract a b =
     (if lessThan (base b) (base a) \<and> lessEqual (limit a) (limit b) then Inr zeroRange
      else if lessThan (base a) (base b) \<and> lessEqual (limit b) (limit a) then Inl (Throw ''bad prune'')
      else if lessThan (limit b) (limit a) \<and> lessThan (base a) (limit b) then Inr (a\<lparr>base := limit b\<rparr>)
      else if lessThan (base a) (base b) \<and> lessThan (base b) (limit a) then Inr (a\<lparr>limit := base b\<rparr>)
      else Inr a)"

section \<open>Sets of ranges\<close>

text \<open>\<open>spare\<close> is the backing array between the length and the capacity of the slice.\<close>

record addrRanges =
  ranges :: "addrRange list"
  spare :: "addrRange list"
  totalBytes :: uintptr

definition addrRanges_init :: addrRanges where
  "addrRanges_init = \<lparr>ranges = [], spare = replicate 16 zeroRange, totalBytes = 0\<rparr>"

text \<open>
  \<open>findSucc\<close>: \<open>Inl i\<close> of the narrowing loop is its early \<open>return\<close>, \<open>Inr\<close> the two bounds left for the
  linear search.
\<close>

function findSucc_narrow :: "addrRange list \<Rightarrow> offAddr \<Rightarrow> nat \<Rightarrow> nat \<Rightarrow> nat + nat \<times> nat" where
  "findSucc_narrow rs bs lo hi =
     (if hi - lo > 8
      then let i = (hi - lo) div 2 + lo
           in if contains (rs ! i) (off_a bs) then Inl (i + 1)
              else if lessThan bs (base (rs ! i)) then findSucc_narrow rs bs lo i
              else findSucc_narrow rs bs (i + 1) hi
      else Inr (lo, hi))"
  by pat_completeness auto
termination
  by (relation "measure (\<lambda>(rs, bs, lo, hi). hi - lo)") auto

declare findSucc_narrow.simps [simp del]

function findSucc_scan :: "addrRange list \<Rightarrow> offAddr \<Rightarrow> nat \<Rightarrow> nat \<Rightarrow> nat" where
  "findSucc_scan rs bs i hi =
     (if i < hi then if lessThan bs (base (rs ! i)) then i else findSucc_scan rs bs (i + 1) hi else hi)"
  by pat_completeness auto
termination
  by (relation "measure (\<lambda>(rs, bs, i, hi). hi - i)") auto

declare findSucc_scan.simps [simp del]

definition findSucc :: "addrRanges \<Rightarrow> uintptr \<Rightarrow> nat" where
  "findSucc a x =
     (case findSucc_narrow (ranges a) (OffAddr x) 0 (length (ranges a)) of
        Inl i \<Rightarrow> i
      | Inr (lo, hi) \<Rightarrow> findSucc_scan (ranges a) (OffAddr x) lo hi)"

definition findAddrGreaterEqual :: "addrRanges \<Rightarrow> uintptr \<Rightarrow> (uintptr \<times> bool) res" where
  "findAddrGreaterEqual a x =
     (let i = findSucc a x; rs = ranges a
      in if i = 0 then (if rs = [] then Inl IndexPanic else Inr (addr (base (rs ! 0)), True))
         else if contains (rs ! (i - 1)) x then Inr (x, True)
         else if i < length rs then Inr (addr (base (rs ! i)), True)
         else Inr (0, False))"

text \<open>The body of \<open>add\<close> after its guard.\<close>

definition addrRanges_insert :: "addrRanges \<Rightarrow> addrRange \<Rightarrow> addrRanges" where
  "addrRanges_insert a r =
     (let rs = ranges a;
          i = findSucc a (addr (base r));
          coalesceDown = (i > 0 \<and> offAddr_equal (limit (rs ! (i - 1))) (base r));
          coalesceUp = (i < length rs \<and> offAddr_equal (limit r) (base (rs ! i)))
      in if coalesceUp \<and> coalesceDown
         then let rs = rs[i - 1 := (rs ! (i - 1))\<lparr>limit := limit (rs ! i)\<rparr>];
                  rs = copy_at rs i (drop (i + 1) rs)
              in a\<lparr>ranges := take (length rs - 1) rs, spare := drop (length rs - 1) rs @ spare a\<rparr>
         else if coalesceDown
         then a\<lparr>ranges := rs[i - 1 := (rs ! (i - 1))\<lparr>limit := limit r\<rparr>]\<rparr>
         else if coalesceUp
         then a\<lparr>ranges := rs[i := (rs ! i)\<lparr>base := base r\<rparr>]\<rparr>
         else if length rs + 1 > length rs + length (spare a)
         then let cap = (length rs + length (spare a)) * 2;
                  new = replicate (length rs + 1) zeroRange;
                  new = copy_at (take i new) 0 (take i rs) @ drop i new;
                  new = copy_at new (i + 1) (drop i rs)
              in a\<lparr>ranges := new[i := r], spare := replicate (cap - (length rs + 1)) zeroRange\<rparr>
         else let rs = rs @ take 1 (spare a);
                  rs = copy_at rs (i + 1) (drop i rs)
              in a\<lparr>ranges := rs[i := r], spare := drop 1 (spare a)\<rparr>)"

definition addrRanges_add :: "addrRanges \<Rightarrow> addrRange \<Rightarrow> addrRanges res" where
  "addrRanges_add a r =
     (if addrRange_size r = 0 then Inl (Throw ''attempted to add zero-sized address range'')
      else let a' = addrRanges_insert a r
           in Inr (a'\<lparr>totalBytes := totalBytes a' + addrRange_size r\<rparr>))"

section \<open>The invariant\<close>

text \<open>The ranges are non-empty, sorted, and separated by gaps.\<close>

definition valid :: "addrRange list \<Rightarrow> bool" where
  "valid rs \<longleftrightarrow> sorted_wrt (\<lambda>r s. limit r < base s) rs \<and> (\<forall>r\<in>set rs. base r < limit r)"

text \<open>The addresses a set of ranges holds.\<close>

definition in_range :: "addrRange \<Rightarrow> offAddr \<Rightarrow> bool" where
  "in_range r x \<longleftrightarrow> base r \<le> x \<and> x < limit r"

definition holds :: "addrRange list \<Rightarrow> offAddr \<Rightarrow> bool" where
  "holds rs x \<longleftrightarrow> (\<exists>r\<in>set rs. in_range r x)"

lemma contains_iff: "contains r x \<longleftrightarrow> in_range r (OffAddr x)"
  by (simp add: contains_def in_range_def)

lemma valid_gap: "valid rs \<Longrightarrow> j < k \<Longrightarrow> k < length rs \<Longrightarrow> limit (rs ! j) < base (rs ! k)"
  by (auto simp: valid_def sorted_wrt_iff_nth_less)

lemma valid_pos: "valid rs \<Longrightarrow> j < length rs \<Longrightarrow> base (rs ! j) < limit (rs ! j)"
  by (simp add: valid_def)

lemma valid_base: "valid rs \<Longrightarrow> j < k \<Longrightarrow> k < length rs \<Longrightarrow> base (rs ! j) < base (rs ! k)"
  using valid_gap [of rs j k] valid_pos [of rs j] by force

lemma valid_base_le: "valid rs \<Longrightarrow> j \<le> k \<Longrightarrow> k < length rs \<Longrightarrow> base (rs ! j) \<le> base (rs ! k)"
  using valid_base [of rs j k] by (cases "j = k") auto

section \<open>The successor search\<close>

text \<open>\<open>i\<close> is the first index whose range starts above \<open>x\<close>.\<close>

definition succ_idx :: "addrRange list \<Rightarrow> offAddr \<Rightarrow> nat \<Rightarrow> bool" where
  "succ_idx rs x i \<longleftrightarrow> i \<le> length rs \<and> (\<forall>j<i. base (rs ! j) \<le> x) \<and> (\<forall>j. i \<le> j \<and> j < length rs \<longrightarrow> x < base (rs ! j))"

definition bracket :: "addrRange list \<Rightarrow> offAddr \<Rightarrow> nat \<Rightarrow> nat \<Rightarrow> bool" where
  "bracket rs x lo hi \<longleftrightarrow> lo \<le> hi \<and> hi \<le> length rs \<and> (\<forall>j<lo. base (rs ! j) \<le> x) \<and>
     (\<forall>j. hi \<le> j \<and> j < length rs \<longrightarrow> x < base (rs ! j))"

lemma bracket_split:
  assumes v: "valid rs" and b: "bracket rs x lo hi" and i: "lo \<le> i" "i < hi"
  shows "x < base (rs ! i) \<Longrightarrow> bracket rs x lo i"
    and "\<not> x < base (rs ! i) \<Longrightarrow> bracket rs x (Suc i) hi"
    and "in_range (rs ! i) x \<Longrightarrow> succ_idx rs x (Suc i)"
proof -
  have len: "i < length rs" using b i by (auto simp: bracket_def)
  show "bracket rs x lo i" if "x < base (rs ! i)"
    using b i len that valid_base_le [OF v, of i] by (force simp: bracket_def)
  have low: "base (rs ! j) \<le> x" if "base (rs ! i) \<le> x" "j \<le> i" for j
    using valid_base_le [OF v that(2) len] that(1) by simp
  then show "bracket rs x (Suc i) hi" if "\<not> x < base (rs ! i)"
    using b i that by (auto simp: bracket_def not_less less_Suc_eq_le)
  have "x < base (rs ! j)" if "in_range (rs ! i) x" "Suc i \<le> j" "j < length rs" for j
    using valid_gap [OF v, of i j] that by (auto simp: in_range_def)
  then show "succ_idx rs x (Suc i)" if "in_range (rs ! i) x"
    using that len low by (auto simp: succ_idx_def in_range_def less_Suc_eq_le)
qed

lemma narrow_spec:
  assumes "valid rs" and "bracket rs x lo hi"
  shows "case findSucc_narrow rs x lo hi of Inl i \<Rightarrow> succ_idx rs x i | Inr (b, t) \<Rightarrow> bracket rs x b t"
  using assms
proof (induction rs x lo hi rule: findSucc_narrow.induct [case_names step])
  case (step rs x lo hi)
  define i where "i = (hi - lo) div 2 + lo"
  show ?case
  proof (cases "8 < hi - lo")
    case True
    then have i: "lo \<le> i" "i < hi" by (auto simp: i_def)
    note split = bracket_split [OF step.prems i]
    have "OffAddr (off_a x) = x" by simp
    then show ?thesis
      using True step.IH(1) [OF True i_def] step.IH(2) [OF True i_def] split step.prems(1)
      by (simp add: findSucc_narrow.simps [of rs x lo hi] Let_def contains_iff flip: i_def)
  next
    case False
    then show ?thesis using step.prems by (simp add: findSucc_narrow.simps [of rs x lo hi])
  qed
qed

lemma scan_spec:
  assumes "valid rs" and "bracket rs x lo hi"
  shows "succ_idx rs x (findSucc_scan rs x lo hi)"
  using assms
proof (induction rs x lo hi rule: findSucc_scan.induct [case_names step])
  case (step rs x lo hi)
  consider "lo < hi" "x < base (rs ! lo)" | "lo < hi" "\<not> x < base (rs ! lo)" | "lo = hi"
    using step.prems by (metis bracket_def le_neq_implies_less)
  then show ?case
  proof cases
    case 1
    then have "bracket rs x lo lo" using bracket_split(1) [OF step.prems] by simp
    then show ?thesis using 1 by (simp add: findSucc_scan.simps [of rs x lo hi] bracket_def succ_idx_def)
  next
    case 2
    then show ?thesis using step.IH bracket_split(2) [OF step.prems] step.prems(1)
      by (simp add: findSucc_scan.simps [of rs x lo hi])
  next
    case 3
    then show ?thesis using step.prems by (simp add: findSucc_scan.simps [of rs x hi hi] bracket_def succ_idx_def)
  qed
qed

lemma findSucc_spec:
  assumes "valid (ranges a)"
  shows "succ_idx (ranges a) (OffAddr x) (findSucc a x)"
proof -
  have "bracket (ranges a) (OffAddr x) 0 (length (ranges a))" by (auto simp: bracket_def)
  then show ?thesis using narrow_spec [OF assms, of "OffAddr x" 0 "length (ranges a)"] scan_spec [OF assms]
    by (auto simp: findSucc_def split: sum.splits prod.splits)
qed

lemma succ_idx_unique: "succ_idx rs x i \<Longrightarrow> succ_idx rs x j \<Longrightarrow> i = j"
proof (induction i j rule: linorder_wlog)
  case (le i j)
  show ?case
  proof (rule ccontr)
    assume "i \<noteq> j"
    then have "i < j" "i < length rs" using le by (auto simp: succ_idx_def)
    then have "base (rs ! i) \<le> x" "x < base (rs ! i)" using le(2,3) unfolding succ_idx_def by blast+
    then show False by simp
  qed
qed auto

text \<open>Only the range just below the successor can hold the address.\<close>

lemma holds_succ:
  assumes v: "valid rs" and s: "succ_idx rs x i"
  shows "holds rs x \<longleftrightarrow> 0 < i \<and> in_range (rs ! (i - 1)) x"
proof
  assume "holds rs x"
  then obtain k where k: "k < length rs" "in_range (rs ! k) x" by (auto simp: holds_def in_set_conv_nth)
  then have "k < i" using s by (meson in_range_def leD not_le succ_idx_def)
  moreover have "k = i - 1"
  proof (rule ccontr)
    assume "k \<noteq> i - 1"
    then have "k < i - 1" "i - 1 < length rs" using \<open>k < i\<close> s by (auto simp: succ_idx_def)
    then have "limit (rs ! k) < base (rs ! (i - 1))" "base (rs ! (i - 1)) \<le> x"
      using valid_gap [OF v] s \<open>k < i\<close> by (auto simp: succ_idx_def)
    then show False using k(2) by (auto simp: in_range_def)
  qed
  ultimately show "0 < i \<and> in_range (rs ! (i - 1)) x" using k(2) by simp
next
  assume i: "0 < i \<and> in_range (rs ! (i - 1)) x"
  then have "rs ! (i - 1) \<in> set rs" using s by (auto simp: succ_idx_def)
  then show "holds rs x" using i by (auto simp: holds_def)
qed

section \<open>Insertion\<close>

lemma copy_delete: "i < length xs \<Longrightarrow> take (length xs - 1) (copy_at xs i (drop (Suc i) xs)) = take i xs @ drop (Suc i) xs"
proof -
  assume i: "i < length xs"
  then have "length xs - 1 = i + length (drop (Suc i) xs)" by simp
  moreover have "copy_at xs i (drop (Suc i) xs) = (take i xs @ drop (Suc i) xs) @ drop (i + length (drop (Suc i) xs)) xs"
    using i by (simp add: copy_at_def)
  ultimately show ?thesis using i by (simp only: take_append) simp
qed

lemma copy_insert:
  assumes "i \<le> length xs"
  shows "(copy_at (xs @ [y]) (Suc i) (drop i (xs @ [y])))[i := r] = take i xs @ r # drop i xs"
proof -
  have "copy_at (xs @ [y]) (Suc i) (drop i (xs @ [y])) = take (Suc i) (xs @ [y]) @ drop i xs"
    using assms by (simp add: copy_at_def)
  moreover have "take (Suc i) (xs @ [y]) = take i xs @ [(xs @ [y]) ! i]"
    using assms take_Suc_conv_app_nth [of i "xs @ [y]"] by simp
  ultimately have "copy_at (xs @ [y]) (Suc i) (drop i (xs @ [y])) = take i xs @ (xs @ [y]) ! i # drop i xs" by simp
  moreover have "length (take i xs) = i" using assms by simp
  ultimately show ?thesis by (simp only: list_update_length [of "take i xs", simplified \<open>length (take i xs) = i\<close>])
qed

lemma copy_grow:
  assumes "i \<le> length xs"
  shows "(copy_at (copy_at (take i (replicate (Suc (length xs)) z)) 0 (take i xs) @ drop i (replicate (Suc (length xs)) z))
     (Suc i) (drop i xs))[i := r] = take i xs @ r # drop i xs"
proof -
  let ?n = "take i xs @ replicate (Suc (length xs) - i) z"
  have "copy_at (take i (replicate (Suc (length xs)) z)) 0 (take i xs) @ drop i (replicate (Suc (length xs)) z) = ?n"
    using assms by (simp add: copy_at_def min_def del: replicate_Suc)
  moreover have "Suc (length xs) - i = Suc (length xs - i)" using assms by simp
  ultimately show ?thesis using assms by (simp add: copy_at_def list_update_append min_def)
qed

lemma mkRange_simps [simp]: "mkRange (base r) (limit r) = r" "base (mkRange b l) = b" "limit (mkRange b l) = l"
  by (simp_all add: mkRange_def)

text \<open>The four outcomes of an insertion.\<close>

lemma insert_cases:
  fixes a :: addrRanges and r :: addrRange
  defines "rs \<equiv> ranges a" and "i \<equiv> findSucc a (addr (base r))"
  assumes i: "i \<le> length rs"
  shows "ranges (addrRanges_insert a r) =
    (let down = 0 < i \<and> limit (rs ! (i - 1)) = base r; up = i < length rs \<and> limit r = base (rs ! i)
     in if up \<and> down then take (i - 1) rs @ mkRange (base (rs ! (i - 1))) (limit (rs ! i)) # drop (Suc i) rs
        else if down then take (i - 1) rs @ mkRange (base (rs ! (i - 1))) (limit r) # drop i rs
        else if up then take i rs @ mkRange (base r) (limit (rs ! i)) # drop (Suc i) rs
        else take i rs @ r # drop i rs)"
proof -
  note fold = rs_def [symmetric] i_def [symmetric]
  have rec: "(rs ! k)\<lparr>limit := l\<rparr> = mkRange (base (rs ! k)) l" "(rs ! k)\<lparr>base := l\<rparr> = mkRange l (limit (rs ! k))" for k l
    by (simp_all add: mkRange_def)
  have down: "rs[i - 1 := x] = take (i - 1) rs @ x # drop i rs" if "0 < i" for x
    using i that by (simp add: upd_conv_take_nth_drop)
  let ?dn = "0 < i \<and> limit (rs ! (i - 1)) = base r" and ?up = "i < length rs \<and> limit r = base (rs ! i)"
  consider "?up" "?dn" | "\<not> ?up" "?dn" | "?up" "\<not> ?dn" | "\<not> ?up" "\<not> ?dn" by blast
  then show ?thesis
  proof cases
    case 1
    let ?xs = "rs[i - 1 := mkRange (base (rs ! (i - 1))) (limit (rs ! i))]"
    have "take i ?xs @ drop (Suc i) ?xs =
        take (i - 1) rs @ mkRange (base (rs ! (i - 1))) (limit (rs ! i)) # drop (Suc i) rs"
      using 1 down i by (auto simp: take_Cons' Cons_nth_drop_Suc [symmetric])
    moreover have "length (copy_at ?xs i (drop (Suc i) ?xs)) = length rs"
      using 1 by (auto simp: copy_at_def)
    ultimately show ?thesis using 1 copy_delete [of i ?xs]
      by (simp add: addrRanges_insert_def Let_def fold rec)
  next
    case 2
    then show ?thesis using down unfolding addrRanges_insert_def Let_def fold compare_simps rec by auto
  next
    case 3
    then have "rs[i := x] = take i rs @ x # drop (Suc i) rs" for x by (simp add: upd_conv_take_nth_drop)
    then show ?thesis using 3 unfolding addrRanges_insert_def Let_def fold compare_simps rec by auto
  next
    case 4
    then have n: "?up = False" "?dn = False" by simp_all
    show ?thesis
    proof (cases "spare a")
      case Nil
      then show ?thesis using copy_grow [OF i, of zeroRange r]
        unfolding addrRanges_insert_def Let_def fold compare_simps n by (simp del: replicate_Suc)
    next
      case (Cons y ys)
      then show ?thesis using copy_insert [OF i, of y r]
        unfolding addrRanges_insert_def Let_def fold compare_simps n by simp
    qed
  qed
qed

lemma valid_splice:
  assumes v: "valid rs" and n: "base n < limit n" and k: "k \<le> m"
    and lo: "\<And>j. j < k \<Longrightarrow> j < length rs \<Longrightarrow> limit (rs ! j) < base n"
    and hi: "\<And>j. m \<le> j \<Longrightarrow> j < length rs \<Longrightarrow> limit n < base (rs ! j)"
  shows "valid (take k rs @ n # drop m rs)"
proof -
  have lo': "limit s < base n" if "s \<in> set (take k rs)" for s
    using lo that by (auto simp: in_set_conv_nth)
  have hi': "limit n < base s" if "s \<in> set (drop m rs)" for s
    using hi that by (auto simp: in_set_conv_nth)
  have "limit s < base t" if "s \<in> set (take k rs)" "t \<in> set (drop m rs)" for s t
    using lo' [OF that(1)] hi' [OF that(2)] n by force
  moreover have "base s < limit s" if "s \<in> set (take k rs) \<or> s \<in> set (drop m rs)" for s
    using that v by (auto simp: valid_def dest: in_set_takeD in_set_dropD)
  ultimately show ?thesis
    using v n lo' hi' by (auto simp: valid_def sorted_wrt_append sorted_wrt_take sorted_wrt_drop)
qed

lemma holds_append [simp]: "holds (xs @ ys) x \<longleftrightarrow> holds xs x \<or> holds ys x"
  by (auto simp: holds_def)

lemma holds_Cons [simp]: "holds (r # rs) x \<longleftrightarrow> in_range r x \<or> holds rs x"
  by (simp add: holds_def)

lemma holds_split: "holds rs x \<longleftrightarrow> holds (take k rs) x \<or> holds (drop k rs) x"
  by (metis append_take_drop_id holds_append)

lemma holds_nth: "k < length rs \<Longrightarrow> holds (drop k rs) x \<longleftrightarrow> in_range (rs ! k) x \<or> holds (drop (Suc k) rs) x"
  by (metis Cons_nth_drop_Suc holds_Cons)

text \<open>The neighbours of a range that overlaps nothing.\<close>

lemma neighbours:
  assumes v: "valid rs" and s: "succ_idx rs (base r) i" and r: "base r < limit r"
    and d: "\<forall>x. in_range r x \<longrightarrow> \<not> holds rs x"
  shows "\<And>j. j < i \<Longrightarrow> limit (rs ! j) \<le> base r" and "\<And>j. i \<le> j \<Longrightarrow> j < length rs \<Longrightarrow> limit r \<le> base (rs ! j)"
proof -
  have held: "holds rs x" if "in_range (rs ! j) x" "j < length rs" for j x
    using that by (auto simp: holds_def)
  show "limit (rs ! j) \<le> base r" if "j < i" for j
    using held [of j "base r"] d s r that by (force simp: succ_idx_def in_range_def)
  show "limit r \<le> base (rs ! j)" if "i \<le> j" "j < length rs" for j
  proof (rule ccontr)
    assume "\<not> limit r \<le> base (rs ! j)"
    then have "in_range r (base (rs ! j))" using s that by (auto simp: succ_idx_def in_range_def)
    then show False using d held [of j "base (rs ! j)"] that valid_pos [OF v that(2)] by (auto simp: in_range_def)
  qed
qed

lemma insert_spec:
  assumes v: "valid (ranges a)" and r: "base r < limit r" and d: "\<And>x. in_range r x \<Longrightarrow> \<not> holds (ranges a) x"
  shows "valid (ranges (addrRanges_insert a r))"
    and "holds (ranges (addrRanges_insert a r)) x \<longleftrightarrow> holds (ranges a) x \<or> in_range r x"
proof -
  define rs where "rs = ranges a"
  define i where "i = findSucc a (addr (base r))"
  have s: "succ_idx rs (base r) i" using findSucc_spec [OF v, of "addr (base r)"] by (simp add: i_def rs_def)
  have v': "valid rs" using v by (simp add: rs_def)
  have i: "i \<le> length rs" using s by (simp add: succ_idx_def)
  have d': "\<forall>x. in_range r x \<longrightarrow> \<not> holds rs x" using d by (simp add: rs_def)
  note nb = neighbours [OF v' s r d']
  note eq = insert_cases [of a r, folded rs_def i_def, OF i]
  note gap = valid_gap [OF v'] and pos = valid_pos [OF v']
  define dn where "dn \<longleftrightarrow> 0 < i \<and> limit (rs ! (i - 1)) = base r"
  define up where "up \<longleftrightarrow> i < length rs \<and> limit r = base (rs ! i)"
  have lo: "limit (rs ! j) < base r" if "j < i" "dn \<longrightarrow> j < i - 1" for j
  proof (cases "j = i - 1")
    case True
    then show ?thesis using nb(1) [OF that(1)] that by (auto simp: dn_def le_less)
  next
    case False
    have "limit (rs ! j) < base (rs ! (i - 1))" using \<open>j \<noteq> i - 1\<close> gap [of j "i - 1"] that i by auto
    also have "base (rs ! (i - 1)) \<le> base r" using s that by (auto simp: succ_idx_def)
    finally show ?thesis .
  qed
  have hi: "limit r < base (rs ! j)" if "i \<le> j" "j < length rs" "up \<longrightarrow> i < j" for j
  proof (cases "j = i")
    case True
    then show ?thesis using nb(2) [OF that(1,2)] that by (auto simp: up_def le_less)
  next
    case False
    then show ?thesis using gap [of i j] nb(2) [of i] pos [of i] that by force
  qed
  let ?k = "if dn then i - 1 else i" and ?m = "if up then Suc i else i"
  let ?n = "mkRange (if dn then base (rs ! (i - 1)) else base r) (if up then limit (rs ! i) else limit r)"
  have eq': "ranges (addrRanges_insert a r) = take ?k rs @ ?n # drop ?m rs"
    unfolding eq Let_def dn_def [symmetric] up_def [symmetric] by (cases dn; cases up) simp_all
  have b: "base ?n \<le> base r" "limit r \<le> limit ?n"
    using s pos [of i] nb(2) [of i] by (auto simp: mkRange_def succ_idx_def dn_def up_def)
  show "valid (ranges (addrRanges_insert a r))"
    unfolding eq'
  proof (rule valid_splice [OF v'])
    show "base ?n < limit ?n" using b r by simp
    show "limit (rs ! j) < base ?n" if "j < ?k" "j < length rs" for j
      using that lo [of j] gap [of j "i - 1"] i by (auto simp: mkRange_def dn_def split: if_splits)
    show "limit ?n < base (rs ! j)" if "?m \<le> j" "j < length rs" for j
      using that hi [of j] gap [of i j] by (auto simp: mkRange_def up_def split: if_splits)
  qed auto
  have below: "holds (take i rs) x \<longleftrightarrow> holds (take ?k rs) x \<or> dn \<and> in_range (rs ! (i - 1)) x"
    using i by (auto simp: dn_def take_Suc_conv_app_nth holds_def gr0_conv_Suc)
  have above: "holds (drop i rs) x \<longleftrightarrow> holds (drop ?m rs) x \<or> up \<and> in_range (rs ! i) x"
    using holds_nth [of i rs x] by (auto simp: up_def)
  have mid: "in_range ?n x \<longleftrightarrow> in_range r x \<or> dn \<and> in_range (rs ! (i - 1)) x \<or> up \<and> in_range (rs ! i) x"
  proof -
    have "limit (rs ! (i - 1)) = base r" "base (rs ! (i - 1)) < base r" if dn
      using that pos [of "i - 1"] i by (auto simp: dn_def)
    moreover have "base (rs ! i) = limit r" "limit r < limit (rs ! i)" if up
      using that pos [of i] by (auto simp: up_def)
    ultimately show ?thesis using r by (cases dn; cases up) (auto simp: in_range_def)
  qed
  show "holds (ranges (addrRanges_insert a r)) x \<longleftrightarrow> holds (ranges a) x \<or> in_range r x"
    unfolding eq' rs_def [symmetric] holds_split [of rs x i] below above holds_append holds_Cons mid by blast
qed

section \<open>The interface\<close>

text \<open>
  What the page allocator relies on: a set of addresses to which disjoint non-empty ranges are added.
  A sequence of insertions then holds exactly the addresses of its ranges.
\<close>

definition fits :: "(offAddr \<Rightarrow> bool) \<Rightarrow> addrRange \<Rightarrow> bool" where
  "fits P r \<longleftrightarrow> base r < limit r \<and> (\<forall>x. in_range r x \<longrightarrow> \<not> P x)"

locale address_set =
  fixes inv :: "'s \<Rightarrow> bool" and mem :: "'s \<Rightarrow> offAddr \<Rightarrow> bool" and ins :: "'s \<Rightarrow> addrRange \<Rightarrow> 's"
  assumes ins_inv: "inv s \<Longrightarrow> fits (mem s) r \<Longrightarrow> inv (ins s r)"
    and ins_mem: "inv s \<Longrightarrow> fits (mem s) r \<Longrightarrow> mem (ins s r) x \<longleftrightarrow> mem s x \<or> in_range r x"
begin

lemma insert_all:
  assumes "inv s" and "\<forall>r\<in>set rs. fits (mem s) r"
    and "sorted_wrt (\<lambda>r r'. \<forall>x. \<not> (in_range r x \<and> in_range r' x)) rs"
  shows "inv (foldl ins s rs) \<and> (\<forall>x. mem (foldl ins s rs) x \<longleftrightarrow> mem s x \<or> holds rs x)"
  using assms
proof (induction rs arbitrary: s)
  case Nil
  then show ?case by (simp add: holds_def)
next
  case (Cons r rs)
  then have r: "fits (mem s) r" by simp
  have "fits (mem (ins s r)) r'" if "r' \<in> set rs" for r'
    using that Cons.prems ins_mem [OF Cons.prems(1) r] by (auto simp: fits_def)
  then have "inv (foldl ins (ins s r) rs) \<and> (\<forall>x. mem (foldl ins (ins s r) rs) x \<longleftrightarrow> mem (ins s r) x \<or> holds rs x)"
    using Cons.prems ins_inv [OF Cons.prems(1) r] by (intro Cons.IH) simp_all
  then show ?case using ins_mem [OF Cons.prems(1) r] by auto
qed

end

interpretation ranges_set: address_set "\<lambda>a. valid (ranges a)" "\<lambda>a. holds (ranges a)" addrRanges_insert
  by unfold_locales (simp_all add: insert_spec fits_def)

section \<open>Properties\<close>

text \<open>
  \<open>add\<close> as written never gets to insert a proper range: \<open>size\<close> tests its bounds the wrong way
  round and returns 0 for every non-empty range, which \<open>add\<close> takes for an empty one and throws.
\<close>

lemma addrRanges_add_throws:
  assumes "base r < limit r"
  shows "addrRanges_add a r = Inl (Throw ''attempted to add zero-sized address range'')"
  using assms by (simp add: addrRanges_add_def addrRange_size_def)

text \<open>
  C32: \<open>add\<close> refuses every non-empty range that fits into the set, because \<open>size\<close>, with its test the
  wrong way round, is 0 for it; the code behind that guard, which such a range never reaches, would be
  right: it keeps the ranges non-empty, sorted and separated by gaps, and the set then holds exactly the
  old addresses and those of the new range, whether the range is merged with both neighbours, with one
  of them or with none, and whether the slice has spare capacity or grows.
\<close>

theorem addrRanges_add_rejects:
  assumes "valid (ranges a)" and "base r < limit r" and "\<forall>x. in_range r x \<longrightarrow> \<not> holds (ranges a) x"
  shows "addrRange_size r = 0 \<and>
    addrRanges_add a r = Inl (Throw ''attempted to add zero-sized address range'') \<and>
    valid (ranges (addrRanges_insert a r)) \<and>
    (\<forall>x. holds (ranges (addrRanges_insert a r)) x \<longleftrightarrow> holds (ranges a) x \<or> in_range r x)"
  using assms insert_spec [of a r] by (simp add: addrRanges_add_throws addrRange_size_def)

theorem addrRanges_add_rejects_witness:
  "addrRange_size (mkRange (OffAddr 4096) (OffAddr 8192)) = 0 \<and>
    addrRanges_add addrRanges_init (mkRange (OffAddr 4096) (OffAddr 8192)) =
      Inl (Throw ''attempted to add zero-sized address range'') \<and>
    valid (ranges (addrRanges_insert addrRanges_init (mkRange (OffAddr 4096) (OffAddr 8192)))) \<and>
    (\<forall>x. holds (ranges (addrRanges_insert addrRanges_init (mkRange (OffAddr 4096) (OffAddr 8192)))) x \<longleftrightarrow>
      holds (ranges addrRanges_init) x \<or> in_range (mkRange (OffAddr 4096) (OffAddr 8192)) x)"
  by (rule addrRanges_add_rejects)
    (simp_all add: addrRanges_init_def valid_def holds_def less_offAddr_iff arenaBaseOffset_def)

text \<open>
  any sequence of insertions of pairwise disjoint non-empty ranges into a fresh set holds exactly
  the union of the ranges, and the invariant.
\<close>

lemma addrRanges_sequence:
  assumes "\<forall>r\<in>set rs. base r < limit r" and "sorted_wrt (\<lambda>r r'. \<forall>x. \<not> (in_range r x \<and> in_range r' x)) rs"
  shows "valid (ranges (foldl addrRanges_insert addrRanges_init rs)) \<and>
    (\<forall>x. holds (ranges (foldl addrRanges_insert addrRanges_init rs)) x \<longleftrightarrow> (\<exists>r\<in>set rs. in_range r x))"
proof -
  have "valid (ranges addrRanges_init)" "\<And>x. \<not> holds (ranges addrRanges_init) x"
    by (simp_all add: addrRanges_init_def valid_def holds_def)
  then show ?thesis using ranges_set.insert_all [of addrRanges_init rs] assms
    by (simp add: fits_def holds_def [of rs])
qed

text \<open>
  \<open>findSucc\<close>, a binary search that stops early and ends in a linear scan, terminates and returns
  the first index whose range starts above the address, the length when there is none.
\<close>

lemma findSucc_correct:
  assumes "valid (ranges a)"
  shows "findSucc a x \<le> length (ranges a) \<and>
    (\<forall>j<length (ranges a). OffAddr x < base (ranges a ! j) \<longleftrightarrow> findSucc a x \<le> j)"
  using findSucc_spec [OF assms, of x] by (auto simp: succ_idx_def not_le) (metis not_le)

text \<open>
  \<open>findAddrGreaterEqual\<close> on a non-empty set.
\<close>

lemma findAddrGreaterEqual_nonempty:
  assumes "valid (ranges a)" and "ranges a \<noteq> []"
  shows "\<exists>y ok. findAddrGreaterEqual a x = Inr (y, ok) \<and>
    (if ok then OffAddr x \<le> OffAddr y \<and> holds (ranges a) (OffAddr y) \<and>
       (\<forall>z. OffAddr x \<le> z \<and> z < OffAddr y \<longrightarrow> \<not> holds (ranges a) z)
     else \<forall>z. OffAddr x \<le> z \<longrightarrow> \<not> holds (ranges a) z)"
proof -
  let ?rs = "ranges a" and ?x = "OffAddr x"
  define i where "i = findSucc a x"
  have s: "succ_idx ?rs ?x i" using findSucc_spec [OF assms(1)] by (simp add: i_def)
  note v = assms(1)
  have held: "holds ?rs (base (?rs ! k))" if "k < length ?rs" for k
    using that valid_pos [OF v that] by (auto simp: holds_def in_range_def intro!: bexI [of _ "?rs ! k"])
  have none: "\<not> holds ?rs z"
    if z: "?x \<le> z" "i < length ?rs \<longrightarrow> z < base (?rs ! i)" and out: "0 < i \<longrightarrow> \<not> in_range (?rs ! (i - 1)) ?x" for z
  proof -
    have "z < base (?rs ! j)" if "i \<le> j" "j < length ?rs" for j
      using z(2) valid_base_le [OF v that] that by (meson le_less_trans order_less_le_trans)
    then have "succ_idx ?rs z i" using s z(1) unfolding succ_idx_def by (meson order_trans)
    then show ?thesis using holds_succ [OF v] out z(1) s by (auto simp: in_range_def succ_idx_def)
  qed
  show ?thesis
  proof (cases "0 < i \<and> in_range (?rs ! (i - 1)) ?x")
    case True
    then have "holds ?rs ?x" using holds_succ [OF v s] by simp
    moreover have "findAddrGreaterEqual a x = Inr (x, True)"
      using True by (simp add: findAddrGreaterEqual_def Let_def contains_iff flip: i_def)
    ultimately show ?thesis by (intro exI [of _ x] exI [of _ True]) auto
  next
    case False
    show ?thesis
    proof (cases "i < length ?rs")
      case True
      then have "findAddrGreaterEqual a x = Inr (addr (base (?rs ! i)), True)"
        using False assms(2) by (auto simp: findAddrGreaterEqual_def Let_def contains_iff simp flip: i_def)
      moreover have "?x < base (?rs ! i)" using s True by (simp add: succ_idx_def)
      ultimately show ?thesis using held [OF True] none False
        by (intro exI [of _ "addr (base (?rs ! i))"] exI [of _ True]) (auto simp: less_imp_le)
    next
      case nlt: False
      then have "0 < i" using assms(2) by (cases i) auto
      then have "findAddrGreaterEqual a x = Inr (0, False)"
        using False nlt by (auto simp: findAddrGreaterEqual_def Let_def contains_iff simp flip: i_def)
      then show ?thesis using none False nlt by (intro exI [of _ 0] exI [of _ False]) auto
    qed
  qed
qed

text \<open>
  C34: \<open>findAddrGreaterEqual\<close> returns the smallest address of the set that is at least the given one, and
  \<open>false\<close> exactly when a non-empty set has none; on the empty set it indexes the first range and panics.
\<close>

theorem findAddrGreaterEqual_correct:
  assumes "valid (ranges a)"
  shows "if ranges a = [] then findAddrGreaterEqual a x = Inl IndexPanic
    else \<exists>y ok. findAddrGreaterEqual a x = Inr (y, ok) \<and>
      (if ok then OffAddr x \<le> OffAddr y \<and> holds (ranges a) (OffAddr y) \<and>
         (\<forall>z. OffAddr x \<le> z \<and> z < OffAddr y \<longrightarrow> \<not> holds (ranges a) z)
       else \<forall>z. OffAddr x \<le> z \<longrightarrow> \<not> holds (ranges a) z)"
proof (cases "ranges a = []")
  case True
  then show ?thesis
    by (simp add: findAddrGreaterEqual_def findSucc_def findSucc_narrow.simps findSucc_scan.simps)
next
  case False
  then show ?thesis using findAddrGreaterEqual_nonempty [OF assms False, of x] by simp
qed

theorem findAddrGreaterEqual_correct_witness:
  "if ranges (addrRanges_init\<lparr>ranges := [mkRange (OffAddr 16) (OffAddr 32)]\<rparr>) = [] then findAddrGreaterEqual (addrRanges_init\<lparr>ranges := [mkRange (OffAddr 16) (OffAddr 32)]\<rparr>) 5 = Inl IndexPanic
    else \<exists>y ok. findAddrGreaterEqual (addrRanges_init\<lparr>ranges := [mkRange (OffAddr 16) (OffAddr 32)]\<rparr>) 5 = Inr (y, ok) \<and>
      (if ok then OffAddr 5 \<le> OffAddr y \<and> holds (ranges (addrRanges_init\<lparr>ranges := [mkRange (OffAddr 16) (OffAddr 32)]\<rparr>)) (OffAddr y) \<and>
         (\<forall>z. OffAddr 5 \<le> z \<and> z < OffAddr y \<longrightarrow> \<not> holds (ranges (addrRanges_init\<lparr>ranges := [mkRange (OffAddr 16) (OffAddr 32)]\<rparr>)) z)
       else \<forall>z. OffAddr 5 \<le> z \<longrightarrow> \<not> holds (ranges (addrRanges_init\<lparr>ranges := [mkRange (OffAddr 16) (OffAddr 32)]\<rparr>)) z)"
  by (rule findAddrGreaterEqual_correct)
    (simp_all add: valid_def less_offAddr_iff arenaBaseOffset_def)

text \<open>
  \<open>subtract\<close> of non-empty ranges removes from \<open>a\<close> exactly the addresses of \<open>b\<close>, with two
  exceptions. When both start at the same address and \<open>b\<close> covers \<open>a\<close>, it returns \<open>a\<close> unchanged,
  and when \<open>b\<close> lies in \<open>a\<close> and starts later it throws even if the two end together.
\<close>

lemma subtract_effect:
  assumes "base a < limit a" and "base b < limit b"
  shows "if base a = base b \<and> limit a \<le> limit b then subtract a b = Inr a
    else if base a < base b \<and> limit b \<le> limit a then subtract a b = Inl (Throw ''bad prune'')
    else \<exists>c. subtract a b = Inr c \<and> (\<forall>x. in_range c x \<longleftrightarrow> in_range a x \<and> \<not> in_range b x)"
proof -
  consider (same) "base a = base b" "limit a \<le> limit b" | (inner) "base a < base b" "limit b \<le> limit a"
    | (covered) "base b < base a" "limit a \<le> limit b"
    | (left) "base b \<le> base a" "limit b < limit a" "base a < limit b"
    | (right) "base a < base b" "base b < limit a" "limit a < limit b"
    | (apart) "limit b \<le> base a \<or> limit a \<le> base b" by fastforce
  then show ?thesis
  proof cases
    case same
    then show ?thesis using assms by (auto simp: subtract_def)
  next
    case inner
    then show ?thesis using assms by (auto simp: subtract_def)
  next
    case covered
    have "\<not> in_range zeroRange x" for x by (auto simp: in_range_def zeroRange_def)
    then show ?thesis using covered by (auto simp: subtract_def in_range_def)
  next
    case left
    then have "subtract a b = Inr (a\<lparr>base := limit b\<rparr>)" by (auto simp: subtract_def)
    then show ?thesis using left assms by (auto simp: in_range_def)
  next
    case right
    then have "subtract a b = Inr (a\<lparr>limit := base b\<rparr>)" by (auto simp: subtract_def)
    then show ?thesis using right assms by (auto simp: in_range_def)
  next
    case apart
    then have "subtract a b = Inr a" using assms by (auto simp: subtract_def)
    then show ?thesis using apart assms by (auto simp: in_range_def)
  qed
qed

end
