(* ===== verification/PageAlloc.thy ===== *)
theory PageAlloc
  imports PallocSummary Ranges
begin

unbundle bit_operations_syntax

text \<open>
  The page allocator, \<open>src/memory_and_heap/mpagealloc.go\<close> and the tables of
  \<open>mpagealloc_64bit.go\<close>: chunk indices, the five summary levels, \<open>update\<close>, \<open>allocRange\<close>,
  \<open>findMappedAddr\<close> and \<open>find\<close>. A summary level is a slice of \<open>pallocSum\<close> whose capacity is the whole
  reservation of the level; it is modelled by its length and a function from indices to summaries,
  so that an operation on a sparse heap stays executable. The two-level \<open>chunks\<close> array is a map from
  first-level indices to second-level arrays, \<open>None\<close> being a nil pointer. The lock, the statistics
  and the state of the memory behind the summaries are not modelled.
\<close>

section \<open>Constants and tables\<close>

definition pageSize :: uintptr where
  "pageSize = 8192"

definition pallocChunkPages :: u64 where
  "pallocChunkPages = shl 1 9"

definition pallocChunkBytes :: uintptr where
  "pallocChunkBytes = pallocChunkPages * pageSize"

definition pallocChunksL2Bits :: u64 where
  "pallocChunksL2Bits = 48 - 22 - 13"

definition levelBits :: "u64 list" where
  "levelBits = [14, 3, 3, 3, 3]"

definition levelShift :: "u64 list" where
  "levelShift = [48 - 14, 48 - 14 - 1 * 3, 48 - 14 - 2 * 3, 48 - 14 - 3 * 3, 48 - 14 - 4 * 3]"

definition levelLogPages :: "u64 list" where
  "levelLogPages = [9 + 4 * 3, 9 + 3 * 3, 9 + 2 * 3, 9 + 1 * 3, 9]"

definition maxSearchAddr :: offAddr where
  "maxSearchAddr = maxOffAddr"

section \<open>Indices\<close>

type_synonym chunkIdx = u64

definition chunkIndex :: "uintptr \<Rightarrow> chunkIdx" where
  "chunkIndex p = (p - arenaBaseOffset) div pallocChunkBytes"

definition chunkBase :: "chunkIdx \<Rightarrow> uintptr" where
  "chunkBase ci = ci * pallocChunkBytes + arenaBaseOffset"

definition chunkPageIndex :: "uintptr \<Rightarrow> u64" where
  "chunkPageIndex p = p mod pallocChunkBytes div pageSize"

definition l1 :: "chunkIdx \<Rightarrow> u64" where
  "l1 i = shr i pallocChunksL2Bits"

definition l2 :: "chunkIdx \<Rightarrow> u64" where
  "l2 i = i AND (shl 1 pallocChunksL2Bits - 1)"

definition offAddrToLevelIndex :: "nat \<Rightarrow> offAddr \<Rightarrow> u64" where
  "offAddrToLevelIndex level a = shr (addr a - arenaBaseOffset) (levelShift ! level)"

definition levelIndexToOffAddr :: "nat \<Rightarrow> u64 \<Rightarrow> offAddr" where
  "levelIndexToOffAddr level idx = OffAddr (shl idx (levelShift ! level) + arenaBaseOffset)"

definition addrsToSummaryRange :: "nat \<Rightarrow> uintptr \<Rightarrow> uintptr \<Rightarrow> u64 \<times> u64" where
  "addrsToSummaryRange level bs lim =
     (shr (bs - arenaBaseOffset) (levelShift ! level),
      shr (lim - arenaBaseOffset) (levelShift ! level) + 1)"

definition blockAlignSummaryRange :: "nat \<Rightarrow> u64 \<Rightarrow> u64 \<Rightarrow> u64 \<times> u64" where
  "blockAlignSummaryRange level lo hi =
     (let e = shl 1 (levelBits ! level) in (alignDown lo e, alignUp hi e))"

section \<open>State\<close>

record sumLevel =
  lv_len :: nat
  lv_sum :: "nat \<Rightarrow> pallocSum"

record pageAlloc =
  summary :: "sumLevel list"
  chunks :: "nat \<Rightarrow> (nat \<Rightarrow> pallocData) option"
  searchAddr :: offAddr
  pa_start :: chunkIdx
  pa_end :: chunkIdx
  inUse :: addrRanges
  pa_test :: bool

text \<open>\<open>p.summary[l][i]\<close>, assignment to it, and the slice \<open>p.summary[l][lo:hi]\<close>, whose bound is the capacity.\<close>

definition sum_get :: "pageAlloc \<Rightarrow> nat \<Rightarrow> u64 \<Rightarrow> pallocSum res" where
  "sum_get p l i =
     (if unat i < lv_len (summary p ! l) then Inr (lv_sum (summary p ! l) (unat i)) else Inl IndexPanic)"

definition sum_put :: "pageAlloc \<Rightarrow> nat \<Rightarrow> (nat \<Rightarrow> pallocSum) \<Rightarrow> pageAlloc" where
  "sum_put p l f = p\<lparr>summary := (summary p)[l := (summary p ! l)\<lparr>lv_sum := f\<rparr>]\<rparr>"

definition sum_set :: "pageAlloc \<Rightarrow> nat \<Rightarrow> u64 \<Rightarrow> pallocSum \<Rightarrow> pageAlloc res" where
  "sum_set p l i v =
     (if unat i < lv_len (summary p ! l)
      then Inr (sum_put p l ((lv_sum (summary p ! l))(unat i := v))) else Inl IndexPanic)"

definition level_cap :: "nat \<Rightarrow> nat" where
  "level_cap l = 2 ^ (48 - unat (levelShift ! l))"

definition sum_slice :: "pageAlloc \<Rightarrow> nat \<Rightarrow> u64 \<Rightarrow> u64 \<Rightarrow> pallocSum list res" where
  "sum_slice p l lo hi =
     (if lo \<le> hi \<and> unat hi \<le> level_cap l
      then Inr (map (lv_sum (summary p ! l)) [unat lo..<unat hi]) else Inl IndexPanic)"

definition chunkOf :: "pageAlloc \<Rightarrow> chunkIdx \<Rightarrow> pallocData res" where
  "chunkOf p ci =
     (if unat (l1 ci) < 8192
      then case chunks p (unat (l1 ci)) of None \<Rightarrow> Inl NilPanic | Some c \<Rightarrow> Inr (c (unat (l2 ci)))
      else Inl IndexPanic)"

text \<open>What a call through the pointer \<open>chunkOf(ci)\<close> does to the chunk.\<close>

definition chunk_upd :: "pageAlloc \<Rightarrow> chunkIdx \<Rightarrow> (pallocData \<Rightarrow> pallocData res) \<Rightarrow> pageAlloc res" where
  "chunk_upd p ci f =
     (if unat (l1 ci) < 8192
      then case chunks p (unat (l1 ci)) of
             None \<Rightarrow> Inl NilPanic
           | Some c \<Rightarrow> go_bind (f (c (unat (l2 ci)))) (\<lambda>d.
               Inr (p\<lparr>chunks := (chunks p)(unat (l1 ci) \<mapsto> c(unat (l2 ci) := d))\<rparr>))
      else Inl IndexPanic)"

definition chunk_summarize :: "pageAlloc \<Rightarrow> chunkIdx \<Rightarrow> pallocSum res" where
  "chunk_summarize p ci = go_bind (chunkOf p ci) (\<lambda>d. returns (summarize (pd_bits d)))"

section \<open>Updating the summaries\<close>

text \<open>The leaf level. The flag is false on the early \<open>return\<close>.\<close>

definition update_leaves :: "pageAlloc \<Rightarrow> chunkIdx \<Rightarrow> chunkIdx \<Rightarrow> bool \<Rightarrow> bool \<Rightarrow> (pageAlloc \<times> bool) res" where
  "update_leaves p sc ec contig alloc =
     (if sc = ec then
        go_bind (sum_get p 4 sc) (\<lambda>x.
        go_bind (chunk_summarize p sc) (\<lambda>y.
        if x = y then Inr (p, False)
        else go_bind (sum_set p 4 sc y) (\<lambda>p. Inr (p, True))))
      else if contig then
        go_bind (chunk_summarize p sc) (\<lambda>s.
        go_bind (sum_set p 4 sc s) (\<lambda>p.
        go_bind (sum_slice p 4 (sc + 1) ec) (\<lambda>_.
        let p = sum_put p 4 (\<lambda>i. if unat (sc + 1) \<le> i \<and> i < unat ec
                                 then if alloc then 0 else freeChunkSum
                                 else lv_sum (summary p ! 4) i)
        in go_bind (chunk_summarize p ec) (\<lambda>s.
           go_bind (sum_set p 4 ec s) (\<lambda>p. Inr (p, True))))))
      else
        go_bind (go_for sc (ec + 1) (\<lambda>c p. go_bind (chunk_summarize p c) (\<lambda>s. sum_set p 4 c s)) p)
          (\<lambda>p. Inr (p, True)))"

text \<open>One block of a level: its summary is recomputed from the eight below.\<close>

definition update_block :: "nat \<Rightarrow> u64 \<Rightarrow> pageAlloc \<times> bool \<Rightarrow> (pageAlloc \<times> bool) res" where
  "update_block l i s =
     (case s of (p, changed) \<Rightarrow>
        let logEntriesPerBlock = levelBits ! (l + 1); logMaxPages = levelLogPages ! (l + 1)
        in go_bind (sum_slice p (l + 1) (shl i logEntriesPerBlock) (shl (i + 1) logEntriesPerBlock)) (\<lambda>children.
           go_bind (mergeSummaries children logMaxPages) (\<lambda>sum.
           go_bind (sum_get p l i) (\<lambda>old.
           if old \<noteq> sum then go_bind (sum_set p l i sum) (\<lambda>p. Inr (p, True))
           else Inr (p, changed)))))"

text \<open>\<open>update_levels p n\<close> runs the outer loop for the levels \<open>n - 1\<close> down to 0.\<close>

fun update_levels :: "pageAlloc \<Rightarrow> nat \<Rightarrow> uintptr \<Rightarrow> uintptr \<Rightarrow> pageAlloc res" where
  "update_levels p 0 bs lim = Inr p"
| "update_levels p (Suc l) bs lim =
     (let (lo, hi) = addrsToSummaryRange l bs (lim + 1)
      in go_bind (go_for lo hi (update_block l) (p, False)) (\<lambda>(p, changed).
         if changed then update_levels p l bs lim else Inr p))"

definition update :: "pageAlloc \<Rightarrow> uintptr \<Rightarrow> uintptr \<Rightarrow> bool \<Rightarrow> bool \<Rightarrow> pageAlloc res" where
  "update p bs npages contig alloc =
     (let lim = bs + npages * pageSize - 1;
          sc = chunkIndex bs; ec = chunkIndex lim
      in go_bind (update_leaves p sc ec contig alloc) (\<lambda>(p, walk).
         if walk then update_levels p 4 bs lim else Inr p))"

section \<open>Allocating a range\<close>

definition allocRange :: "pageAlloc \<Rightarrow> uintptr \<Rightarrow> uintptr \<Rightarrow> (pageAlloc \<times> uintptr) res" where
  "allocRange p bs npages =
     (let lim = bs + npages * pageSize - 1;
          sc = chunkIndex bs; ec = chunkIndex lim;
          si = chunkPageIndex bs; ei = chunkPageIndex lim
      in go_bind
           (if sc = ec then chunk_upd p sc (\<lambda>d. pallocData_allocRange d si (ei + 1 - si))
            else
              go_bind (chunk_upd p sc (\<lambda>d. pallocData_allocRange d si (pallocChunkPages - si))) (\<lambda>p.
              go_bind (go_for (sc + 1) ec (\<lambda>c p. chunk_upd p c (\<lambda>d. Inr (pallocData_allocAll d))) p) (\<lambda>p.
              chunk_upd p ec (\<lambda>d. pallocData_allocRange d 0 ei))))
           (\<lambda>p. go_bind (update p bs npages True True) (\<lambda>p. Inr (p, 0))))"

section \<open>Searching\<close>

text \<open>
  \<open>mheap_.arenas\<close> is an argument: \<open>None\<close> when its only first-level entry is nil, otherwise which
  second-level entries are set. There is no first level on Linux, so \<open>l2\<close> of an arena index is the
  index.
\<close>

definition arenaIndex :: "uintptr \<Rightarrow> u64" where
  "arenaIndex p = (p - arenaBaseOffset) div shl 1 26"

definition arena_missing :: "(u64 \<Rightarrow> bool) option \<Rightarrow> u64 \<Rightarrow> bool res" where
  "arena_missing arenas ai =
     (case arenas of None \<Rightarrow> Inr True
      | Some f \<Rightarrow> if unat ai < 2 ^ 22 then Inr (\<not> f ai) else Inl IndexPanic)"

definition findMappedAddr :: "(u64 \<Rightarrow> bool) option \<Rightarrow> pageAlloc \<Rightarrow> offAddr \<Rightarrow> offAddr res" where
  "findMappedAddr arenas p a =
     go_bind (if pa_test p then Inr True else arena_missing arenas (arenaIndex (addr a))) (\<lambda>missing.
       if missing
       then go_bind (findAddrGreaterEqual (inUse p) (addr a)) (\<lambda>(vAddr, ok).
              Inr (if ok then OffAddr vAddr else maxOffAddr))
       else Inr a)"

definition foundFree :: "offAddr \<times> offAddr \<Rightarrow> offAddr \<Rightarrow> uintptr \<Rightarrow> (offAddr \<times> offAddr) res" where
  "foundFree ff a sz =
     (case ff of (bs, bound) \<Rightarrow>
        if lessEqual bs a \<and> lessEqual (offAddr_add a (sz - 1)) bound
        then Inr (a, offAddr_add a (sz - 1))
        else if \<not> (lessThan (offAddr_add a (sz - 1)) bs \<or> lessThan bound a)
        then Inl (Throw ''range partially overlaps'')
        else Inr ff)"

text \<open>
  The loop over the entries of a block. Its guard tests \<open>i\<close>, the index of the block, not \<open>j\<close>. It ends
  by \<open>continue nextLevel\<close> with the entry to descend into, or with the run of pages found so far.
\<close>

datatype block_result = Descend u64 | RunFound u64 u64

fun find_block ::
  "nat \<Rightarrow> u64 \<Rightarrow> nat \<Rightarrow> u64 \<Rightarrow> pallocSum list \<Rightarrow> u64 \<Rightarrow> u64 \<Rightarrow> u64 \<Rightarrow> offAddr \<times> offAddr \<Rightarrow>
   (block_result \<times> offAddr \<times> offAddr) res" where
  "find_block l i n npages [] j bs sz ff =
     (if unat i < n then Inl IndexPanic else Inr (RunFound bs sz, ff))"
| "find_block l i n npages (entry # entries) j bs sz ff =
     (if \<not> unat i < n then Inr (RunFound bs sz, ff)
      else if entry = 0 then find_block l i n npages entries (j + 1) bs 0 ff
      else
        let logMaxPages = levelLogPages ! l
        in go_bind (foundFree ff (levelIndexToOffAddr l (i + j)) (shl 1 logMaxPages * pageSize)) (\<lambda>ff.
           let s = pallocSum_start entry
           in if sz + s \<ge> npages
              then Inr (RunFound (if sz = 0 then shl j logMaxPages else bs) (sz + s), ff)
              else if pallocSum_max entry \<ge> npages then Inr (Descend (i + j), ff)
              else if sz = 0 \<or> s < shl 1 logMaxPages
              then find_block l i n npages entries (j + 1)
                     (shl (j + 1) logMaxPages - pallocSum_end entry) (pallocSum_end entry) ff
              else find_block l i n npages entries (j + 1) bs (sz + shl 1 logMaxPages) ff))"

text \<open>The search inside the chunk at the end of the descent.\<close>

definition find_chunk ::
  "(u64 \<Rightarrow> bool) option \<Rightarrow> pageAlloc \<Rightarrow> u64 \<Rightarrow> u64 \<Rightarrow> offAddr \<times> offAddr \<Rightarrow> (uintptr \<times> offAddr) res" where
  "find_chunk arenas p npages ci ff =
     go_bind (chunkOf p ci) (\<lambda>d.
     go_bind (returns (pallocBits_find (pd_bits d) npages 0)) (\<lambda>(j, searchIdx).
     if j = noIdx then go_bind (sum_get p 4 ci) (\<lambda>_. Inl (Throw ''bad summary data''))
     else
       let a = chunkBase ci + j * pageSize; search = chunkBase ci + searchIdx * pageSize
       in go_bind (foundFree ff (OffAddr search) (chunkBase (ci + 1) - search)) (\<lambda>ff.
          go_bind (findMappedAddr arenas p (fst ff)) (\<lambda>m. Inr (a, m)))))"

text \<open>\<open>find_levels\<close> with \<open>r\<close> levels left runs the loop from level \<open>5 - r\<close> on.\<close>

fun find_levels ::
  "(u64 \<Rightarrow> bool) option \<Rightarrow> pageAlloc \<Rightarrow> u64 \<Rightarrow> nat \<Rightarrow> u64 \<Rightarrow> offAddr \<times> offAddr \<Rightarrow> (uintptr \<times> offAddr) res" where
  "find_levels arenas p npages 0 i ff = find_chunk arenas p npages i ff"
| "find_levels arenas p npages (Suc r) i ff =
     (let l = 4 - r;
          entriesPerBlock = shl 1 (levelBits ! l);
          i = shl i (levelBits ! l)
      in go_bind (sum_slice p l i (i + entriesPerBlock)) (\<lambda>entries.
         let searchIdx = offAddrToLevelIndex l (searchAddr p);
             j0 = (if andnot searchIdx (entriesPerBlock - 1) = i then searchIdx AND (entriesPerBlock - 1) else 0)
         in go_bind (find_block l i (length entries) npages (drop (unat j0) entries) j0 0 0 ff) (\<lambda>(res, ff).
            case res of
              Descend i \<Rightarrow> find_levels arenas p npages r i ff
            | RunFound bs sz \<Rightarrow>
                if sz \<ge> npages
                then go_bind (findMappedAddr arenas p (fst ff)) (\<lambda>m.
                       Inr (addr (offAddr_add (levelIndexToOffAddr l i) (bs * pageSize)), m))
                else if l = 0 then Inr (0, maxSearchAddr)
                else Inl (Throw ''bad summary data''))))"

definition find :: "(u64 \<Rightarrow> bool) option \<Rightarrow> pageAlloc \<Rightarrow> uintptr \<Rightarrow> (uintptr \<times> offAddr) res" where
  "find arenas p npages = find_levels arenas p npages 5 0 (minOffAddr, maxOffAddr)"

section \<open>Linear addresses\<close>

definition lin :: "uintptr \<Rightarrow> nat" where
  "lin p = unat (p - arenaBaseOffset)"

lemma chunk_consts [simp]:
  "pageSize = 8192" "pallocChunkBytes = 4194304" "pallocChunkPages = 512" "pallocChunksL2Bits = 13"
  by (simp_all add: pageSize_def pallocChunkBytes_def pallocChunkPages_def pallocChunksL2Bits_def shl_def push_bit_eq_mult)

lemma unat_arenaBaseOffset: "unat arenaBaseOffset = 4194304 * 4398012956672"
  by (simp add: arenaBaseOffset_def)

lemma mod_lin: "k dvd 4194304 \<Longrightarrow> unat p mod k = lin p mod k"
proof -
  assume k: "k dvd 4194304"
  then have off: "unat arenaBaseOffset mod k = 0" unfolding unat_arenaBaseOffset
    by (metis dvd_eq_mod_eq_0 dvd_mult2)
  have k64: "k dvd 2 ^ 64" using k by (rule dvd_trans) simp
  have "unat p = (lin p + unat arenaBaseOffset) mod 2 ^ 64"
    using unat_word_ariths(1) [of "p - arenaBaseOffset" arenaBaseOffset] by (simp add: lin_def)
  then have "unat p mod k = (lin p + unat arenaBaseOffset) mod k" using k64 by (simp add: mod_mod_cancel)
  also have "\<dots> = lin p mod k" using off by (metis add.right_neutral mod_add_right_eq)
  finally show ?thesis .
qed

lemma unat_chunkIndex: "unat (chunkIndex p) = lin p div 4194304"
  by (simp add: chunkIndex_def lin_def unat_div)

lemma unat_chunkPageIndex: "unat (chunkPageIndex p) = lin p mod 4194304 div 8192"
  using mod_lin [of 4194304 p] by (simp add: chunkPageIndex_def unat_div unat_mod)

lemma lin_add: "lin p + unat n < 2 ^ 64 \<Longrightarrow> lin (p + n) = lin p + unat n"
  unfolding lin_def using unat_add_noov [of "p - arenaBaseOffset" n] by (simp add: algebra_simps)

lemma lin_chunkBase: "unat ci < 2 ^ 42 \<Longrightarrow> lin (chunkBase ci) = unat ci * 4194304"
  by (simp add: lin_def chunkBase_def unat_word_ariths)

lemma lin_eq_iff: "lin p = lin q \<longleftrightarrow> p = q"
  by (simp add: lin_def word_unat_eq_iff [symmetric])

lemma lin_less: "lin p < 2 ^ 64"
  unfolding lin_def using unsigned_less [of "p - arenaBaseOffset"] by simp

lemma unat_l1: "unat (l1 ci) = unat ci div 8192"
  by (simp add: l1_def unat_shr)

lemma unat_l2: "unat (l2 ci) = unat ci mod 8192"
proof -
  have "(shl 1 13 - 1 :: u64) = mask 13" by (simp add: shl_def push_bit_eq_mult mask_eq_exp_minus_1)
  then have "l2 ci = take_bit 13 ci" by (simp add: l2_def take_bit_eq_mask)
  then show ?thesis by (simp add: take_bit_eq_mod unat_mod)
qed

section \<open>Level tables\<close>

definition shiftN :: "nat \<Rightarrow> nat" where
  "shiftN l = 34 - 3 * l"

lemma less_5: "l < 5 \<Longrightarrow> l = 0 \<or> l = 1 \<or> l = 2 \<or> l = 3 \<or> l = (4 :: nat)"
  by linarith

lemma unat_levelShift: "l < 5 \<Longrightarrow> unat (levelShift ! l) = shiftN l"
  by (auto simp: levelShift_def shiftN_def dest!: less_5)

lemma level_bits: "l < 4 \<Longrightarrow> levelBits ! Suc l = 3"
  using less_5 [of l] by (auto simp: levelBits_def)

lemma level_cap_eq: "l < 5 \<Longrightarrow> level_cap l = 2 ^ (14 + 3 * l)"
  by (auto simp: level_cap_def unat_levelShift shiftN_def dest!: less_5)

lemma summary_range:
  assumes "l < 5" and "addrsToSummaryRange l b e = (lo, hi)"
  shows "unat lo = lin b div 2 ^ shiftN l" and "unat hi = Suc (lin e div 2 ^ shiftN l)"
proof -
  have lo: "lo = shr (b - arenaBaseOffset) (levelShift ! l)" and hi: "hi = shr (e - arenaBaseOffset) (levelShift ! l) + 1"
    using assms(2) by (simp_all add: addrsToSummaryRange_def)
  show "unat lo = lin b div 2 ^ shiftN l" using assms(1) by (simp add: lo lin_def unat_shr unat_levelShift)
  have d: "unat (shr (e - arenaBaseOffset) (levelShift ! l)) = lin e div 2 ^ shiftN l"
    using assms(1) by (simp add: lin_def unat_shr unat_levelShift)
  have "shiftN l \<ge> 22" using assms(1) by (simp add: shiftN_def)
  then have "(2 :: nat) ^ 22 \<le> 2 ^ shiftN l" by (intro power_increasing) auto
  then have "lin e div 2 ^ shiftN l \<le> lin e div 2 ^ 22" by (intro div_le_mono2) auto
  also have "\<dots> < 2 ^ 42" using lin_less [of e] by (simp add: less_mult_imp_div_less)
  finally have "unat (shr (e - arenaBaseOffset) (levelShift ! l)) + 1 < 2 ^ 64" using d by simp
  then show "unat hi = Suc (lin e div 2 ^ shiftN l)" using d unat_add_noov [of _ 1] by (simp add: hi)
qed

section \<open>The radix tree\<close>

abbreviation lsum :: "pageAlloc \<Rightarrow> nat \<Rightarrow> nat \<Rightarrow> pallocSum" where
  "lsum p l \<equiv> lv_sum (summary p ! l)"

text \<open>The summary of the eight children of entry \<open>i\<close> of level \<open>l\<close>, and the nodes that hold it.\<close>

definition merged :: "pageAlloc \<Rightarrow> nat \<Rightarrow> nat \<Rightarrow> pallocSum" where
  "merged p l i = projr (mergeSummaries (map (lsum p (Suc l)) [8 * i..<8 * i + 8]) (levelLogPages ! Suc l))"

definition tree_ok :: "pageAlloc \<Rightarrow> bool" where
  "tree_ok p \<longleftrightarrow> (\<forall>l<4. \<forall>i. lsum p l i = merged p l i)"

text \<open>The slices have five levels and stay inside their reservations.\<close>

definition levels_ok :: "pageAlloc \<Rightarrow> bool" where
  "levels_ok p \<longleftrightarrow> length (summary p) = 5 \<and> (\<forall>l<5. lv_len (summary p ! l) \<le> level_cap l)"

lemma merge_Inr: "xs \<noteq> [] \<Longrightarrow> mergeSummaries xs l = Inr (projr (mergeSummaries xs l))"
  by (cases xs) (auto simp: Let_def split: prod.splits)

lemma sum_put_simps [simp]:
  assumes "l < length (summary p)"
  shows "lsum (sum_put p l f) m = (if m = l then f else lsum p m)"
    and "lv_len (summary (sum_put p l f) ! m) = lv_len (summary p ! m)"
    and "length (summary (sum_put p l f)) = length (summary p)" and "chunks (sum_put p l f) = chunks p"
    and "sum_put (sum_put p l f) l g = sum_put p l g" and "sum_put p l (lsum p l) = p"
  using assms by (auto simp: sum_put_def nth_list_update)

lemma levels_ok_put [simp]: "l < length (summary p) \<Longrightarrow> levels_ok (sum_put p l f) \<longleftrightarrow> levels_ok p"
  by (simp add: levels_ok_def)

lemma merged_put: "l < length (summary p) \<Longrightarrow> Suc m \<noteq> l \<Longrightarrow> merged (sum_put p l f) m = merged p m"
  by (simp add: merged_def fun_eq_iff)

lemma merged_cong:
  assumes "\<And>t. t < 8 \<Longrightarrow> lsum p (Suc l) (8 * i + t) = lsum q (Suc l) (8 * i + t)"
  shows "merged p l i = merged q l i"
proof -
  have "map (lsum p (Suc l)) [8 * i..<8 * i + 8] = map (lsum q (Suc l)) [8 * i..<8 * i + 8]"
    by (rule map_cong) (use assms in \<open>auto simp: le_iff_add\<close>)
  then show ?thesis unfolding merged_def by (simp only:)
qed

text \<open>One block, then one level: the entries in the range become the merged ones.\<close>

lemma update_block_spec:
  assumes "levels_ok p" and l: "l < 4" and i: "unat i < lv_len (summary p ! l)"
  shows "update_block l i (p, c) =
    Inr (sum_put p l ((lsum p l)(unat i := merged p l (unat i))), c \<or> lsum p l (unat i) \<noteq> merged p l (unat i))"
proof -
  have len: "length (summary p) = 5" using assms(1) by (simp add: levels_ok_def)
  have "lv_len (summary p ! l) \<le> level_cap l" using assms(1) l by (simp add: levels_ok_def)
  then have cap: "unat i < 2 ^ (14 + 3 * l)" using i l level_cap_eq [of l] by simp
  also have "\<dots> \<le> (2 :: nat) ^ 26" using l by (intro power_increasing) auto
  finally have i26: "unat i < 2 ^ 26" .
  have s1: "unat (shl i 3) = 8 * unat i" using i26 by (simp add: shl_def push_bit_eq_mult unat_word_ariths)
  have "unat (i + 1) = Suc (unat i)" using i26 by (simp add: unat_word_ariths)
  then have s2: "unat (shl (i + 1) 3) = 8 * unat i + 8"
    using i26 by (simp add: shl_def push_bit_eq_mult unat_word_ariths)
  have "8 * unat i + 8 \<le> 2 ^ (14 + 3 * Suc l)" using cap by (simp add: power_add)
  then have slice: "sum_slice p (Suc l) (shl i 3) (shl (i + 1) 3) =
      Inr (map (lsum p (Suc l)) [8 * unat i..<8 * unat i + 8])"
    using l by (simp add: sum_slice_def s1 s2 word_le_nat_alt level_cap_eq)
  have "mergeSummaries (map (lsum p (Suc l)) [8 * unat i..<8 * unat i + 8]) (levelLogPages ! Suc l) = Inr (merged p l (unat i))"
    unfolding merged_def by (rule merge_Inr) simp
  then show ?thesis
    using i l len sum_put_simps(6) [of l p]
    by (auto simp: update_block_def level_bits slice sum_get_def sum_set_def fun_upd_idem Let_def)
qed

lemma update_level_spec:
  assumes "levels_ok p" and l: "l < 4" and hi: "unat hi \<le> lv_len (summary p ! l)"
  defines "f lo \<equiv> \<lambda>i. if unat lo \<le> i \<and> i < unat hi then merged p l i else lsum p l i"
  shows "\<exists>c'. go_for lo hi (update_block l) (p, c) = Inr (sum_put p l (f lo), c') \<and> (c' \<longleftrightarrow> c \<or> f lo \<noteq> lsum p l)"
proof -
  have len: "l < length (summary p)" using assms(1,2) by (simp add: levels_ok_def)
  have gen: "\<exists>c'. go_for k hi (update_block l) (sum_put p l g, c) = Inr (sum_put p l (\<lambda>i. if unat k \<le> i \<and> i < unat hi then merged p l i else g i), c') \<and>
      (c' \<longleftrightarrow> c \<or> (\<exists>i. unat k \<le> i \<and> i < unat hi \<and> g i \<noteq> merged p l i))" for k g c
  proof (induction "unat hi - unat k" arbitrary: k g c)
    case 0
    then have "(\<lambda>i. if unat k \<le> i \<and> i < unat hi then merged p l i else g i) = g" by (auto simp: fun_eq_iff)
    then show ?case using 0 by (auto simp: go_for.simps [of k] word_less_nat_alt)
  next
    case (Suc n)
    then have k: "k < hi" "unat k < unat hi" by (simp_all add: word_less_nat_alt)
    have inc: "unat (k + 1) = Suc (unat k)" by (rule unat_inc_below [OF k(1)])
    have mp: "merged (sum_put p l g) l = merged p l" using len by (simp add: merged_put)
    let ?g = "g(unat k := merged p l (unat k))"
    have blk: "update_block l k (sum_put p l g, c) = Inr (sum_put p l ?g, c \<or> g (unat k) \<noteq> merged p l (unat k))"
      using update_block_spec [of "sum_put p l g" l k c] assms(1) l hi k(2) len mp by simp
    have f: "(\<lambda>i. if unat (k + 1) \<le> i \<and> i < unat hi then merged p l i else ?g i) =
        (\<lambda>i. if unat k \<le> i \<and> i < unat hi then merged p l i else g i)"
      using k(2) inc by (auto simp: fun_eq_iff)
    have e: "(\<exists>i. unat (k + 1) \<le> i \<and> i < unat hi \<and> ?g i \<noteq> merged p l i) \<or> g (unat k) \<noteq> merged p l (unat k) \<longleftrightarrow>
        (\<exists>i. unat k \<le> i \<and> i < unat hi \<and> g i \<noteq> merged p l i)"
      unfolding inc Suc_le_eq using k(2) by (auto simp: le_less) (metis less_irrefl)
    have "n = unat hi - unat (k + 1)" using Suc.hyps(2) inc by simp
    from Suc.hyps(1) [OF this, of ?g "c \<or> g (unat k) \<noteq> merged p l (unat k)"] obtain c' where
      "go_for (k + 1) hi (update_block l) (sum_put p l ?g, c \<or> g (unat k) \<noteq> merged p l (unat k)) =
         Inr (sum_put p l (\<lambda>i. if unat k \<le> i \<and> i < unat hi then merged p l i else g i), c')"
      "c' \<longleftrightarrow> (c \<or> g (unat k) \<noteq> merged p l (unat k)) \<or> (\<exists>i. unat (k + 1) \<le> i \<and> i < unat hi \<and> ?g i \<noteq> merged p l i)"
      unfolding f by blast
    moreover from this(2) have "c' \<longleftrightarrow> c \<or> (\<exists>i. unat k \<le> i \<and> i < unat hi \<and> g i \<noteq> merged p l i)" using e by blast
    ultimately show ?case using k(1) blk by (simp add: go_for.simps [of k])
  qed
  have "f lo \<noteq> lsum p l \<longleftrightarrow> (\<exists>i. unat lo \<le> i \<and> i < unat hi \<and> lsum p l i \<noteq> merged p l i)"
    unfolding f_def fun_eq_iff by metis
  with gen [of lo "lsum p l" c, unfolded sum_put_simps(6) [OF len]] show ?thesis
    unfolding f_def by (simp only:)
qed

section \<open>Walking up\<close>

text \<open>The parents of a range of entries are the range of the level above.\<close>

lemma shiftN_Suc: "l < 4 \<Longrightarrow> shiftN l = Suc (Suc (Suc (shiftN (Suc l))))"
  by (simp add: shiftN_def)

lemma outside_children:
  fixes B E i t :: nat
  assumes "l < 4" and "\<not> (B div 2 ^ shiftN l \<le> i \<and> i \<le> E div 2 ^ shiftN l)" and "t < 8"
  shows "\<not> (B div 2 ^ shiftN (Suc l) \<le> 8 * i + t \<and> 8 * i + t \<le> E div 2 ^ shiftN (Suc l))"
proof -
  have d: "x div 2 ^ shiftN l = x div 2 ^ shiftN (Suc l) div 8" for x :: nat
    using assms(1) by (simp add: shiftN_Suc) (metis div_mult2_eq mult.commute)
  show ?thesis using assms(2,3) unfolding d by auto
qed

lemma update_levels_spec:
  assumes "levels_ok p" and "n \<le> 4"
    and "\<And>l. l < n \<Longrightarrow> lin (lim + 1) div 2 ^ shiftN l < lv_len (summary p ! l)"
    and "\<And>l i. l < 4 \<Longrightarrow> Suc l \<noteq> n \<or> \<not> (lin bs div 2 ^ shiftN l \<le> i \<and> i \<le> lin (lim + 1) div 2 ^ shiftN l) \<Longrightarrow>
      lsum p l i = merged p l i"
  shows "\<exists>p'. update_levels p n bs lim = Inr p' \<and> levels_ok p' \<and> tree_ok p' \<and> lsum p' 4 = lsum p 4 \<and> chunks p' = chunks p"
  using assms
proof (induction n arbitrary: p)
  case 0
  then show ?case by (auto simp: tree_ok_def)
next
  case (Suc l)
  obtain lo hi where r: "addrsToSummaryRange l bs (lim + 1) = (lo, hi)" by force
  have l: "l < 4" using Suc.prems(2) by simp
  have len: "l < length (summary p)" using Suc.prems(1) l by (simp add: levels_ok_def)
  have lo: "unat lo = lin bs div 2 ^ shiftN l" and hi: "unat hi = Suc (lin (lim + 1) div 2 ^ shiftN l)"
    using summary_range [OF _ r] l by simp_all
  define f where "f = (\<lambda>i. if unat lo \<le> i \<and> i < unat hi then merged p l i else lsum p l i)"
  have "unat hi \<le> lv_len (summary p ! l)" using Suc.prems(3) [of l] hi by simp
  then obtain c where go: "go_for lo hi (update_block l) (p, False) = Inr (sum_put p l f, c)" "c \<longleftrightarrow> f \<noteq> lsum p l"
    using update_level_spec [OF Suc.prems(1) l, of hi lo False] unfolding f_def by auto
  have here: "f i = merged p l i" for i
    using Suc.prems(4) [OF l, of i] lo hi by (auto simp: f_def)
  show ?case
  proof (cases c)
    case False
    then have "f = lsum p l" using go(2) by simp
    then have "tree_ok p" using here Suc.prems(4) by (metis tree_ok_def nat.inject)
    moreover have "update_levels p (Suc l) bs lim = Inr p"
      using go False \<open>f = lsum p l\<close> len by (simp add: r)
    ultimately show ?thesis using Suc.prems(1) by auto
  next
    case True
    have "\<exists>p'. update_levels (sum_put p l f) l bs lim = Inr p' \<and> levels_ok p' \<and> tree_ok p' \<and>
        lsum p' 4 = lsum (sum_put p l f) 4 \<and> chunks p' = chunks (sum_put p l f)"
    proof (rule Suc.IH)
      show "levels_ok (sum_put p l f)" "l \<le> 4" using Suc.prems(1) len l by simp_all
      show "lin (lim + 1) div 2 ^ shiftN m < lv_len (summary (sum_put p l f) ! m)" if "m < l" for m
        using Suc.prems(3) [of m] that len by simp
      fix m i
      assume m: "m < 4" and out: "Suc m \<noteq> l \<or> \<not> (lin bs div 2 ^ shiftN m \<le> i \<and> i \<le> lin (lim + 1) div 2 ^ shiftN m)"
      show "lsum (sum_put p l f) m i = merged (sum_put p l f) m i"
      proof (cases "Suc m = l")
        case True
        then have "lsum (sum_put p l f) (Suc m) (8 * i + t) = lsum p (Suc m) (8 * i + t)" if "t < 8" for t
          using outside_children [OF m _ that, of "lin bs" i "lin (lim + 1)"] out len lo hi by (auto simp: f_def less_Suc_eq_le)
        then have "merged (sum_put p l f) m i = merged p m i" by (rule merged_cong)
        then show ?thesis using Suc.prems(4) [OF m, of i] True len by auto
      next
        case ne: False
        show ?thesis
        proof (cases "m = l")
          case True
          then show ?thesis using here len by (simp add: merged_put)
        next
          case False
          then show ?thesis using Suc.prems(4) [OF m, of i] ne len merged_put [OF len, of m f] by auto
        qed
      qed
    qed
    then show ?thesis using go True len l by (auto simp: r)
  qed
qed

section \<open>The leaves\<close>

definition chunk_free :: "pageAlloc \<Rightarrow> nat \<Rightarrow> bool list" where
  "chunk_free p c = free_pages (pd_bits (the (chunks p (c div 8192)) (c mod 8192)))"

text \<open>Chunk \<open>c\<close> is mapped and its bitmap has eight words.\<close>

definition chunk_ready :: "pageAlloc \<Rightarrow> nat \<Rightarrow> bool" where
  "chunk_ready p c \<longleftrightarrow> c < 2 ^ 26 \<and> (\<exists>b. chunks p (c div 8192) = Some b \<and> chunk_bits (pd_bits (b (c mod 8192))))"

lemma chunk_summarize_ready:
  assumes "chunk_ready p (unat c)"
  shows "chunk_summarize p c = Inr (sum_of (chunk_free p (unat c)))"
proof -
  obtain b where b: "chunks p (unat c div 8192) = Some b" "chunk_bits (pd_bits (b (unat c mod 8192)))" "unat c < 2 ^ 26"
    using assms by (auto simp: chunk_ready_def)
  then show ?thesis
    by (simp add: chunk_summarize_def chunkOf_def unat_l1 unat_l2 chunk_free_def summarize_spec less_mult_imp_div_less)
qed

lemma chunk_put [simp]:
  "l < length (summary p) \<Longrightarrow> chunk_ready (sum_put p l f) c \<longleftrightarrow> chunk_ready p c"
  "l < length (summary p) \<Longrightarrow> chunk_free (sum_put p l f) c = chunk_free p c"
  by (simp_all add: chunk_ready_def chunk_free_def)

lemma leaf_loop:
  assumes "levels_ok p" and "unat hi \<le> lv_len (summary p ! 4)" and "\<And>c. unat k \<le> c \<Longrightarrow> c < unat hi \<Longrightarrow> chunk_ready p c"
  shows "go_for k hi (\<lambda>c p. go_bind (chunk_summarize p c) (\<lambda>s. sum_set p 4 c s)) p =
    Inr (sum_put p 4 (\<lambda>i. if unat k \<le> i \<and> i < unat hi then sum_of (chunk_free p i) else lsum p 4 i))"
proof -
  have len: "4 < length (summary p)" using assms(1) by (simp add: levels_ok_def)
  have "go_for k hi (\<lambda>c p. go_bind (chunk_summarize p c) (\<lambda>s. sum_set p 4 c s)) (sum_put p 4 g) =
      Inr (sum_put p 4 (\<lambda>i. if unat k \<le> i \<and> i < unat hi then sum_of (chunk_free p i) else g i))" for g
    using assms(3)
  proof (induction "unat hi - unat k" arbitrary: k g)
    case 0
    then have "(\<lambda>i. if unat k \<le> i \<and> i < unat hi then sum_of (chunk_free p i) else g i) = g" by (auto simp: fun_eq_iff)
    then show ?case using 0 by (auto simp: go_for.simps [of k] word_less_nat_alt)
  next
    case (Suc n)
    then have k: "k < hi" "unat k < unat hi" by (simp_all add: word_less_nat_alt)
    have inc: "unat (k + 1) = Suc (unat k)" by (rule unat_inc_below [OF k(1)])
    let ?g = "g(unat k := sum_of (chunk_free p (unat k)))"
    have "chunk_summarize (sum_put p 4 g) k = Inr (sum_of (chunk_free p (unat k)))"
      using chunk_summarize_ready [of "sum_put p 4 g" k] Suc.prems k len by simp
    moreover have "go_for (k + 1) hi (\<lambda>c p. go_bind (chunk_summarize p c) (\<lambda>s. sum_set p 4 c s)) (sum_put p 4 ?g) =
        Inr (sum_put p 4 (\<lambda>i. if unat (k + 1) \<le> i \<and> i < unat hi then sum_of (chunk_free p i) else ?g i))"
      using Suc.hyps inc Suc.prems by (intro Suc.hyps(1)) auto
    moreover have "(\<lambda>i. if unat (k + 1) \<le> i \<and> i < unat hi then sum_of (chunk_free p i) else ?g i) =
        (\<lambda>i. if unat k \<le> i \<and> i < unat hi then sum_of (chunk_free p i) else g i)"
      using k(2) inc by (auto simp: fun_eq_iff)
    moreover have "sum_set (sum_put p 4 g) 4 k v = Inr (sum_put p 4 (g(unat k := v)))" for v
      using k assms(2) len by (simp add: sum_set_def)
    ultimately show ?case using k by (simp add: go_for.simps [of k])
  qed
  from this [of "lsum p 4"] show ?thesis using len by simp
qed

lemma update_leaves_spec:
  assumes ok: "levels_ok p" and le: "unat sc \<le> unat ec" and ec: "unat ec < lv_len (summary p ! 4)"
    and ready: "\<And>c. unat sc \<le> c \<Longrightarrow> c \<le> unat ec \<Longrightarrow> chunk_ready p c"
    and whole: "\<And>c. contig \<Longrightarrow> unat sc < c \<Longrightarrow> c < unat ec \<Longrightarrow> sum_of (chunk_free p c) = (if alloc then 0 else freeChunkSum)"
  defines "g \<equiv> \<lambda>i. if unat sc \<le> i \<and> i \<le> unat ec then sum_of (chunk_free p i) else lsum p 4 i"
  shows "\<exists>w. update_leaves p sc ec contig alloc = Inr (sum_put p 4 g, w) \<and> (\<not> w \<longrightarrow> g = lsum p 4)"
proof -
  have len: "4 < length (summary p)" and cap: "unat ec < 2 ^ 26"
    using ok ec level_cap_eq [of 4] by (auto simp: levels_ok_def intro: order_less_le_trans dest!: spec [of _ 4])
  have s: "chunk_summarize (sum_put p 4 h) sc = Inr (sum_of (chunk_free p (unat sc)))"
      "chunk_summarize (sum_put p 4 h) ec = Inr (sum_of (chunk_free p (unat ec)))" for h
    using chunk_summarize_ready [of "sum_put p 4 h"] ready le len by simp_all
  note s0 = s [of "lsum p 4", unfolded sum_put_simps(6) [OF len]]
  consider "sc = ec" | "sc \<noteq> ec" contig | "sc \<noteq> ec" "\<not> contig" by blast
  then show ?thesis
  proof cases
    case 1
    then have "g = (lsum p 4)(unat sc := sum_of (chunk_free p (unat sc)))" by (auto simp: g_def fun_eq_iff)
    then show ?thesis using 1 ec s0 len
      by (auto simp: update_leaves_def sum_get_def sum_set_def fun_upd_idem)
  next
    case 2
    then have lt: "unat sc < unat ec" using le by (simp add: word_unat_eq_iff)
    have inc: "unat (sc + 1) = Suc (unat sc)" using lt cap by (simp add: unat_word_ariths)
    have g: "g = (\<lambda>i. if unat (sc + 1) \<le> i \<and> i < unat ec then if alloc then 0 else freeChunkSum
        else ((lsum p 4)(unat sc := sum_of (chunk_free p (unat sc)))) i)(unat ec := sum_of (chunk_free p (unat ec)))"
      using whole [OF 2(2)] lt inc by (auto simp: g_def fun_eq_iff)
    show ?thesis using 2 lt inc ec s0 s len cap level_cap_eq [of 4]
      by (intro exI [of _ True])
        (simp add: update_leaves_def sum_set_def sum_slice_def word_le_nat_alt Let_def g cong: if_cong)
  next
    case 3
    have inc: "unat (ec + 1) = Suc (unat ec)" using cap by (simp add: unat_word_ariths)
    have "g = (\<lambda>i. if unat sc \<le> i \<and> i < unat (ec + 1) then sum_of (chunk_free p i) else lsum p 4 i)"
      using inc by (auto simp: g_def fun_eq_iff)
    then show ?thesis using 3 leaf_loop [OF ok, of "ec + 1" sc] ec inc ready
      by (intro exI [of _ True]) (simp add: update_leaves_def)
  qed
qed

section \<open>The whole update\<close>

text \<open>Every mapped chunk has its summary in the leaf level.\<close>

definition leaves_ok :: "pageAlloc \<Rightarrow> bool" where
  "leaves_ok p \<longleftrightarrow> (\<forall>c. chunk_ready p c \<longrightarrow> lsum p 4 c = sum_of (chunk_free p c))"

lemma update_spec:
  assumes ok: "levels_ok p" and tree: "tree_ok p" and np: "0 < npages"
    and fit: "lin bs + unat npages * 8192 \<le> 2 ^ 48"
  defines "B \<equiv> lin bs" and "E \<equiv> lin bs + unat npages * 8192"
  assumes len: "\<And>l. l < 4 \<Longrightarrow> E div 2 ^ shiftN l < lv_len (summary p ! l)" "(E - 1) div 2 ^ 22 < lv_len (summary p ! 4)"
    and ready: "\<And>c. B div 2 ^ 22 \<le> c \<Longrightarrow> c \<le> (E - 1) div 2 ^ 22 \<Longrightarrow> chunk_ready p c"
    and whole: "\<And>c. contig \<Longrightarrow> B div 2 ^ 22 < c \<Longrightarrow> c < (E - 1) div 2 ^ 22 \<Longrightarrow>
      sum_of (chunk_free p c) = (if alloc then 0 else freeChunkSum)"
    and rest: "\<And>c. chunk_ready p c \<Longrightarrow> \<not> (B div 2 ^ 22 \<le> c \<and> c \<le> (E - 1) div 2 ^ 22) \<Longrightarrow>
      lsum p 4 c = sum_of (chunk_free p c)"
  shows "\<exists>p'. update p bs npages contig alloc = Inr p' \<and> levels_ok p' \<and> tree_ok p' \<and> leaves_ok p' \<and> chunks p' = chunks p"
proof -
  define lm where "lm = bs + npages * 8192 - 1"
  have n0: "0 < unat npages" using np by (simp add: word_less_nat_alt)
  have bytes: "unat (npages * 8192) = unat npages * 8192" using fit by (simp add: unat_word_ariths)
  have e: "lin (lm + 1) = E" using lin_add [of bs "npages * 8192"] fit bytes by (simp add: lm_def E_def)
  have "unat (npages * 8192 - 1) = unat npages * 8192 - 1"
    using n0 bytes by (simp add: unat_sub_if' word_le_nat_alt)
  then have lm: "lin lm = E - 1"
    using lin_add [of bs "npages * 8192 - 1"] fit n0 by (simp add: lm_def E_def add_diff_eq)
  have sc: "unat (chunkIndex bs) = B div 2 ^ 22" and ec: "unat (chunkIndex lm) = (E - 1) div 2 ^ 22"
    by (simp_all add: unat_chunkIndex B_def lm)
  define g where "g = (\<lambda>i. if unat (chunkIndex bs) \<le> i \<and> i \<le> unat (chunkIndex lm) then sum_of (chunk_free p i) else lsum p 4 i)"
  have le: "unat (chunkIndex bs) \<le> unat (chunkIndex lm)"
    unfolding sc ec by (rule div_le_mono) (use n0 in \<open>simp add: B_def E_def\<close>)
  obtain w where w: "update_leaves p (chunkIndex bs) (chunkIndex lm) contig alloc = Inr (sum_put p 4 g, w)" "\<not> w \<longrightarrow> g = lsum p 4"
    using update_leaves_spec [OF ok le, of contig alloc] len(2) ready whole unfolding g_def sc ec by blast
  have l4: "4 < length (summary p)" using ok by (simp add: levels_ok_def)
  have leaves: "leaves_ok (p'\<lparr>chunks := chunks p\<rparr>)" if "lsum p' 4 = g" for p'
    using rest that sc ec by (auto simp: leaves_ok_def g_def chunk_ready_def chunk_free_def)
  have "lsum (sum_put p 4 g) l i = merged (sum_put p 4 g) l i"
    if l: "l < 4" and out: "Suc l \<noteq> 4 \<or> \<not> (lin bs div 2 ^ shiftN l \<le> i \<and> i \<le> lin (lm + 1) div 2 ^ shiftN l)" for l i
  proof (cases "Suc l = 4")
    case True
    have le': "(E - 1) div 2 ^ 22 \<le> E div 2 ^ 22" by (rule div_le_mono) simp
    have "lsum (sum_put p 4 g) (Suc l) (8 * i + t) = lsum p (Suc l) (8 * i + t)" if "t < 8" for t
      using outside_children [OF l _ that, of B i E] out True l4 sc ec e le' by (auto simp: g_def B_def shiftN_def)
    then have "merged (sum_put p 4 g) l i = merged p l i" by (rule merged_cong)
    then show ?thesis using tree l l4 by (simp add: tree_ok_def)
  next
    case False
    then show ?thesis using tree l l4 by (simp add: tree_ok_def merged_put)
  qed
  then have "\<exists>p'. update_levels (sum_put p 4 g) 4 bs lm = Inr p' \<and> levels_ok p' \<and> tree_ok p' \<and>
      lsum p' 4 = lsum (sum_put p 4 g) 4 \<and> chunks p' = chunks (sum_put p 4 g)"
    using ok l4 len(1) e by (intro update_levels_spec) simp_all
  then obtain p' where p': "update_levels (sum_put p 4 g) 4 bs lm = Inr p'" "levels_ok p'" "tree_ok p'"
      "lsum p' 4 = g" "chunks p' = chunks p" using l4 by auto
  show ?thesis
  proof (cases w)
    case True
    have "p'\<lparr>chunks := chunks p\<rparr> = p'" using p'(5) by simp
    then have "leaves_ok p'" using leaves [OF p'(4)] by simp
    then show ?thesis using w True p' by (simp add: update_def Let_def lm_def)
  next
    case False
    then have "g = lsum p 4" using w(2) by simp
    then have "leaves_ok p" using leaves [of p] by simp
    then show ?thesis using w False ok tree \<open>g = lsum p 4\<close> l4 by (simp add: update_def Let_def lm_def)
  qed
qed

section \<open>The root level of a search\<close>

lemma find_block_skip:
  "unat i < n \<Longrightarrow> find_block l i n np (replicate m 0 @ xs) j bs 0 ff = find_block l i n np xs (j + of_nat m) bs 0 ff"
  by (induction m arbitrary: j) (simp_all add: algebra_simps)

lemma find_block_not_entered: "\<not> unat i < n \<Longrightarrow> find_block l i n np xs j bs sz ff = Inr (RunFound bs sz, ff)"
  by (cases xs) auto

lemma root_tables: "levelBits ! 0 = 14" "levelShift ! 0 = 34" "levelLogPages ! 0 = 21"
    "levelBits ! 1 = 3" "level_cap 0 = 16384" "level_cap 1 = 131072"
  by (simp_all add: levelBits_def levelShift_def levelLogPages_def level_cap_def)

lemma root_slice: "sum_slice p 0 0 16384 = Inr (map (lsum p 0) [0..<16384])"
  by (simp add: sum_slice_def root_tables)

definition root_start :: "pageAlloc \<Rightarrow> nat" where
  "root_start p = lin (off_a (searchAddr p)) div 2 ^ 34"

lemma root_first:
  assumes "root_start p < 16384"
  defines "s \<equiv> offAddrToLevelIndex 0 (searchAddr p)"
  shows "(if andnot s 16383 = 0 then s AND 16383 else 0) = s" and "unat s = root_start p"
proof -
  show u: "unat s = root_start p" by (simp add: s_def offAddrToLevelIndex_def addr_def root_tables unat_shr root_start_def lin_def)
  have m: "(16383 :: u64) = 2 ^ 14 - 1" by simp
  have "unat (andnot s 16383) = 0" unfolding m and_not_mask_unat using u assms(1) by simp
  then have "andnot s 16383 = 0" by (simp add: word_unat_eq_iff)
  moreover have "s AND 16383 = s"
  proof -
    have "s AND mask 14 = take_bit 14 s" by (simp add: take_bit_eq_mask)
    moreover have "take_bit 14 s = s" using u assms(1) by (simp add: word_unat_eq_iff unsigned_take_bit_eq take_bit_nat_eq_self)
    ultimately show ?thesis by (simp add: mask_eq_exp_minus_1)
  qed
  ultimately show "(if andnot s 16383 = 0 then s AND 16383 else 0) = s" by simp
qed

lemma find_root:
  assumes "root_start p < 16384"
  shows "find arenas p np =
    go_bind (find_block 0 0 16384 np (map (lsum p 0) [root_start p..<16384]) (of_nat (root_start p)) 0 0 (minOffAddr, maxOffAddr))
     (\<lambda>(res, ff). case res of
        Descend i \<Rightarrow> find_levels arenas p np 4 i ff
      | RunFound bs sz \<Rightarrow>
          if sz \<ge> np
          then go_bind (findMappedAddr arenas p (fst ff)) (\<lambda>m.
                 Inr (addr (offAddr_add (levelIndexToOffAddr 0 0) (bs * pageSize)), m))
          else Inr (0, maxSearchAddr))"
proof -
  let ?s = "offAddrToLevelIndex 0 (searchAddr p)"
  have s: "of_nat (root_start p) = ?s" using root_first(2) [OF assms] by (metis of_nat_unat ucast_id)
  have five: "(5 :: nat) = Suc 4" by simp
  have e: "(0 :: u64) + shl 1 14 = 16384" "shl 0 14 = (0 :: u64)" "shl 1 14 - 1 = (16383 :: u64)"
    by (simp_all add: shl_def push_bit_eq_mult)
  have d: "drop (root_start p) (map (lsum p 0) [0..<16384]) = map (lsum p 0) [root_start p..<16384]"
    by (simp add: drop_map)
  show ?thesis
    unfolding find_def five find_levels.simps(2) Let_def diff_self_eq_0 root_tables e root_slice go_bind_simps root_first(1) [OF assms]
      root_first(2) [OF assms] d s by (simp cong: block_result.case_cong)
qed

lemma found_root:
  assumes "k < 16384"
  shows "\<exists>ff. foundFree (minOffAddr, maxOffAddr) (levelIndexToOffAddr 0 (of_nat k)) (shl 1 21 * pageSize) = Inr ff"
proof -
  let ?k = "of_nat k :: u64"
  have k: "unat ?k = k" using assms by (simp add: unat_of_nat)
  have s: "unat (shl ?k 34) = k * 17179869184"
    using assms k by (simp add: shl_def push_bit_eq_mult unat_word_ariths)
  have "unat (shl ?k 34 + 17179869183) = k * 17179869184 + 17179869183"
    using s assms by (simp add: unat_word_ariths)
  then have "shl ?k 34 + 17179869183 \<le> (281474976710655 :: u64)" using assms by (simp add: word_le_nat_alt)
  moreover have "shl 1 21 * pageSize - 1 = 17179869183" "(shl 1 48 - 1 :: u64) = 281474976710655"
    by (simp_all add: shl_def push_bit_eq_mult)
  ultimately have "offAddr_add (levelIndexToOffAddr 0 ?k) (shl 1 21 * pageSize - 1) \<le> maxOffAddr"
    unfolding less_eq_offAddr_def lessEqual_def
    by (simp add: offAddr_add_def levelIndexToOffAddr_def maxOffAddr_def root_tables)
  moreover have "minOffAddr \<le> levelIndexToOffAddr 0 ?k"
    unfolding less_eq_offAddr_def lessEqual_def by (simp add: minOffAddr_def)
  ultimately show ?thesis by (simp add: foundFree_def)
qed

lemma find_level_1:
  assumes "0 < unat k" and "unat k < 16384" and "0 < np"
  shows "find_levels arenas p np 4 k ff = Inl (Throw ''bad summary data'')"
proof -
  have four: "(4 :: nat) = Suc 3" by simp
  have e: "(shl 1 3 :: u64) = 8" by (simp add: shl_def push_bit_eq_mult)
  have s: "unat (shl k 3) = 8 * unat k" using assms(2) by (simp add: shl_def push_bit_eq_mult unat_word_ariths)
  then have s8: "unat (shl k 3 + 8) = 8 * unat k + 8" using assms(2) by (simp add: unat_word_ariths)
  then have slice: "sum_slice p 1 (shl k 3) (shl k 3 + 8) = Inr (map (lsum p 1) [8 * unat k..<8 * unat k + 8])"
    using s assms(2) by (simp add: sum_slice_def level_cap_eq word_le_nat_alt)
  have out: "\<not> unat (shl k 3) < 8" using s assms(1) by simp
  have l: "Suc 3 - 3 = 1" "(4 :: nat) - 3 = 1" by simp_all
  show ?thesis unfolding four find_levels.simps(2) Let_def l root_tables e
    using slice out assms(3) by (auto simp: find_block_not_entered)
qed

section \<open>Properties\<close>

text \<open>
  an address is the base of its chunk, plus its page in the chunk, plus its offset in the page;
  the page index is below 512 and the two levels of the chunk index recombine to it.
\<close>

lemma chunk_address_split:
  "chunkBase (chunkIndex p) + chunkPageIndex p * pageSize + p mod pageSize = p \<and>
   unat (chunkPageIndex p) < 512 \<and>
   unat (l1 ci) * 8192 + unat (l2 ci) = unat ci \<and> unat (l2 ci) < 8192"
proof -
  have page: "unat (chunkPageIndex p) < 512"
    by (simp add: unat_chunkPageIndex less_mult_imp_div_less)
  have "unat (chunkPageIndex p * pageSize + p mod pageSize) = unat (chunkPageIndex p) * 8192 + lin p mod 8192"
    using page mod_lin [of 8192 p] by (simp add: unat_word_ariths unat_mod)
  also have "\<dots> = lin p mod 4194304"
    using mod_mult2_eq [of "lin p" 8192 512] div_mult_mod_eq [of "lin p mod 4194304" 8192]
    by (simp add: unat_chunkPageIndex mod_mod_cancel)
  finally have off: "unat (chunkPageIndex p * pageSize + p mod pageSize) = lin p mod 4194304" .
  have "unat (chunkIndex p) < 2 ^ 42"
    using lin_less [of p] by (simp add: unat_chunkIndex less_mult_imp_div_less)
  then have base: "lin (chunkBase (chunkIndex p)) = lin p div 4194304 * 4194304"
    using lin_chunkBase by (simp add: unat_chunkIndex)
  have "lin p div 4194304 * 4194304 + lin p mod 4194304 = lin p" by (rule div_mult_mod_eq)
  then have "lin (chunkBase (chunkIndex p) + (chunkPageIndex p * pageSize + p mod pageSize)) = lin p"
    using lin_add [of "chunkBase (chunkIndex p)" "chunkPageIndex p * pageSize + p mod pageSize"] base off lin_less [of p]
    by simp
  then have "chunkBase (chunkIndex p) + chunkPageIndex p * pageSize + p mod pageSize = p"
    by (simp only: lin_eq_iff add.assoc)
  then show ?thesis using page by (simp add: unat_l1 unat_l2)
qed

text \<open>
  \<open>offAddrToLevelIndex\<close> inverts \<open>levelIndexToOffAddr\<close> at every level, on every index of the level.
\<close>

lemma level_index_roundtrip:
  assumes "l < 5" and "unat i < level_cap l"
  shows "offAddrToLevelIndex l (levelIndexToOffAddr l i) = i"
proof -
  have s: "unat (levelShift ! l) = shiftN l" "shiftN l + (14 + 3 * l) = 48"
    using assms(1) by (simp_all add: unat_levelShift shiftN_def)
  have i: "unat i < 2 ^ (14 + 3 * l)" using assms level_cap_eq [of l] by simp
  have "bit i k \<Longrightarrow> k < 14 + 3 * l" for k using i less_exp_bit by blast
  then have "drop_bit (shiftN l) (push_bit (shiftN l) i) = i"
    using s(2) by (intro bit_word_eqI) (force simp: bit_simps)
  then show ?thesis
    by (simp add: offAddrToLevelIndex_def levelIndexToOffAddr_def addr_def shl_def shr_def s)
qed

text \<open>
  C7: \<open>update\<close> restores the summaries. If the radix tree was consistent, every inner entry being the
  merge of its eight children, and every chunk outside the range had its summary in the leaf level,
  then after \<open>update\<close> the tree is consistent and every mapped chunk has its summary, although the walk
  stops at the first level where nothing changed. A contiguous update of more than two chunks relies
  on the chunks in between being all allocated or all free; the bitmaps themselves are not changed.
\<close>

theorem update_restores_summaries:
  assumes "levels_ok p" and "tree_ok p" and "0 < npages" and "lin bs + unat npages * 8192 \<le> 2 ^ 48"
    and "\<forall>l<4. (lin bs + unat npages * 8192) div 2 ^ shiftN l < lv_len (summary p ! l)"
    and "(lin bs + unat npages * 8192 - 1) div 2 ^ 22 < lv_len (summary p ! 4)"
    and "\<forall>c. lin bs div 2 ^ 22 \<le> c \<and> c \<le> (lin bs + unat npages * 8192 - 1) div 2 ^ 22 \<longrightarrow> chunk_ready p c"
    and "\<forall>c. contig \<and> lin bs div 2 ^ 22 < c \<and> c < (lin bs + unat npages * 8192 - 1) div 2 ^ 22 \<longrightarrow>
      sum_of (chunk_free p c) = (if alloc then 0 else freeChunkSum)"
    and "\<forall>c. chunk_ready p c \<and> \<not> (lin bs div 2 ^ 22 \<le> c \<and> c \<le> (lin bs + unat npages * 8192 - 1) div 2 ^ 22) \<longrightarrow>
      lsum p 4 c = sum_of (chunk_free p c)"
  shows "\<exists>p'. update p bs npages contig alloc = Inr p' \<and> levels_ok p' \<and> tree_ok p' \<and> leaves_ok p' \<and> chunks p' = chunks p"
  using assms(5-) by (intro update_spec [OF assms(1-4)]) blast+

text \<open>A small heap: one second-level array, whose chunk 0 is free and not yet in the summaries.\<close>

definition one_free_chunk :: pageAlloc where
  "one_free_chunk = \<lparr>summary = map (\<lambda>l. \<lparr>lv_len = level_cap l, lv_sum = (\<lambda>_. 0)\<rparr>) [0..<5],
     chunks = [0 \<mapsto> \<lambda>i. \<lparr>pd_bits = replicate 8 (if i = 0 then 0 else NOT 0), pd_scavenged = replicate 8 0\<rparr>],
     searchAddr = minOffAddr, pa_start = 0, pa_end = 8192, inUse = addrRanges_init, pa_test = True\<rparr>"

lemma full_chunk_sum: "sum_of (free_pages (replicate 8 (- 1))) = 0"
proof -
  have "summarize (replicate 8 (- 1)) = Some 0" by code_simp
  then show ?thesis using summarize_spec [of "replicate 8 (- 1)"] by simp
qed

lemma one_free_levels: "levels_ok one_free_chunk" "l < 5 \<Longrightarrow> lv_len (summary one_free_chunk ! l) = level_cap l"
    "l < 5 \<Longrightarrow> lsum one_free_chunk l = (\<lambda>_. 0)"
  by (auto simp: levels_ok_def one_free_chunk_def)

lemma merge_zeros: "mergeSummaries (replicate (Suc m) 0) l = Inr 0"
proof -
  have u: "pallocSum_unpack 0 = (0, 0, 0)" by (simp add: pallocSum_unpack_def shr_def)
  have "mergeSummaries_loop l i (replicate m 0) 0 0 0 = (0, 0, 0)" for i
    by (induction m arbitrary: i) (simp_all add: u Let_def)
  then show ?thesis by (simp add: u packPallocSum_def maxPackedValue_def shl_def)
qed

lemma one_free_tree: "tree_ok one_free_chunk"
proof -
  have "merged one_free_chunk l i = 0" if "l < 4" for l i
  proof -
    have "map (lsum one_free_chunk (Suc l)) [8 * i..<8 * i + 8] = replicate (Suc 7) 0"
      using one_free_levels(3) [of "Suc l"] that by (simp add: map_replicate_const)
    then show ?thesis unfolding merged_def by (simp only: merge_zeros sum.sel)
  qed
  then show ?thesis using one_free_levels(3) by (simp add: tree_ok_def)
qed

theorem update_restores_summaries_witness:
  "\<exists>p'. update one_free_chunk arenaBaseOffset 512 True False = Inr p' \<and> levels_ok p' \<and> tree_ok p' \<and> leaves_ok p' \<and>
     chunks p' = chunks one_free_chunk"
proof (rule update_restores_summaries)
  have lin: "lin arenaBaseOffset = 0" by (simp add: lin_def)
  show "levels_ok one_free_chunk" by (rule one_free_levels)
  show "tree_ok one_free_chunk" by (rule one_free_tree)
  show "\<forall>l<4. (lin arenaBaseOffset + unat (512 :: u64) * 8192) div 2 ^ shiftN l < lv_len (summary one_free_chunk ! l)"
  proof (intro allI impI)
    fix l :: nat
    assume "l < 4"
    then consider "l = 0" | "l = 1" | "l = 2" | "l = 3" by linarith
    then show "(lin arenaBaseOffset + unat (512 :: u64) * 8192) div 2 ^ shiftN l < lv_len (summary one_free_chunk ! l)"
      by cases (simp_all add: lin one_free_levels(2) level_cap_eq shiftN_def)
  qed
  show "(lin arenaBaseOffset + unat (512 :: u64) * 8192 - 1) div 2 ^ 22 < lv_len (summary one_free_chunk ! 4)"
    by (simp add: lin one_free_levels(2) level_cap_eq)
  show "\<forall>c. lin arenaBaseOffset div 2 ^ 22 \<le> c \<and> c \<le> (lin arenaBaseOffset + unat (512 :: u64) * 8192 - 1) div 2 ^ 22 \<longrightarrow>
      chunk_ready one_free_chunk c"
    by (auto simp: lin chunk_ready_def one_free_chunk_def)
  show "\<forall>c. chunk_ready one_free_chunk c \<and>
      \<not> (lin arenaBaseOffset div 2 ^ 22 \<le> c \<and> c \<le> (lin arenaBaseOffset + unat (512 :: u64) * 8192 - 1) div 2 ^ 22) \<longrightarrow>
      lsum one_free_chunk 4 c = sum_of (chunk_free one_free_chunk c)"
    using full_chunk_sum
    by (auto simp: lin one_free_levels(3) chunk_ready_def chunk_free_def one_free_chunk_def split: if_splits)
qed (simp_all add: lin_def)

text \<open>
  C36: a search that has to descend below the root fails unless it descends into the very first entry.
  When the first root entry with free pages, seen from the search address on, is entry \<open>k > 0\<close> and
  holds a run of \<open>npages\<close> that does not start it, \<open>find\<close> throws \<open>bad summary data\<close>: the loop over the
  entries of the next level tests the index of the block instead of its own counter.
\<close>

theorem find_below_root_throws:
  assumes "root_start p \<le> k" and "0 < k" and "k < 16384" and "0 < npages"
    and "\<forall>j. root_start p \<le> j \<and> j < k \<longrightarrow> lsum p 0 j = 0"
    and "pallocSum_start (lsum p 0 k) < npages" and "npages \<le> pallocSum_max (lsum p 0 k)"
  shows "find arenas p npages = Inl (Throw ''bad summary data'')"
proof -
  let ?k = "of_nat k :: u64" and ?e = "lsum p 0 k"
  have k: "unat ?k = k" using assms(3) by (simp add: unat_of_nat)
  have nz: "?e \<noteq> 0" using assms(4,7) by (auto simp: pallocSum_max_def shr_def)
  have zeros: "map (lsum p 0) [root_start p..<k] = replicate (k - root_start p) 0"
    by (rule replicate_eqI) (use assms(5) in auto)
  have split: "map (lsum p 0) [root_start p..<16384] = replicate (k - root_start p) 0 @ ?e # map (lsum p 0) [Suc k..<16384]"
    using zeros assms(1,3) upt_split [of "root_start p" k 16384] upt_conv_Cons [of k 16384] by simp
  have j: "of_nat (root_start p) + of_nat (k - root_start p) = ?k" using assms(1) by (simp flip: of_nat_add)
  obtain ff where ff: "foundFree (minOffAddr, maxOffAddr) (levelIndexToOffAddr 0 ?k) (shl 1 21 * pageSize) = Inr ff"
    using found_root [OF assms(3)] by blast
  have "find_block 0 0 16384 npages (map (lsum p 0) [root_start p..<16384]) (of_nat (root_start p)) 0 0 (minOffAddr, maxOffAddr) =
      Inr (Descend ?k, ff)"
    unfolding split using nz assms(6,7) ff by (simp add: find_block_skip j root_tables Let_def not_le)
  moreover have "root_start p < 16384" using assms(1,3) by simp
  ultimately show ?thesis using find_level_1 [of ?k npages arenas p ff] k assms(2-4) by (simp add: find_root)
qed

theorem find_below_root_throws_witness:
  "find None (one_free_chunk\<lparr>summary := (summary one_free_chunk)[0 := \<lparr>lv_len = 16384, lv_sum = (\<lambda>_. 0)(3 := packPallocSum 1 600 2)\<rparr>]\<rparr>) 5 =
     Inl (Throw ''bad summary data'')"
proof (rule find_below_root_throws [where k = 3])
  let ?p = "one_free_chunk\<lparr>summary := (summary one_free_chunk)[0 := \<lparr>lv_len = 16384, lv_sum = (\<lambda>_. 0)(3 := packPallocSum 1 600 2)\<rparr>]\<rparr>"
  have len: "0 < length (summary one_free_chunk)" by (simp add: one_free_chunk_def)
  have root: "lsum ?p 0 = (\<lambda>_. 0)(3 := packPallocSum 1 600 2)" using len by simp
  have "pallocSum_unpack (packPallocSum 1 600 2) = (1, 600, 2)" by (rule unpack_pack) simp_all
  then show "pallocSum_start (lsum ?p 0 3) < 5" "5 \<le> pallocSum_max (lsum ?p 0 3)"
    using root by (simp_all add: unpack_accessors)
  show "\<forall>j. root_start ?p \<le> j \<and> j < 3 \<longrightarrow> lsum ?p 0 j = 0" using root by simp
  show "root_start ?p \<le> 3" by (simp add: root_start_def one_free_chunk_def minOffAddr_def lin_def)
qed simp_all

text \<open>
  out of memory is not reported: when no root entry from the search address on has a free page,
  \<open>find\<close> runs past the end of the root level and panics instead of returning the address 0.
\<close>

lemma find_out_of_memory_panics:
  assumes "root_start p < 16384" and "\<forall>j. root_start p \<le> j \<and> j < 16384 \<longrightarrow> lsum p 0 j = 0"
  shows "find arenas p npages = Inl IndexPanic"
proof -
  have "map (lsum p 0) [root_start p..<16384] = replicate (16384 - root_start p) 0 @ []"
    unfolding append_Nil2 by (rule replicate_eqI) (use assms(2) in auto)
  then show ?thesis using find_block_skip [of 0 16384 0 npages "16384 - root_start p" "[]"]
    by (simp add: find_root [OF assms(1)])
qed

end
