(* ===== verification/PageCache.thy ===== *)
theory PageCache
  imports PageAlloc
begin

unbundle bit_operations_syntax

text \<open>
  The per-processor cache of 64 pages, \<open>src/memory_and_heap/mpagecache.go\<close>: \<open>empty\<close>, \<open>alloc\<close>,
  \<open>allocN\<close> and \<open>allocToCache\<close>, which takes a block of 64 pages out of the page allocator. A bit of
  \<open>cache\<close> is 1 for a free page. The scavenging bitmap is a field that no operation touches.
\<close>

section \<open>The source\<close>

record pageCache =
  pc_base :: uintptr
  pc_cache :: u64
  pc_scav :: u64

definition pageCachePages :: u64 where
  "pageCachePages = 8 * 8"

definition emptyCache :: pageCache where
  "emptyCache = \<lparr>pc_base = 0, pc_cache = 0, pc_scav = 0\<rparr>"

definition pageCache_empty :: "pageCache \<Rightarrow> bool" where
  "pageCache_empty c \<longleftrightarrow> pc_cache c = 0"

definition allocN :: "pageCache \<Rightarrow> uintptr \<Rightarrow> (pageCache \<times> uintptr \<times> uintptr) option" where
  "allocN c npages =
     (case findBitRange64 (pc_cache c) npages of
        None \<Rightarrow> None
      | Some i \<Rightarrow>
          if i \<ge> 64 then Some (c, 0, 0)
          else let m = shl (shl 1 i - 1) i
               in Some (c\<lparr>pc_cache := andnot (pc_cache c) m\<rparr>, pc_base c + i * pageSize, 0))"

definition pageCache_alloc :: "pageCache \<Rightarrow> uintptr \<Rightarrow> (pageCache \<times> uintptr \<times> uintptr) option" where
  "pageCache_alloc c npages =
     (if pc_cache c = 0 then Some (c, 0, 0)
      else if npages = 1
      then let i = TrailingZeros64 (pc_cache c)
           in Some (c\<lparr>pc_cache := andnot (pc_cache c) (shl 1 i)\<rparr>, pc_base c + i * pageSize, 0)
      else allocN c npages)"

text \<open>
  \<open>allocToCache\<close>. The two searches fill \<open>c\<close>, and the slow one also the variable \<open>chunk\<close> of the
  function; the fast one declares a new \<open>chunk\<close> of its own, so that the outer one stays nil. The first
  component of a search is that outer pointer.
\<close>

definition cache_fast :: "pageAlloc \<Rightarrow> chunkIdx \<Rightarrow> (chunkIdx option \<times> pageCache) res" where
  "cache_fast p ci =
     go_bind (chunkOf p ci) (\<lambda>d.
     go_bind (returns (pallocBits_find (pd_bits d) 1 (chunkPageIndex (addr (searchAddr p))))) (\<lambda>(j, _).
     if j = noIdx then Inl (Throw ''bad summary data'')
     else go_bind (pages64 (pd_bits d) j) (\<lambda>w.
       Inr (None, \<lparr>pc_base = chunkBase ci + alignDown j 64 * pageSize, pc_cache = NOT w, pc_scav = 0\<rparr>))))"

definition cache_slow ::
  "(u64 \<Rightarrow> bool) option \<Rightarrow> pageAlloc \<Rightarrow> (chunkIdx option \<times> pageCache) option res" where
  "cache_slow arenas p =
     go_bind (find arenas p 1) (\<lambda>(a, _).
     if a = 0 then Inr None
     else
       let ci = chunkIndex a
       in go_bind (chunkOf p ci) (\<lambda>d.
          go_bind (pages64 (pd_bits d) (chunkPageIndex a)) (\<lambda>w.
          Inr (Some (Some ci, \<lparr>pc_base = alignDown a (64 * pageSize), pc_cache = NOT w, pc_scav = 0\<rparr>)))))"

definition allocToCache :: "(u64 \<Rightarrow> bool) option \<Rightarrow> pageAlloc \<Rightarrow> (pageAlloc \<times> pageCache) res" where
  "allocToCache arenas p =
     (let ci = addr (searchAddr p)
      in if ci \<ge> pa_end p then Inr (p, emptyCache)
         else
           go_bind (sum_get p 4 ci) (\<lambda>s.
           go_bind (if s \<noteq> 0 then go_bind (cache_fast p ci) (\<lambda>r. Inr (Some r)) else cache_slow arenas p) (\<lambda>r.
           case r of
             None \<Rightarrow> Inr (p\<lparr>searchAddr := maxSearchAddr\<rparr>, emptyCache)
           | Some (chunk, c) \<Rightarrow>
               let cpi = chunkPageIndex (pc_base c)
               in go_bind (case chunk of
                             None \<Rightarrow> Inl NilPanic
                           | Some ck \<Rightarrow> chunk_upd p ck (\<lambda>d.
                               go_bind (allocPages64 (pd_bits d) cpi (pc_cache c)) (\<lambda>b. Inr (d\<lparr>pd_bits := b\<rparr>)))) (\<lambda>p.
                  go_bind (update p (pc_base c) pageCachePages False True) (\<lambda>p.
                  Inr (p\<lparr>searchAddr := OffAddr (pc_base c + pageSize * (pageCachePages - 1))\<rparr>, c))))))"

lemma allocN_run:
  assumes "1 < npages" and "npages \<le> 64" and "ones_at (pc_cache c) (unat npages) i"
    and "\<forall>k<i. \<not> ones_at (pc_cache c) (unat npages) k"
  shows "\<exists>c'. pageCache_alloc c npages = Some (c', pc_base c + of_nat i * pageSize, 0) \<and>
    (\<forall>k<64. bit (pc_cache c') k \<longleftrightarrow> bit (pc_cache c) k \<and> \<not> (i \<le> k \<and> k < i + i))"
proof -
  have n: "0 < unat npages" "unat npages \<le> 64" using assms(1,2) by (auto simp: word_less_nat_alt word_le_nat_alt)
  have i: "i < 64" using ones_at_bound [OF assms(3) n(1)] n(1) by simp
  obtain r where r: "findBitRange64 (pc_cache c) npages = Some r" "unat r \<le> 64"
      "unat r < 64 \<Longrightarrow> ones_at (pc_cache c) (unat npages) (unat r)"
      "\<And>k. k < unat r \<Longrightarrow> \<not> ones_at (pc_cache c) (unat npages) k"
    using findBitRange64_Some [OF n] by blast
  have "unat r = i"
    using r(2-4) assms(3,4) i by (metis linorder_neqE_nat order_less_trans)
  then have ri: "r = of_nat i" "unat (of_nat i :: u64) = i" by (metis of_nat_unat ucast_id) (use i in \<open>simp add: unat_of_nat\<close>)
  have "bit (pc_cache c) i" using assms(3) n(1) by (auto simp: ones_at_def)
  then have nz: "pc_cache c \<noteq> 0" by auto
  have m: "shl 1 (of_nat i) - 1 = (mask i :: u64)" using ri(2) by (simp add: shl_def push_bit_eq_mult mask_eq_exp_minus_1)
  have "bit (shl (shl 1 r - 1) r :: u64) k \<longleftrightarrow> i \<le> k \<and> k < i + i" if "k < 64" for k
    using that i m by (auto simp: ri bit_simps)
  then have "bit (andnot (pc_cache c) (shl (shl 1 r - 1) r)) k \<longleftrightarrow> bit (pc_cache c) k \<and> \<not> (i \<le> k \<and> k < i + i)" if "k < 64" for k
    using that by (simp add: bit_andnot)
  moreover have "\<not> 64 \<le> r" "npages \<noteq> 1" using i ri assms(1) by (auto simp: word_le_nat_alt)
  ultimately show ?thesis
    using r(1) nz by (auto simp: pageCache_alloc_def allocN_def Let_def ri)
qed

section \<open>Properties\<close>

text \<open>
  allocating one page from a non-empty cache returns the address of the lowest free page and marks
  exactly that page as used.
\<close>

lemma pageCache_alloc_one:
  assumes "pc_cache c \<noteq> 0"
  shows "\<exists>i c'. pageCache_alloc c 1 = Some (c', pc_base c + of_nat i * pageSize, 0) \<and> i < 64 \<and>
    bit (pc_cache c) i \<and> (\<forall>k<i. \<not> bit (pc_cache c) k) \<and>
    (\<forall>k<64. bit (pc_cache c') k \<longleftrightarrow> bit (pc_cache c) k \<and> k \<noteq> i)"
proof -
  let ?i = "tz (pc_cache c)"
  have i: "?i < 64" "bit (pc_cache c) ?i" "\<And>k. k < ?i \<Longrightarrow> \<not> bit (pc_cache c) k"
    using tz_less [OF assms] bit_tz [OF assms] not_bit_below by auto
  have "bit (andnot (pc_cache c) (shl 1 (TrailingZeros64 (pc_cache c)))) k \<longleftrightarrow> bit (pc_cache c) k \<and> k \<noteq> ?i" if "k < 64" for k
    using that by (auto simp: bit_simps)
  then show ?thesis
    using i assms by (intro exI [of _ ?i]) (auto simp: pageCache_alloc_def Let_def TrailingZeros64_tz)
qed

text \<open>
  allocating several pages finds the first run of free pages, but marks the wrong pages: the mask
  covers \<open>i\<close> pages from page \<open>i\<close> on, where \<open>i\<close> is the index of the run, instead of \<open>npages\<close>.
\<close>

lemma allocN_effect:
  assumes "1 < npages" and "npages \<le> 64" and "ones_at (pc_cache c) (unat npages) i"
    and "\<forall>k<i. \<not> ones_at (pc_cache c) (unat npages) k"
  shows "\<exists>c'. pageCache_alloc c npages = Some (c', pc_base c + of_nat i * pageSize, 0) \<and>
    (\<forall>k<64. bit (pc_cache c') k \<longleftrightarrow> bit (pc_cache c) k \<and> \<not> (i \<le> k \<and> k < i + i))"
  using assms by (rule allocN_run)

text \<open>
  C37: a run at the start of the cache is handed out twice: the mask is empty then, the cache does not
  change, and a second allocation of the same size returns the same address.
\<close>

theorem allocN_hands_out_twice:
  assumes "1 < npages" and "npages \<le> 64" and "ones_at (pc_cache c) (unat npages) 0"
  shows "pageCache_alloc c npages = Some (c, pc_base c, 0)"
proof -
  obtain c' where c': "pageCache_alloc c npages = Some (c', pc_base c, 0)"
      "\<forall>k<64. bit (pc_cache c') k \<longleftrightarrow> bit (pc_cache c) k"
    using allocN_run [OF assms] by auto
  then have "pc_cache c' = pc_cache c" by (auto intro: bit_word_eqI)
  moreover have "c' = c\<lparr>pc_cache := pc_cache c'\<rparr>"
    using c'(1) assms(1) by (auto simp: pageCache_alloc_def allocN_def Let_def split: if_splits option.splits)
  ultimately show ?thesis using c'(1) by simp
qed

theorem allocN_hands_out_twice_witness:
  "pageCache_alloc \<lparr>pc_base = 4096, pc_cache = 7, pc_scav = 0\<rparr> 3 =
     Some (\<lparr>pc_base = 4096, pc_cache = 7, pc_scav = 0\<rparr>, pc_base \<lparr>pc_base = 4096, pc_cache = 7, pc_scav = 0\<rparr>, 0)"
  by (rule allocN_hands_out_twice) (simp, simp, code_simp)

text \<open>
  The fast path finds a page exactly when the chunk has a free one at or after the word of the search
  address, and leaves the outer chunk pointer nil then.
\<close>

lemma cache_fast_cases:
  assumes "chunkOf p ci = Inr d" and "chunk_bits (pd_bits d)"
  shows "if \<exists>k<512. 64 * (unat (chunkPageIndex (addr (searchAddr p))) div 64) \<le> k \<and> \<not> pbit (pd_bits d) k
    then \<exists>c. cache_fast p ci = Inr (None, c) else cache_fast p ci = Inl (Throw ''bad summary data'')"
proof -
  let ?s = "chunkPageIndex (addr (searchAddr p))" and ?b = "pd_bits d"
  obtain r q where find: "pallocBits_find ?b 1 ?s = Some (r, q)"
      and first: "first_run ?b 1 (64 * (unat ?s div 64)) r"
    using find.finds [OF assms(2), of 1 ?s] by auto
  have free: "run_free ?b 1 k \<longleftrightarrow> k < 512 \<and> \<not> pbit ?b k" for k by (auto simp: run_free_def)
  show ?thesis
  proof (cases "r = noIdx")
    case True
    then have "\<not> (\<exists>k<512. 64 * (unat ?s div 64) \<le> k \<and> \<not> pbit ?b k)"
      using first free by (auto simp: first_run_def)
    then show ?thesis using True find assms(1) by (simp add: cache_fast_def returns_def)
  next
    case False
    then have r: "unat r < 512" "64 * (unat ?s div 64) \<le> unat r" "\<not> pbit ?b (unat r)"
      using first free by (auto simp: first_run_def)
    obtain w where "pages64 ?b r = Inr w"
      using r(1) assms(2) by (cases "pages64 ?b r") (auto simp: pages64_def pageBits_block64_def)
    then show ?thesis using r False find assms(1) by (auto simp: cache_fast_def returns_def)
  qed
qed

text \<open>
  C38: when the summary entry that \<open>allocToCache\<close> reads is not zero, it never returns. It uses the
  search address itself as the chunk index, and the fast path assigns the chunk to a variable of its own:
  if that chunk has a free page at or after the word of the search address, the code behind it
  dereferences the nil outer pointer, and otherwise the fast path throws.
\<close>

theorem allocToCache_fast_path_fails:
  assumes "addr (searchAddr p) < pa_end p" and "sum_get p 4 (addr (searchAddr p)) = Inr s" and "s \<noteq> 0"
    and "chunkOf p (addr (searchAddr p)) = Inr d" and "chunk_bits (pd_bits d)"
  shows "allocToCache arenas p =
    (if \<exists>k<512. 64 * (unat (chunkPageIndex (addr (searchAddr p))) div 64) \<le> k \<and> \<not> pbit (pd_bits d) k
     then Inl NilPanic else Inl (Throw ''bad summary data''))"
proof -
  have "\<not> pa_end p \<le> addr (searchAddr p)" using assms(1) by simp
  then show ?thesis using assms(2,3) cache_fast_cases [OF assms(4,5)]
    by (auto simp: allocToCache_def Let_def split: if_splits)
qed

theorem allocToCache_fast_path_fails_witness:
  "allocToCache None (one_free_chunk\<lparr>searchAddr := OffAddr 0,
      summary := (summary one_free_chunk)[4 := \<lparr>lv_len = 8192, lv_sum = (\<lambda>_. freeChunkSum)\<rparr>]\<rparr>) = Inl NilPanic"
proof -
  let ?p = "one_free_chunk\<lparr>searchAddr := OffAddr 0,
      summary := (summary one_free_chunk)[4 := \<lparr>lv_len = 8192, lv_sum = (\<lambda>_. freeChunkSum)\<rparr>]\<rparr>"
  let ?d = "\<lparr>pd_bits = replicate 8 0, pd_scavenged = replicate 8 0\<rparr>"
  have "freeChunkSum \<noteq> 0" by code_simp
  moreover have "chunkOf ?p (addr (searchAddr ?p)) = Inr ?d"
    by (simp add: chunkOf_def one_free_chunk_def addr_def l1_def l2_def shr_def)
  moreover have "chunkPageIndex 0 = 0" by (simp add: chunkPageIndex_def)
  moreover have "\<exists>k<512. \<not> pbit (replicate 8 0) k" by (intro exI [of _ 0]) (simp add: pbit_def)
  ultimately show ?thesis
    using allocToCache_fast_path_fails [of ?p freeChunkSum ?d None]
    by (simp add: one_free_chunk_def addr_def sum_get_def)
qed

end
