(* ===== verification/Http2Io.thy ===== *)
theory Http2Io
  imports GoPrelude
begin

text \<open>
  Reading and writing of bytes as the HTTP/2 package does it: the package's own \<open>io\<close>
  (\<open>src/http2/io/io.go\<close>) with \<open>ReadAtLeast\<close> and \<open>ReadFull\<close>, and big-endian integers.

  A \<open>Reader\<close> and a \<open>Writer\<close> are the caller's. A reader is a function \<open>rd\<close> on its state: \<open>rd r n\<close> is a call
  of \<open>Read\<close> with a slice of length \<open>n\<close>, and gives the bytes it put at the start of the slice, its error
  and its next state. A writer is a function \<open>wr\<close> in the same way. The locale \<open>full_reader\<close> states what
  a reader promises that hands out all the bytes it has, and is interpreted on \<open>bytes.Buffer\<close>, which
  the framer itself reads from to check what it wrote.
\<close>

unbundle bit_operations_syntax

section \<open>Readers and writers\<close>

text \<open>
  The package declares its own \<open>EOF\<close>, so the \<open>io.EOF\<close> of the standard library, which the readers of the
  standard library return, is another value.
\<close>

datatype ioError = EOF | ErrUnexpectedEOF | ErrShortWrite | ErrShortBuffer | StdEOF | OtherError string

type_synonym 'r reader = "'r \<Rightarrow> nat \<Rightarrow> 'r \<times> u8 list \<times> ioError option"
type_synonym 'w writer = "'w \<Rightarrow> u8 list \<Rightarrow> 'w \<times> int \<times> ioError option"

text \<open>
  The loop of \<open>ReadAtLeast\<close>. Every call of \<open>Read\<close> is given the whole buffer, so it writes at its start.
  It may run forever when the reader keeps returning nothing.
\<close>

partial_function (option) readAtLeast_loop ::
  "'r reader \<Rightarrow> 'r \<Rightarrow> u8 list \<Rightarrow> nat \<Rightarrow> nat \<Rightarrow> ioError option \<Rightarrow> ('r \<times> u8 list \<times> nat \<times> ioError option) option"
where
  "readAtLeast_loop rd r buf mn n err =
     (if n < mn \<and> err = None
      then case rd r (length buf) of (r, bs, err) \<Rightarrow>
             readAtLeast_loop rd r (copy_at buf 0 bs) mn (n + length bs) err
      else Some (r, buf, n, err))"

definition ReadAtLeast ::
  "'r reader \<Rightarrow> 'r \<Rightarrow> u8 list \<Rightarrow> nat \<Rightarrow> ('r \<times> u8 list \<times> nat \<times> ioError option) option" where
  "ReadAtLeast rd r buf mn =
     (if length buf < mn then Some (r, buf, 0, Some ErrShortBuffer)
      else map_option (\<lambda>(r, buf, n, err).
             (r, buf, n, if n \<ge> mn then None
                         else if n > 0 \<and> err = Some EOF then Some ErrUnexpectedEOF
                         else err))
           (readAtLeast_loop rd r buf mn 0 None))"

definition ReadFull ::
  "'r reader \<Rightarrow> 'r \<Rightarrow> u8 list \<Rightarrow> ('r \<times> u8 list \<times> nat \<times> ioError option) option" where
  "ReadFull rd r buf = ReadAtLeast rd r buf (length buf)"

text \<open>\<open>bytes.Buffer\<close>, the unread bytes.\<close>

definition Buffer_Read :: "u8 list reader" where
  "Buffer_Read b n =
     (if b = [] then (b, [], if n = 0 then None else Some StdEOF)
      else (drop n b, take n b, None))"

definition Buffer_Write :: "u8 list writer" where
  "Buffer_Write b p = (b @ p, int (length p), None)"

text \<open>
  A connection: a call of \<open>Read\<close> returns what has arrived instead of waiting for more. The state is the
  list of pieces in which the bytes arrive.
\<close>

fun Conn_Read :: "u8 list list reader" where
  "Conn_Read [] n = ([], [], if n = 0 then None else Some StdEOF)"
| "Conn_Read (s # ss) n = (if length s \<le> n then (ss, s, None) else (drop n s # ss, take n s, None))"

section \<open>Big-endian integers\<close>

text \<open>\<open>binary.BigEndian\<close> reads the first bytes of its argument and panics when there are too few.\<close>

fun Uint16 :: "u8 list \<Rightarrow> u16 res" where
  "Uint16 (b0 # b1 # _) = Inr (ucast b1 OR shl (ucast b0) 8)"
| "Uint16 _ = Inl IndexPanic"

fun Uint32 :: "u8 list \<Rightarrow> u32 res" where
  "Uint32 (b0 # b1 # b2 # b3 # _) =
     Inr (ucast b3 OR shl (ucast b2) 8 OR shl (ucast b1) 16 OR shl (ucast b0) 24)"
| "Uint32 _ = Inl IndexPanic"

definition be16 :: "u16 \<Rightarrow> u8 list" where
  "be16 v = [ucast (shr v 8), ucast v]"

definition be32 :: "u32 \<Rightarrow> u8 list" where
  "be32 v = [ucast (shr v 24), ucast (shr v 16), ucast (shr v 8), ucast v]"

lemma length_be [simp]: "length (be16 v) = 2" "length (be32 w) = 4"
  by (simp_all add: be16_def be32_def)

lemma Uint16_be16 [simp]: "Uint16 (be16 v @ rest) = Inr v"
proof -
  have "ucast (ucast v :: u8) OR shl (ucast (ucast (shr v 8) :: u8)) 8 = v"
    by (rule bit_word_eqI) (auto simp: bit_simps)
  then show ?thesis by (simp add: be16_def)
qed

lemma Uint32_be32 [simp]: "Uint32 (be32 v @ rest) = Inr v"
proof -
  have "ucast (ucast v :: u8) OR shl (ucast (ucast (shr v 8) :: u8)) 8
      OR shl (ucast (ucast (shr v 16) :: u8)) 16 OR shl (ucast (ucast (shr v 24) :: u8)) 24 = v"
  proof (rule bit_word_eqI, goal_cases)
    case (1 n)
    then show ?case by (cases "n < 16"; cases "n < 24") (auto simp: bit_simps)
  qed
  then show ?thesis by (simp add: be32_def)
qed

lemma Uint_Inr:
  "4 \<le> length p \<Longrightarrow> \<exists>v. Uint32 p = Inr v" "2 \<le> length p \<Longrightarrow> \<exists>v. Uint16 p = Inr v"
  by (auto simp: numeral_eq_Suc Suc_le_length_iff)

lemma Uint_take:
  "4 \<le> n \<Longrightarrow> 4 \<le> length p \<Longrightarrow> Uint32 (take n p) = Uint32 p"
  "2 \<le> n \<Longrightarrow> 2 \<le> length p \<Longrightarrow> Uint16 (take n p) = Uint16 p"
  by (auto simp: numeral_eq_Suc Suc_le_length_iff dest!: le_Suc_ex)

section \<open>Reading exactly what is asked for\<close>

lemma copy_at_all [simp]: "length bs = length buf \<Longrightarrow> copy_at buf 0 bs = bs"
  by (simp add: copy_at_def)

lemma length_copy_at [simp]: "length bs \<le> length buf \<Longrightarrow> length (copy_at buf 0 bs) = length buf"
  by (simp add: copy_at_def)

lemma ReadFull_empty [simp]: "ReadFull rd r [] = Some (r, [], 0, None)"
  by (simp add: ReadFull_def ReadAtLeast_def readAtLeast_loop.simps)

text \<open>A single call fills the buffer.\<close>

lemma ReadFull_once:
  assumes "rd r (length buf) = (r', bs, err)" and "length bs = length buf" and "buf \<noteq> []"
  shows "ReadFull rd r buf = Some (r', bs, length buf, None)"
  using assms by (simp add: ReadFull_def ReadAtLeast_def readAtLeast_loop.simps)

locale full_reader =
  fixes rd :: "'r reader" and content :: "'r \<Rightarrow> u8 list"
  assumes read_bytes: "rd r n = (r', bs, err) \<Longrightarrow> bs = take n (content r)"
    and read_rest: "rd r n = (r', bs, err) \<Longrightarrow> content r' = drop n (content r)"
    and read_end: "rd r n = (r', bs, err) \<Longrightarrow> err = None \<longleftrightarrow> n = 0 \<or> content r \<noteq> []"
begin

lemma ReadFull_content:
  assumes "length buf \<le> length (content r)"
  obtains r' where "ReadFull rd r buf = Some (r', take (length buf) (content r), length buf, None)"
    "content r' = drop (length buf) (content r)"
proof (cases "buf = []")
  case True
  with that show thesis by simp
next
  case False
  obtain r' bs err where rd: "rd r (length buf) = (r', bs, err)" by (metis prod_cases3)
  then have "bs = take (length buf) (content r)" by (rule read_bytes)
  with ReadFull_once [of rd, OF rd _ False] read_rest [OF rd] assms that show thesis by simp
qed

lemma ReadFull_short:
  assumes "length (content r) < length buf"
  shows "\<exists>r' buf' n e. ReadFull rd r buf = Some (r', buf', n, Some e) \<and> n = length (content r)
    \<and> length buf' = length buf"
proof -
  obtain r1 bs err where 1: "rd r (length buf) = (r1, bs, err)" by (metis prod_cases3)
  have bs: "bs = content r" using read_bytes [OF 1] assms by simp
  have c1: "content r1 = []" using read_rest [OF 1] assms by simp
  obtain r2 bs2 err2 where 2: "rd r1 (length buf) = (r2, bs2, err2)" by (metis prod_cases3)
  have "bs2 = []" using read_bytes [OF 2] c1 by simp
  moreover have "err2 \<noteq> None" using read_end [OF 2] c1 assms by auto
  ultimately show ?thesis
    using assms 1 2 bs
    by (cases err) (auto simp: ReadFull_def ReadAtLeast_def readAtLeast_loop.simps [of rd r]
        readAtLeast_loop.simps [of rd r1] readAtLeast_loop.simps [of rd r2] split: if_splits)
qed

end

interpretation buffer: full_reader Buffer_Read "\<lambda>b. b"
  by unfold_locales (auto simp: Buffer_Read_def split: if_splits)

end
