(* ===== verification/HpackTables.thy ===== *)
theory HpackTables
  imports GoPrelude
begin

text \<open>
  The header tables of \<open>src/http2/hpack\<close>: \<open>headerFieldTable\<close> and its two index maps
  (\<open>tables.go\<close>), the static table (\<open>static_table.go\<close>) and the size-bounded
  \<open>dynamicTable\<close> (\<open>hpack.go\<close>).

  A Go string is a list of bytes, written as a HOL string. A Go map is a partial function; reading
  a missing key gives the zero value. The maps are the ones allocated by \<open>init\<close>, so no write
  reaches a nil map. The method \<open>idToIndex\<close> compares its receiver with the
  address of the global static table; the model passes the outcome of that comparison as a flag.
  Panic messages are kept without their formatted arguments.
\<close>

section \<open>Header fields and tables\<close>

record HeaderField =
  Name :: string
  Value :: string
  Sensitive :: bool

definition zeroHeaderField :: HeaderField where
  "zeroHeaderField = \<lparr>Name = '''', Value = '''', Sensitive = False\<rparr>"

definition IsPseudo :: "HeaderField \<Rightarrow> bool" where
  "IsPseudo hf = (length (Name hf) \<noteq> 0 \<and> Name hf ! 0 = CHR '':'')"

definition Size :: "HeaderField \<Rightarrow> u32" where
  "Size hf = of_nat (length (Name hf) + length (Value hf) + 32)"

type_synonym pairNameValue = "string \<times> string"

record headerFieldTable =
  ents :: "HeaderField list"
  evictCount :: u64
  byName :: "string \<rightharpoonup> u64"
  byNameValue :: "pairNameValue \<rightharpoonup> u64"

definition pair_of :: "HeaderField \<Rightarrow> pairNameValue" where
  "pair_of f = (Name f, Value f)"

text \<open>Reading a Go map: the zero value for a missing key.\<close>

definition mget :: "('k \<rightharpoonup> u64) \<Rightarrow> 'k \<Rightarrow> u64" where
  "mget m k = (case m k of None \<Rightarrow> 0 | Some v \<Rightarrow> v)"

definition table_init :: "headerFieldTable \<Rightarrow> headerFieldTable" where
  "table_init t = t\<lparr>byName := Map.empty, byNameValue := Map.empty\<rparr>"

definition table_len :: "headerFieldTable \<Rightarrow> nat" where
  "table_len t = length (ents t)"

definition addEntry :: "headerFieldTable \<Rightarrow> HeaderField \<Rightarrow> headerFieldTable" where
  "addEntry t f =
     (let id = of_nat (table_len t) + evictCount t + 1
      in t\<lparr>byName := (byName t)(Name f \<mapsto> id),
           byNameValue := (byNameValue t)(pair_of f \<mapsto> id),
           ents := ents t @ [f]\<rparr>)"

text \<open>The loop that forgets the ids of evicted entries; \<open>k\<close> counts the entries passed.\<close>

fun evict_ids :: "HeaderField list \<Rightarrow> u64 \<Rightarrow> headerFieldTable \<Rightarrow> headerFieldTable" where
  "evict_ids [] k t = t"
| "evict_ids (f # fs) k t =
     (let id = evictCount t + k + 1;
          t = (if mget (byName t) (Name f) = id
               then t\<lparr>byName := (byName t)(Name f := None)\<rparr> else t);
          t = (if mget (byNameValue t) (pair_of f) = id
               then t\<lparr>byNameValue := (byNameValue t)(pair_of f := None)\<rparr> else t)
      in evict_ids fs (k + 1) t)"

definition evictOldest :: "headerFieldTable \<Rightarrow> int \<Rightarrow> headerFieldTable res" where
  "evictOldest t n =
     (if n > int (table_len t) then Inl (Panic ''evictOldest'')
      else if n < 0 then Inl IndexPanic
      else
        let t1 = evict_ids (take (nat n) (ents t)) 0 t;
            moved = copy_at (ents t1) 0 (drop (nat n) (ents t1));
            zeroed = foldl (\<lambda>es k. es[k := zeroHeaderField]) moved
                       [length moved - nat n ..< length moved];
            t2 = t1\<lparr>ents := take (length zeroed - nat n) zeroed\<rparr>
        in if evictCount t2 + of_int n < evictCount t2 then Inl (Panic ''evictCount overflow'')
           else Inr (t2\<lparr>evictCount := evictCount t2 + of_int n\<rparr>))"

definition idToIndex :: "bool \<Rightarrow> headerFieldTable \<Rightarrow> u64 \<Rightarrow> u64 res" where
  "idToIndex is_static t uid =
     (if uid \<le> evictCount t then Inl (Panic ''id <= evictCount'')
      else let k = uid - evictCount t - 1
           in if \<not> is_static then Inr (of_nat (table_len t) - k) else Inr (k + 1))"

definition search :: "bool \<Rightarrow> headerFieldTable \<Rightarrow> HeaderField \<Rightarrow> (u64 \<times> bool) res" where
  "search is_static t f =
     (let pid = mget (byNameValue t) (pair_of f);
          nid = mget (byName t) (Name f)
      in if \<not> Sensitive f \<and> pid \<noteq> 0
         then go_bind (idToIndex is_static t pid) (\<lambda>i. Inr (i, True))
         else if nid \<noteq> 0
         then go_bind (idToIndex is_static t nid) (\<lambda>i. Inr (i, False))
         else Inr (0, False))"

section \<open>The static table\<close>

definition static_ents :: "HeaderField list" where
  "static_ents = map (\<lambda>(n, v). \<lparr>Name = n, Value = v, Sensitive = False\<rparr>) [
    ('':authority'', ''''), ('':method'', ''GET''), ('':method'', ''POST''), ('':path'', ''/''),
    ('':path'', ''/index.html''), ('':scheme'', ''http''), ('':scheme'', ''https''), ('':status'', ''200''),
    ('':status'', ''204''), ('':status'', ''206''), ('':status'', ''304''), ('':status'', ''400''),
    ('':status'', ''404''), ('':status'', ''500''), (''accept-charset'', ''''),
    (''accept-encoding'', ''gzip, deflate''), (''accept-language'', ''''), (''accept-ranges'', ''''),
    (''accept'', ''''), (''access-control-allow-origin'', ''''), (''age'', ''''), (''allow'', ''''),
    (''authorization'', ''''), (''cache-control'', ''''), (''content-disposition'', ''''),
    (''content-encoding'', ''''), (''content-language'', ''''), (''content-length'', ''''),
    (''content-location'', ''''), (''content-range'', ''''), (''content-type'', ''''), (''cookie'', ''''),
    (''date'', ''''), (''etag'', ''''), (''expect'', ''''), (''expires'', ''''), (''from'', ''''),
    (''host'', ''''), (''if-match'', ''''), (''if-modified-since'', ''''), (''if-none-match'', ''''),
    (''if-range'', ''''), (''if-unmodified-since'', ''''), (''last-modified'', ''''), (''link'', ''''),
    (''location'', ''''), (''max-forwards'', ''''), (''proxy-authenticate'', ''''),
    (''proxy-authorization'', ''''), (''range'', ''''), (''referer'', ''''), (''refresh'', ''''),
    (''retry-after'', ''''), (''server'', ''''), (''set-cookie'', ''''),
    (''strict-transport-security'', ''''), (''transfer-encoding'', ''''), (''user-agent'', ''''),
    (''vary'', ''''), (''via'', ''''), (''www-authenticate'', '''')]"

definition static_byName :: "(string \<times> u64) list" where
  "static_byName = [
    ('':authority'', 1), ('':method'', 3), ('':path'', 5), ('':scheme'', 7), ('':status'', 14),
    (''accept-charset'', 15), (''accept-encoding'', 16), (''accept-language'', 17), (''accept-ranges'', 18),
    (''accept'', 19), (''access-control-allow-origin'', 20), (''age'', 21), (''allow'', 22),
    (''authorization'', 23), (''cache-control'', 24), (''content-disposition'', 25),
    (''content-encoding'', 26), (''content-language'', 27), (''content-length'', 28),
    (''content-location'', 29), (''content-range'', 30), (''content-type'', 31), (''cookie'', 32),
    (''date'', 33), (''etag'', 34), (''expect'', 35), (''expires'', 36), (''from'', 37), (''host'', 38),
    (''if-match'', 39), (''if-modified-since'', 40), (''if-none-match'', 41), (''if-range'', 42),
    (''if-unmodified-since'', 43), (''last-modified'', 44), (''link'', 45), (''location'', 46),
    (''max-forwards'', 47), (''proxy-authenticate'', 48), (''proxy-authorization'', 49), (''range'', 50),
    (''referer'', 51), (''refresh'', 52), (''retry-after'', 53), (''server'', 54), (''set-cookie'', 55),
    (''strict-transport-security'', 56), (''transfer-encoding'', 57), (''user-agent'', 58), (''vary'', 59),
    (''via'', 60), (''www-authenticate'', 61)]"

definition static_byNameValue :: "((string \<times> string) \<times> u64) list" where
  "static_byNameValue = [
    (('':authority'', ''''), 1), (('':method'', ''GET''), 2), (('':method'', ''POST''), 3),
    (('':path'', ''/''), 4), (('':path'', ''/index.html''), 5), (('':scheme'', ''http''), 6),
    (('':scheme'', ''https''), 7), (('':status'', ''200''), 8), (('':status'', ''204''), 9),
    (('':status'', ''206''), 10), (('':status'', ''304''), 11), (('':status'', ''400''), 12),
    (('':status'', ''404''), 13), (('':status'', ''500''), 14), ((''accept-charset'', ''''), 15),
    ((''accept-encoding'', ''gzip, deflate''), 16), ((''accept-language'', ''''), 17),
    ((''accept-ranges'', ''''), 18), ((''accept'', ''''), 19), ((''access-control-allow-origin'', ''''), 20),
    ((''age'', ''''), 21), ((''allow'', ''''), 22), ((''authorization'', ''''), 23),
    ((''cache-control'', ''''), 24), ((''content-disposition'', ''''), 25),
    ((''content-encoding'', ''''), 26), ((''content-language'', ''''), 27), ((''content-length'', ''''), 28),
    ((''content-location'', ''''), 29), ((''content-range'', ''''), 30), ((''content-type'', ''''), 31),
    ((''cookie'', ''''), 32), ((''date'', ''''), 33), ((''etag'', ''''), 34), ((''expect'', ''''), 35),
    ((''expires'', ''''), 36), ((''from'', ''''), 37), ((''host'', ''''), 38), ((''if-match'', ''''), 39),
    ((''if-modified-since'', ''''), 40), ((''if-none-match'', ''''), 41), ((''if-range'', ''''), 42),
    ((''if-unmodified-since'', ''''), 43), ((''last-modified'', ''''), 44), ((''link'', ''''), 45),
    ((''location'', ''''), 46), ((''max-forwards'', ''''), 47), ((''proxy-authenticate'', ''''), 48),
    ((''proxy-authorization'', ''''), 49), ((''range'', ''''), 50), ((''referer'', ''''), 51),
    ((''refresh'', ''''), 52), ((''retry-after'', ''''), 53), ((''server'', ''''), 54),
    ((''set-cookie'', ''''), 55), ((''strict-transport-security'', ''''), 56),
    ((''transfer-encoding'', ''''), 57), ((''user-agent'', ''''), 58), ((''vary'', ''''), 59),
    ((''via'', ''''), 60), ((''www-authenticate'', ''''), 61)]"

definition staticTable :: headerFieldTable where
  "staticTable = \<lparr>ents = static_ents, evictCount = 0, byName = map_of static_byName,
     byNameValue = map_of static_byNameValue\<rparr>"

section \<open>The dynamic table\<close>

record dynamicTable =
  dtable :: headerFieldTable
  dsize :: u32
  maxSize :: u32
  allowedMaxSize :: u32

definition dynamicTable_add :: "dynamicTable \<Rightarrow> HeaderField \<Rightarrow> dynamicTable" where
  "dynamicTable_add dt f =
     dt\<lparr>dtable := addEntry (dtable dt) f, dsize := dsize dt + Size f\<rparr>"

text \<open>
  The loop of \<open>evict\<close>: the entries from position \<open>n\<close> on, the position and the size so far.
\<close>

fun evict_loop :: "u32 \<Rightarrow> HeaderField list \<Rightarrow> int \<Rightarrow> u32 \<Rightarrow> int \<times> u32" where
  "evict_loop bound [] n sz = (n, sz)"
| "evict_loop bound (f # fs) n sz =
     (if sz > bound then evict_loop bound fs (n + 1) (sz - Size f) else (n, sz))"

definition evict :: "dynamicTable \<Rightarrow> dynamicTable res" where
  "evict dt =
     (let (n, sz) = evict_loop (maxSize dt) (ents (dtable dt)) 0 (dsize dt)
      in go_bind (evictOldest (dtable dt) n) (\<lambda>t. Inr (dt\<lparr>dtable := t, dsize := sz\<rparr>)))"

definition setMaxSize :: "dynamicTable \<Rightarrow> u32 \<Rightarrow> dynamicTable res" where
  "setMaxSize dt v = evict (dt\<lparr>maxSize := v\<rparr>)"

text \<open>The zero value of a dynamic table with its maps allocated.\<close>

definition emptyTable :: headerFieldTable where
  "emptyTable = table_init \<lparr>ents = [], evictCount = 0, byName = Map.empty, byNameValue = Map.empty\<rparr>"

definition emptyDynamicTable :: dynamicTable where
  "emptyDynamicTable = \<lparr>dtable = emptyTable, dsize = 0, maxSize = 0, allowedMaxSize = 0\<rparr>"

section \<open>What the tables mean\<close>

text \<open>The position of the newest (last) entry that satisfies \<open>P\<close>.\<close>

fun newest :: "('a \<Rightarrow> bool) \<Rightarrow> 'a list \<Rightarrow> nat option" where
  "newest P [] = None"
| "newest P (x # xs) =
     (case newest P xs of Some k \<Rightarrow> Some (Suc k) | None \<Rightarrow> if P x then Some 0 else None)"

text \<open>
  An index map is right for a list of entries when it holds, for each key, the unique id of the
  newest entry with that key. The id of entry \<open>k\<close> is \<open>k + evictCount + 1\<close>.
\<close>

definition index_ok :: "('a \<Rightarrow> 'k) \<Rightarrow> 'a list \<Rightarrow> u64 \<Rightarrow> ('k \<rightharpoonup> u64) \<Rightarrow> bool" where
  "index_ok key xs b m \<longleftrightarrow>
     (\<forall>k. m k = map_option (\<lambda>j. b + of_nat j + 1) (newest (\<lambda>x. key x = k) xs))"

definition table_ok :: "headerFieldTable \<Rightarrow> bool" where
  "table_ok t \<longleftrightarrow>
     unat (evictCount t) + length (ents t) < 2 ^ 64
     \<and> index_ok Name (ents t) (evictCount t) (byName t)
     \<and> index_ok pair_of (ents t) (evictCount t) (byNameValue t)"

text \<open>The HPACK index of the entry at position \<open>k\<close>.\<close>

definition hpack_index :: "bool \<Rightarrow> headerFieldTable \<Rightarrow> nat \<Rightarrow> u64" where
  "hpack_index is_static t k =
     (if is_static then of_nat (Suc k) else of_nat (length (ents t) - k))"

text \<open>What a search has to return, in terms of the entries alone.\<close>

definition best_match :: "bool \<Rightarrow> headerFieldTable \<Rightarrow> HeaderField \<Rightarrow> u64 \<times> bool" where
  "best_match is_static t f =
     (case if Sensitive f then None else newest (\<lambda>e. pair_of e = pair_of f) (ents t) of
        Some k \<Rightarrow> (hpack_index is_static t k, True)
      | None \<Rightarrow>
         (case newest (\<lambda>e. Name e = Name f) (ents t) of
            Some k \<Rightarrow> (hpack_index is_static t k, False)
          | None \<Rightarrow> (0, False)))"

definition entries_size :: "HeaderField list \<Rightarrow> nat" where
  "entries_size fs = sum_list (map (\<lambda>f. unat (Size f)) fs)"

definition dynamicTable_ok :: "dynamicTable \<Rightarrow> bool" where
  "dynamicTable_ok dt \<longleftrightarrow>
     table_ok (dtable dt) \<and> unat (dsize dt) = entries_size (ents (dtable dt))"

text \<open>
  Sequences of table operations, and what they do to a plain queue. \<open>fifo_ops\<close> is undefined when
  more entries are evicted than there are.
\<close>

datatype 'e table_op = Add 'e | Evict nat

fun run_ops :: "('t \<Rightarrow> 'e \<Rightarrow> 't) \<Rightarrow> ('t \<Rightarrow> nat \<Rightarrow> 't res) \<Rightarrow> 'e table_op list \<Rightarrow> 't \<Rightarrow> 't res" where
  "run_ops add evi [] t = Inr t"
| "run_ops add evi (Add e # ops) t = run_ops add evi ops (add t e)"
| "run_ops add evi (Evict n # ops) t = go_bind (evi t n) (run_ops add evi ops)"

fun fifo_ops :: "'e table_op list \<Rightarrow> 'e list \<Rightarrow> 'e list option" where
  "fifo_ops [] xs = Some xs"
| "fifo_ops (Add e # ops) xs = fifo_ops ops (xs @ [e])"
| "fifo_ops (Evict n # ops) xs = (if n \<le> length xs then fifo_ops ops (drop n xs) else None)"

text \<open>How many ids a table has left.\<close>

definition ids_left :: "headerFieldTable \<Rightarrow> nat" where
  "ids_left t = 2 ^ 64 - 1 - (unat (evictCount t) + length (ents t))"

text \<open>A table of two cookies and a host, with the older cookie evicted.\<close>

definition example_fields :: "HeaderField list" where
  "example_fields =
     [\<lparr>Name = ''cookie'', Value = ''a'', Sensitive = False\<rparr>,
      \<lparr>Name = ''host'', Value = ''b'', Sensitive = False\<rparr>,
      \<lparr>Name = ''cookie'', Value = ''c'', Sensitive = False\<rparr>]"

definition example_table :: dynamicTable where
  "example_table = foldl dynamicTable_add emptyDynamicTable example_fields"

section \<open>The newest entry\<close>

lemma newest_None_iff: "newest P xs = None \<longleftrightarrow> (\<forall>x\<in>set xs. \<not> P x)"
  by (induction xs) (auto split: option.splits)

lemma newest_Some:
  "newest P xs = Some k \<longleftrightarrow>
     k < length xs \<and> P (xs ! k) \<and> (\<forall>j. k < j \<and> j < length xs \<longrightarrow> \<not> P (xs ! j))"
proof (induction xs arbitrary: k)
  case Nil
  show ?case by simp
next
  case (Cons x xs)
  show ?case
  proof (cases "newest P xs")
    case None
    then have "\<forall>j<length xs. \<not> P (xs ! j)" by (simp add: newest_None_iff nth_mem)
    with None show ?thesis by (cases k) (auto simp: nth_Cons split: nat.splits)
  next
    case (Some j)
    with Cons.IH [of j] have j: "j < length xs" "P (xs ! j)" by simp_all
    show ?thesis
    proof (cases k)
      case 0
      from j have "\<exists>i. 0 < i \<and> i < length (x # xs) \<and> P ((x # xs) ! i)"
        by (intro exI [of _ "Suc j"]) simp
      with 0 Some show ?thesis by auto
    next
      case (Suc k')
      have "(\<forall>i. Suc k' < i \<and> i < length (x # xs) \<longrightarrow> \<not> P ((x # xs) ! i))
        \<longleftrightarrow> (\<forall>i. k' < i \<and> i < length xs \<longrightarrow> \<not> P (xs ! i))"
        by (auto simp: nth_Cons less_Suc_eq_0_disj split: nat.splits)
      with Suc Some Cons.IH [of k'] show ?thesis by simp
    qed
  qed
qed

lemma newest_less: "newest P xs = Some k \<Longrightarrow> k < length xs"
  by (simp add: newest_Some)

lemma newest_snoc: "newest P (xs @ [x]) = (if P x then Some (length xs) else newest P xs)"
  by (induction xs) auto

section \<open>Index maps\<close>

lemma index_ok_empty [simp]: "index_ok key [] b Map.empty"
  by (simp add: index_ok_def)

lemma index_ok_snoc:
  assumes "index_ok key xs b m"
  shows "index_ok key (xs @ [f]) b (m(key f \<mapsto> of_nat (length xs) + b + 1))"
  using assms by (auto simp: index_ok_def newest_snoc algebra_simps)

text \<open>Unique ids: distinct positions have distinct ids, and none is zero.\<close>

lemma id_unat:
  fixes b :: u64
  assumes "unat b + n < 2 ^ 64" and "j < n"
  shows "unat (b + of_nat j + 1) = unat b + j + 1"
proof -
  have 1: "unat (of_nat (Suc j) :: u64) = Suc j" using assms by (intro unat_of_nat64) simp
  have "unat (b + of_nat (Suc j)) = unat b + Suc j"
    using assms 1 by (subst unat_add_noov) (simp_all only: 1)
  then show ?thesis by (simp add: algebra_simps)
qed

lemma id_eq_first:
  fixes b :: u64
  assumes "unat b + n < 2 ^ 64" and "j < n"
  shows "b + of_nat j + 1 = b + 1 \<longleftrightarrow> j = 0"
proof
  assume "b + of_nat j + 1 = b + 1"
  then have "unat (b + of_nat j + 1) = unat (b + of_nat 0 + 1)" by simp
  then show "j = 0" using id_unat [OF assms] id_unat [OF assms(1), of 0] assms(2) by linarith
qed simp

lemma mget_index_ok:
  assumes "index_ok key xs b m" and "unat b + length xs < 2 ^ 64"
  shows "mget m k = (case newest (\<lambda>x. key x = k) xs of None \<Rightarrow> 0 | Some j \<Rightarrow> b + of_nat j + 1)"
    and "mget m k = 0 \<longleftrightarrow> newest (\<lambda>x. key x = k) xs = None"
proof -
  show 1: "mget m k = (case newest (\<lambda>x. key x = k) xs of None \<Rightarrow> 0 | Some j \<Rightarrow> b + of_nat j + 1)"
    using assms(1) by (simp add: index_ok_def mget_def split: option.splits)
  show "mget m k = 0 \<longleftrightarrow> newest (\<lambda>x. key x = k) xs = None"
  proof (cases "newest (\<lambda>x. key x = k) xs")
    case (Some j)
    from id_unat [OF assms(2) newest_less [OF Some]] have "b + of_nat j + 1 \<noteq> 0"
      by (metis unat_0 add_is_0 zero_neq_one)
    with 1 Some show ?thesis by simp
  qed (use 1 in simp)
qed

lemma index_ok_evict_one:
  assumes ok: "index_ok key (f # fs) b m" and bound: "unat b + length (f # fs) < 2 ^ 64"
  shows "index_ok key fs (b + 1) (if mget m (key f) = b + 1 then m(key f := None) else m)"
proof -
  have hit: "mget m (key f) = b + 1 \<longleftrightarrow> newest (\<lambda>x. key x = key f) fs = None"
  proof (cases "newest (\<lambda>x. key x = key f) fs")
    case None
    then show ?thesis using mget_index_ok(1) [OF assms, of "key f"] by simp
  next
    case (Some j)
    then have "Suc j < length (f # fs)" using newest_less by fastforce
    from id_eq_first [OF bound this] show ?thesis
      using mget_index_ok(1) [OF assms, of "key f"] Some by simp
  qed
  show ?thesis
  proof (unfold index_ok_def, rule allI)
    fix k
    have "m k = map_option (\<lambda>j. b + of_nat j + 1) (newest (\<lambda>x. key x = k) (f # fs))"
      using ok by (simp add: index_ok_def)
    then show "(if mget m (key f) = b + 1 then m(key f := None) else m) k =
        map_option (\<lambda>j. b + 1 + of_nat j + 1) (newest (\<lambda>x. key x = k) fs)"
      using hit by (cases "newest (\<lambda>x. key x = k) fs") (auto simp: algebra_simps)
  qed
qed

section \<open>The table operations\<close>

lemma table_ok_empty: "table_ok emptyTable"
  by (simp add: table_ok_def emptyTable_def table_init_def)

lemma table_ok_addEntry:
  assumes "table_ok t" and "unat (evictCount t) + length (ents t) + 1 < 2 ^ 64"
  shows "table_ok (addEntry t f)"
  using assms index_ok_snoc [of Name "ents t" "evictCount t" "byName t" f]
    index_ok_snoc [of pair_of "ents t" "evictCount t" "byNameValue t" f]
  by (simp add: table_ok_def addEntry_def table_len_def Let_def)

lemma evict_ids_keeps [simp]:
  "ents (evict_ids fs k t) = ents t" "evictCount (evict_ids fs k t) = evictCount t"
  by (induction fs k t rule: evict_ids.induct) (simp_all add: Let_def)

lemma evict_ids_ok:
  assumes "index_ok Name (fs @ gs) (evictCount t + k) (byName t)"
    and "index_ok pair_of (fs @ gs) (evictCount t + k) (byNameValue t)"
    and "unat (evictCount t + k) + length (fs @ gs) < 2 ^ 64"
  shows "index_ok Name gs (evictCount t + k + of_nat (length fs)) (byName (evict_ids fs k t))
    \<and> index_ok pair_of gs (evictCount t + k + of_nat (length fs)) (byNameValue (evict_ids fs k t))"
  using assms
proof (induction fs k t rule: evict_ids.induct)
  case (1 k t)
  then show ?case by simp
next
  case (2 f fs k t)
  define b where "b = evictCount t + k"
  define t1 where "t1 = (if mget (byName t) (Name f) = b + 1
    then t\<lparr>byName := (byName t)(Name f := None)\<rparr> else t)"
  define t2 where "t2 = (if mget (byNameValue t1) (pair_of f) = b + 1
    then t1\<lparr>byNameValue := (byNameValue t1)(pair_of f := None)\<rparr> else t1)"
  have ev: "evictCount t2 = evictCount t" by (simp add: t1_def t2_def)
  have bn: "byName t2 = (if mget (byName t) (Name f) = b + 1
      then (byName t)(Name f := None) else byName t)"
    and bv: "byNameValue t2 = (if mget (byNameValue t) (pair_of f) = b + 1
      then (byNameValue t)(pair_of f := None) else byNameValue t)"
    by (simp_all add: t1_def t2_def)
  have bound: "unat b + length (f # (fs @ gs)) < 2 ^ 64" using "2.prems"(3) by (simp add: b_def)
  have "index_ok Name (fs @ gs) (b + 1) (byName t2)"
    "index_ok pair_of (fs @ gs) (b + 1) (byNameValue t2)"
    unfolding bn bv using "2.prems"(1,2) bound
    by (auto simp only: append_Cons b_def intro!: index_ok_evict_one)
  moreover have "unat (b + 1) = unat b + 1" using id_unat [OF bound, of 0] by simp
  moreover have "b + 1 = evictCount t2 + (k + 1)" by (simp add: b_def ev add.assoc)
  moreover have "evict_ids (f # fs) k t = evict_ids fs (k + 1) t2"
    by (simp only: evict_ids.simps Let_def t1_def t2_def b_def)
  ultimately show ?case
    using "2.IH" [OF refl t1_def [unfolded b_def] t2_def [unfolded b_def]] bound ev
    by (simp only: b_def length_append length_Cons of_nat_Suc ac_simps)
qed

lemma zero_loop:
  "a \<le> b \<Longrightarrow> b \<le> length es \<Longrightarrow>
   take a (foldl (\<lambda>es k. es[k := z]) es [a ..< b]) = take a es
   \<and> length (foldl (\<lambda>es k. es[k := z]) es [a ..< b]) = length es"
proof (induction "b - a" arbitrary: b)
  case 0
  then show ?case by simp
next
  case (Suc d)
  then obtain c where "b = Suc c" "a \<le> c" by (cases b) auto
  with Suc show ?case by simp
qed

text \<open>Evicting \<open>n\<close> entries drops the \<open>n\<close> oldest.\<close>

lemma evictOldest_run:
  assumes bound: "unat (evictCount t) + length (ents t) < 2 ^ 64" and n: "n \<le> length (ents t)"
  shows "evictOldest t (int n) = Inr (evict_ids (take n (ents t)) 0 t
      \<lparr>ents := drop n (ents t), evictCount := evictCount t + of_nat n\<rparr>)"
    and "unat (evictCount t + of_nat n) = unat (evictCount t) + n"
proof -
  define moved where "moved = drop n (ents t) @ drop (length (ents t) - n) (ents t)"
  define zeroed where "zeroed = foldl (\<lambda>es k. es[k := zeroHeaderField]) moved
    [length moved - n ..< length moved]"
  have len: "length moved = length (ents t)" using n by (simp add: moved_def)
  have z: "take (length zeroed - n) zeroed = drop n (ents t)"
    using zero_loop [of "length moved - n" "length moved" moved zeroHeaderField] n len
    by (simp add: zeroed_def moved_def)
  have un: "unat (of_nat n :: u64) = n" using bound n by (intro unat_of_nat64) simp
  show cnt: "unat (evictCount t + of_nat n) = unat (evictCount t) + n"
    using bound n un by (subst unat_add_noov) simp_all
  show "evictOldest t (int n) = Inr (evict_ids (take n (ents t)) 0 t
      \<lparr>ents := drop n (ents t), evictCount := evictCount t + of_nat n\<rparr>)"
    using n cnt z len unfolding evictOldest_def zeroed_def moved_def
    by (simp add: table_len_def Let_def copy_at_def word_less_nat_alt)
qed

text \<open>It keeps both indices right.\<close>

lemma evictOldest_ok:
  assumes ok: "table_ok t" and n: "n \<le> length (ents t)"
  obtains t' where "evictOldest t (int n) = Inr t'" "table_ok t'" "ents t' = drop n (ents t)"
    "evictCount t' = evictCount t + of_nat n"
proof -
  have bound: "unat (evictCount t) + length (ents t) < 2 ^ 64" using ok by (simp add: table_ok_def)
  note run = evictOldest_run [OF bound n]
  let ?t' = "evict_ids (take n (ents t)) 0 t\<lparr>ents := drop n (ents t), evictCount := evictCount t + of_nat n\<rparr>"
  have "table_ok ?t'"
    using ok evict_ids_ok [of "take n (ents t)" "drop n (ents t)" t 0] n bound run(2)
    by (simp add: table_ok_def min_absorb2)
  with run(1) that show thesis by simp
qed

section \<open>Searching\<close>

lemma idToIndex_ok:
  assumes ok: "table_ok t" and k: "k < length (ents t)"
  shows "idToIndex st t (evictCount t + of_nat k + 1) = Inr (hpack_index st t k)"
proof -
  have bound: "unat (evictCount t) + length (ents t) < 2 ^ 64" using ok by (simp add: table_ok_def)
  have "\<not> evictCount t + of_nat k + 1 \<le> evictCount t"
    using id_unat [OF bound k] by (simp add: word_le_nat_alt)
  moreover have "evictCount t + of_nat k + 1 - evictCount t - 1 = of_nat k" by simp
  ultimately show ?thesis
    using k by (simp add: idToIndex_def hpack_index_def table_len_def of_nat_diff)
qed

lemma search_best_match:
  assumes ok: "table_ok t"
  shows "search st t f = Inr (best_match st t f)"
proof -
  have bound: "unat (evictCount t) + length (ents t) < 2 ^ 64"
    and n: "index_ok Name (ents t) (evictCount t) (byName t)"
    and p: "index_ok pair_of (ents t) (evictCount t) (byNameValue t)"
    using ok by (simp_all add: table_ok_def)
  note gets = mget_index_ok [OF n bound, of "Name f"] mget_index_ok [OF p bound, of "pair_of f"]
  have name: "(if mget (byName t) (Name f) \<noteq> 0
      then go_bind (idToIndex st t (mget (byName t) (Name f))) (\<lambda>i. Inr (i, False))
      else Inr (0, False)) =
    Inr (case newest (\<lambda>e. Name e = Name f) (ents t) of
            Some k \<Rightarrow> (hpack_index st t k, False) | None \<Rightarrow> (0, False))"
    using gets(1,2) idToIndex_ok [OF ok newest_less]
    by (cases "newest (\<lambda>e. Name e = Name f) (ents t)") simp_all
  show ?thesis
  proof (cases "Sensitive f \<or> newest (\<lambda>e. pair_of e = pair_of f) (ents t) = None")
    case True
    then have "search st t f = (if mget (byName t) (Name f) \<noteq> 0
      then go_bind (idToIndex st t (mget (byName t) (Name f))) (\<lambda>i. Inr (i, False))
      else Inr (0, False))"
      using gets(4) by (auto simp: search_def Let_def)
    then show ?thesis using True unfolding name best_match_def by auto
  next
    case False
    then obtain k where k: "newest (\<lambda>e. pair_of e = pair_of f) (ents t) = Some k" by auto
    with False gets(3,4) idToIndex_ok [OF ok newest_less [OF k]] show ?thesis
      by (simp add: search_def best_match_def Let_def)
  qed
qed

section \<open>The static table is consistent\<close>

text \<open>An association list indexes the entries when it has the right id for every key it holds.\<close>

lemma index_ok_map_of:
  assumes "\<forall>(k, i) \<in> set al. map_option (\<lambda>j. b + of_nat j + 1) (newest (\<lambda>x. key x = k) xs) = Some i"
    and "\<forall>x \<in> set xs. key x \<in> fst ` set al"
  shows "index_ok key xs b (map_of al)"
proof (unfold index_ok_def, rule allI)
  fix k
  show "map_of al k = map_option (\<lambda>j. b + of_nat j + 1) (newest (\<lambda>x. key x = k) xs)"
  proof (cases "map_of al k")
    case None
    then have "k \<notin> fst ` set al" by (simp add: map_of_eq_None_iff)
    with assms(2) have "newest (\<lambda>x. key x = k) xs = None" by (auto simp: newest_None_iff)
    with None show ?thesis by simp
  next
    case (Some i)
    from map_of_SomeD [OF this] assms(1) Some show ?thesis by auto
  qed
qed

lemma static_byName_ok: "index_ok Name static_ents 0 (map_of static_byName)"
proof (rule index_ok_map_of)
  show "\<forall>(k, i) \<in> set static_byName.
      map_option (\<lambda>j. 0 + of_nat j + 1) (newest (\<lambda>x. Name x = k) static_ents) = Some i"
    by code_simp
  show "\<forall>x \<in> set static_ents. Name x \<in> fst ` set static_byName"
    by code_simp
qed

lemma static_byNameValue_ok: "index_ok pair_of static_ents 0 (map_of static_byNameValue)"
proof (rule index_ok_map_of)
  show "\<forall>(k, i) \<in> set static_byNameValue.
      map_option (\<lambda>j. 0 + of_nat j + 1) (newest (\<lambda>x. pair_of x = k) static_ents) = Some i"
    by code_simp
  show "\<forall>x \<in> set static_ents. pair_of x \<in> fst ` set static_byNameValue"
    by code_simp
qed

lemma length_static_ents [simp]: "length static_ents = 61"
  by code_simp

lemma static_ents_plain: "\<forall>e \<in> set static_ents. \<not> Sensitive e"
  by code_simp

lemma table_ok_static: "table_ok staticTable"
  using static_byName_ok static_byNameValue_ok by (simp add: table_ok_def staticTable_def)

section \<open>Eviction\<close>

lemma entries_size_simps [simp]:
  "entries_size [] = 0" "entries_size (f # fs) = unat (Size f) + entries_size fs"
  "entries_size (fs @ gs) = entries_size fs + entries_size gs"
  by (simp_all add: entries_size_def)

lemma evict_loop_spec:
  assumes "unat sz = entries_size fs" and "evict_loop bound fs n sz = (n', sz')"
  shows "\<exists>m \<le> length fs. n' = n + int m \<and> unat sz' = entries_size (drop m fs)
    \<and> sz' \<le> bound \<and> (\<forall>j<m. unat bound < entries_size (drop j fs))"
  using assms
proof (induction bound fs n sz rule: evict_loop.induct)
  case (1 bound n sz)
  then show ?case by (simp add: word_le_nat_alt)
next
  case (2 bound f fs n sz)
  show ?case
  proof (cases "sz > bound")
    case True
    have "unat (sz - Size f) = entries_size fs"
      using "2.prems"(1) by (simp add: unat_sub word_le_nat_alt)
    with "2.IH" [OF True] "2.prems"(2) True obtain m where m: "m \<le> length fs" "n' = n + 1 + int m"
      "unat sz' = entries_size (drop m fs)" "sz' \<le> bound" "\<forall>j<m. unat bound < entries_size (drop j fs)"
      by auto
    have "\<forall>j<Suc m. unat bound < entries_size (drop j (f # fs))"
      using m(5) True "2.prems"(1) by (auto simp: less_Suc_eq_0_disj word_less_nat_alt)
    with m show ?thesis by (intro exI [of _ "Suc m"]) auto
  next
    case False
    with "2.prems" show ?thesis by (intro exI [of _ 0]) auto
  qed
qed

lemma evict_spec:
  assumes ok: "dynamicTable_ok dt"
  obtains dt' m where "evict dt = Inr dt'" "dynamicTable_ok dt'"
    "ents (dtable dt') = drop m (ents (dtable dt))" "m \<le> length (ents (dtable dt))"
    "dsize dt' \<le> maxSize dt" "maxSize dt' = maxSize dt" "allowedMaxSize dt' = allowedMaxSize dt"
    "\<forall>j<m. unat (maxSize dt) < entries_size (drop j (ents (dtable dt)))"
    "evictCount (dtable dt') = evictCount (dtable dt) + of_nat m"
proof -
  obtain n sz where l: "evict_loop (maxSize dt) (ents (dtable dt)) 0 (dsize dt) = (n, sz)" by force
  with evict_loop_spec [OF _ l] ok obtain m where m: "m \<le> length (ents (dtable dt))" "n = int m"
    "unat sz = entries_size (drop m (ents (dtable dt)))" "sz \<le> maxSize dt"
    "\<forall>j<m. unat (maxSize dt) < entries_size (drop j (ents (dtable dt)))"
    by (auto simp: dynamicTable_ok_def)
  from ok m(1) obtain t where t: "evictOldest (dtable dt) (int m) = Inr t" "table_ok t"
    "ents t = drop m (ents (dtable dt))" "evictCount t = evictCount (dtable dt) + of_nat m"
    by (auto simp: dynamicTable_ok_def elim: evictOldest_ok)
  show thesis
    by (rule that [of "dt\<lparr>dtable := t, dsize := sz\<rparr>" m])
      (use l m t in \<open>simp_all add: evict_def dynamicTable_ok_def\<close>)
qed

text \<open>Eviction needs no invariant to run: the loop stops at the end of the table.\<close>

lemma evict_loop_range:
  "evict_loop bound fs n sz = (n', sz') \<Longrightarrow> \<exists>m \<le> length fs. n' = n + int m"
proof (induction bound fs n sz rule: evict_loop.induct)
  case (1 bound n sz)
  then show ?case by simp
next
  case (2 bound f fs n sz)
  show ?case
  proof (cases "sz > bound")
    case True
    with 2 obtain m where "m \<le> length fs" "n' = n + 1 + int m" by auto
    then show ?thesis by (intro exI [of _ "Suc m"]) simp
  next
    case False
    with "2.prems" show ?thesis by (intro exI [of _ 0]) simp
  qed
qed

lemma evict_total:
  assumes bound: "unat (evictCount (dtable dt)) + length (ents (dtable dt)) < 2 ^ 64"
  obtains dt' where "evict dt = Inr dt'"
    "unat (evictCount (dtable dt')) + length (ents (dtable dt'))
      = unat (evictCount (dtable dt)) + length (ents (dtable dt))"
proof -
  obtain n sz where l: "evict_loop (maxSize dt) (ents (dtable dt)) 0 (dsize dt) = (n, sz)" by force
  with evict_loop_range [OF l] obtain m where m: "m \<le> length (ents (dtable dt))" "n = int m" by auto
  note run = evictOldest_run [OF bound m(1)]
  let ?t = "evict_ids (take m (ents (dtable dt))) 0 (dtable dt)
      \<lparr>ents := drop m (ents (dtable dt)), evictCount := evictCount (dtable dt) + of_nat m\<rparr>"
  show thesis
    by (rule that [of "dt\<lparr>dtable := ?t, dsize := sz\<rparr>"])
      (use l m run in \<open>simp_all add: evict_def\<close>)
qed

section \<open>The table as a queue\<close>

text \<open>
  The contract a client of a header table relies on: adding appends, evicting drops from the front,
  and both keep the table well formed as long as ids remain.
\<close>

locale fifo_table =
  fixes ok :: "'t \<Rightarrow> bool"
    and contents :: "'t \<Rightarrow> 'e list"
    and room :: "'t \<Rightarrow> nat"
    and add :: "'t \<Rightarrow> 'e \<Rightarrow> 't"
    and evi :: "'t \<Rightarrow> nat \<Rightarrow> 't res"
  assumes add_ok: "\<lbrakk>ok t; 0 < room t\<rbrakk> \<Longrightarrow> ok (add t e)"
    and add_contents: "contents (add t e) = contents t @ [e]"
    and add_room: "\<lbrakk>ok t; 0 < room t\<rbrakk> \<Longrightarrow> room (add t e) = room t - 1"
    and evi_ok: "\<lbrakk>ok t; n \<le> length (contents t)\<rbrakk> \<Longrightarrow>
      \<exists>t'. evi t n = Inr t' \<and> ok t' \<and> contents t' = drop n (contents t) \<and> room t' = room t"
begin

lemma run_ops_fifo:
  assumes "ok t" and "length ops \<le> room t" and "fifo_ops ops (contents t) = Some es"
  shows "\<exists>t'. run_ops add evi ops t = Inr t' \<and> ok t' \<and> contents t' = es"
  using assms
proof (induction ops arbitrary: t)
  case Nil
  then show ?case by simp
next
  case (Cons op ops)
  show ?case
  proof (cases op)
    case (Add e)
    with Cons.prems Cons.IH [of "add t e"] show ?thesis
      by (simp add: add_ok add_contents add_room)
  next
    case (Evict n)
    with Cons.prems have n: "n \<le> length (contents t)" by (simp split: if_splits)
    from evi_ok [OF Cons.prems(1) n] obtain t' where t': "evi t n = Inr t'" "ok t'"
      "contents t' = drop n (contents t)" "room t' = room t" by blast
    with Cons.prems Cons.IH [of t'] Evict n show ?thesis by simp
  qed
qed

end

lemma ids_left_pos: "table_ok t \<Longrightarrow> 0 < ids_left t \<Longrightarrow> unat (evictCount t) + length (ents t) + 1 < 2 ^ 64"
  by (simp add: ids_left_def)

interpretation htab: fifo_table table_ok ents ids_left addEntry "\<lambda>t n. evictOldest t (int n)"
proof
  fix t :: headerFieldTable and f and n
  show "table_ok (addEntry t f)" if "table_ok t" "0 < ids_left t"
    using that by (intro table_ok_addEntry ids_left_pos)
  show "ents (addEntry t f) = ents t @ [f]"
    by (simp add: addEntry_def Let_def)
  show "ids_left (addEntry t f) = ids_left t - 1" if "table_ok t" "0 < ids_left t"
    by (simp add: ids_left_def addEntry_def Let_def)
  show "\<exists>t'. evictOldest t (int n) = Inr t' \<and> table_ok t' \<and> ents t' = drop n (ents t)
      \<and> ids_left t' = ids_left t" if ok: "table_ok t" and n: "n \<le> length (ents t)"
  proof -
    from evictOldest_ok [OF that] obtain t' where t': "evictOldest t (int n) = Inr t'" "table_ok t'"
      "ents t' = drop n (ents t)" "evictCount t' = evictCount t + of_nat n" .
    have b: "unat (evictCount t) + n < 2 ^ 64" "n < 2 ^ 64"
      using ok n by (simp_all add: table_ok_def)
    then have "unat (evictCount t') = unat (evictCount t) + n"
      unfolding t'(4) by (subst unat_add_noov) (simp_all add: unat_of_nat64)
    with t' n show ?thesis by (simp add: ids_left_def)
  qed
qed

lemma dynamicTable_ok_empty: "dynamicTable_ok emptyDynamicTable"
  using table_ok_empty by (simp add: dynamicTable_ok_def emptyDynamicTable_def emptyTable_def table_init_def)

lemma dynamicTable_add_ok:
  assumes ok: "dynamicTable_ok dt" and ids: "0 < ids_left (dtable dt)"
    and fits: "unat (dsize dt) + unat (Size f) < 2 ^ 32"
  shows "dynamicTable_ok (dynamicTable_add dt f)"
  using assms htab.add_ok htab.add_contents
  by (simp add: dynamicTable_ok_def dynamicTable_add_def unat_word_ariths)

lemma example_table_ok: "dynamicTable_ok example_table"
  unfolding example_table_def example_fields_def foldl.simps
  by (intro dynamicTable_add_ok dynamicTable_ok_empty)
    (simp_all add: dynamicTable_add_def emptyDynamicTable_def emptyTable_def table_init_def
      addEntry_def ids_left_def Size_def Let_def)

section \<open>Properties\<close>

text \<open>
  C10: A header table is a queue with two search maps. Any sequence of additions and evictions that
  never evicts more entries than the table holds succeeds without a panic, leaves exactly the
  entries a plain first-in first-out queue would hold, and keeps both maps pointing, for every
  name and every name-value pair, at the newest entry with that key. The ids must not run out.
\<close>
theorem header_table_sequence:
  assumes "table_ok t" and "length ops \<le> ids_left t" and "fifo_ops ops (ents t) = Some es"
  shows "\<exists>t'. run_ops addEntry (\<lambda>t n. evictOldest t (int n)) ops t = Inr t'
    \<and> table_ok t' \<and> ents t' = es"
  using assms by (rule htab.run_ops_fifo)

theorem header_table_sequence_witness:
  "\<exists>t'. run_ops addEntry (\<lambda>t n. evictOldest t (int n))
      (map Add example_fields @ [Evict 1]) emptyTable = Inr t'
    \<and> table_ok t' \<and> ents t' = tl example_fields"
proof (rule header_table_sequence)
  show "table_ok emptyTable" by (rule table_ok_empty)
  show "length (map Add example_fields @ [Evict 1]) \<le> ids_left emptyTable"
    by (simp add: ids_left_def emptyTable_def table_init_def example_fields_def)
  show "fifo_ops (map Add example_fields @ [Evict 1]) (ents emptyTable) = Some (tl example_fields)"
    by (simp add: emptyTable_def table_init_def example_fields_def)
qed

text \<open>
  C14: Searching a well-formed table never panics and returns what its entries determine: the index
  of the newest entry with the same name and value (unless the field is sensitive), otherwise the
  index of the newest entry with the same name, otherwise 0. The index counts from the oldest
  entry in the static table and from the newest one in a dynamic table.
\<close>
theorem search_refines:
  assumes "table_ok t"
  shows "search is_static t f = Inr (best_match is_static t f)"
  using assms by (rule search_best_match)

theorem search_refines_witness:
  "search False (dtable example_table) \<lparr>Name = ''cookie'', Value = ''x'', Sensitive = False\<rparr> = Inr (1, False)"
proof -
  have "table_ok (dtable example_table)" using example_table_ok by (simp add: dynamicTable_ok_def)
  from search_refines [OF this] show ?thesis
    by (simp add: best_match_def example_table_def example_fields_def emptyDynamicTable_def
        emptyTable_def table_init_def dynamicTable_add_def addEntry_def Let_def pair_of_def
        hpack_index_def)
qed

text \<open>
  The generated static table is consistent: its two maps agree with its 61 entries, and
  searching for any of its entries finds exactly that entry.
\<close>
lemma static_table_search:
  assumes "k < 61"
  shows "search True staticTable (static_ents ! k) = Inr (of_nat (Suc k), True)"
proof -
  have "distinct (map pair_of static_ents)" by code_simp
  then have "newest (\<lambda>e. pair_of e = pair_of (static_ents ! k)) static_ents = Some k"
    using assms by (auto simp: newest_Some distinct_conv_nth)
  moreover have "\<not> Sensitive (static_ents ! k)"
    using assms nth_mem [of k static_ents] static_ents_plain by simp
  ultimately show ?thesis
    using search_best_match [OF table_ok_static]
    by (simp add: best_match_def hpack_index_def staticTable_def)
qed

text \<open>
  C21: Setting the maximum size of a dynamic table never panics; afterwards the entries' total size
  is at most the new maximum, the table holds a suffix (the newest entries) of what it held, and no
  entry was evicted unnecessarily: every longer suffix would exceed the maximum.
\<close>
theorem setMaxSize_evicts:
  assumes "dynamicTable_ok dt"
  shows "\<exists>dt' m. setMaxSize dt v = Inr dt' \<and> dynamicTable_ok dt' \<and> maxSize dt' = v
    \<and> m \<le> length (ents (dtable dt)) \<and> ents (dtable dt') = drop m (ents (dtable dt))
    \<and> entries_size (ents (dtable dt')) \<le> unat v
    \<and> (\<forall>j<m. unat v < entries_size (drop j (ents (dtable dt))))"
proof -
  have "dynamicTable_ok (dt\<lparr>maxSize := v\<rparr>)" using assms by (simp add: dynamicTable_ok_def)
  then obtain dt' m where e: "evict (dt\<lparr>maxSize := v\<rparr>) = Inr dt'" "dynamicTable_ok dt'"
    "ents (dtable dt') = drop m (ents (dtable (dt\<lparr>maxSize := v\<rparr>)))"
    "m \<le> length (ents (dtable (dt\<lparr>maxSize := v\<rparr>)))"
    "dsize dt' \<le> maxSize (dt\<lparr>maxSize := v\<rparr>)" "maxSize dt' = maxSize (dt\<lparr>maxSize := v\<rparr>)"
    "\<forall>j<m. unat (maxSize (dt\<lparr>maxSize := v\<rparr>)) < entries_size (drop j (ents (dtable (dt\<lparr>maxSize := v\<rparr>))))"
    by (rule evict_spec)
  then have "entries_size (ents (dtable dt')) \<le> unat v"
    by (simp add: dynamicTable_ok_def word_le_nat_alt)
  with e show ?thesis by (intro exI [of _ dt'] exI [of _ m]) (simp add: setMaxSize_def)
qed

theorem setMaxSize_evicts_witness:
  "\<exists>dt' m. setMaxSize example_table 80 = Inr dt' \<and> dynamicTable_ok dt' \<and> maxSize dt' = 80
    \<and> m \<le> length (ents (dtable example_table))
    \<and> ents (dtable dt') = drop m (ents (dtable example_table))
    \<and> entries_size (ents (dtable dt')) \<le> unat (80 :: u32)
    \<and> (\<forall>j<m. unat (80 :: u32) < entries_size (drop j (ents (dtable example_table))))"
  by (rule setMaxSize_evicts [OF example_table_ok])

text \<open>
  Adding an entry to a dynamic table never evicts: all the old entries stay, and the size grows
  by the size of the new entry even when that exceeds the maximum size of the table.
\<close>
lemma dynamicTable_add_never_evicts:
  assumes "dynamicTable_ok dt" and "0 < ids_left (dtable dt)"
    and "unat (maxSize dt) < unat (dsize dt) + unat (Size f)"
    and "unat (dsize dt) + unat (Size f) < 2 ^ 32"
  shows "ents (dtable (dynamicTable_add dt f)) = ents (dtable dt) @ [f]
    \<and> dynamicTable_ok (dynamicTable_add dt f)
    \<and> maxSize (dynamicTable_add dt f) < dsize (dynamicTable_add dt f)"
  using assms dynamicTable_add_ok [OF assms(1,2,4)]
  by (simp add: dynamicTable_add_def htab.add_contents word_less_nat_alt unat_word_ariths)

end
