(* ===== verification/HpackInt.thy ===== *)
theory HpackInt
  imports GoPrelude
begin

text \<open>
  The variable-length integers of HPACK: \<open>appendVarInt\<close> (\<open>encode.go\<close>), \<open>readVarInt\<close> (\<open>hpack.go\<close>)
  and the errors that decoding can return.

  An integer is written into the low \<open>n\<close> bits of its first byte, followed, when it does not fit, by
  groups of seven bits, the least significant group first, each byte but the last with its top bit
  set. The caller adds type bits to the first byte.
\<close>

section \<open>Errors of the decoder\<close>

datatype hpackError =
    errNeedMore
  | ErrStringLength
  | ErrInvalidHuffman
  | DecodingError string
  | InvalidIndexError int

abbreviation errVarintOverflow :: hpackError where
  "errVarintOverflow \<equiv> DecodingError ''varint integer overflows''"

text \<open>A decoding function either fails at run time, or returns an error or a value.\<close>

type_synonym 'a hres = "(hpackError + 'a) res"

definition hbind :: "'a hres \<Rightarrow> ('a \<Rightarrow> 'b hres) \<Rightarrow> 'b hres" where
  "hbind m f = go_bind m (\<lambda>r. case r of Inl e \<Rightarrow> Inr (Inl e) | Inr x \<Rightarrow> f x)"

lemma hbind_simps [simp]:
  "hbind (Inl e) f = Inl e"
  "hbind (Inr (Inl e')) f = Inr (Inl e')"
  "hbind (Inr (Inr x)) f = f x"
  by (simp_all add: hbind_def)

section \<open>Writing and reading\<close>

text \<open>The largest value of an \<open>n\<close> bit prefix: \<open>uint64((1 << n) - 1)\<close>.\<close>

definition prefix_max :: "u8 \<Rightarrow> u64" where
  "prefix_max n = shl 1 (ucast n) - 1"

lemma unat_shr7: "unat (shr i 7) = unat i div 128" for i :: u64
  by (simp only: shr_def unat_drop_bit_eq) (simp add: drop_bit_eq_div)

function append_groups :: "u8 list \<Rightarrow> u64 \<Rightarrow> u8 list" where
  "append_groups dst i =
     (if i \<ge> 128 then append_groups (dst @ [ucast (0x80 OR (i AND 0x7f))]) (shr i 7)
      else dst @ [ucast i])"
  by pat_completeness auto
termination
proof (relation "measure (\<lambda>(dst, i). unat i)", goal_cases)
  case 1
  show ?case by simp
next
  case (2 dst i)
  then have "0 < unat i" by (simp add: word_le_nat_alt)
  then have "unat i div 128 < unat i" by simp
  then show ?case by (simp add: unat_shr7)
qed

declare append_groups.simps [simp del]

definition appendVarInt :: "u8 list \<Rightarrow> u8 \<Rightarrow> u64 \<Rightarrow> u8 list" where
  "appendVarInt dst n i =
     (let k = prefix_max n
      in if i < k then dst @ [ucast i] else append_groups (dst @ [ucast k]) (i - k))"

fun readVarInt_loop :: "u64 \<Rightarrow> u64 \<Rightarrow> u8 list \<Rightarrow> hpackError + (u64 \<times> u8 list)" where
  "readVarInt_loop i m [] = Inl errNeedMore"
| "readVarInt_loop i m (b # p) =
     (let i = i + shl (ucast (b AND 127)) m
      in if b AND 128 = 0 then Inr (i, p)
         else let m = m + 7
              in if m \<ge> 63 then Inl errVarintOverflow else readVarInt_loop i m p)"

definition readVarInt :: "u8 \<Rightarrow> u8 list \<Rightarrow> (u64 \<times> u8 list) hres" where
  "readVarInt n p =
     (if n < 1 \<or> n > 8 then Inl (Panic ''bad n'')
      else Inr (case p of
          [] \<Rightarrow> Inl errNeedMore
        | b # p \<Rightarrow>
            let i = ucast b;
                i = (if n < 8 then i AND (shl 1 (ucast n) - 1) else i)
            in if i < shl 1 (ucast n) - 1 then Inr (i, p) else readVarInt_loop i 0 p))"

section \<open>Groups of seven bits\<close>

text \<open>The groups of a value, as a list.\<close>

definition groups :: "u64 \<Rightarrow> u8 list" where
  "groups i = append_groups [] i"

lemma append_groups_shift: "append_groups (pre @ dst) i = pre @ append_groups dst i"
proof (induction dst i rule: append_groups.induct)
  case (1 dst i)
  then show ?case
    by (subst (1 2) append_groups.simps) simp
qed

lemma append_groups_append: "append_groups dst i = dst @ groups i"
  using append_groups_shift [of dst "[]" i] by (simp add: groups_def)

lemma groups_small: "i < 128 \<Longrightarrow> groups i = [ucast i]"
  by (simp add: groups_def append_groups.simps [of "[]" i] not_le [symmetric])

lemma groups_big: "128 \<le> i \<Longrightarrow> groups i = ucast (0x80 OR (i AND 0x7f)) # groups (shr i 7)"
  by (simp add: groups_def append_groups.simps [of "[]" i])
    (simp add: append_groups_append groups_def [symmetric])

lemma bit_127 [simp]: "bit (127 :: int) k \<longleftrightarrow> k < 7"
proof -
  have "bit (mask 7 :: int) k \<longleftrightarrow> k < 7" by (simp only: bit_mask_iff possible_bit_int) simp
  then show ?thesis by (simp add: mask_eq_exp_minus_1)
qed

lemma bit_128 [simp]: "bit (128 :: int) k \<longleftrightarrow> k = 7"
proof -
  have "bit (2 ^ 7 :: int) k \<longleftrightarrow> k = 7" by (simp only: bit_exp_iff possible_bit_int) auto
  then show ?thesis by simp
qed

lemma group_value: "ucast ((ucast (0x80 OR (i AND 0x7f)) :: u8) AND 127) = i AND 127" for i :: u64
  by (rule bit_word_eqI) (auto simp: bit_simps)

lemma group_flag: "(ucast (0x80 OR (i AND 0x7f)) :: u8) AND 128 \<noteq> 0" for i :: u64
proof -
  have "bit ((ucast (0x80 OR (i AND 0x7f)) :: u8) AND 128) 7" by (simp add: bit_simps)
  then show ?thesis by (metis bit_0_eq bot_apply bot_bool_def)
qed

lemma small_group:
  fixes i :: u64
  assumes "i < 128"
  shows "(ucast i :: u8) AND 128 = 0" and "ucast ((ucast i :: u8) AND 127) = i"
proof -
  have *: "bit i k \<Longrightarrow> k < 7" for k
    using less_exp_bit [of i 7 k] assms by (simp add: word_less_nat_alt)
  show "(ucast i :: u8) AND 128 = 0" by (rule bit_word_eqI) (auto simp: bit_simps dest: *)
  show "ucast ((ucast i :: u8) AND 127) = i" by (rule bit_word_eqI) (auto simp: bit_simps dest: *)
qed

lemma mask_7: "(127 :: u64) = mask 7" and unat_7: "unat (7 :: u64) = 7"
  by (simp_all add: mask_eq_exp_minus_1)

lemma split7: "shl (i AND 127) m + shl (shr i 7) (m + 7) = shl i m"
  if "unat m \<le> 56" for i m :: u64
proof -
  have m7: "unat (m + 7) = unat m + 7" using that by (subst unat_add_noov) simp_all
  have "push_bit 7 (drop_bit 7 i) + take_bit 7 i = i" by (rule bits_ident)
  then have "push_bit (unat m) (push_bit 7 (drop_bit 7 i)) + push_bit (unat m) (take_bit 7 i)
      = push_bit (unat m) i" by (simp only: push_bit_add [symmetric])
  then show ?thesis
    by (simp only: shl_def shr_def m7 mask_7 unat_7 take_bit_eq_mask [symmetric] push_bit_push_bit)
      (simp add: ac_simps)
qed

lemma shr7_less:
  fixes v :: u64
  assumes j: "Suc j \<le> 8"
  shows "unat (shr v 7) < 2 ^ (63 - 7 * Suc j) \<longleftrightarrow> unat v < 2 ^ (63 - 7 * j)"
proof -
  have pow: "(2 :: nat) ^ (63 - 7 * j) = 128 * 2 ^ (63 - 7 * Suc j)"
    using j power_add [of "2 :: nat" 7 "56 - 7 * j"] by (simp add: Suc_diff_le)
  show ?thesis
    unfolding unat_shr7 pow by (simp add: less_mult_imp_div_less div_less_iff_less_mult mult.commute)
qed

lemma readVarInt_groups:
  assumes "j \<le> 8"
  shows "readVarInt_loop i (of_nat (7 * j)) (groups v @ rest) =
    (if unat v < 2 ^ (63 - 7 * j) then Inr (i + shl v (of_nat (7 * j)), rest)
     else Inl errVarintOverflow)"
  using assms
proof (induction "unat v" arbitrary: v i j rule: less_induct)
  case less
  have m: "unat (of_nat (7 * j) :: u64) = 7 * j" using less.prems by (intro unat_of_nat64) simp
  show ?case
  proof (cases "128 \<le> v")
    case False
    then have small: "v < 128" by simp
    have "(2 :: nat) ^ 7 \<le> 2 ^ (63 - 7 * j)" using less.prems by (intro power_increasing) simp_all
    then have "unat v < 2 ^ (63 - 7 * j)" using small by (simp add: word_less_nat_alt)
    then show ?thesis by (simp add: groups_small [OF small] small_group [OF small])
  next
    case True
    note step = groups_big [OF True] group_value [of v] group_flag [of v]
    have m7: "of_nat (7 * j) + 7 = (of_nat (7 * Suc j) :: u64)" by simp
    show ?thesis
    proof (cases "j = 8")
      case True
      with \<open>128 \<le> v\<close> have "\<not> unat v < 2 ^ (63 - 7 * j)" by (simp add: word_le_nat_alt)
      then show ?thesis using step True by (simp add: Let_def)
    next
      case False
      then have j: "Suc j \<le> 8" using less.prems by simp
      have "unat (of_nat (7 * Suc j) :: u64) = 7 * Suc j" using j by (intro unat_of_nat64) simp
      then have go: "\<not> 63 \<le> (of_nat (7 * Suc j) :: u64)" using j by (simp only: word_le_nat_alt) simp
      note lt = shr7_less [OF j, of v]
      have sum: "i + shl (v AND 127) (of_nat (7 * j)) + shl (shr v 7) (of_nat (7 * Suc j))
          = i + shl v (of_nat (7 * j))"
        using split7 [of "of_nat (7 * j)" v] m j by (simp only: m7 add.assoc)
      have "readVarInt_loop i (of_nat (7 * j)) (groups v @ rest)
          = readVarInt_loop (i + shl (v AND 127) (of_nat (7 * j))) (of_nat (7 * Suc j)) (groups (shr v 7) @ rest)"
        unfolding step(1) append_Cons readVarInt_loop.simps(2) Let_def m7
        using step(2,3) go by simp
      also have "\<dots> = (if unat (shr v 7) < 2 ^ (63 - 7 * Suc j)
          then Inr (i + shl (v AND 127) (of_nat (7 * j)) + shl (shr v 7) (of_nat (7 * Suc j)), rest)
          else Inl errVarintOverflow)"
        using less.hyps [OF _ j] True by (simp add: unat_shr7 word_le_nat_alt)
      finally show ?thesis unfolding lt sum .
    qed
  qed
qed

lemma readVarInt_groups_short:
  assumes "j \<le> 8" and "unat v < 2 ^ (63 - 7 * j)" and "m < length (groups v)"
  shows "readVarInt_loop i (of_nat (7 * j)) (take m (groups v)) = Inl errNeedMore"
  using assms
proof (induction m arbitrary: v i j)
  case 0
  then show ?case by simp
next
  case (Suc m)
  then have big: "128 \<le> v" using groups_small [of v] by (cases "v < 128") simp_all
  have "j \<noteq> 8" using Suc.prems(2) big by (auto simp: word_le_nat_alt)
  then have j: "Suc j \<le> 8" using Suc.prems(1) by simp
  have m7: "of_nat (7 * j) + 7 = (of_nat (7 * Suc j) :: u64)" by simp
  have "unat (of_nat (7 * Suc j) :: u64) = 7 * Suc j" using j by (intro unat_of_nat64) simp
  then have go: "\<not> 63 \<le> (of_nat (7 * Suc j) :: u64)" using j by (simp only: word_le_nat_alt) simp
  have "unat (shr v 7) < 2 ^ (63 - 7 * Suc j)"
    using shr7_less [OF j] Suc.prems(2) by simp
  moreover have "m < length (groups (shr v 7))" using Suc.prems(3) groups_big [OF big] by simp
  ultimately have IH: "readVarInt_loop i' (of_nat (7 * Suc j)) (take m (groups (shr v 7))) = Inl errNeedMore"
    for i' using Suc.IH [OF j] by blast
  show ?case
    unfolding groups_big [OF big] take_Suc_Cons readVarInt_loop.simps(2) Let_def m7 IH
    using go group_flag [of v] by simp
qed

section \<open>The prefix\<close>

lemma unat_u8: "unat (b :: u8) < 256"
  using unsigned_less [of b] by simp

lemma unat_ucast_u8: "unat (ucast (b :: u8) :: u64) = unat b"
  using unat_u8 [of b] by (simp add: unsigned_ucast_eq take_bit_nat_eq_self)

lemma prefix_max_mask: "prefix_max n = mask (unat n)"
  by (simp add: prefix_max_def shl_def mask_eq_exp_minus_1 push_bit_eq_mult unat_ucast_u8)

lemma unat_mask64: "n \<le> 8 \<Longrightarrow> unat (mask n :: u64) = 2 ^ n - 1"
proof -
  assume "n \<le> 8"
  then have "(2 :: nat) ^ n \<le> 2 ^ 8" by (intro power_increasing) simp_all
  then have "unat (of_nat (2 ^ n - 1) :: u64) = 2 ^ n - 1" by (intro unat_of_nat64) simp
  then show ?thesis by (simp add: mask_eq_exp_minus_1 of_nat_diff)
qed

lemma unat_prefix_max: "n \<le> 8 \<Longrightarrow> unat (prefix_max n) = 2 ^ unat n - 1"
proof -
  assume "n \<le> 8"
  then have "unat n \<le> 8" by (simp add: word_le_nat_alt)
  then show ?thesis by (simp add: prefix_max_mask unat_mask64)
qed

lemma prefix_max_alt: "shl 1 (ucast n) - 1 = prefix_max n"
  by (simp add: prefix_max_def)

text \<open>The type bits above the prefix do not disturb the value.\<close>

lemma prefix_value:
  fixes i :: u64
  assumes n: "n \<le> 8" and i: "i \<le> prefix_max n" and t: "t AND ucast (prefix_max n) = 0"
  shows "ucast ((ucast i :: u8) OR t) AND prefix_max n = i"
proof -
  have n8: "unat n \<le> 8" using n by (simp add: word_le_nat_alt)
  have "(1 :: nat) \<le> 2 ^ unat n" by simp
  moreover have "unat i \<le> 2 ^ unat n - 1" using i unat_prefix_max [OF n] by (simp add: word_le_nat_alt)
  ultimately have "unat i < 2 ^ unat n" by linarith
  note bi = less_exp_bit [OF this]
  have "bit t k \<Longrightarrow> \<not> k < unat n" for k
  proof
    assume k: "bit t k" "k < unat n"
    then have "bit (t AND ucast (prefix_max n)) k"
      using n8 by (simp add: prefix_max_mask bit_simps)
    with t show False by simp
  qed
  then show ?thesis
    using n8 by (intro bit_word_eqI) (auto simp: prefix_max_mask bit_simps dest: bi)
qed

lemma prefix_full: "(ucast (b :: u8) :: u64) = ucast b AND prefix_max 8"
  by (rule bit_word_eqI) (auto simp: prefix_max_mask bit_simps dest: bit_imp_le_length)

lemma readVarInt_guard: "n < 1 \<or> n > 8 \<longleftrightarrow> \<not> (1 \<le> n \<and> n \<le> 8)" for n :: u8
  by (simp only: not_less de_Morgan_conj linorder_not_le)

lemma readVarInt_Nil: "1 \<le> n \<Longrightarrow> n \<le> 8 \<Longrightarrow> readVarInt n [] = Inr (Inl errNeedMore)"
  unfolding readVarInt_def readVarInt_guard by simp

lemma readVarInt_no_panic: "1 \<le> n \<Longrightarrow> n \<le> 8 \<Longrightarrow> \<exists>r. readVarInt n p = Inr r"
  unfolding readVarInt_def readVarInt_guard by simp

lemma readVarInt_Cons:
  assumes "1 \<le> n" and "n \<le> 8"
  shows "readVarInt n (b # p) =
    Inr (let i = ucast b AND prefix_max n
         in if i < prefix_max n then Inr (i, p) else readVarInt_loop i 0 p)"
proof -
  have "n = 8" if "\<not> n < 8" using that assms by simp
  then have *: "(if n < 8 then ucast b AND prefix_max n else ucast b) = ucast b AND prefix_max n"
    using prefix_full [of b] by auto
  show ?thesis
    unfolding readVarInt_def readVarInt_guard prefix_max_alt Let_def list.case * using assms by simp
qed

lemma appendVarInt_small: "i < prefix_max n \<Longrightarrow> appendVarInt dst n i = dst @ [ucast i]"
  by (simp add: appendVarInt_def)

lemma appendVarInt_big:
  "\<not> i < prefix_max n \<Longrightarrow>
   appendVarInt dst n i = dst @ ucast (prefix_max n) # groups (i - prefix_max n)"
  by (simp add: appendVarInt_def append_groups_append Let_def)

text \<open>Values with at most 63 bits beyond the prefix are the ones that can be read back.\<close>

definition varint_fits :: "u8 \<Rightarrow> u64 \<Rightarrow> bool" where
  "varint_fits n i \<longleftrightarrow> unat i < 2 ^ 63 + 2 ^ unat n - 1"

lemma varint_rest_small:
  assumes "n \<le> 8" and "\<not> i < prefix_max n"
  shows "unat (i - prefix_max n) < 2 ^ 63 \<longleftrightarrow> varint_fits n i"
proof -
  have "unat (i - prefix_max n) = unat i - (2 ^ unat n - 1)"
    using assms unat_prefix_max [OF assms(1)] by (simp add: unat_sub not_less)
  moreover have "2 ^ unat n - 1 \<le> unat i"
    using assms unat_prefix_max [OF assms(1)] by (simp add: word_less_nat_alt)
  moreover have "(1 :: nat) \<le> 2 ^ unat n" by simp
  ultimately show ?thesis unfolding varint_fits_def by linarith
qed

lemma shl_0 [simp]: "shl x 0 = x"
  by (simp add: shl_def)

text \<open>
  What the reader makes of a written integer, with type bits \<open>t\<close> added to its first byte.
\<close>

lemma readVarInt_written:
  assumes n: "1 \<le> n" "n \<le> 8" and t: "t AND ucast (prefix_max n) = 0"
  obtains b bs where "\<And>dst. appendVarInt dst n i = dst @ b # bs"
    "\<And>rest. readVarInt n ((b OR t) # bs @ rest) =
      Inr (if varint_fits n i then Inr (i, rest) else Inl errVarintOverflow)"
    "\<And>m. varint_fits n i \<Longrightarrow> m \<le> length bs \<Longrightarrow>
      readVarInt n (take m ((b OR t) # bs)) = Inr (Inl errNeedMore)"
proof (cases "i < prefix_max n")
  case True
  have v: "ucast ((ucast i :: u8) OR t) AND prefix_max n = i"
    using prefix_value [OF n(2) _ t] True by simp
  have fits: "varint_fits n i"
    using True unat_prefix_max [OF n(2)] by (simp add: varint_fits_def word_less_nat_alt)
  show thesis
    by (rule that [of "ucast i" "[]"])
      (use True fits v n in \<open>simp_all add: appendVarInt_small readVarInt_Cons readVarInt_Nil\<close>)
next
  case False
  let ?k = "prefix_max n"
  have v: "ucast ((ucast ?k :: u8) OR t) AND ?k = ?k"
    using prefix_value [OF n(2) _ t] by simp
  note fits = varint_rest_small [OF n(2) False]
  show thesis
  proof (rule that)
    show "appendVarInt dst n i = dst @ ucast ?k # groups (i - ?k)" for dst
      using False by (rule appendVarInt_big)
    show "readVarInt n ((ucast ?k OR t) # groups (i - ?k) @ rest) =
        Inr (if varint_fits n i then Inr (i, rest) else Inl errVarintOverflow)" for rest
      using readVarInt_groups [of 0 ?k "i - ?k" rest] fits v by (simp add: readVarInt_Cons n)
    show "readVarInt n (take m ((ucast ?k OR t) # groups (i - ?k))) = Inr (Inl errNeedMore)"
      if "varint_fits n i" "m \<le> length (groups (i - ?k))" for m
    proof (cases m)
      case 0
      then show ?thesis using n by (simp add: readVarInt_Nil)
    next
      case (Suc m')
      with that(2) readVarInt_groups_short [of 0 "i - ?k" m' ?k] fits that(1) v show ?thesis
        by (simp add: readVarInt_Cons n)
    qed
  qed
qed

text \<open>The reader consumes a non-empty prefix of its input.\<close>

lemma readVarInt_loop_suffix:
  "readVarInt_loop i m p = Inr (v, r) \<Longrightarrow> \<exists>c. c \<noteq> [] \<and> p = c @ r"
proof (induction i m p rule: readVarInt_loop.induct)
  case (2 i m b p)
  show ?case
  proof (cases "b AND 128 = 0")
    case True
    with "2.prems" have "b # p = [b] @ r" by (simp add: Let_def)
    then show ?thesis by blast
  next
    case False
    with "2.prems" "2.IH" [OF refl False refl] obtain c where "p = c @ r"
      by (auto simp: Let_def split: if_splits)
    then have "b # p = (b # c) @ r" by simp
    then show ?thesis by blast
  qed
qed simp

lemma readVarInt_suffix:
  assumes "readVarInt n p = Inr (Inr (v, r))"
  shows "\<exists>c. c \<noteq> [] \<and> p = c @ r"
proof -
  have n: "1 \<le> n" "n \<le> 8"
    using assms unfolding readVarInt_def readVarInt_guard by (auto split: if_splits)
  from assms obtain b q where p: "p = b # q" by (cases p) (auto simp: readVarInt_Nil n)
  show ?thesis
  proof (cases "ucast b AND prefix_max n < prefix_max n")
    case True
    with assms n p have "p = [b] @ r" by (simp add: readVarInt_Cons Let_def)
    then show ?thesis by blast
  next
    case False
    with assms n p have "readVarInt_loop (ucast b AND prefix_max n) 0 q = Inr (v, r)"
      by (simp add: readVarInt_Cons Let_def)
    then obtain c where "q = c @ r" using readVarInt_loop_suffix by blast
    with p have "p = (b # c) @ r" by simp
    then show ?thesis by blast
  qed
qed

section \<open>Properties\<close>

text \<open>
  C20: Integers survive the wire: whatever type bits the caller puts above the prefix, and whatever
  follows, reading what \<open>appendVarInt\<close> wrote gives the integer back and leaves exactly
  what follows, for every value with less than 64 bits beyond the prefix. For a larger value the
  reader reports \<open>errVarintOverflow\<close>.
\<close>
theorem varint_roundtrip:
  assumes "1 \<le> n" and "n \<le> 8" and "t AND ucast (prefix_max n) = 0"
  shows "\<exists>b bs. appendVarInt dst n i = dst @ b # bs
    \<and> readVarInt n ((b OR t) # bs @ rest)
        = Inr (if varint_fits n i then Inr (i, rest) else Inl errVarintOverflow)"
proof -
  from assms obtain b bs where "appendVarInt dst n i = dst @ b # bs"
    "readVarInt n ((b OR t) # bs @ rest)
      = Inr (if varint_fits n i then Inr (i, rest) else Inl errVarintOverflow)"
    by (rule readVarInt_written) blast
  then show ?thesis by blast
qed

theorem varint_roundtrip_witness:
  "\<exists>b bs. appendVarInt [] 5 1337 = b # bs
    \<and> readVarInt 5 ((b OR 0x20) # bs @ [7]) = Inr (Inr (1337, [7]))"
proof -
  have "varint_fits 5 1337" by (simp add: varint_fits_def)
  moreover have "(0x20 :: u8) AND ucast (prefix_max 5) = 0" by (simp add: prefix_max_def shl_def)
  ultimately show ?thesis using varint_roundtrip [of 5 "0x20" "[]" 1337 "[7]"] by simp
qed

text \<open>
  A truncated integer is recognised: every proper prefix of what \<open>appendVarInt\<close> wrote makes the
  reader ask for more data.
\<close>
lemma varint_truncated:
  assumes "1 \<le> n" and "n \<le> 8" and "varint_fits n i" and "m < length (appendVarInt [] n i)"
  shows "readVarInt n (take m (appendVarInt [] n i)) = Inr (Inl errNeedMore)"
proof -
  have "(0 :: u8) AND ucast (prefix_max n) = 0" by simp
  with assms(1,2) obtain b bs where "appendVarInt [] n i = b # bs"
    "m \<le> length bs \<Longrightarrow> readVarInt n (take m ((b OR 0) # bs)) = Inr (Inl errNeedMore)"
    using readVarInt_written [of n 0 i] assms(3) by (metis append_Nil)
  with assms(4) show ?thesis by simp
qed

end
