(* ===== verification/HpackHuffman.thy ===== *)
theory HpackHuffman
  imports HpackInt
begin

text \<open>
  Huffman coding of strings (\<open>src/http2/hpack/huffman.go\<close> and the two tables in \<open>tables.go\<close>):
  \<open>AppendHuffmanString\<close> and \<open>HuffmanEncodeLength\<close>. The lemmas read the output of the encoder as a list
  of bits: the codes of the characters, one after the other, padded with ones to a whole byte.
\<close>

section \<open>The code tables\<close>

definition huffmanCodes :: "u32 list" where
  "huffmanCodes = [
    0x1ff8, 0x7fffd8, 0xfffffe2, 0xfffffe3, 0xfffffe4, 0xfffffe5, 0xfffffe6, 0xfffffe7, 0xfffffe8, 0xffffea,
    0x3ffffffc, 0xfffffe9, 0xfffffea, 0x3ffffffd, 0xfffffeb, 0xfffffec, 0xfffffed, 0xfffffef, 0xffffff0,
    0xfffffee, 0xffffff1, 0xffffff2, 0x3ffffffe, 0xffffff3, 0xffffff4, 0xffffff5, 0xffffff7, 0xffffff8,
    0xffffff9, 0xffffffa, 0xffffff6, 0xffffffb, 0x14, 0x3f8, 0x3f9, 0xffa, 0x1ff9, 0x15, 0xf8, 0x7fa, 0x3fa,
    0x3fb, 0xf9, 0x7fb, 0xfa, 0x16, 0x17, 0x18, 0x0, 0x1, 0x2, 0x19, 0x1a, 0x1b, 0x1c, 0x1d, 0x1e, 0x1f,
    0x5c, 0xfb, 0x7ffc, 0x20, 0xffb, 0x3fc, 0x1ffa, 0x21, 0x5d, 0x5e, 0x5f, 0x60, 0x61, 0x62, 0x63, 0x64,
    0x65, 0x66, 0x67, 0x68, 0x69, 0x6a, 0x6b, 0x6c, 0x6d, 0x6e, 0x6f, 0x70, 0x71, 0x72, 0xfc, 0x73, 0xfd,
    0x1ffb, 0x7fff0, 0x1ffc, 0x3ffc, 0x22, 0x7ffd, 0x3, 0x23, 0x4, 0x24, 0x5, 0x25, 0x26, 0x27, 0x6, 0x74,
    0x75, 0x28, 0x29, 0x2a, 0x7, 0x2b, 0x76, 0x2c, 0x8, 0x9, 0x2d, 0x77, 0x78, 0x79, 0x7a, 0x7b, 0x7ffe,
    0x7fc, 0x3ffd, 0x1ffd, 0xffffffc, 0xfffe6, 0x3fffd2, 0xfffe7, 0xfffe8, 0x3fffd3, 0x3fffd4, 0x3fffd5,
    0x7fffd9, 0x3fffd6, 0x7fffda, 0x7fffdb, 0x7fffdc, 0x7fffdd, 0x7fffde, 0xffffeb, 0x7fffdf, 0xffffec,
    0xffffed, 0x3fffd7, 0x7fffe0, 0xffffee, 0x7fffe1, 0x7fffe2, 0x7fffe3, 0x7fffe4, 0x1fffdc, 0x3fffd8,
    0x7fffe5, 0x3fffd9, 0x7fffe6, 0x7fffe7, 0xffffef, 0x3fffda, 0x1fffdd, 0xfffe9, 0x3fffdb, 0x3fffdc,
    0x7fffe8, 0x7fffe9, 0x1fffde, 0x7fffea, 0x3fffdd, 0x3fffde, 0xfffff0, 0x1fffdf, 0x3fffdf, 0x7fffeb,
    0x7fffec, 0x1fffe0, 0x1fffe1, 0x3fffe0, 0x1fffe2, 0x7fffed, 0x3fffe1, 0x7fffee, 0x7fffef, 0xfffea,
    0x3fffe2, 0x3fffe3, 0x3fffe4, 0x7ffff0, 0x3fffe5, 0x3fffe6, 0x7ffff1, 0x3ffffe0, 0x3ffffe1, 0xfffeb,
    0x7fff1, 0x3fffe7, 0x7ffff2, 0x3fffe8, 0x1ffffec, 0x3ffffe2, 0x3ffffe3, 0x3ffffe4, 0x7ffffde, 0x7ffffdf,
    0x3ffffe5, 0xfffff1, 0x1ffffed, 0x7fff2, 0x1fffe3, 0x3ffffe6, 0x7ffffe0, 0x7ffffe1, 0x3ffffe7, 0x7ffffe2,
    0xfffff2, 0x1fffe4, 0x1fffe5, 0x3ffffe8, 0x3ffffe9, 0xffffffd, 0x7ffffe3, 0x7ffffe4, 0x7ffffe5, 0xfffec,
    0xfffff3, 0xfffed, 0x1fffe6, 0x3fffe9, 0x1fffe7, 0x1fffe8, 0x7ffff3, 0x3fffea, 0x3fffeb, 0x1ffffee,
    0x1ffffef, 0xfffff4, 0xfffff5, 0x3ffffea, 0x7ffff4, 0x3ffffeb, 0x7ffffe6, 0x3ffffec, 0x3ffffed,
    0x7ffffe7, 0x7ffffe8, 0x7ffffe9, 0x7ffffea, 0x7ffffeb, 0xffffffe, 0x7ffffec, 0x7ffffed, 0x7ffffee,
    0x7ffffef, 0x7fffff0, 0x3ffffee]"

definition huffmanCodeLen :: "u8 list" where
  "huffmanCodeLen = [
    13, 23, 28, 28, 28, 28, 28, 28, 28, 24, 30, 28, 28, 30, 28, 28, 28, 28, 28, 28, 28, 28, 30, 28, 28, 28,
    28, 28, 28, 28, 28, 28, 6, 10, 10, 12, 13, 6, 8, 11, 10, 10, 8, 11, 8, 6, 6, 6, 5, 5, 5, 6, 6, 6, 6, 6,
    6, 6, 7, 8, 15, 6, 12, 10, 13, 6, 7, 7, 7, 7, 7, 7, 7, 7, 7, 7, 7, 7, 7, 7, 7, 7, 7, 7, 7, 7, 7, 7, 8, 7,
    8, 13, 19, 13, 14, 6, 15, 5, 6, 5, 6, 5, 6, 6, 6, 5, 7, 7, 6, 6, 6, 5, 6, 7, 6, 5, 5, 6, 7, 7, 7, 7, 7,
    15, 11, 14, 13, 28, 20, 22, 20, 20, 22, 22, 22, 23, 22, 23, 23, 23, 23, 23, 24, 23, 24, 24, 22, 23, 24,
    23, 23, 23, 23, 21, 22, 23, 22, 23, 23, 24, 22, 21, 20, 22, 22, 23, 23, 21, 23, 22, 22, 24, 21, 22, 23,
    23, 21, 21, 22, 21, 23, 22, 23, 23, 20, 22, 22, 22, 23, 22, 22, 23, 26, 26, 20, 19, 22, 23, 22, 25, 26,
    26, 26, 27, 27, 26, 24, 25, 19, 21, 26, 27, 27, 26, 27, 24, 21, 21, 26, 26, 28, 27, 27, 27, 20, 24, 20,
    21, 22, 21, 21, 23, 22, 22, 25, 25, 24, 24, 26, 23, 26, 27, 26, 26, 27, 27, 27, 27, 27, 28, 27, 27, 27,
    27, 27, 26]"

section \<open>Encoding\<close>

text \<open>The byte of a character of a Go string.\<close>

definition byte_of :: "char \<Rightarrow> u8" where
  "byte_of c = of_char c"

definition code_of :: "u8 \<Rightarrow> u32" where
  "code_of c = huffmanCodes ! unat c"

definition code_len :: "u8 \<Rightarrow> u8" where
  "code_len c = huffmanCodeLen ! unat c"

text \<open>The four bytes of a batch of 32 bits, the most significant one first.\<close>

definition bytes4 :: "u32 \<Rightarrow> u8 list" where
  "bytes4 y = [ucast (shr y 24), ucast (shr y 16), ucast (shr y 8), ucast y]"

text \<open>The loop over the string; \<open>x\<close> holds \<open>n\<close> valid bits.\<close>

fun huffman_loop :: "u8 list \<Rightarrow> u64 \<Rightarrow> u64 \<Rightarrow> string \<Rightarrow> u8 list \<times> u64 \<times> u64" where
  "huffman_loop dst x n [] = (dst, x, n)"
| "huffman_loop dst x n (ch # s) =
     (let c = byte_of ch;
          n = n + ucast (code_len c);
          x = shl x (ucast (code_len c mod 64)) OR ucast (code_of c)
      in if n \<ge> 32
         then let n = n mod 32;
                  y = ucast (shr x n)
              in huffman_loop (dst @ bytes4 y) x n s
         else huffman_loop dst x n s)"

definition AppendHuffmanString :: "u8 list \<Rightarrow> string \<Rightarrow> u8 list" where
  "AppendHuffmanString dst s =
     (let (dst, x, n) = huffman_loop dst 0 0 s;
          over = n mod 8;
          (x, n) =
            (if over > 0
             then let pad = 8 - over
                  in (shl x pad OR shr (drop_bit (30 - 8) 0x3fffffff) over, n + pad)
             else (x, n))
      in if n div 8 = 0 then dst
         else if n div 8 = 1 then dst @ [ucast x]
         else if n div 8 = 2 then
           let y = (ucast x :: u16) in dst @ [ucast (shr y 8), ucast y]
         else if n div 8 = 3 then
           let y = (ucast (shr x 8) :: u16) in dst @ [ucast (shr y 8), ucast y, ucast x]
         else dst @ bytes4 (ucast x))"

fun huffman_length_loop :: "u64 \<Rightarrow> string \<Rightarrow> u64" where
  "huffman_length_loop n [] = n"
| "huffman_length_loop n (ch # s) = huffman_length_loop (n + ucast (code_len (byte_of ch))) s"

definition HuffmanEncodeLength :: "string \<Rightarrow> u64" where
  "HuffmanEncodeLength s = (huffman_length_loop 0 s + 7) div 8"

section \<open>Reading words as bits\<close>

text \<open>The low \<open>n\<close> bits of a word, the most significant one first.\<close>

definition bits_of :: "nat \<Rightarrow> 'a::len word \<Rightarrow> bool list" where
  "bits_of n x = map (bit x) (rev [0 ..< n])"

definition bytes_bits :: "u8 list \<Rightarrow> bool list" where
  "bytes_bits bs = concat (map (bits_of 8) bs)"

definition code_bits :: "u8 \<Rightarrow> bool list" where
  "code_bits c = bits_of (unat (code_len c)) (code_of c)"

definition string_bits :: "string \<Rightarrow> bool list" where
  "string_bits s = concat (map (\<lambda>c. code_bits (byte_of c)) s)"

lemma length_bits_of [simp]: "length (bits_of n x) = n"
  by (simp add: bits_of_def)

lemma bits_of_0 [simp]: "bits_of 0 x = []"
  by (simp add: bits_of_def)

lemma nth_bits_of: "i < n \<Longrightarrow> bits_of n x ! i = bit x (n - Suc i)"
  by (simp add: bits_of_def rev_nth)

lemma bits_of_eq_iff: "bits_of n x = bits_of n y \<longleftrightarrow> (\<forall>k<n. bit x k = bit y k)"
  by (auto simp: bits_of_def)

lemma bits_of_cong: "(\<And>k. k < n \<Longrightarrow> bit x k = bit y k) \<Longrightarrow> bits_of n x = bits_of n y"
  by (simp add: bits_of_eq_iff)

lemma bits_of_add: "bits_of (m + n) x = bits_of m (drop_bit n x) @ bits_of n x"
proof (rule nth_equalityI)
  fix i
  assume "i < length (bits_of (m + n) x)"
  then show "bits_of (m + n) x ! i = (bits_of m (drop_bit n x) @ bits_of n x) ! i"
    by (auto simp: nth_append nth_bits_of bit_drop_bit_eq not_less intro!: arg_cong [of _ _ "bit x"])
qed simp

lemma bytes_bits_simps [simp]:
  "bytes_bits [] = []" "bytes_bits (b # bs) = bits_of 8 b @ bytes_bits bs"
  "bytes_bits (as @ bs) = bytes_bits as @ bytes_bits bs"
  by (simp_all add: bytes_bits_def)

lemma length_bytes_bits [simp]: "length (bytes_bits bs) = 8 * length bs"
  by (induction bs) simp_all

lemma bytes_bits_inject: "bytes_bits as = bytes_bits bs \<longleftrightarrow> as = bs"
proof (induction as arbitrary: bs)
  case Nil
  show ?case by (cases bs) (auto dest: arg_cong [of _ _ length])
next
  case (Cons a as)
  have "bits_of 8 a = bits_of 8 b \<longleftrightarrow> a = b" for b :: u8
    by (auto simp: bits_of_eq_iff intro: bit_word_eqI)
  with Cons show ?case by (cases bs) (auto dest: arg_cong [of _ _ length])
qed

lemma string_bits_simps [simp]:
  "string_bits [] = []" "string_bits (c # s) = code_bits (byte_of c) @ string_bits s"
  by (simp_all add: string_bits_def)

section \<open>The tables\<close>

text \<open>
  The binary digits of a number, the least significant one first, read off its representation as a
  numeral. They make the checks of the tables fast to evaluate.
\<close>

fun digits :: "num \<Rightarrow> bool list" where
  "digits num.One = [True]"
| "digits (num.Bit0 n) = False # digits n"
| "digits (num.Bit1 n) = True # digits n"

definition idigits :: "int \<Rightarrow> bool list" where
  "idigits k = (if k \<le> 0 then [] else digits (num_of_nat (nat k)))"

lemma idigits_numeral: "idigits 0 = []" "idigits (numeral n) = digits n"
  by (simp_all add: idigits_def nat_of_num_inverse [unfolded nat_of_num_numeral])

lemma idigits_code [code]:
  "idigits 0 = []" "idigits (Int.Pos n) = digits n" "idigits (Int.Neg n) = []"
  by (simp_all add: idigits_numeral) (simp add: idigits_def)

lemma bit_digits: "bit (numeral n :: int) k \<longleftrightarrow> k < length (digits n) \<and> digits n ! k"
proof (induction n arbitrary: k rule: digits.induct)
  case 1
  show ?case by (cases k) auto
next
  case (2 n)
  then show ?case by (cases k) auto
next
  case (3 n)
  then show ?case by (cases k) auto
qed

lemma bit_idigits:
  assumes "0 \<le> x"
  shows "bit x k \<longleftrightarrow> k < length (idigits x) \<and> idigits x ! k"
proof (cases x)
  case (nonneg n)
  show ?thesis
  proof (cases "n = 0")
    case False
    then have "x = numeral (num_of_nat n)" using nonneg by (simp add: numeral_num_of_nat)
    then show ?thesis by (simp only: idigits_numeral bit_digits)
  qed (use nonneg in \<open>simp add: idigits_numeral\<close>)
qed (use assms in simp)

lemma code_tables:
  "length huffmanCodes = 256" "length huffmanCodeLen = 256"
  "list_all2 (\<lambda>c l. length (idigits (uint c)) \<le> unat l \<and> 5 \<le> uint l \<and> uint l \<le> 30)
     huffmanCodes huffmanCodeLen"
  by code_simp+

lemma code_bounds:
  "5 \<le> unat (code_len c)" "unat (code_len c) \<le> 30"
  "bit (code_of c) k \<Longrightarrow> k < unat (code_len c)"
proof -
  have *: "length (idigits (uint (code_of c))) \<le> unat (code_len c) \<and> 5 \<le> uint (code_len c)
      \<and> uint (code_len c) \<le> 30"
    using code_tables unat_u8 [of c] by (simp add: list_all2_conv_all_nth code_of_def code_len_def)
  moreover have "uint (code_len c) = int (unat (code_len c))" by simp
  ultimately show "5 \<le> unat (code_len c)" "unat (code_len c) \<le> 30" by linarith+
  assume "bit (code_of c) k"
  then have "bit (uint (code_of c)) k" by (auto simp: bit_uint_iff dest: bit_imp_le_length)
  with * show "k < unat (code_len c)" by (simp add: bit_idigits)
qed

lemma length_code_bits [simp]: "length (code_bits c) = unat (code_len c)"
  by (simp add: code_bits_def)

section \<open>What the encoder writes\<close>

lemma bits_of_ucast: "n \<le> LENGTH('b) \<Longrightarrow> bits_of n (ucast x :: 'b::len word) = bits_of n x"
  for x :: "'a::len word"
  by (rule bits_of_cong) (auto simp: bit_ucast_iff dest: bit_imp_le_length)

text \<open>Shifting \<open>m\<close> bits in.\<close>

lemma bits_of_shift_in:
  fixes x y :: "'a::len word"
  assumes "n + unat m \<le> LENGTH('a)" and "\<And>k. bit y k \<Longrightarrow> k < unat m"
  shows "bits_of (n + unat m) (shl x m OR y) = bits_of n x @ bits_of (unat m) y"
proof -
  have "bits_of n (drop_bit (unat m) (shl x m OR y)) = bits_of n x"
    using assms by (intro bits_of_cong) (auto simp: bit_simps dest: assms(2))
  moreover have "bits_of (unat m) (shl x m OR y) = bits_of (unat m) y"
    by (rule bits_of_cong) (simp add: bit_simps)
  ultimately show ?thesis by (simp add: bits_of_add)
qed

lemma bytes4_bits: "bytes_bits (bytes4 y) = bits_of 32 y"
proof -
  have "bits_of (8 + (8 + (8 + 8))) y = bits_of 8 (shr y 24) @ bits_of 8 (shr y 16) @ bits_of 8 (shr y 8) @ bits_of 8 y"
    by (simp only: bits_of_add shr_def) simp
  then show ?thesis by (simp add: bytes4_def bits_of_ucast)
qed

lemma huffman_loop_bits:
  assumes "unat n < 32" and "huffman_loop dst x n s = (dst', x', n')"
  shows "unat n' < 32 \<and>
    bytes_bits dst' @ bits_of (unat n') x' = bytes_bits dst @ bits_of (unat n) x @ string_bits s"
  using assms
proof (induction dst x n s rule: huffman_loop.induct)
  case (1 dst x n)
  then show ?case by simp
next
  case (2 dst x n ch s)
  let ?c = "byte_of ch"
  define L where "L = unat (code_len ?c)"
  define n1 where "n1 = n + ucast (code_len ?c)"
  define x1 where "x1 = shl x (ucast (code_len ?c mod 64)) OR ucast (code_of ?c)"
  have L: "5 \<le> L" "L \<le> 30" using code_bounds(1,2) [of ?c] by (simp_all add: L_def)
  have uL: "unat (ucast (code_len ?c) :: u64) = L" by (simp add: unat_ucast_u8 L_def)
  have n1: "unat n1 = unat n + L" unfolding n1_def using "2.prems"(1) L uL by (subst unat_add_noov) simp_all
  have "code_len ?c mod 64 = code_len ?c"
    using L by (intro mod_word_less) (simp add: L_def word_less_nat_alt)
  then have m: "unat (ucast (code_len ?c mod 64) :: u64) = L" using uL by simp
  have "bits_of (unat n + L) x1 = bits_of (unat n) x @ bits_of L (ucast (code_of ?c) :: u64)"
    unfolding x1_def m [symmetric] using "2.prems"(1) L m
    by (intro bits_of_shift_in) (auto simp: bit_ucast_iff L_def dest: code_bounds(3))
  also have "bits_of L (ucast (code_of ?c) :: u64) = code_bits ?c"
    using L by (simp add: bits_of_ucast code_bits_def L_def)
  finally have x1: "bits_of (unat n1) x1 = bits_of (unat n) x @ code_bits ?c" by (simp add: n1)
  show ?case
  proof (cases "n1 \<ge> 32")
    case True
    have n2: "unat (n1 mod 32) = unat n1 - 32"
      using True n1 "2.prems"(1) L by (simp add: unat_mod_distrib word_le_nat_alt mod_if)
    have "bits_of (unat n1) x1 = bits_of 32 (drop_bit (unat n1 - 32) x1) @ bits_of (unat n1 - 32) x1"
      using True bits_of_add [of 32 "unat n1 - 32" x1] by (simp add: word_le_nat_alt)
    then have "bytes_bits (bytes4 (ucast (shr x1 (n1 mod 32)))) @ bits_of (unat (n1 mod 32)) x1
        = bits_of (unat n) x @ code_bits ?c"
      by (simp add: bytes4_bits bits_of_ucast n2 shr_def x1)
    moreover have "unat (n1 mod 32) < 32" using n2 n1 "2.prems"(1) L by simp
    ultimately show ?thesis
      using "2.IH"(1) [OF refl n1_def x1_def True refl refl] "2.prems"(2) True
      by (simp add: Let_def n1_def [symmetric] x1_def [symmetric])
  next
    case False
    then have "unat n1 < 32" by (simp add: word_le_nat_alt)
    then show ?thesis
      using "2.IH"(2) [OF refl n1_def x1_def False] "2.prems"(2) False x1
      by (simp add: Let_def n1_def [symmetric] x1_def [symmetric])
  qed
qed

text \<open>The number of padding bits of a string: the rest of its last byte.\<close>

definition pad_bits :: "string \<Rightarrow> nat" where
  "pad_bits s = (8 - length (string_bits s) mod 8) mod 8"

lemma eos_pad: "drop_bit (30 - 8) (0x3fffffff :: u64) = mask 8"
  by (simp add: mask_eq_exp_minus_1)

lemma bits_of_mask: "n \<le> LENGTH('a) \<Longrightarrow> bits_of n (mask n :: 'a::len word) = replicate n True"
  by (rule nth_equalityI) (auto simp: nth_bits_of bit_mask_iff)

text \<open>The last batch: a multiple of eight bits, at most 32.\<close>

definition last_batch :: "u64 \<Rightarrow> u64 \<Rightarrow> u8 list" where
  "last_batch x n =
     (if n div 8 = 0 then []
      else if n div 8 = 1 then [ucast x]
      else if n div 8 = 2 then
        let y = (ucast x :: u16) in [ucast (shr y 8), ucast y]
      else if n div 8 = 3 then
        let y = (ucast (shr x 8) :: u16) in [ucast (shr y 8), ucast y, ucast x]
      else bytes4 (ucast x))"

lemma last_batch_bits:
  assumes "unat n \<le> 32" and "8 dvd unat n"
  shows "bytes_bits (last_batch x n) = bits_of (unat n) x"
proof -
  from assms(2) obtain m where m: "unat n = 8 * m" by blast
  have n: "n = of_nat (8 * m)" using m by (metis of_nat_unat ucast_id)
  have "unat n div 8 = m" using m by simp
  then have d: "unat (n div 8) = m" by (simp add: unat_div_distrib)
  have eq: "n div 8 = w \<longleftrightarrow> m = unat w" for w :: u64 using d by (auto simp: word_unat_eq_iff)
  consider "m = 0" | "m = 1" | "m = 2" | "m = 3" | "m = 4" using assms(1) m by linarith
  then show ?thesis
  proof cases
    case 1
    then show ?thesis using m by (simp add: last_batch_def eq)
  next
    case 2
    then show ?thesis using m by (simp add: last_batch_def eq bits_of_ucast)
  next
    case 3
    have "bits_of (8 + 8) (ucast x :: u16) = bits_of 8 (shr (ucast x :: u16) 8) @ bits_of 8 (ucast x :: u16)"
      by (simp only: bits_of_add shr_def) simp
    with 3 m show ?thesis by (simp add: last_batch_def eq bits_of_ucast Let_def)
  next
    case 4
    have "bits_of (8 + 8) (ucast (shr x 8) :: u16) =
        bits_of 8 (shr (ucast (shr x 8) :: u16) 8) @ bits_of 8 (ucast (shr x 8) :: u16)"
      by (simp only: bits_of_add shr_def) simp
    moreover have "bits_of (16 + 8) x = bits_of 16 (shr x 8) @ bits_of 8 x"
      by (simp only: bits_of_add shr_def) simp
    ultimately show ?thesis using 4 m by (simp add: last_batch_def eq bits_of_ucast Let_def)
  next
    case 5
    then show ?thesis using m by (simp add: last_batch_def eq bytes4_bits bits_of_ucast)
  qed
qed

lemma AppendHuffmanString_bits:
  "bytes_bits (AppendHuffmanString dst s)
     = bytes_bits dst @ string_bits s @ replicate (pad_bits s) True"
proof -
  obtain d x n where l: "huffman_loop dst 0 0 s = (d, x, n)" by (metis prod_cases3)
  from huffman_loop_bits [OF _ l] have n: "unat n < 32"
    and d: "bytes_bits d @ bits_of (unat n) x = bytes_bits dst @ string_bits s" by simp_all
  have len: "8 * length d + unat n = 8 * length dst + length (string_bits s)"
    using arg_cong [OF d, of length] by simp
  define over where "over = n mod 8"
  have over: "unat over = unat n mod 8" by (simp add: over_def unat_mod_distrib)
  have "(8 * length d + unat n) mod 8 = length (string_bits s) mod 8" unfolding len by simp
  then have over_len: "unat over = length (string_bits s) mod 8" using over by simp
  show ?thesis
  proof (cases "over = 0")
    case True
    then have dvd: "8 dvd unat n" using over by (simp add: mod_0_imp_dvd)
    have "AppendHuffmanString dst s = d @ last_batch x n"
      using True by (simp add: AppendHuffmanString_def l over_def [symmetric] last_batch_def Let_def)
    moreover have "pad_bits s = 0" using True over_len by (simp add: pad_bits_def)
    ultimately show ?thesis using last_batch_bits [OF _ dvd, of x] n d by simp
  next
    case False
    define pad where "pad = 8 - over"
    have o8: "unat over < 8" using over by simp
    have o0: "0 < unat over" using False by (simp add: unat_gt_0)
    have up: "unat pad = 8 - unat over"
      using o8 unfolding pad_def by (subst unat_sub) (simp_all add: word_le_nat_alt)
    have pad: "pad_bits s = unat pad" using up over_len o0 o8 by (simp add: pad_bits_def)
    have un: "unat (n + pad) = unat n + unat pad" using n up by (subst unat_add_noov) simp_all
    have m: "shr (mask 8 :: u64) over = mask (unat pad)"
      using up o8 by (intro bit_word_eqI) (auto simp: bit_simps)
    let ?x = "shl x pad OR shr (drop_bit (30 - 8) 0x3fffffff) over"
    have "bits_of (unat n + unat pad) ?x = bits_of (unat n) x @ bits_of (unat pad) (mask (unat pad) :: u64)"
      unfolding eos_pad m using n up by (intro bits_of_shift_in) (auto simp: bit_simps)
    then have x: "bits_of (unat (n + pad)) ?x = bits_of (unat n) x @ replicate (pad_bits s) True"
      using up by (simp add: un pad bits_of_mask)
    have "unat n + unat pad = 8 * (unat n div 8) + 8"
      using up over o8 by (metis add.assoc div_mult_mod_eq le_add_diff_inverse less_or_eq_imp_le mult.commute)
    then have dvd: "8 dvd unat (n + pad)" "unat (n + pad) \<le> 32" using n by (simp_all add: un)
    have "AppendHuffmanString dst s = d @ last_batch ?x (n + pad)"
      using False by (simp add: AppendHuffmanString_def l over_def [symmetric] pad_def [symmetric]
          last_batch_def Let_def word_gt_0)
    then show ?thesis using last_batch_bits [OF dvd(2,1), of ?x] x d by simp
  qed
qed

lemma AppendHuffmanString_append: "AppendHuffmanString dst s = dst @ AppendHuffmanString [] s"
  using AppendHuffmanString_bits [of dst s] AppendHuffmanString_bits [of "[]" s]
  by (simp flip: bytes_bits_inject)

lemma huffman_whole_bytes:
  "8 * length (AppendHuffmanString [] s) = length (string_bits s) + pad_bits s"
  using arg_cong [OF AppendHuffmanString_bits [of "[]" s], of length] by simp

lemma pad_bits_less: "pad_bits s < 8"
  by (simp add: pad_bits_def)

lemma length_AppendHuffmanString:
  "length (AppendHuffmanString [] s) = (length (string_bits s) + 7) div 8"
  using huffman_whole_bytes [of s] pad_bits_less [of s] by linarith

lemma length_string_bits_le: "length (string_bits s) \<le> 30 * length s"
proof (induction s)
  case (Cons c s)
  with code_bounds(2) [of "byte_of c"] show ?case by simp
qed simp

lemma huffman_length_loop_bits:
  "huffman_length_loop n s = n + of_nat (length (string_bits s))"
proof (induction n s rule: huffman_length_loop.induct)
  case (2 n ch s)
  then show ?case
    by (simp only: huffman_length_loop.simps string_bits_simps length_append length_code_bits
        of_nat_add of_nat_unat add.assoc)
qed simp

lemma HuffmanEncodeLength_bits:
  assumes "length (string_bits s) + 7 < 2 ^ 64"
  shows "unat (HuffmanEncodeLength s) = (length (string_bits s) + 7) div 8"
proof -
  have "unat (of_nat (length (string_bits s)) + 7 :: u64) = length (string_bits s) + 7"
    using assms by (subst unat_add_noov) (simp_all add: unat_of_nat64)
  then show ?thesis by (simp add: HuffmanEncodeLength_def huffman_length_loop_bits unat_div_distrib)
qed

section \<open>Properties\<close>

text \<open>
  \<open>AppendHuffmanString\<close>, which collects codes in a 64-bit buffer and writes them out in batches
  of 32 bits, writes exactly the codes of the characters one after the other, followed by fewer than
  eight ones that complete the last byte.
\<close>
lemma AppendHuffmanString_correct:
  "bytes_bits (AppendHuffmanString dst s)
     = bytes_bits dst @ string_bits s @ replicate (pad_bits s) True
   \<and> (length (string_bits s) + pad_bits s) mod 8 = 0 \<and> pad_bits s < 8"
  using AppendHuffmanString_bits [of dst s] huffman_whole_bytes [of s]
  by (metis mod_mult_self1_is_0 pad_bits_less)

text \<open>
  \<open>HuffmanEncodeLength\<close> predicts the number of bytes that \<open>AppendHuffmanString\<close> appends.
\<close>
lemma HuffmanEncodeLength_correct:
  assumes "length s < 2 ^ 58"
  shows "length (AppendHuffmanString dst s) = length dst + unat (HuffmanEncodeLength s)"
proof -
  have "length (string_bits s) + 7 < 2 ^ 64" using length_string_bits_le [of s] assms by simp
  then show ?thesis
    by (subst AppendHuffmanString_append)
      (simp add: HuffmanEncodeLength_bits length_AppendHuffmanString)
qed

end
