(* ===== verification/HpackEncode.thy ===== *)
theory HpackEncode
  imports HpackTables HpackHuffman
begin

text \<open>
  The HPACK encoder (\<open>src/http2/hpack/encode.go\<close>): the representations of a header field on the wire
  and the \<open>Encoder\<close> with its dynamic table and pending table size updates.

  The underlying writer is not part of the sources: it is the parameter \<open>w\<close> of \<open>WriteField\<close>, a function
  from the bytes of one \<open>Write\<close> call to the count and error it returns. The bytes passed to it are the
  final contents of the encoder's buffer.
\<close>

section \<open>Representations\<close>

text \<open>\<open>dst[i] |= v\<close>\<close>

definition or_at :: "u8 list \<Rightarrow> nat \<Rightarrow> u8 \<Rightarrow> u8 list res" where
  "or_at dst i v = (if i < length dst then Inr (dst[i := dst ! i OR v]) else Inl IndexPanic)"

definition appendIndexed :: "u8 list \<Rightarrow> u64 \<Rightarrow> u8 list res" where
  "appendIndexed dst i =
     (let first = length dst; dst = appendVarInt dst 7 i in or_at dst first 0x80)"

definition encodeTypeByte :: "bool \<Rightarrow> bool \<Rightarrow> u8" where
  "encodeTypeByte indexing sensitive =
     (if sensitive then 0x10 else if indexing then 0x40 else 0)"

definition appendHpackString :: "u8 list \<Rightarrow> string \<Rightarrow> u8 list res" where
  "appendHpackString dst s =
     (let huffmanLength = HuffmanEncodeLength s
      in if huffmanLength < of_nat (length s)
         then let first = length dst;
                  dst = appendVarInt dst 7 huffmanLength;
                  dst = AppendHuffmanString dst s
              in or_at dst first 0x80
         else let dst = appendVarInt dst 7 (of_nat (length s))
              in Inr (dst @ map byte_of s))"

definition appendNewName :: "u8 list \<Rightarrow> HeaderField \<Rightarrow> bool \<Rightarrow> u8 list res" where
  "appendNewName dst f indexing =
     go_bind (appendHpackString (dst @ [encodeTypeByte indexing (Sensitive f)]) (Name f))
       (\<lambda>dst. appendHpackString dst (Value f))"

definition appendIndexedName :: "u8 list \<Rightarrow> HeaderField \<Rightarrow> u64 \<Rightarrow> bool \<Rightarrow> u8 list res" where
  "appendIndexedName dst f i indexing =
     (let first = length dst;
          n = (if indexing then 6 else 4);
          dst = appendVarInt dst n i
      in go_bind (or_at dst first (encodeTypeByte indexing (Sensitive f)))
           (\<lambda>dst. appendHpackString dst (Value f)))"

definition appendTableSize :: "u8 list \<Rightarrow> u32 \<Rightarrow> u8 list res" where
  "appendTableSize dst v =
     (let first = length dst; dst = appendVarInt dst 5 (ucast v) in or_at dst first 0x20)"

section \<open>The encoder\<close>

definition uint32Max :: u32 where
  "uint32Max = NOT 0"

definition initialHeaderTableSize :: u32 where
  "initialHeaderTableSize = 4096"

record Encoder =
  edynTab :: dynamicTable
  minSize :: u32
  maxSizeLimit :: u32
  tableSizeUpdate :: bool
  ebuf :: "u8 list"

text \<open>What the writer reports; \<open>ErrShortWrite\<close> is the encoder's own.\<close>

datatype writeError = WriterError string | ErrShortWrite

definition NewEncoder :: "Encoder res" where
  "NewEncoder =
     go_bind (setMaxSize emptyDynamicTable initialHeaderTableSize)
       (\<lambda>dt. Inr \<lparr>edynTab = dt, minSize = uint32Max, maxSizeLimit = initialHeaderTableSize,
                  tableSizeUpdate = False, ebuf = []\<rparr>)"

definition searchTable :: "Encoder \<Rightarrow> HeaderField \<Rightarrow> (u64 \<times> bool) res" where
  "searchTable e f =
     go_bind (search True staticTable f) (\<lambda>(i, nameValueMatch).
       if nameValueMatch then Inr (i, True)
       else go_bind (search False (dtable (edynTab e)) f) (\<lambda>(j, nameValueMatch).
         if nameValueMatch \<or> (i = 0 \<and> j \<noteq> 0)
         then Inr (j + of_nat (table_len staticTable), nameValueMatch)
         else Inr (i, False)))"

definition shouldIndex :: "Encoder \<Rightarrow> HeaderField \<Rightarrow> bool" where
  "shouldIndex e f = (\<not> Sensitive f \<and> Size f \<le> maxSize (edynTab e))"

text \<open>The table size updates that precede the field.\<close>

definition write_updates :: "Encoder \<Rightarrow> Encoder res" where
  "write_updates e =
     (if tableSizeUpdate e
      then let e = e\<lparr>tableSizeUpdate := False\<rparr>
           in go_bind (if minSize e < maxSize (edynTab e)
                       then appendTableSize (ebuf e) (minSize e) else Inr (ebuf e)) (\<lambda>buf.
              let e = e\<lparr>ebuf := buf, minSize := uint32Max\<rparr>
              in go_bind (appendTableSize (ebuf e) (maxSize (edynTab e))) (\<lambda>buf.
                   Inr (e\<lparr>ebuf := buf\<rparr>)))
      else Inr e)"

definition WriteField ::
  "(u8 list \<Rightarrow> int \<times> writeError option) \<Rightarrow> Encoder \<Rightarrow> HeaderField \<Rightarrow> (Encoder \<times> writeError option) res" where
  "WriteField w e f =
     go_bind (write_updates (e\<lparr>ebuf := []\<rparr>)) (\<lambda>e.
       go_bind (searchTable e f) (\<lambda>(idx, nameValueMatch).
         go_bind
           (if nameValueMatch
            then go_bind (appendIndexed (ebuf e) idx) (\<lambda>buf. Inr (e\<lparr>ebuf := buf\<rparr>))
            else let indexing = shouldIndex e f;
                     e = (if indexing then e\<lparr>edynTab := dynamicTable_add (edynTab e) f\<rparr> else e)
                 in go_bind (if idx = 0 then appendNewName (ebuf e) f indexing
                             else appendIndexedName (ebuf e) f idx indexing)
                      (\<lambda>buf. Inr (e\<lparr>ebuf := buf\<rparr>)))
           (\<lambda>e. let (n, err) = w (ebuf e);
                    err = (if err = None \<and> n \<noteq> int (length (ebuf e)) then Some ErrShortWrite else err)
                in Inr (e, err))))"

definition encoder_SetMaxDynamicTableSize :: "Encoder \<Rightarrow> u32 \<Rightarrow> Encoder res" where
  "encoder_SetMaxDynamicTableSize e v =
     (let v = (if v > maxSizeLimit e then maxSizeLimit e else v);
          e = (if v < minSize e then e\<lparr>minSize := v\<rparr> else e);
          e = e\<lparr>tableSizeUpdate := True\<rparr>
      in go_bind (setMaxSize (edynTab e) v) (\<lambda>dt. Inr (e\<lparr>edynTab := dt\<rparr>)))"

definition MaxDynamicTableSize :: "Encoder \<Rightarrow> u32" where
  "MaxDynamicTableSize e = maxSize (edynTab e)"

definition SetMaxDynamicTableSizeLimit :: "Encoder \<Rightarrow> u32 \<Rightarrow> Encoder res" where
  "SetMaxDynamicTableSizeLimit e v =
     (let e = e\<lparr>maxSizeLimit := v\<rparr>
      in if maxSize (edynTab e) > v
         then let e = e\<lparr>tableSizeUpdate := True\<rparr>
              in go_bind (setMaxSize (edynTab e) v) (\<lambda>dt. Inr (e\<lparr>edynTab := dt\<rparr>))
         else Inr e)"

section \<open>Representations as bytes\<close>

text \<open>The integer \<open>i\<close> in an \<open>n\<close> bit prefix, with the type bits \<open>t\<close> in its first byte.\<close>

definition varint :: "u8 \<Rightarrow> u8 \<Rightarrow> u64 \<Rightarrow> u8 list" where
  "varint t n i = (case appendVarInt [] n i of [] \<Rightarrow> [] | b # bs \<Rightarrow> (b OR t) # bs)"

lemma appendVarInt_append: "appendVarInt dst n i = dst @ appendVarInt [] n i"
  by (cases "i < prefix_max n") (simp_all add: appendVarInt_small appendVarInt_big)

lemma appendVarInt_not_Nil [simp]: "appendVarInt dst n i \<noteq> []"
  by (cases "i < prefix_max n") (simp_all add: appendVarInt_small appendVarInt_big)

lemma or_at_varint: "or_at (appendVarInt dst n i @ ys) (length dst) t = Inr (dst @ varint t n i @ ys)"
proof -
  obtain b bs where b: "appendVarInt [] n i = b # bs" by (cases "appendVarInt [] n i") simp_all
  then have "appendVarInt dst n i = dst @ b # bs" by (subst appendVarInt_append) simp
  then show ?thesis by (simp add: or_at_def varint_def b nth_append list_update_append)
qed

lemmas or_at_varint_only = or_at_varint [of _ _ _ "[]", simplified]

lemma varint_0: "varint 0 n i = appendVarInt [] n i"
  by (simp add: varint_def split: list.splits)

text \<open>Type bits above the prefix.\<close>

lemma type_bits:
  "(0x80 :: u8) AND ucast (prefix_max 7) = 0" "(0x20 :: u8) AND ucast (prefix_max 5) = 0"
  "(0x40 :: u8) AND ucast (prefix_max 6) = 0" "(0x10 :: u8) AND ucast (prefix_max 4) = 0"
  by (simp_all add: prefix_max_def shl_def)

lemma readVarInt_varint:
  assumes "1 \<le> n" and "n \<le> 8" and "t AND ucast (prefix_max n) = 0" and "varint_fits n i"
  shows "readVarInt n (varint t n i @ rest) = Inr (Inr (i, rest))"
proof (rule readVarInt_written [OF assms(1-3), of i])
  fix b bs
  assume "\<And>dst. appendVarInt dst n i = dst @ b # bs"
    and "\<And>rest. readVarInt n ((b OR t) # bs @ rest) =
      Inr (if varint_fits n i then Inr (i, rest) else Inl errVarintOverflow)"
  with assms(4) show ?thesis by (simp add: varint_def)
qed

text \<open>The string literal on the wire.\<close>

definition hpack_string :: "string \<Rightarrow> u8 list" where
  "hpack_string s =
     (if HuffmanEncodeLength s < of_nat (length s)
      then varint 0x80 7 (HuffmanEncodeLength s) @ AppendHuffmanString [] s
      else varint 0 7 (of_nat (length s)) @ map byte_of s)"

lemma appendHpackString_eq: "appendHpackString dst s = Inr (dst @ hpack_string s)"
proof (cases "HuffmanEncodeLength s < of_nat (length s)")
  case True
  have "AppendHuffmanString (appendVarInt dst 7 (HuffmanEncodeLength s)) s
      = appendVarInt dst 7 (HuffmanEncodeLength s) @ AppendHuffmanString [] s"
    by (rule AppendHuffmanString_append)
  with True or_at_varint show ?thesis by (simp add: appendHpackString_def hpack_string_def Let_def)
next
  case False
  then show ?thesis
    by (simp add: appendHpackString_def hpack_string_def varint_0 Let_def)
      (subst appendVarInt_append; simp)
qed

lemma append_eqs:
  "appendIndexed dst i = Inr (dst @ varint 0x80 7 i)"
  "appendTableSize dst v = Inr (dst @ varint 0x20 5 (ucast v))"
  "appendNewName dst f indexing =
     Inr (dst @ encodeTypeByte indexing (Sensitive f) # hpack_string (Name f) @ hpack_string (Value f))"
  "appendIndexedName dst f i indexing =
     Inr (dst @ varint (encodeTypeByte indexing (Sensitive f)) (if indexing then 6 else 4) i
       @ hpack_string (Value f))"
  by (simp_all add: appendIndexed_def appendTableSize_def appendNewName_def appendIndexedName_def
      appendHpackString_eq or_at_varint_only Let_def)

end
