(* ===== verification/HpackHuffmanDecode.thy ===== *)
theory HpackHuffmanDecode
  imports HpackHuffman "HOL-Library.Sublist"
begin

text \<open>
  Huffman decoding (\<open>src/http2/hpack/huffman.go\<close>): the 256-way decoding tree built from the code
  tables, and \<open>huffmanDecode\<close>, which walks it one byte of input at a time.

  A node with \<open>children == nil\<close> is a \<open>Leaf\<close>. Go builds the tree by mutating nodes that only the
  path from the root reaches; the model rebuilds that path. The two inner loops need not
  end for an arbitrary tree (a leaf with code length 0 would not consume input), so they are partial
  functions, and a call that does not return has the value \<open>Loops\<close>. The lemmas show that the
  tree holds every code and that decoding inverts encoding.
\<close>

section \<open>The decoding tree\<close>

datatype node =
    Leaf u8 u8
  | Internal "u8 \<Rightarrow> node option"

definition newInternalNode :: node where
  "newInternalNode = Internal Map.empty"

text \<open>\<open>n.children[idx]\<close>; a leaf has no array.\<close>

definition child :: "node \<Rightarrow> u8 \<Rightarrow> node option res" where
  "child n idx = (case n of Leaf _ _ \<Rightarrow> Inl NilPanic | Internal ch \<Rightarrow> Inr (ch idx))"

text \<open>\<open>for i := start; i < start+end; i++ { cur.children[i] = leaf }\<close>.\<close>

fun fill_children :: "(u8 \<rightharpoonup> node) \<Rightarrow> nat \<Rightarrow> nat \<Rightarrow> node \<Rightarrow> (u8 \<rightharpoonup> node) res" where
  "fill_children ch i 0 leaf = Inr ch"
| "fill_children ch i (Suc n) leaf =
     (if i < 256 then fill_children (ch(of_nat i \<mapsto> leaf)) (Suc i) n leaf else Inl IndexPanic)"

text \<open>The walk for one symbol, from the node \<open>cur\<close>, and the leaves at its end.\<close>

function add_code :: "node \<Rightarrow> u32 \<Rightarrow> u8 \<Rightarrow> u8 \<Rightarrow> node res" where
  "add_code cur code codeLen symbol =
     (case cur of
        Leaf _ _ \<Rightarrow> Inl NilPanic
      | Internal ch \<Rightarrow>
          if codeLen > 8
          then let codeLen = codeLen - 8;
                   i = ucast (shr code (ucast codeLen));
                   nx = (case ch i of None \<Rightarrow> newInternalNode | Some n \<Rightarrow> n)
               in go_bind (add_code nx code codeLen symbol) (\<lambda>n. Inr (Internal (ch(i \<mapsto> n))))
          else let shift = 8 - codeLen;
                   start = unat (ucast (shl code (ucast shift)) :: u8);
                   end = unat (shl 1 (ucast shift) :: u64)
               in go_bind (fill_children ch start end (Leaf codeLen symbol)) (\<lambda>ch. Inr (Internal ch)))"
  by pat_completeness auto
termination
proof (relation "measure (\<lambda>(cur, code, codeLen, symbol). unat codeLen)", goal_cases)
  case 1
  show ?case by simp
next
  case (2 cur code codeLen symbol ch codeLen' i nx)
  then have "8 < unat codeLen" by (simp add: word_less_nat_alt)
  with 2 show ?case by (simp add: unat_sub word_less_nat_alt word_le_nat_alt)
qed

declare add_code.simps [simp del]

fun build_loop :: "nat \<Rightarrow> u32 list \<Rightarrow> node \<Rightarrow> node res" where
  "build_loop symbol [] root = Inr root"
| "build_loop symbol (code # codes) root =
     go_bind (add_code root code (huffmanCodeLen ! symbol) (of_nat symbol))
       (\<lambda>root. build_loop (Suc symbol) codes root)"

definition buildRootHuffmanNode :: "node res" where
  "buildRootHuffmanNode =
     (if length huffmanCodes \<noteq> 256 then Inl (Panic ''unexpected size'')
      else build_loop 0 huffmanCodes newInternalNode)"

text \<open>The tree is built once and shared.\<close>

definition getRootHuffmanNode :: "node res" where
  "getRootHuffmanNode = buildRootHuffmanNode"

section \<open>Decoding\<close>

text \<open>\<open>for cbits >= 8 { ... }\<close>\<close>

partial_function (option) whole_bytes ::
  "node \<Rightarrow> int \<Rightarrow> node \<Rightarrow> u64 \<Rightarrow> u8 \<Rightarrow> u8 \<Rightarrow> u8 list \<Rightarrow> (node \<times> u8 \<times> u8 \<times> u8 list) hres option" where
  "whole_bytes root maxLen n cur cbits sbits buf =
     (if cbits \<ge> 8
      then (case child n (ucast (shr cur (ucast (cbits - 8)))) of
              Inl e \<Rightarrow> Some (Inl e)
            | Inr None \<Rightarrow> Some (Inr (Inl ErrInvalidHuffman))
            | Inr (Some (Leaf codeLen symbol)) \<Rightarrow>
                if maxLen \<noteq> 0 \<and> int (length buf) = maxLen
                then Some (Inr (Inl ErrStringLength))
                else whole_bytes root maxLen root cur (cbits - codeLen) (cbits - codeLen) (buf @ [symbol])
            | Inr (Some (Internal ch)) \<Rightarrow>
                whole_bytes root maxLen (Internal ch) cur (cbits - 8) sbits buf)
      else Some (Inr (Inr (n, cbits, sbits, buf))))"

text \<open>\<open>for _, b := range v { ... }\<close>\<close>

fun decode_bytes ::
  "node \<Rightarrow> int \<Rightarrow> node \<Rightarrow> u64 \<Rightarrow> u8 \<Rightarrow> u8 \<Rightarrow> u8 list \<Rightarrow> u8 list
   \<Rightarrow> (node \<times> u64 \<times> u8 \<times> u8 \<times> u8 list) hres" where
  "decode_bytes root maxLen n cur cbits sbits buf [] = Inr (Inr (n, cur, cbits, sbits, buf))"
| "decode_bytes root maxLen n cur cbits sbits buf (b # v) =
     (let cur = shl cur 8 OR ucast b; cbits = cbits + 8; sbits = sbits + 8
      in hbind (go_bind (returns (whole_bytes root maxLen n cur cbits sbits buf)) id)
           (\<lambda>(n, cbits, sbits, buf). decode_bytes root maxLen n cur cbits sbits buf v))"

text \<open>\<open>for cbits > 0 { ... }\<close>\<close>

partial_function (option) last_bits ::
  "node \<Rightarrow> int \<Rightarrow> node \<Rightarrow> u64 \<Rightarrow> u8 \<Rightarrow> u8 \<Rightarrow> u8 list \<Rightarrow> (u8 \<times> u8 \<times> u8 list) hres option" where
  "last_bits root maxLen n cur cbits sbits buf =
     (if cbits > 0
      then (case child n (ucast (shl cur (ucast (8 - cbits)))) of
              Inl e \<Rightarrow> Some (Inl e)
            | Inr None \<Rightarrow> Some (Inr (Inl ErrInvalidHuffman))
            | Inr (Some (Internal ch)) \<Rightarrow> Some (Inr (Inr (cbits, sbits, buf)))
            | Inr (Some (Leaf codeLen symbol)) \<Rightarrow>
                if codeLen > cbits then Some (Inr (Inr (cbits, sbits, buf)))
                else if maxLen \<noteq> 0 \<and> int (length buf) = maxLen
                then Some (Inr (Inl ErrStringLength))
                else last_bits root maxLen root cur (cbits - codeLen) (cbits - codeLen) (buf @ [symbol]))
      else Some (Inr (Inr (cbits, sbits, buf))))"

definition huffmanDecode :: "u8 list \<Rightarrow> int \<Rightarrow> u8 list \<Rightarrow> u8 list hres" where
  "huffmanDecode buf maxLen v =
     go_bind getRootHuffmanNode (\<lambda>root.
       hbind (decode_bytes root maxLen root 0 0 0 buf v) (\<lambda>(n, cur, cbits, sbits, buf).
         hbind (go_bind (returns (last_bits root maxLen n cur cbits sbits buf)) id)
           (\<lambda>(cbits, sbits, buf).
             if sbits > 7 then Inr (Inl ErrInvalidHuffman)
             else let mask = shl 1 (ucast cbits) - 1
                  in if cur AND mask \<noteq> mask then Inr (Inl ErrInvalidHuffman)
                     else Inr (Inr buf))))"

text \<open>A byte slice as a string.\<close>

definition str_of :: "u8 list \<Rightarrow> string" where
  "str_of bs = map (\<lambda>b. char_of (unat b)) bs"

definition HuffmanDecodeToString :: "u8 list \<Rightarrow> string hres" where
  "HuffmanDecodeToString v = hbind (huffmanDecode [] 0 v) (\<lambda>buf. Inr (Inr (str_of buf)))"

text \<open>The writer is the caller's; its result is passed on.\<close>

definition HuffmanDecode ::
  "(u8 list \<Rightarrow> int \<times> hpackError option) \<Rightarrow> u8 list \<Rightarrow> (int \<times> hpackError option) res" where
  "HuffmanDecode write v =
     go_bind (huffmanDecode [] 0 v) (\<lambda>r. case r of
        Inl err \<Rightarrow> Inr (0, Some err)
      | Inr buf \<Rightarrow> Inr (write buf))"

section \<open>The codes in the tree\<close>

text \<open>
  \<open>has_code n cb c\<close>: following the bits \<open>cb\<close> from the node \<open>n\<close> leads to the leaf of the symbol \<open>c\<close>,
  whatever bits come after them.
\<close>

function has_code :: "node \<Rightarrow> bool list \<Rightarrow> u8 \<Rightarrow> bool" where
  "has_code (Leaf cl symbol) cb c \<longleftrightarrow> False"
| "has_code (Internal ch) cb c \<longleftrightarrow>
     (if length cb \<le> 8
      then \<forall>i. take (length cb) (bits_of 8 i) = cb \<longrightarrow> ch i = Some (Leaf (of_nat (length cb)) c)
      else \<exists>i n. bits_of 8 i = take 8 cb \<and> ch i = Some n \<and> has_code n (drop 8 cb) c)"
  by pat_completeness auto
termination
  by (relation "measure (\<lambda>(n, cb, c). length cb)") auto

declare has_code.simps(2) [simp del]

text \<open>\<open>open_path n cb\<close>: no leaf is in the way of the code \<open>cb\<close>.\<close>

function open_path :: "node \<Rightarrow> bool list \<Rightarrow> bool" where
  "open_path (Leaf cl symbol) cb \<longleftrightarrow> False"
| "open_path (Internal ch) cb \<longleftrightarrow>
     (length cb > 8 \<longrightarrow>
       (\<forall>i n. bits_of 8 i = take 8 cb \<longrightarrow> ch i = Some n \<longrightarrow> open_path n (drop 8 cb)))"
  by pat_completeness auto
termination
  by (relation "measure (\<lambda>(n, cb). length cb)") auto

declare open_path.simps(2) [simp del]

lemma open_path_new [simp]: "open_path newInternalNode cb"
  by (simp add: newInternalNode_def open_path.simps(2))

lemma bits_of_8_inject [simp]: "bits_of 8 i = bits_of 8 j \<longleftrightarrow> i = j" for i j :: u8
  by (auto simp: bits_of_eq_iff intro: bit_word_eqI)

lemma bits_of_eq_mod: "bits_of n x = bits_of n y \<longleftrightarrow> unat x mod 2 ^ n = unat y mod 2 ^ n"
  for x :: "'a::len word" and y :: "'b::len word"
proof -
  have "bits_of n x = bits_of n y \<longleftrightarrow> (\<forall>k<n. bit (unat x) k = bit (unat y) k)"
    by (auto simp: bits_of_def bit_unat)
  also have "\<dots> \<longleftrightarrow> take_bit n (unat x) = take_bit n (unat y)"
    by (auto simp: bit_eq_iff bit_take_bit_iff)
  finally show ?thesis by (simp add: take_bit_eq_mod)
qed

lemma take_bits_of: "m \<le> n \<Longrightarrow> take m (bits_of n x) = bits_of m (drop_bit (n - m) x)"
  and drop_bits_of: "m \<le> n \<Longrightarrow> drop m (bits_of n x) = bits_of (n - m) x"
  using bits_of_add [of m "n - m" x] by simp_all

lemma fill_children_spec:
  assumes "i + n \<le> 256"
  shows "fill_children ch i n leaf =
    Inr (\<lambda>j. if i \<le> unat j \<and> unat j < i + n then Some leaf else ch j)"
  using assms
proof (induction n arbitrary: ch i)
  case 0
  then show ?case by (auto simp: fun_eq_iff)
next
  case (Suc n)
  have *: "of_nat i = j \<longleftrightarrow> unat j = i" for j :: u8
    using Suc.prems by (auto simp: unat_of_nat simp flip: word_unat_eq_iff)
  have "(if Suc i \<le> unat j \<and> unat j < Suc i + n then Some leaf else (ch(of_nat i \<mapsto> leaf)) j) =
      (if i \<le> unat j \<and> unat j < i + Suc n then Some leaf else ch j)" for j
    using * [of j] by auto
  with Suc.IH [of "Suc i"] Suc.prems show ?case by simp
qed

lemma div_slot:
  fixes a e q :: nat
  assumes "0 < e"
  shows "a div e = q \<longleftrightarrow> q * e \<le> a \<and> a < q * e + e"
proof
  assume "a div e = q"
  then have "q * e + a mod e = a" using div_mult_mod_eq [of a e] by simp
  then show "q * e \<le> a \<and> a < q * e + e" using mod_less_divisor [OF assms, of a] by linarith
next
  assume "q * e \<le> a \<and> a < q * e + e"
  then show "a div e = q" by (intro div_nat_eqI) (simp_all add: mult.commute)
qed

text \<open>The slots that a code of at most eight bits occupies.\<close>

lemma code_slots:
  fixes code :: u32 and i l :: u8
  assumes "unat l \<le> 8"
  defines "shift \<equiv> 8 - l"
  defines "start \<equiv> unat (ucast (shl code (ucast shift)) :: u8)"
    and "count \<equiv> unat (shl 1 (ucast shift) :: u64)"
  shows "start + count \<le> 256"
    and "start \<le> unat i \<and> unat i < start + count \<longleftrightarrow>
      take (unat l) (bits_of 8 i) = bits_of (unat l) code"
proof -
  define L where "L = unat l"
  have L: "L \<le> 8" using assms(1) by (simp add: L_def)
  have sh: "unat (ucast shift :: u64) = 8 - L"
    using assms(1) by (simp add: shift_def L_def unat_ucast_u8 unat_sub word_le_nat_alt)
  have count: "count = 2 ^ (8 - L)"
    by (simp add: count_def shl_def sh push_bit_eq_mult unat_exp)
  have pow: "(256 :: nat) = 2 ^ L * 2 ^ (8 - L)" using L by (simp flip: power_add)
  have "unat (shl code (ucast shift)) = (unat code * 2 ^ (8 - L)) mod 2 ^ 32"
    by (simp add: shl_def sh push_bit_eq_mult unat_word_ariths unat_exp)
  then have "unat (ucast (shl code (ucast shift)) :: u8) = (unat code * 2 ^ (8 - L)) mod 2 ^ 32 mod 256"
    by (simp add: unsigned_ucast_eq take_bit_eq_mod)
  also have "\<dots> = (unat code * 2 ^ (8 - L)) mod 256" by (rule mod_mod_cancel) simp
  finally have start: "start = (unat code mod 2 ^ L) * 2 ^ (8 - L)"
    unfolding start_def pow by (simp add: mult_mod_left)
  let ?q = "unat code mod 2 ^ L" and ?e = "(2 :: nat) ^ (8 - L)"
  have "(?q + 1) * ?e \<le> 2 ^ L * ?e" by (intro mult_le_mono1) (simp add: Suc_leI)
  then show "start + count \<le> 256" by (simp add: start count pow [symmetric])
  have "unat i div ?e < 2 ^ L"
    using unat_u8 [of i] pow by (simp add: less_mult_imp_div_less mult.commute)
  then have "take L (bits_of 8 i) = bits_of L code \<longleftrightarrow> unat i div ?e = ?q"
    using L by (simp only: take_bits_of bits_of_eq_mod unat_drop_bit_eq)
      (simp add: drop_bit_eq_div)
  also have "\<dots> \<longleftrightarrow> ?q * ?e \<le> unat i \<and> unat i < ?q * ?e + ?e"
    by (rule div_slot) simp
  finally show "start \<le> unat i \<and> unat i < start + count \<longleftrightarrow>
      take (unat l) (bits_of 8 i) = bits_of (unat l) code"
    by (simp add: start count L_def)
qed

text \<open>One step of the walk: the next byte of a code of more than eight bits.\<close>

lemma code_step:
  fixes code :: u32 and l :: u8
  assumes "8 < unat l"
  shows "bits_of 8 (ucast (shr code (ucast (l - 8))) :: u8) = take 8 (bits_of (unat l) code)"
    and "bits_of (unat (l - 8)) code = drop 8 (bits_of (unat l) code)"
    and "unat (l - 8) = unat l - 8"
proof -
  show l: "unat (l - 8) = unat l - 8" using assms by (subst unat_sub) (simp_all add: word_le_nat_alt)
  show "bits_of 8 (ucast (shr code (ucast (l - 8))) :: u8) = take 8 (bits_of (unat l) code)"
    using assms by (simp add: bits_of_ucast take_bits_of shr_def unat_ucast_u8 l)
  show "bits_of (unat (l - 8)) code = drop 8 (bits_of (unat l) code)"
    using assms by (simp add: drop_bits_of l)
qed

lemma add_code_short:
  assumes "\<not> codeLen > 8"
  shows "add_code (Internal ch) code codeLen c =
    Inr (Internal (\<lambda>i. if take (unat codeLen) (bits_of 8 i) = bits_of (unat codeLen) code
                       then Some (Leaf codeLen c) else ch i))"
proof -
  have l: "unat codeLen \<le> 8" using assms by (simp add: word_le_nat_alt not_less)
  show ?thesis
    using assms by (simp add: add_code.simps Let_def fill_children_spec code_slots [OF l])
qed

lemma add_code_long:
  fixes code :: u32
  assumes "codeLen > 8"
  defines "i \<equiv> ucast (shr code (ucast (codeLen - 8)))"
  shows "add_code (Internal ch) code codeLen c =
    go_bind (add_code (case ch i of None \<Rightarrow> newInternalNode | Some n \<Rightarrow> n) code (codeLen - 8) c)
      (\<lambda>n. Inr (Internal (ch(i \<mapsto> n))))"
  using assms by (simp add: add_code.simps [of "Internal ch"] Let_def)

text \<open>Adding a code whose path is free succeeds, and the code is in the tree.\<close>

lemma add_code_has:
  assumes "open_path n (bits_of (unat l) code)"
  shows "\<exists>n'. add_code n code l c = Inr n' \<and> has_code n' (bits_of (unat l) code) c"
  using assms
proof (induction "unat l" arbitrary: n l rule: less_induct)
  case less
  then obtain ch where n: "n = Internal ch" by (cases n) simp_all
  show ?case
  proof (cases "l > 8")
    case False
    then have "unat l \<le> 8" by (simp add: word_le_nat_alt not_less)
    then show ?thesis using False by (auto simp: n add_code_short has_code.simps(2) word_of_nat_eq_0_iff)
  next
    case True
    then have l: "8 < unat l" by (simp add: word_less_nat_alt)
    define i where "i = (ucast (shr code (ucast (l - 8))) :: u8)"
    define nx where "nx = (case ch i of None \<Rightarrow> newInternalNode | Some n \<Rightarrow> n)"
    note step = code_step(1,2) [OF l, of code, folded i_def] code_step(3) [OF l]
    have "open_path nx (bits_of (unat (l - 8)) code)"
      using less.prems l step by (auto simp: n nx_def open_path.simps(2) split: option.splits)
    with less.hyps [of "l - 8"] l step(3) obtain n' where n': "add_code nx code (l - 8) c = Inr n'"
      "has_code n' (bits_of (unat (l - 8)) code) c" by auto
    have "add_code n code l c = Inr (Internal (ch(i \<mapsto> n')))"
      using n' True by (simp add: n add_code_long i_def [symmetric] nx_def [symmetric])
    moreover have "has_code (Internal (ch(i \<mapsto> n'))) (bits_of (unat l) code) c"
      unfolding has_code.simps(2) using l step n'(2)
      by (simp add: exI [of _ i])
    ultimately show ?thesis by blast
  qed
qed

text \<open>Adding a code keeps the codes that are not related to it by prefix.\<close>

lemma prefix_take_8:
  assumes "8 \<le> length xs" and "8 \<le> length ys" and "take 8 xs = take 8 ys"
  shows "prefix (drop 8 xs) (drop 8 ys) \<longleftrightarrow> prefix xs ys"
  using assms by (metis append_take_drop_id same_prefix_prefix)

lemma add_code_keeps:
  assumes "add_code n code l c = Inr n'" and "0 < unat l"
    and "\<not> prefix (bits_of (unat l) code) cb"
  shows "open_path n cb \<Longrightarrow> open_path n' cb"
    and "\<not> prefix cb (bits_of (unat l) code) \<Longrightarrow> has_code n cb d \<Longrightarrow> has_code n' cb d"
proof -
  have "(open_path n cb \<longrightarrow> open_path n' cb) \<and>
      (\<not> prefix cb (bits_of (unat l) code) \<longrightarrow> has_code n cb d \<longrightarrow> has_code n' cb d)"
    using assms
  proof (induction "unat l" arbitrary: n n' l cb rule: less_induct)
    case less
    then obtain ch where n: "n = Internal ch" by (cases n) (simp_all add: add_code.simps)
    let ?code = "bits_of (unat l) code"
    show ?case
    proof (cases "l > 8")
      case False
      then have l: "unat l \<le> 8" by (simp add: word_le_nat_alt not_less)
      have n': "n' = Internal (\<lambda>i. if take (unat l) (bits_of 8 i) = ?code then Some (Leaf l c) else ch i)"
        using less.prems(1) False by (simp add: n add_code_short)
      have long: "take (unat l) (bits_of 8 i) \<noteq> ?code" if "bits_of 8 i = take 8 cb" "8 < length cb" for i
        using that less.prems(3) l by (metis take_is_prefix take_take min.absorb1)
      have short: "take (unat l) (bits_of 8 i) \<noteq> ?code"
        if "take (length cb) (bits_of 8 i) = cb" "\<not> prefix cb ?code" for i
        using that less.prems(3) by (metis prefix_same_cases take_is_prefix)
      show ?thesis
        using long short unfolding n n' open_path.simps(2) has_code.simps(2)
        by (cases "length cb \<le> 8") (auto, metis)
    next
      case True
      then have l: "8 < unat l" by (simp add: word_less_nat_alt)
      define i where "i = (ucast (shr code (ucast (l - 8))) :: u8)"
      define nx where "nx = (case ch i of None \<Rightarrow> newInternalNode | Some n \<Rightarrow> n)"
      note step = code_step(1,2) [OF l, of code, folded i_def] code_step(3) [OF l]
      from less.prems(1) True obtain m where m: "add_code nx code (l - 8) c = Inr m"
        "n' = Internal (ch(i \<mapsto> m))"
        by (auto simp: n add_code_long i_def [symmetric] nx_def [symmetric] go_bind_eq_Inr)
      have IH: "\<not> prefix (drop 8 ?code) (drop 8 cb) \<Longrightarrow>
          (open_path nx (drop 8 cb) \<longrightarrow> open_path m (drop 8 cb)) \<and>
          (\<not> prefix (drop 8 cb) (drop 8 ?code) \<longrightarrow> has_code nx (drop 8 cb) d \<longrightarrow> has_code m (drop 8 cb) d)"
        using less.hyps [OF _ m(1)] l step by simp
      show ?thesis
      proof (cases "length cb \<le> 8")
        case True
        have "j \<noteq> i" if "take (length cb) (bits_of 8 j) = cb" "\<not> prefix cb ?code" for j
          using that step(1) True by (metis min.absorb1 take_is_prefix take_take)
        with True show ?thesis
          unfolding n m(2) open_path.simps(2) has_code.simps(2) by auto
      next
        case False
        show ?thesis
        proof (cases "take 8 cb = bits_of 8 i")
          case same: True
          then have "prefix (drop 8 ?code) (drop 8 cb) = prefix ?code cb"
            "prefix (drop 8 cb) (drop 8 ?code) = prefix cb ?code"
            using False l step(1) by (simp_all add: prefix_take_8)
          with IH less.prems(3) False same show ?thesis
            unfolding n m(2) open_path.simps(2) has_code.simps(2)
            by (auto simp: nx_def split: option.splits)
        next
          case other: False
          then show ?thesis
            using False unfolding n m(2) open_path.simps(2) has_code.simps(2)
            by (auto, metis)
        qed
      qed
    qed
  qed
  then show "open_path n cb \<Longrightarrow> open_path n' cb"
    and "\<not> prefix cb (bits_of (unat l) code) \<Longrightarrow> has_code n cb d \<Longrightarrow> has_code n' cb d" by blast+
qed

section \<open>The code is prefix free\<close>

text \<open>Splitting a list of codes bit by bit; no code may end while another one goes on.\<close>

function pfree :: "bool list list \<Rightarrow> bool" where
  "pfree cs \<longleftrightarrow>
     (if length cs \<le> 1 then True
      else if [] \<in> set cs then False
      else pfree (map tl (filter hd cs)) \<and> pfree (map tl (filter (\<lambda>c. \<not> hd c) cs)))"
  by pat_completeness auto
termination
proof -
  have le: "sum_list (map length (map tl (filter P cs))) + length cs \<le> sum_list (map length cs)"
    if "[] \<notin> set cs" for P and cs :: "bool list list"
    using that
  proof (induction cs)
    case (Cons c cs)
    then obtain b d where "c = b # d" by (cases c) simp_all
    with Cons show ?case by simp
  qed simp
  have "sum_list (map length (map tl (filter P cs))) < sum_list (map length cs)"
    if "[] \<notin> set cs" "\<not> length cs \<le> 1" for P and cs :: "bool list list"
    using le [OF that(1), of P] that(2) by linarith
  then show ?thesis
    by (relation "measure (\<lambda>cs. sum_list (map length cs))") auto
qed

declare pfree.simps [simp del]

definition unrelated :: "bool list \<Rightarrow> bool list \<Rightarrow> bool" where
  "unrelated x y \<longleftrightarrow> \<not> prefix x y \<and> \<not> prefix y x"

lemma sorted_wrt_partition:
  assumes "sorted_wrt R (filter P xs)" and "sorted_wrt R (filter (\<lambda>x. \<not> P x) xs)"
    and "\<And>x y. x \<in> set xs \<Longrightarrow> y \<in> set xs \<Longrightarrow> P x \<noteq> P y \<Longrightarrow> R x y"
  shows "sorted_wrt R xs"
  using assms by (induction xs) (auto split: if_splits)

lemma pfree_unrelated: "pfree cs \<Longrightarrow> sorted_wrt unrelated cs"
proof (induction cs rule: pfree.induct)
  case (1 cs)
  show ?case
  proof (cases "length cs \<le> 1")
    case True
    then show ?thesis by (cases cs) auto
  next
    case False
    with "1.prems" have ne: "[] \<notin> set cs" and
      p: "pfree (map tl (filter hd cs))" "pfree (map tl (filter (\<lambda>c. \<not> hd c) cs))"
      by (simp_all add: pfree.simps [of cs] split: if_splits)
    have lift: "sorted_wrt unrelated ds"
      if ds: "sorted_wrt unrelated (map tl ds)" "set ds \<subseteq> set cs" "\<forall>d \<in> set ds. hd d = b" for ds b
    proof -
      have "unrelated x y" if xy: "x \<in> set ds" "y \<in> set ds" "unrelated (tl x) (tl y)" for x y
      proof -
        have "x \<noteq> []" "y \<noteq> []" "hd x = hd y" using xy ds(2,3) ne by auto
        with xy(3) show ?thesis by (cases x; cases y) (simp_all add: unrelated_def)
      qed
      then show ?thesis
        using ds(1) unfolding sorted_wrt_map by (rule sorted_wrt_mono_rel)
    qed
    show ?thesis
    proof (rule sorted_wrt_partition [of _ hd])
      show "sorted_wrt unrelated (filter hd cs)"
        using "1.IH"(1) [OF False ne p(1)] by (rule lift [of _ True]) auto
      show "sorted_wrt unrelated (filter (\<lambda>c. \<not> hd c) cs)"
        using "1.IH"(2) [OF False ne p(2)] by (rule lift [of _ False]) auto
      show "unrelated x y" if xy: "x \<in> set cs" "y \<in> set cs" "hd x \<noteq> hd y" for x y
      proof -
        have "x \<noteq> []" "y \<noteq> []" using xy ne by auto
        with xy(3) show ?thesis by (cases x; cases y) (simp_all add: unrelated_def)
      qed
    qed
  qed
qed

text \<open>The codes of the table, computed from the digits of their numerals.\<close>

definition code_list :: "bool list list" where
  "code_list =
     map2 (\<lambda>c l. rev (take (unat l) (idigits (uint c) @ replicate (unat l) False)))
       huffmanCodes huffmanCodeLen"

lemma code_list_pfree: "pfree code_list"
  by code_simp

lemma nth_code_list: "code_list ! unat c = code_bits c" "unat c < length code_list"
proof -
  show len: "unat c < length code_list"
    using unat_u8 [of c] code_tables by (simp add: code_list_def)
  let ?l = "unat (code_len c)" and ?d = "idigits (uint (code_of c))"
  have "code_list ! unat c = rev (take ?l (?d @ replicate ?l False))"
    using unat_u8 [of c] code_tables by (simp add: code_list_def code_of_def code_len_def)
  also have "take ?l (?d @ replicate ?l False) = map (bit (code_of c)) [0 ..< ?l]"
  proof (rule nth_equalityI)
    fix i
    assume "i < length (take ?l (?d @ replicate ?l False))"
    moreover have "bit (code_of c) i \<longleftrightarrow> i < length ?d \<and> ?d ! i"
      by (auto simp flip: bit_idigits simp: bit_uint_iff dest: bit_imp_le_length)
    ultimately show "take ?l (?d @ replicate ?l False) ! i = map (bit (code_of c)) [0 ..< ?l] ! i"
      by (auto simp: nth_append)
  qed simp
  finally show "code_list ! unat c = code_bits c"
    by (simp add: code_bits_def bits_of_def rev_map)
qed

lemma code_prefix_free:
  assumes "c \<noteq> d"
  shows "\<not> prefix (code_bits c) (code_bits d)"
proof -
  have "unat c \<noteq> unat d" using assms by (simp add: word_unat_eq_iff)
  then have "unrelated (code_bits c) (code_bits d) \<or> unrelated (code_bits d) (code_bits c)"
    using sorted_wrt_nth_less [OF pfree_unrelated [OF code_list_pfree], of "unat c" "unat d"]
      sorted_wrt_nth_less [OF pfree_unrelated [OF code_list_pfree], of "unat d" "unat c"] nth_code_list
    by (metis linorder_neqE_nat)
  then show ?thesis by (auto simp: unrelated_def)
qed

section \<open>The tree holds every code\<close>

lemma build_loop_spec:
  assumes "k \<le> 256"
    and "\<forall>c. unat c < k \<longrightarrow> has_code root (code_bits c) c"
    and "\<forall>c. k \<le> unat c \<longrightarrow> open_path root (code_bits c)"
  shows "\<exists>root'. build_loop k (drop k huffmanCodes) root = Inr root'
    \<and> (\<forall>c. has_code root' (code_bits c) c)"
  using assms
proof (induction "256 - k" arbitrary: k root)
  case 0
  then have "k = 256" by simp
  with 0 unat_u8 show ?case by (simp add: code_tables)
next
  case (Suc m)
  then have k: "k < 256" by simp
  define c where "c = (of_nat k :: u8)"
  have uc: "unat c = k" using k by (simp add: c_def unat_of_nat)
  have code: "drop k huffmanCodes = code_of c # drop (Suc k) huffmanCodes" "huffmanCodeLen ! k = code_len c"
    using k by (simp_all add: Cons_nth_drop_Suc code_tables code_of_def code_len_def uc)
  from Suc.prems(3) have "open_path root (code_bits c)" by (simp add: uc)
  from add_code_has [OF this [unfolded code_bits_def], of c] obtain root' where r:
    "add_code root (code_of c) (code_len c) c = Inr root'" "has_code root' (code_bits c) c"
    by (auto simp: code_bits_def)
  have pos: "0 < unat (code_len c)" using code_bounds(1) [of c] by simp
  note keeps = add_code_keeps [OF r(1) pos, folded code_bits_def, OF code_prefix_free]
  have "\<forall>d. unat d < Suc k \<longrightarrow> has_code root' (code_bits d) d"
  proof (intro allI impI)
    fix d :: u8
    assume "unat d < Suc k"
    then show "has_code root' (code_bits d) d"
      using r(2) keeps(2) [of d d] Suc.prems(2) code_prefix_free [of d c] uc
      by (cases "d = c") (auto simp: less_Suc_eq dest: unsigned_word_eqI)
  qed
  moreover have "\<forall>d. Suc k \<le> unat d \<longrightarrow> open_path root' (code_bits d)"
    using keeps(1) Suc.prems(3) uc by (metis Suc_le_eq less_imp_le less_irrefl)
  ultimately show ?case
    using Suc.hyps(1) [of "Suc k" root'] Suc.hyps(2) k r(1)
    by (simp add: code c_def [symmetric])
qed

lemma root_has_codes:
  obtains root where "getRootHuffmanNode = Inr root" "\<And>c. has_code root (code_bits c) c"
  using build_loop_spec [of 0 newInternalNode]
  by (auto simp: getRootHuffmanNode_def buildRootHuffmanNode_def code_tables)

section \<open>Decoding what was encoded\<close>

lemma has_code_cases:
  assumes "has_code n cb c"
  obtains ch where "n = Internal ch" "length cb \<le> 8"
      "\<And>i. take (length cb) (bits_of 8 i) = cb \<Longrightarrow> ch i = Some (Leaf (of_nat (length cb)) c)"
  | ch i m where "n = Internal ch" "8 < length cb" "bits_of 8 i = take 8 cb" "ch i = Some m"
      "has_code m (drop 8 cb) c"
proof (cases n)
  case (Leaf x y)
  with assms show thesis by simp
next
  case (Internal ch)
  with assms show thesis
    using that by (cases "length cb \<le> 8") (auto simp: has_code.simps(2))
qed

lemma has_code_Internal: "has_code n cb c \<Longrightarrow> \<exists>ch. n = Internal ch"
  by (cases n) simp_all

text \<open>The next byte of input: the top eight of the unread bits.\<close>

lemma next_byte:
  fixes cbits :: u8 and cur :: u64
  assumes "8 \<le> cbits"
  shows "bits_of 8 (ucast (shr cur (ucast (cbits - 8))) :: u8) = take 8 (bits_of (unat cbits) cur)"
proof -
  have c: "8 \<le> unat cbits" using assms by (simp add: word_le_nat_alt)
  have "unat (cbits - 8) = unat cbits - 8" using assms by (subst unat_sub) simp_all
  then show ?thesis using c by (simp add: bits_of_ucast take_bits_of shr_def unat_ucast_u8)
qed

lemma last_byte:
  fixes cbits :: u8 and cur :: u64
  assumes "cbits < 8"
  shows "bits_of 8 (ucast (shl cur (ucast (8 - cbits))) :: u8)
    = bits_of (unat cbits) cur @ replicate (8 - unat cbits) False"
proof -
  have c: "unat cbits < 8" using assms by (simp add: word_less_nat_alt)
  have sh: "unat (ucast (8 - cbits) :: u64) = 8 - unat cbits"
    using assms by (simp add: unat_ucast_u8) (subst unat_sub; simp)
  show ?thesis
    using c by (intro nth_equalityI)
      (auto simp: nth_append nth_bits_of bits_of_ucast bit_shl sh)
qed

text \<open>
  What the decoder still has to produce. The bits to come are \<open>bs\<close>; they begin with the rest
  of the code of the first symbol, whose beginning led to the node \<open>n\<close>.
\<close>

definition decoding :: "node \<Rightarrow> node \<Rightarrow> u8 list \<Rightarrow> nat \<Rightarrow> bool list \<Rightarrow> bool" where
  "decoding root n syms pad bs \<longleftrightarrow>
     (case syms of
        [] \<Rightarrow> n = root \<and> bs = replicate pad True
      | c # cs \<Rightarrow> \<exists>cb. cb \<noteq> [] \<and> has_code n cb c
          \<and> bs = cb @ concat (map code_bits cs) @ replicate pad True)"

lemma decoding_start:
  assumes "\<And>c. has_code root (code_bits c) c"
  shows "decoding root root cs pad (concat (map code_bits cs) @ replicate pad True)"
proof (cases cs)
  case (Cons c cs')
  have "code_bits c \<noteq> []" using code_bounds(1) [of c] by (metis length_code_bits list.size(3) not_numeral_le_zero)
  with Cons assms show ?thesis by (auto simp: decoding_def)
qed (simp add: decoding_def)

text \<open>The limit on the length of the output; 0 and negative values mean no limit.\<close>

definition fits :: "int \<Rightarrow> nat \<Rightarrow> bool" where
  "fits maxLen k \<longleftrightarrow> (0 < maxLen \<longrightarrow> int k \<le> maxLen)"

text \<open>
  The outcome of a decoding loop that still has to produce \<open>syms\<close>: either it has produced some of them
  and the rest is still to come, or the limit was reached, which needs more symbols than fit.
\<close>

definition loop_outcome ::
  "(u8 list \<Rightarrow> u8 list \<Rightarrow> 'r hres \<Rightarrow> bool) \<Rightarrow> int \<Rightarrow> u8 list \<Rightarrow> u8 list \<Rightarrow> 'r hres \<Rightarrow> bool" where
  "loop_outcome good maxLen buf syms r \<longleftrightarrow>
     (r = Inr (Inl ErrStringLength) \<and> \<not> fits maxLen (length buf + length syms)) \<or>
     (\<exists>d todo. syms = d @ todo \<and> fits maxLen (length buf + length d) \<and> good (buf @ d) todo r)"

lemma loop_outcome_step:
  assumes "loop_outcome good maxLen (buf @ [c]) syms r"
  shows "loop_outcome good maxLen buf (c # syms) r"
proof -
  have "c # syms = (c # d) @ todo \<and> fits maxLen (length buf + length (c # d))
      \<and> good (buf @ (c # d)) todo r"
    if "syms = d @ todo" "fits maxLen (length (buf @ [c]) + length d)" "good ((buf @ [c]) @ d) todo r"
    for d todo using that by simp
  then show ?thesis using assms unfolding loop_outcome_def by fastforce
qed

lemma limit_check:
  assumes "fits maxLen (length buf)"
  shows "maxLen \<noteq> 0 \<and> int (length buf) = maxLen \<longleftrightarrow> \<not> fits maxLen (Suc (length buf))"
  using assms by (auto simp: fits_def)

lemma unat_code_left:
  fixes cbits :: u8
  assumes "k \<le> unat cbits"
  shows "unat (cbits - of_nat k) = unat cbits - k"
proof -
  have "unat (of_nat k :: u8) = k" using assms unat_u8 [of cbits] by (simp add: unat_of_nat)
  with assms show ?thesis by (subst unat_sub) (simp_all add: word_le_nat_alt)
qed

definition whole_good ::
  "node \<Rightarrow> nat \<Rightarrow> u64 \<Rightarrow> bool list \<Rightarrow> u8 list \<Rightarrow> u8 list \<Rightarrow> (node \<times> u8 \<times> u8 \<times> u8 list) hres \<Rightarrow> bool" where
  "whole_good root pad cur rest buf todo r \<longleftrightarrow>
     (\<exists>n cbits sbits. r = Inr (Inr (n, cbits, sbits, buf)) \<and> unat cbits < 8
        \<and> decoding root n todo pad (bits_of (unat cbits) cur @ rest) \<and> (todo = [] \<longrightarrow> sbits = cbits))"

lemma whole_bytes_spec:
  assumes root: "\<And>c. has_code root (code_bits c) c" and pad: "pad < 8"
    and "decoding root n syms pad (bits_of (unat cbits) cur @ rest)"
    and "syms = [] \<longrightarrow> sbits = cbits" and "fits maxLen (length buf)"
  shows "\<exists>r. whole_bytes root maxLen n cur cbits sbits buf = Some r
    \<and> loop_outcome (whole_good root pad cur rest) maxLen buf syms r"
  using assms(3-)
proof (induction "unat cbits" arbitrary: n syms cbits sbits buf rule: less_induct)
  case less
  show ?case
  proof (cases "8 \<le> cbits")
    case False
    then have "unat cbits < 8" by (simp add: word_le_nat_alt)
    then have "loop_outcome (whole_good root pad cur rest) maxLen buf syms
        (Inr (Inr (n, cbits, sbits, buf)))"
      using less.prems by (auto simp: loop_outcome_def whole_good_def)
    with False show ?thesis by (simp add: whole_bytes.simps)
  next
    case True
    define idx where "idx = (ucast (shr cur (ucast (cbits - 8))) :: u8)"
    have c8: "8 \<le> unat cbits" using True by (simp add: word_le_nat_alt)
    have idx: "bits_of 8 idx = take 8 (bits_of (unat cbits) cur)"
      unfolding idx_def by (rule next_byte [OF True])
    have "syms \<noteq> []"
    proof
      assume "syms = []"
      then have "length (bits_of (unat cbits) cur @ rest) = pad"
        using less.prems(1) by (simp add: decoding_def)
      with pad c8 show False by simp
    qed
    then obtain c cs where syms: "syms = c # cs" by (cases syms) simp_all
    with less.prems(1) obtain cb where cb: "cb \<noteq> []" "has_code n cb c"
      and bs: "bits_of (unat cbits) cur @ rest = cb @ concat (map code_bits cs) @ replicate pad True"
      by (auto simp: decoding_def)
    have t8: "take 8 (cb @ ys) = bits_of 8 idx" if "ys = concat (map code_bits cs) @ replicate pad True" for ys
      using arg_cong [OF bs, of "take 8"] c8 idx that by simp
    from cb(2) show ?thesis
    proof (cases rule: has_code_cases)
      case (1 ch)
      define k where "k = length cb"
      have k: "k \<le> 8" "0 < k" using 1(2) cb(1) by (simp_all add: k_def)
      have "take k (bits_of 8 idx) = cb"
        using t8 [OF refl, symmetric] k by (simp add: k_def min_def)
      with 1 have leaf: "child n idx = Inr (Some (Leaf (of_nat k) c))"
        by (simp add: child_def k_def)
      have uk: "unat (cbits - of_nat k) = unat cbits - k"
        using k c8 by (intro unat_code_left) simp
      show ?thesis
      proof (cases "fits maxLen (Suc (length buf))")
        case False
        then have "whole_bytes root maxLen n cur cbits sbits buf = Some (Inr (Inl ErrStringLength))"
          using True leaf limit_check [OF less.prems(3)] by (simp add: whole_bytes.simps [of root] idx_def)
        moreover have "\<not> fits maxLen (length buf + length syms)"
          using False by (auto simp: fits_def syms)
        ultimately show ?thesis by (simp add: loop_outcome_def)
      next
        case fit: True
        have step: "whole_bytes root maxLen n cur cbits sbits buf =
            whole_bytes root maxLen root cur (cbits - of_nat k) (cbits - of_nat k) (buf @ [c])"
          using True leaf limit_check [OF less.prems(3)] fit
          by (auto simp: whole_bytes.simps [of root maxLen n] idx_def)
        have rest': "bits_of (unat cbits - k) cur @ rest
            = concat (map code_bits cs) @ replicate pad True"
          using arg_cong [OF bs, of "drop k"] k c8 by (simp add: drop_bits_of) (simp add: k_def)
        have "decoding root root cs pad (bits_of (unat (cbits - of_nat k)) cur @ rest)"
          unfolding uk rest' by (rule decoding_start [OF root])
        from less.hyps [OF _ this] k c8 uk fit
        have "\<exists>r. whole_bytes root maxLen root cur (cbits - of_nat k) (cbits - of_nat k) (buf @ [c]) = Some r
            \<and> loop_outcome (whole_good root pad cur rest) maxLen (buf @ [c]) cs r" by simp
        then show ?thesis unfolding step syms using loop_outcome_step by blast
      qed
    next
      case (2 ch i m)
      have "take 8 cb = bits_of 8 idx" using t8 [OF refl] 2(2) by simp
      with 2(3) have "i = idx" by simp
      with 2 have ch: "child n idx = Inr (Some m)" by (simp add: child_def)
      from has_code_Internal [OF 2(5)] obtain ch' where m: "m = Internal ch'" by blast
      have step: "whole_bytes root maxLen n cur cbits sbits buf =
          whole_bytes root maxLen m cur (cbits - 8) sbits buf"
        using True ch m by (simp add: whole_bytes.simps [of root maxLen n] idx_def)
      have u8: "unat (cbits - 8) = unat cbits - 8" using unat_code_left [of 8 cbits] c8 by simp
      have "bits_of (unat cbits - 8) cur = drop 8 (bits_of (unat cbits) cur)"
        using c8 by (simp add: drop_bits_of)
      then have "bits_of (unat cbits - 8) cur @ rest = drop 8 cb @ concat (map code_bits cs) @ replicate pad True"
        using arg_cong [OF bs, of "drop 8"] c8 2(2) by simp
      then have "decoding root m syms pad (bits_of (unat (cbits - 8)) cur @ rest)"
        unfolding u8 using 2 by (auto simp: decoding_def syms)
      from less.hyps [OF _ this] c8 u8 less.prems(3) show ?thesis unfolding step by (simp add: syms)
    qed
  qed
qed

definition bytes_good ::
  "node \<Rightarrow> nat \<Rightarrow> u8 list \<Rightarrow> u8 list \<Rightarrow> (node \<times> u64 \<times> u8 \<times> u8 \<times> u8 list) hres \<Rightarrow> bool" where
  "bytes_good root pad buf todo r \<longleftrightarrow>
     (\<exists>n cur cbits sbits. r = Inr (Inr (n, cur, cbits, sbits, buf)) \<and> unat cbits < 8
        \<and> decoding root n todo pad (bits_of (unat cbits) cur) \<and> (todo = [] \<longrightarrow> sbits = cbits))"

lemma loop_outcome_trans:
  assumes "loop_outcome good maxLen buf syms r"
    and "\<And>d todo. syms = d @ todo \<Longrightarrow> fits maxLen (length buf + length d) \<Longrightarrow> good (buf @ d) todo r \<Longrightarrow>
      loop_outcome good' maxLen (buf @ d) todo r'"
    and "r = Inr (Inl ErrStringLength) \<Longrightarrow> r' = Inr (Inl ErrStringLength)"
  shows "loop_outcome good' maxLen buf syms r'"
proof -
  consider (limit) "r = Inr (Inl ErrStringLength)" "\<not> fits maxLen (length buf + length syms)"
    | (go) d todo where "syms = d @ todo" "fits maxLen (length buf + length d)" "good (buf @ d) todo r"
    using assms(1) unfolding loop_outcome_def by blast
  then show ?thesis
  proof cases
    case limit
    with assms(3) show ?thesis by (simp add: loop_outcome_def)
  next
    case go
    from assms(2) [OF go] consider
      "r' = Inr (Inl ErrStringLength)" "\<not> fits maxLen (length (buf @ d) + length todo)"
      | e todo' where "todo = e @ todo'" "fits maxLen (length (buf @ d) + length e)"
        "good' ((buf @ d) @ e) todo' r'"
      unfolding loop_outcome_def by blast
    then show ?thesis
    proof cases
      case 1
      then show ?thesis using go(1) by (simp add: loop_outcome_def add.assoc)
    next
      case 2
      then show ?thesis
        using go(1) unfolding loop_outcome_def
        by (intro disjI2 exI [of _ "d @ e"] exI [of _ todo']) (simp add: add.assoc)
    qed
  qed
qed

lemma decode_bytes_spec:
  assumes root: "\<And>c. has_code root (code_bits c) c" and pad: "pad < 8"
    and "decoding root n syms pad (bits_of (unat cbits) cur @ bytes_bits v)"
    and "unat cbits < 8" and "syms = [] \<longrightarrow> sbits = cbits" and "fits maxLen (length buf)"
  shows "loop_outcome (bytes_good root pad) maxLen buf syms
    (decode_bytes root maxLen n cur cbits sbits buf v)"
  using assms(3-)
proof (induction v arbitrary: n syms cbits cur sbits buf)
  case Nil
  then show ?case
    unfolding loop_outcome_def
    by (intro disjI2 exI [of _ "[]"] exI [of _ syms]) (simp add: bytes_good_def)
next
  case (Cons b v)
  define cur' where "cur' = shl cur 8 OR ucast b"
  have c8: "unat (cbits + 8) = unat cbits + 8" using Cons.prems(2) by (simp add: unat_word_ariths)
  have "bits_of (unat cbits + unat (8 :: u64)) cur' = bits_of (unat cbits) cur @ bits_of (unat (8 :: u64)) (ucast b :: u64)"
    unfolding cur'_def using Cons.prems(2)
    by (intro bits_of_shift_in) (auto simp: bit_ucast_iff dest: bit_imp_le_length)
  then have cur': "bits_of (unat (cbits + 8)) cur' = bits_of (unat cbits) cur @ bits_of 8 b"
    by (simp add: c8 bits_of_ucast)
  have "decoding root n syms pad (bits_of (unat (cbits + 8)) cur' @ bytes_bits v)"
    using Cons.prems(1) by (simp add: cur')
  moreover have "syms = [] \<longrightarrow> sbits + 8 = cbits + 8" using Cons.prems(3) by simp
  ultimately obtain r where r: "whole_bytes root maxLen n cur' (cbits + 8) (sbits + 8) buf = Some r"
    "loop_outcome (whole_good root pad cur' (bytes_bits v)) maxLen buf syms r"
    using whole_bytes_spec [OF root pad] Cons.prems(4) by blast
  let ?r' = "decode_bytes root maxLen n cur cbits sbits buf (b # v)"
  have step: "?r' = hbind r (\<lambda>(n, cbits, sbits, buf). decode_bytes root maxLen n cur' cbits sbits buf v)"
    using r(1) by (simp add: cur'_def [symmetric] Let_def id_def)
  from r(2) show ?case
  proof (rule loop_outcome_trans)
    fix d todo
    assume d: "fits maxLen (length buf + length d)"
      and "whole_good root pad cur' (bytes_bits v) (buf @ d) todo r"
    then obtain n' cb' sb' where w: "r = Inr (Inr (n', cb', sb', buf @ d))" "unat cb' < 8"
      "decoding root n' todo pad (bits_of (unat cb') cur' @ bytes_bits v)" "todo = [] \<longrightarrow> sb' = cb'"
      unfolding whole_good_def by blast
    show "loop_outcome (bytes_good root pad) maxLen (buf @ d) todo ?r'"
      unfolding step using Cons.IH [OF w(3,2,4)] d w(1) by simp
  qed (simp only: step hbind_simps)
qed

text \<open>The padding: a prefix of the end-of-string code, which is all ones, is no symbol.\<close>

definition padding_symbols :: "(u8 \<times> nat \<times> nat) list" where
  "padding_symbols = [(61, 1, 5), (69, 2, 5), (85, 3, 4), (119, 4, 3), (38, 5, 3), (88, 6, 2), (33, 7, 3)]"

lemma padding_codes:
  "\<forall>k \<in> set [1 ..< 8]. \<exists>(c, k', m) \<in> set padding_symbols. k' = k \<and> 0 < m
     \<and> code_bits c = replicate k True @ replicate m False"
  by code_simp

text \<open>At the byte \<open>i\<close> the root has no leaf that is reached within \<open>k\<close> bits.\<close>

definition no_symbol :: "node \<Rightarrow> u8 \<Rightarrow> nat \<Rightarrow> bool" where
  "no_symbol root i k \<longleftrightarrow> (\<exists>ch. child root i = Inr (Some (Internal ch)))
    \<or> (\<exists>l c. child root i = Inr (Some (Leaf l c)) \<and> k < unat l)"

lemma padding_node:
  assumes root: "\<And>c. has_code root (code_bits c) c" and k: "0 < k" "k < 8"
    and i: "bits_of 8 i = replicate k True @ replicate (8 - k) False"
  shows "no_symbol root i k"
proof -
  have "k \<in> set [1 ..< 8]" using k by simp
  from bspec [OF padding_codes this] obtain c m where m: "0 < m" and
    c: "code_bits c = replicate k True @ replicate m False" by blast
  from root [of c] obtain ch where ch: "root = Internal ch" using has_code_Internal by blast
  show ?thesis
  proof (cases "k + m \<le> 8")
    case True
    then have "take (k + m) (bits_of 8 i) = code_bits c"
      unfolding i c using k True by (auto simp: min_def)
    with root [of c] ch True c have "ch i = Some (Leaf (of_nat (k + m)) c)"
      by (simp add: has_code.simps(2))
    moreover have "unat (of_nat (k + m) :: u8) = k + m" using True by (simp only: unat_of_nat) simp
    ultimately show ?thesis using m ch by (simp add: no_symbol_def child_def)
  next
    case False
    then have "take 8 (code_bits c) = bits_of 8 i" unfolding i c using k by (simp add: min_def)
    with root [of c] ch False c obtain n where "ch i = Some n" "has_code n (drop 8 (code_bits c)) c"
      by (auto simp: has_code.simps(2))
    with has_code_Internal ch show ?thesis by (fastforce simp: no_symbol_def child_def)
  qed
qed

definition last_good ::
  "nat \<Rightarrow> u64 \<Rightarrow> u8 list \<Rightarrow> u8 list \<Rightarrow> (u8 \<times> u8 \<times> u8 list) hres \<Rightarrow> bool" where
  "last_good pad cur buf todo r \<longleftrightarrow>
     todo = [] \<and> (\<exists>cbits. r = Inr (Inr (cbits, cbits, buf)) \<and> unat cbits < 8
       \<and> bits_of (unat cbits) cur = replicate pad True)"

lemma last_bits_pad:
  assumes root: "\<And>c. has_code root (code_bits c) c" and c8: "unat cbits < 8"
    and bits: "bits_of (unat cbits) cur = replicate pad True"
  shows "last_bits root maxLen root cur cbits sbits buf = Some (Inr (Inr (cbits, sbits, buf)))"
proof (cases "cbits = 0")
  case False
  define i where "i = (ucast (shl cur (ucast (8 - cbits))) :: u8)"
  have pad: "pad = unat cbits" using arg_cong [OF bits, of length] by simp
  have "0 < unat cbits" using False by (simp add: unat_gt_0)
  moreover have "bits_of 8 i = replicate (unat cbits) True @ replicate (8 - unat cbits) False"
    using last_byte [of cbits cur] c8 bits by (simp add: i_def pad word_less_nat_alt)
  ultimately have "no_symbol root i (unat cbits)" using padding_node [OF root] c8 by blast
  with False show ?thesis
    by (auto simp: no_symbol_def last_bits.simps [of root] i_def word_less_nat_alt word_gt_0)
qed (simp add: last_bits.simps)

lemma last_bits_spec:
  assumes root: "\<And>c. has_code root (code_bits c) c" and pad: "pad < 8"
    and "decoding root n syms pad (bits_of (unat cbits) cur)" and "unat cbits < 8"
    and "syms = [] \<longrightarrow> sbits = cbits" and "fits maxLen (length buf)"
  shows "\<exists>r. last_bits root maxLen n cur cbits sbits buf = Some r
    \<and> loop_outcome (last_good pad cur) maxLen buf syms r"
  using assms(3-)
proof (induction syms arbitrary: n cbits sbits buf)
  case Nil
  then have n: "n = root" "bits_of (unat cbits) cur = replicate pad True" "sbits = cbits"
    by (simp_all add: decoding_def)
  with last_bits_pad [OF root Nil.prems(2)] Nil.prems show ?case
    by (auto simp: loop_outcome_def last_good_def)
next
  case (Cons c cs)
  then obtain cb where cb: "cb \<noteq> []" "has_code n cb c"
    and bs: "bits_of (unat cbits) cur = cb @ concat (map code_bits cs) @ replicate pad True"
    by (auto simp: decoding_def)
  define k where "k = length cb"
  define i where "i = (ucast (shl cur (ucast (8 - cbits))) :: u8)"
  have k: "0 < k" "k \<le> unat cbits" "k < 8"
    using cb(1) arg_cong [OF bs, of length] Cons.prems(2) by (auto simp: k_def)
  have "take k (bits_of 8 i) = cb"
    unfolding i_def using last_byte [of cbits cur] Cons.prems(2) bs k
    by (simp add: word_less_nat_alt) (simp add: k_def)
  with cb(2) k(3) have leaf: "child n i = Inr (Some (Leaf (of_nat k) c))"
    by (cases rule: has_code_cases) (simp_all add: child_def k_def)
  have uk: "unat (of_nat k :: u8) = k" using k by (simp add: unat_of_nat)
  have pos: "cbits > 0" using k by (simp add: word_less_nat_alt)
  have le: "\<not> of_nat k > cbits" using k uk by (simp add: word_less_nat_alt)
  have ck: "unat (cbits - of_nat k) = unat cbits - k" using k by (intro unat_code_left) simp
  show ?case
  proof (cases "fits maxLen (Suc (length buf))")
    case False
    then have "last_bits root maxLen n cur cbits sbits buf = Some (Inr (Inl ErrStringLength))"
      using pos leaf le limit_check [OF Cons.prems(4)] by (simp add: last_bits.simps [of root] i_def)
    moreover have "\<not> fits maxLen (length buf + length (c # cs))" using False by (auto simp: fits_def)
    ultimately show ?thesis by (simp add: loop_outcome_def)
  next
    case True
    have step: "last_bits root maxLen n cur cbits sbits buf =
        last_bits root maxLen root cur (cbits - of_nat k) (cbits - of_nat k) (buf @ [c])"
      using pos leaf le limit_check [OF Cons.prems(4)] True
      by (auto simp: last_bits.simps [of root maxLen n] i_def)
    have "bits_of (unat cbits - k) cur = concat (map code_bits cs) @ replicate pad True"
      using arg_cong [OF bs, of "drop k"] k by (simp add: drop_bits_of) (simp add: k_def)
    then have "decoding root root cs pad (bits_of (unat (cbits - of_nat k)) cur)"
      unfolding ck using decoding_start [OF root] by simp
    from Cons.IH [OF this] ck Cons.prems(2) True
    have "\<exists>r. last_bits root maxLen root cur (cbits - of_nat k) (cbits - of_nat k) (buf @ [c]) = Some r
        \<and> loop_outcome (last_good pad cur) maxLen (buf @ [c]) cs r" by simp
    then show ?thesis unfolding step using loop_outcome_step by blast
  qed
qed

lemma padding_mask:
  fixes cur :: u64 and cbits :: u8
  assumes "unat cbits < 8" and "bits_of (unat cbits) cur = replicate pad True"
  shows "cur AND (shl 1 (ucast cbits) - 1) = shl 1 (ucast cbits) - 1"
proof -
  have m: "shl 1 (ucast cbits) - 1 = (mask (unat cbits) :: u64)"
    by (simp add: prefix_max_alt prefix_max_mask)
  have "bit cur k" if "k < unat cbits" for k
  proof -
    have "length (replicate pad True) = unat cbits" using assms(2) by (metis length_bits_of)
    then have "bits_of (unat cbits) cur ! (unat cbits - Suc k)" using assms(2) that by simp
    then show ?thesis using that by (simp add: nth_bits_of)
  qed
  then show ?thesis unfolding m by (intro bit_word_eqI) (auto simp: bit_simps)
qed

lemma huffmanDecode_written:
  assumes "fits maxLen (length buf)"
  shows "huffmanDecode buf maxLen (AppendHuffmanString [] s) =
    Inr (if fits maxLen (length buf + length s) then Inr (buf @ map byte_of s) else Inl ErrStringLength)"
proof -
  obtain root where root: "getRootHuffmanNode = Inr root" "\<And>c. has_code root (code_bits c) c"
    by (rule root_has_codes) blast
  let ?v = "AppendHuffmanString [] s" and ?cs = "map byte_of s" and ?pad = "pad_bits s"
  note pad = pad_bits_less [of s]
  have "decoding root root ?cs ?pad (bytes_bits ?v)"
    using decoding_start [OF root(2), of ?cs ?pad] AppendHuffmanString_bits [of "[]" s]
    by (simp add: string_bits_def comp_def)
  then have 1: "loop_outcome (bytes_good root ?pad) maxLen buf ?cs (decode_bytes root maxLen root 0 0 0 buf ?v)"
    using decode_bytes_spec [OF root(2) pad, of root ?cs 0 0 ?v 0 maxLen buf] assms by simp
  let ?good = "\<lambda>buf todo r. todo = [] \<and> r = Inr (Inr buf)"
  have "loop_outcome ?good maxLen buf ?cs (huffmanDecode buf maxLen ?v)"
    using 1
  proof (rule loop_outcome_trans)
    fix d todo
    assume fit: "fits maxLen (length buf + length d)"
      and "bytes_good root ?pad (buf @ d) todo (decode_bytes root maxLen root 0 0 0 buf ?v)"
    then obtain n cur cbits sbits where
      dec: "decode_bytes root maxLen root 0 0 0 buf ?v = Inr (Inr (n, cur, cbits, sbits, buf @ d))"
      and st: "unat cbits < 8" "decoding root n todo ?pad (bits_of (unat cbits) cur)"
        "todo = [] \<longrightarrow> sbits = cbits"
      unfolding bytes_good_def by blast
    obtain r where r: "last_bits root maxLen n cur cbits sbits (buf @ d) = Some r"
      "loop_outcome (last_good ?pad cur) maxLen (buf @ d) todo r"
      using last_bits_spec [OF root(2) pad st(2,1,3), of maxLen "buf @ d"] fit by auto
    show "loop_outcome ?good maxLen (buf @ d) todo (huffmanDecode buf maxLen ?v)"
      using r(2)
    proof (rule loop_outcome_trans)
      fix d' todo'
      assume "fits maxLen (length (buf @ d) + length d')" "last_good ?pad cur ((buf @ d) @ d') todo' r"
      then obtain cb where l: "todo' = []" "r = Inr (Inr (cb, cb, (buf @ d) @ d'))" "unat cb < 8"
        "bits_of (unat cb) cur = replicate ?pad True" and f: "fits maxLen (length ((buf @ d) @ d'))"
        unfolding last_good_def by (auto simp: add.assoc)
      have "\<not> cb > 7" using l(3) by (simp add: word_less_nat_alt)
      then have "huffmanDecode buf maxLen ?v = Inr (Inr ((buf @ d) @ d'))"
        using padding_mask [OF l(3,4)]
        unfolding huffmanDecode_def root(1) go_bind_simps dec hbind_simps prod.case r(1) returns_simps
          id_apply l(2) Let_def by simp
      then show "loop_outcome ?good maxLen ((buf @ d) @ d') todo' (huffmanDecode buf maxLen ?v)"
        using l(1) f by (simp add: loop_outcome_def)
    next
      assume "r = Inr (Inl ErrStringLength)"
      then show "huffmanDecode buf maxLen ?v = Inr (Inl ErrStringLength)"
        unfolding huffmanDecode_def root(1) go_bind_simps dec hbind_simps prod.case r(1) by simp
    qed
  next
    assume "decode_bytes root maxLen root 0 0 0 buf ?v = Inr (Inl ErrStringLength)"
    then show "huffmanDecode buf maxLen ?v = Inr (Inl ErrStringLength)"
      unfolding huffmanDecode_def root(1) go_bind_simps by simp
  qed
  then show ?thesis by (auto simp: loop_outcome_def)
qed

lemma str_of_bytes [simp]: "str_of (map byte_of s) = s"
proof -
  have "char_of (unat (of_char c :: u8)) = c" for c :: char
  proof -
    have "(of_char c :: u8) = of_nat (of_char c)" by (rule of_nat_of_char [symmetric])
    moreover have "(of_char c :: nat) < 256" by simp
    ultimately have "unat (of_char c :: u8) = of_char c" by (simp only: unat_of_nat) simp
    then show ?thesis by simp
  qed
  then show ?thesis by (simp add: str_of_def byte_of_def comp_def)
qed

section \<open>Decoding any input\<close>

text \<open>Every leaf of the tree consumes between one and eight bits.\<close>

inductive good_node :: "node \<Rightarrow> bool" where
  leaf: "1 \<le> unat l \<Longrightarrow> unat l \<le> 8 \<Longrightarrow> good_node (Leaf l c)"
| internal: "(\<And>i m. ch i = Some m \<Longrightarrow> good_node m) \<Longrightarrow> good_node (Internal ch)"

inductive_simps good_node_simps: "good_node (Leaf l c)" "good_node (Internal ch)"

lemma good_child: "good_node (Internal ch) \<Longrightarrow> ch i = Some m \<Longrightarrow> good_node m"
  by (simp add: good_node_simps)

lemma good_leaf:
  assumes "good_node (Internal ch)" and "ch i = Some (Leaf l c)"
  shows "1 \<le> unat l" and "unat l \<le> 8"
  using good_child [OF assms] by (simp_all add: good_node_simps)

lemma add_code_Leaf: "add_code (Leaf a b) code l c = Inl NilPanic"
  by (simp add: add_code.simps)

lemma add_code_good:
  assumes "good_node n" and "add_code n code l c = Inr n'" and "1 \<le> unat l"
  shows "good_node n'"
  using assms
proof (induction "unat l" arbitrary: n n' l rule: less_induct)
  case less
  have "\<exists>ch. n = Internal ch" using less.prems(2) by (cases n) (simp_all add: add_code_Leaf)
  then obtain ch where n: "n = Internal ch" by blast
  show ?case
  proof (cases "l > 8")
    case False
    then have "unat l \<le> 8" by (simp add: word_le_nat_alt not_less)
    with False less.prems show ?thesis by (auto simp: n add_code_short good_node_simps split: if_splits)
  next
    case True
    then have l: "8 < unat l" by (simp add: word_less_nat_alt)
    define i where "i = (ucast (shr code (ucast (l - 8))) :: u8)"
    define nx where "nx = (case ch i of None \<Rightarrow> newInternalNode | Some n \<Rightarrow> n)"
    from less.prems(2) True obtain m where m: "add_code nx code (l - 8) c = Inr m"
      "n' = Internal (ch(i \<mapsto> m))"
      by (auto simp: n add_code_long i_def [symmetric] nx_def [symmetric] go_bind_eq_Inr)
    have "good_node nx"
      using less.prems(1) by (auto simp: n nx_def newInternalNode_def good_node_simps split: option.splits)
    with less.hyps [OF _ _ m(1)] code_step(3) [OF l] l have "good_node m" by simp
    with less.prems(1) show ?thesis by (auto simp: n m(2) good_node_simps)
  qed
qed

lemma build_loop_good:
  "k + length codes \<le> 256 \<Longrightarrow> good_node root \<Longrightarrow> build_loop k codes root = Inr root' \<Longrightarrow> good_node root'"
proof (induction k codes root rule: build_loop.induct)
  case (2 k code codes root)
  have k: "k < 256" using "2.prems"(1) by simp
  have "code_len (of_nat k) = huffmanCodeLen ! k" using k by (simp add: code_len_def unat_of_nat)
  then have "1 \<le> unat (huffmanCodeLen ! k)" using code_bounds(1) [of "of_nat k"] by simp
  moreover from "2.prems"(3) obtain r where r: "add_code root code (huffmanCodeLen ! k) (of_nat k) = Inr r"
    "build_loop (Suc k) codes r = Inr root'" by (auto simp: go_bind_eq_Inr)
  ultimately have "good_node r" using "2.prems"(2) add_code_good by blast
  with "2.IH" r "2.prems"(1) show ?case by simp
qed simp

lemma root_good:
  assumes "getRootHuffmanNode = Inr root"
  shows "good_node root" and "\<exists>ch. root = Internal ch"
proof -
  show "good_node root"
    using assms build_loop_good [of 0 huffmanCodes newInternalNode root] code_tables
    by (simp add: getRootHuffmanNode_def buildRootHuffmanNode_def newInternalNode_def good_node_simps
        split: if_splits)
  obtain r where "getRootHuffmanNode = Inr r" "has_code r (code_bits 0) 0"
    by (rule root_has_codes) blast
  with assms have "has_code root (code_bits 0) 0" by (metis sum.inject(2))
  then show "\<exists>ch. root = Internal ch" by (rule has_code_Internal)
qed

text \<open>What every loop guarantees of its result, whatever the input.\<close>

definition loop_safe :: "('r \<Rightarrow> bool) \<Rightarrow> 'r hres \<Rightarrow> bool" where
  "loop_safe good r \<longleftrightarrow>
     r = Inr (Inl ErrInvalidHuffman) \<or> r = Inr (Inl ErrStringLength) \<or> (\<exists>x. r = Inr (Inr x) \<and> good x)"

lemma loop_safe_bind:
  assumes "loop_safe good r" and "\<And>x. good x \<Longrightarrow> loop_safe good' (f x)"
  shows "loop_safe good' (hbind r f)"
proof -
  consider "r = Inr (Inl ErrInvalidHuffman)" | "r = Inr (Inl ErrStringLength)"
    | x where "r = Inr (Inr x)" "good x"
    using assms(1) unfolding loop_safe_def by blast
  then show ?thesis
    by cases (simp_all add: assms(2) loop_safe_def [of _ "Inr (Inl _)"])
qed

definition whole_safe :: "int \<Rightarrow> node \<times> u8 \<times> u8 \<times> u8 list \<Rightarrow> bool" where
  "whole_safe maxLen = (\<lambda>(n, cbits, sbits, buf).
     good_node n \<and> (\<exists>ch. n = Internal ch) \<and> unat cbits < 8 \<and> fits maxLen (length buf))"

lemma whole_bytes_safe:
  assumes root: "good_node root" "\<exists>ch. root = Internal ch"
    and "good_node n" "\<exists>ch. n = Internal ch" "fits maxLen (length buf)"
  shows "\<exists>r. whole_bytes root maxLen n cur cbits sbits buf = Some r \<and> loop_safe (whole_safe maxLen) r"
  using assms(3-)
proof (induction "unat cbits" arbitrary: n cbits sbits buf rule: less_induct)
  case less
  show ?case
  proof (cases "8 \<le> cbits")
    case False
    then have "unat cbits < 8" by (simp add: word_le_nat_alt)
    with False less.prems show ?thesis by (simp add: whole_bytes.simps loop_safe_def whole_safe_def)
  next
    case True
    then have c8: "8 \<le> unat cbits" by (simp add: word_le_nat_alt)
    define i where "i = (ucast (shr cur (ucast (cbits - 8))) :: u8)"
    note unf = whole_bytes.simps [of root maxLen n cur cbits sbits buf, folded i_def]
    from less.prems(2) obtain ch where n: "n = Internal ch" by blast
    consider "ch i = None" | l c where "ch i = Some (Leaf l c)" | ch' where "ch i = Some (Internal ch')"
      by (metis node.exhaust option.exhaust)
    then show ?thesis
    proof cases
      case 1
      then show ?thesis using True unf by (simp add: n child_def loop_safe_def)
    next
      case (2 l c)
      then have l: "1 \<le> unat l" "unat l \<le> 8" using less.prems(1) good_leaf by (simp_all add: n)
      have "unat (cbits - l) = unat cbits - unat l" using l c8 by (subst unat_sub) (simp_all add: word_le_nat_alt)
      with less.hyps [of "cbits - l" root "buf @ [c]"] root l c8 limit_check [OF less.prems(3)] True 2 unf
      show ?thesis by (auto simp: n child_def loop_safe_def)
    next
      case (3 ch')
      have "unat (cbits - 8) = unat cbits - 8" using c8 by (subst unat_sub) (simp_all add: word_le_nat_alt)
      moreover have "good_node (Internal ch')" using less.prems(1) 3 unfolding n by (rule good_child)
      ultimately show ?thesis
        using less.hyps [of "cbits - 8" "Internal ch'" buf] less.prems(3) c8 True 3 unf
        by (simp add: n child_def)
    qed
  qed
qed

definition bytes_safe :: "int \<Rightarrow> node \<times> u64 \<times> u8 \<times> u8 \<times> u8 list \<Rightarrow> bool" where
  "bytes_safe maxLen = (\<lambda>(n, cur, cbits, sbits, buf). whole_safe maxLen (n, cbits, sbits, buf))"

lemma decode_bytes_safe:
  assumes root: "good_node root" "\<exists>ch. root = Internal ch"
    and "whole_safe maxLen (n, cbits, sbits, buf)"
  shows "loop_safe (bytes_safe maxLen) (decode_bytes root maxLen n cur cbits sbits buf v)"
  using assms(3-)
proof (induction v arbitrary: n cur cbits sbits buf)
  case Nil
  then show ?case by (simp add: loop_safe_def bytes_safe_def)
next
  case (Cons b v)
  define cur' where "cur' = shl cur 8 OR ucast b"
  obtain r where r: "whole_bytes root maxLen n cur' (cbits + 8) (sbits + 8) buf = Some r"
    "loop_safe (whole_safe maxLen) r"
    using whole_bytes_safe [OF root, of n maxLen buf cur' "cbits + 8" "sbits + 8"]
      Cons.prems [unfolded whole_safe_def prod.case] by blast
  have "loop_safe (bytes_safe maxLen)
      (hbind r (\<lambda>(n, cbits, sbits, buf). decode_bytes root maxLen n cur' cbits sbits buf v))"
    using r(2) by (rule loop_safe_bind) (auto intro: Cons.IH)
  with r(1) show ?case by (simp add: cur'_def [symmetric] Let_def id_def)
qed

lemma last_bits_safe:
  assumes root: "good_node root" "\<exists>ch. root = Internal ch"
    and "good_node n" "\<exists>ch. n = Internal ch" "fits maxLen (length buf)"
  shows "\<exists>r. last_bits root maxLen n cur cbits sbits buf = Some r
    \<and> loop_safe (\<lambda>(cbits, sbits, buf). fits maxLen (length buf)) r"
  using assms(3-)
proof (induction "unat cbits" arbitrary: n cbits sbits buf rule: less_induct)
  case less
  define i where "i = (ucast (shl cur (ucast (8 - cbits))) :: u8)"
  note unf = last_bits.simps [of root maxLen n cur cbits sbits buf, folded i_def]
  from less.prems(2) obtain ch where n: "n = Internal ch" by blast
  consider "cbits = 0" | "cbits > 0" "ch i = None" | ch' where "cbits > 0" "ch i = Some (Internal ch')"
    | l c where "cbits > 0" "ch i = Some (Leaf l c)" "l > cbits"
    | l c where "cbits > 0" "ch i = Some (Leaf l c)" "\<not> l > cbits"
    by (metis node.exhaust option.exhaust word_gt_0)
  then show ?case
  proof cases
    case (5 l c)
    then have l: "1 \<le> unat l" "unat l \<le> unat cbits"
      using less.prems(1) good_leaf by (simp_all add: n word_less_nat_alt not_less)
    have "unat (cbits - l) = unat cbits - unat l" using l by (subst unat_sub) (simp_all add: word_le_nat_alt)
    with less.hyps [of "cbits - l" root "buf @ [c]"] root l limit_check [OF less.prems(3)] 5 unf
    show ?thesis by (auto simp: n child_def loop_safe_def)
  qed (use unf less.prems(3) in \<open>simp_all add: n child_def loop_safe_def\<close>)
qed

lemma huffmanDecode_safe: "loop_safe (\<lambda>out. fits maxLen (length out)) (huffmanDecode [] maxLen v)"
proof -
  obtain root where root: "getRootHuffmanNode = Inr root" by (rule root_has_codes) blast
  note good = root_good [OF root]
  have fit: "fits maxLen (length [])" by (simp add: fits_def)
  show ?thesis
    unfolding huffmanDecode_def root go_bind_simps
  proof (rule loop_safe_bind)
    show "loop_safe (bytes_safe maxLen) (decode_bytes root maxLen root 0 0 0 [] v)"
      using good fit by (intro decode_bytes_safe) (auto simp: whole_safe_def)
    fix x
    assume x: "bytes_safe maxLen x"
    obtain n cur cbits sbits buf where xe: "x = (n, cur, cbits, sbits, buf)" by (cases x)
    from x obtain r where r: "last_bits root maxLen n cur cbits sbits buf = Some r"
      "loop_safe (\<lambda>(cbits, sbits, buf). fits maxLen (length buf)) r"
      using last_bits_safe [OF good, of n maxLen buf cur cbits sbits]
      unfolding xe bytes_safe_def whole_safe_def prod.case by blast
    show "loop_safe (\<lambda>out. fits maxLen (length out)) ((\<lambda>(n, cur, cbits, sbits, buf).
        hbind (go_bind (returns (last_bits root maxLen n cur cbits sbits buf)) id)
          (\<lambda>(cbits, sbits, buf).
            if sbits > 7 then Inr (Inl ErrInvalidHuffman)
            else let mask = shl 1 (ucast cbits) - 1
                 in if cur AND mask \<noteq> mask then Inr (Inl ErrInvalidHuffman) else Inr (Inr buf))) x)"
      unfolding xe prod.case r(1) returns_simps go_bind_simps id_apply
      using r(2) by (rule loop_safe_bind) (auto simp: loop_safe_def Let_def split: if_splits)
  qed
qed

section \<open>Properties\<close>

text \<open>
  C5: Decoding a Huffman-encoded string gives the string back, for every string: the decoder, which
  walks a tree by whole bytes of input, consumes the codes exactly and accepts the padding. With a
  positive limit, a string longer than the limit is reported as \<open>ErrStringLength\<close>. In particular the
  tree is built and walked without a panic and the loops end.
\<close>
theorem huffman_roundtrip:
  "huffmanDecode [] maxLen (AppendHuffmanString [] s) =
     Inr (if 0 < maxLen \<and> maxLen < int (length s) then Inl ErrStringLength else Inr (map byte_of s))
   \<and> HuffmanDecodeToString (AppendHuffmanString [] s) = Inr (Inr s)"
proof -
  have "fits maxLen (length s) \<longleftrightarrow> \<not> (0 < maxLen \<and> maxLen < int (length s))"
    by (auto simp: fits_def)
  then show ?thesis
    using huffmanDecode_written [of maxLen "[]" s] huffmanDecode_written [of 0 "[]" s]
    by (simp add: fits_def HuffmanDecodeToString_def)
qed

text \<open>
  C29: Decoding is total: on every input the loops end and nothing panics, and with a positive limit
  the output is never longer than the limit.
\<close>
theorem huffmanDecode_total:
  "\<exists>r. huffmanDecode [] maxLen v = Inr r
     \<and> (case r of Inl e \<Rightarrow> e = ErrInvalidHuffman \<or> e = ErrStringLength
        | Inr out \<Rightarrow> maxLen \<le> 0 \<or> int (length out) \<le> maxLen)"
  using huffmanDecode_safe [of maxLen v] by (auto simp: loop_safe_def fits_def)

end
