(* ===== verification/HpackDecode.thy ===== *)
theory HpackDecode
  imports HpackEncode HpackHuffmanDecode
begin

text \<open>
  The HPACK decoder (\<open>src/http2/hpack/hpack.go\<close>): the \<open>Decoder\<close>, which parses header field
  representations off a buffer, keeps unparsed input between calls of \<open>Write\<close>, and calls back with
  every decoded field.

  The callback is the caller's; the model records its calls: \<open>emitted\<close> is the list of fields passed to
  the current callback so far, and installing a callback starts a new list. A callback may switch
  itself off with \<open>SetEmitEnabled(false)\<close>, as the framer's does: \<open>emitStop\<close> tells after which lists of
  calls. \<open>DecodeFull\<close> installs a callback that never does and restores the old one at the end. \<open>buf\<close> and \<open>saveBuf\<close> are byte lists: \<open>Write\<close> copies what it keeps,
  so the sharing between the two slices is never observed. A method that returns an error still returns
  the decoder with the changes it made.
\<close>

section \<open>State\<close>

record Decoder =
  ddynTab :: dynamicTable
  emitted :: "HeaderField list"
  emitStop :: "HeaderField list \<Rightarrow> bool"
  emitEnabled :: bool
  maxStrLen :: int
  dbuf :: "u8 list"
  saveBuf :: "u8 list"
  firstField :: bool

record unencodedString =
  isHuff :: bool
  ub :: "u8 list"

datatype indexType = indexedTrue | indexedFalse | indexedNever

definition indexed :: "indexType \<Rightarrow> bool" where
  "indexed v = (v = indexedTrue)"

definition sensitive :: "indexType \<Rightarrow> bool" where
  "sensitive v = (v = indexedNever)"

definition NewDecoder :: "u32 \<Rightarrow> Decoder res" where
  "NewDecoder maxDynamicTableSize =
     go_bind (setMaxSize (emptyDynamicTable\<lparr>allowedMaxSize := maxDynamicTableSize\<rparr>) maxDynamicTableSize)
       (\<lambda>dt. Inr \<lparr>ddynTab = dt, emitted = [], emitStop = (\<lambda>_. False), emitEnabled = True, maxStrLen = 0, dbuf = [],
                  saveBuf = [], firstField = True\<rparr>)"

definition SetMaxStringLength :: "Decoder \<Rightarrow> int \<Rightarrow> Decoder" where
  "SetMaxStringLength d n = d\<lparr>maxStrLen := n\<rparr>"

definition SetEmitFunc :: "Decoder \<Rightarrow> (HeaderField list \<Rightarrow> bool) \<Rightarrow> Decoder" where
  "SetEmitFunc d stop = d\<lparr>emitted := [], emitStop := stop\<rparr>"

definition SetEmitEnabled :: "Decoder \<Rightarrow> bool \<Rightarrow> Decoder" where
  "SetEmitEnabled d v = d\<lparr>emitEnabled := v\<rparr>"

definition EmitEnabled :: "Decoder \<Rightarrow> bool" where
  "EmitEnabled d = emitEnabled d"

definition decoder_SetMaxDynamicTableSize :: "Decoder \<Rightarrow> u32 \<Rightarrow> Decoder res" where
  "decoder_SetMaxDynamicTableSize d v =
     go_bind (setMaxSize (ddynTab d) v) (\<lambda>dt. Inr (d\<lparr>ddynTab := dt\<rparr>))"

definition SetAllowedMaxDynamicTableSize :: "Decoder \<Rightarrow> u32 \<Rightarrow> Decoder" where
  "SetAllowedMaxDynamicTableSize d v = d\<lparr>ddynTab := (ddynTab d)\<lparr>allowedMaxSize := v\<rparr>\<rparr>"

section \<open>Table lookup\<close>

definition maxTableIndex :: "Decoder \<Rightarrow> nat" where
  "maxTableIndex d = table_len (dtable (ddynTab d)) + table_len staticTable"

text \<open>Indexing a slice with an \<open>int\<close>.\<close>

definition int_get :: "'a list \<Rightarrow> int \<Rightarrow> 'a res" where
  "int_get xs i = (if 0 \<le> i \<and> i < int (length xs) then Inr (xs ! nat i) else Inl IndexPanic)"

definition at :: "Decoder \<Rightarrow> u64 \<Rightarrow> HeaderField option res" where
  "at d i =
     (if i = 0 then Inr None
      else if i \<le> of_nat (table_len staticTable)
      then go_bind (slice_get (ents staticTable) (i - 1)) (\<lambda>hf. Inr (Some hf))
      else if i > of_nat (maxTableIndex d) then Inr None
      else let dt = dtable (ddynTab d)
           in go_bind (int_get (ents dt) (int (table_len dt) - (sint i - int (table_len staticTable))))
                (\<lambda>hf. Inr (Some hf)))"

section \<open>Strings\<close>

definition readString :: "Decoder \<Rightarrow> u8 list \<Rightarrow> (unencodedString \<times> u8 list) hres" where
  "readString d p =
     (case p of
        [] \<Rightarrow> Inr (Inl errNeedMore)
      | b # _ \<Rightarrow>
          let huff = (b AND 128 \<noteq> 0)
          in hbind (readVarInt 7 p) (\<lambda>(strLen, p).
               if maxStrLen d \<noteq> 0 \<and> strLen > of_int (maxStrLen d) then Inr (Inl ErrStringLength)
               else if length p < unat strLen then Inr (Inl errNeedMore)
               else Inr (Inr (\<lparr>isHuff = huff, ub = take (unat strLen) p\<rparr>, drop (unat strLen) p))))"

text \<open>An error of \<open>huffmanDecode\<close> is not reported: the string is empty then.\<close>

definition decodeString :: "Decoder \<Rightarrow> unencodedString \<Rightarrow> string hres" where
  "decodeString d u =
     (if \<not> isHuff u then Inr (Inr (str_of (ub u)))
      else go_bind (huffmanDecode [] (maxStrLen d) (ub u)) (\<lambda>r.
        Inr (Inr (case r of Inl err \<Rightarrow> '''' | Inr buf \<Rightarrow> str_of buf))))"

section \<open>Header field representations\<close>

text \<open>A method on the decoder: its final state and the error it returns.\<close>

type_synonym dres = "(Decoder \<times> hpackError option) res"

definition callEmit :: "Decoder \<Rightarrow> HeaderField \<Rightarrow> Decoder \<times> hpackError option" where
  "callEmit d hf =
     (if maxStrLen d \<noteq> 0 \<and> (int (length (Name hf)) > maxStrLen d \<or> int (length (Value hf)) > maxStrLen d)
      then (d, Some ErrStringLength)
      else if emitEnabled d
      then let log = emitted d @ [hf]
           in (d\<lparr>emitted := log, emitEnabled := \<not> emitStop d log\<rparr>, None)
      else (d, None))"

text \<open>Running a read-only computation; its error ends the method.\<close>

definition dbind :: "Decoder \<Rightarrow> 'a hres \<Rightarrow> ('a \<Rightarrow> dres) \<Rightarrow> dres" where
  "dbind d m f = go_bind m (\<lambda>r. case r of Inl e \<Rightarrow> Inr (d, Some e) | Inr x \<Rightarrow> f x)"

definition parseFieldIndexed :: "Decoder \<Rightarrow> dres" where
  "parseFieldIndexed d =
     dbind d (readVarInt 7 (dbuf d)) (\<lambda>(idx, buf).
       go_bind (at d idx) (\<lambda>r. case r of
         None \<Rightarrow> Inr (d, Some (InvalidIndexError (sint idx)))
       | Some hf \<Rightarrow>
           Inr (callEmit (d\<lparr>dbuf := buf\<rparr>) \<lparr>Name = Name hf, Value = Value hf, Sensitive = False\<rparr>)))"

text \<open>The name of a literal: the indexed name, or a string still to be decoded.\<close>

definition literal_name ::
  "Decoder \<Rightarrow> u64 \<Rightarrow> u8 list \<Rightarrow> (string \<times> unencodedString \<times> u8 list) hres" where
  "literal_name d nameIdx buf =
     (if nameIdx > 0
      then go_bind (at d nameIdx) (\<lambda>r. case r of
             None \<Rightarrow> Inr (Inl (InvalidIndexError (sint nameIdx)))
           | Some ihf \<Rightarrow> Inr (Inr (Name ihf, \<lparr>isHuff = False, ub = []\<rparr>, buf)))
      else hbind (readString d buf) (\<lambda>(undecodedName, buf). Inr (Inr ('''', undecodedName, buf))))"

definition parseFieldLiteral :: "Decoder \<Rightarrow> u8 \<Rightarrow> indexType \<Rightarrow> dres" where
  "parseFieldLiteral d n it =
     dbind d (readVarInt n (dbuf d)) (\<lambda>(nameIdx, buf).
       let wantStr = (emitEnabled d \<or> indexed it)
       in dbind d (literal_name d nameIdx buf) (\<lambda>(name, undecodedName, buf).
            dbind d (readString d buf) (\<lambda>(undecodedValue, buf).
              dbind d (if wantStr \<and> nameIdx \<le> 0 then decodeString d undecodedName
                       else Inr (Inr name)) (\<lambda>name.
                dbind d (if wantStr then decodeString d undecodedValue else Inr (Inr '''')) (\<lambda>val.
                  let d = d\<lparr>dbuf := buf\<rparr>;
                      hf = \<lparr>Name = name, Value = val, Sensitive = False\<rparr>;
                      d = (if indexed it then d\<lparr>ddynTab := dynamicTable_add (ddynTab d) hf\<rparr> else d)
                  in Inr (callEmit d (hf\<lparr>Sensitive := sensitive it\<rparr>)))))))"

definition parseDynamicTableSizeUpdate :: "Decoder \<Rightarrow> dres" where
  "parseDynamicTableSizeUpdate d =
     (if \<not> firstField d \<and> dsize (ddynTab d) > 0
      then Inr (d, Some (DecodingError
             ''dynamic table size update MUST occur at the beginning of a header block''))
      else dbind d (readVarInt 5 (dbuf d)) (\<lambda>(sz, buf).
        if sz > ucast (allowedMaxSize (ddynTab d))
        then Inr (d, Some (DecodingError ''dynamic table size update too large''))
        else go_bind (setMaxSize (ddynTab d) (ucast sz)) (\<lambda>dt.
               Inr (d\<lparr>ddynTab := dt, dbuf := buf\<rparr>, None))))"

text \<open>
  The dispatch on the first byte. The result of the incremental indexing case is dropped, and control
  reaches the end of the function.
\<close>

definition parseHeaderFieldRepr :: "Decoder \<Rightarrow> dres" where
  "parseHeaderFieldRepr d =
     (case dbuf d of
        [] \<Rightarrow> Inl IndexPanic
      | b # _ \<Rightarrow>
          let invalid = (\<lambda>d. Inr (d, Some (DecodingError ''invalid encoding'')))
          in if b AND 128 \<noteq> 0 then parseFieldIndexed d
             else if b AND 192 = 64 then
               go_bind (parseFieldLiteral d 6 indexedTrue) (\<lambda>(d, _). invalid d)
             else if b AND 240 = 0 then parseFieldLiteral d 4 indexedFalse
             else if b AND 240 = 16 then parseFieldLiteral d 4 indexedNever
             else if b AND 224 = 32 then parseDynamicTableSizeUpdate d
             else invalid d)"

section \<open>Parsing consumes input\<close>

lemma dbind_simps [simp]:
  "dbind d (Inl e) f = Inl e"
  "dbind d (Inr (Inl e')) f = Inr (d, Some e')"
  "dbind d (Inr (Inr x)) f = f x"
  by (simp_all add: dbind_def)

lemma dbind_None:
  assumes "dbind d m f = Inr (d', None)"
  obtains x where "m = Inr (Inr x)" "f x = Inr (d', None)"
proof (cases m)
  case (Inr r)
  with assms that show thesis by (cases r) simp_all
qed (use assms in simp)

lemma hbind_ok:
  assumes "hbind m f = Inr (Inr y)"
  obtains x where "m = Inr (Inr x)" "f x = Inr (Inr y)"
proof (cases m)
  case (Inr r)
  with assms that show thesis by (cases r) simp_all
qed (use assms in simp)

lemma callEmit_dbuf: "callEmit d hf = (d', e) \<Longrightarrow> dbuf d' = dbuf d"
  by (auto simp: callEmit_def Let_def split: if_splits)

lemma readVarInt_shorter: "readVarInt n p = Inr (Inr (v, r)) \<Longrightarrow> length r < length p"
  using readVarInt_suffix by fastforce

lemma readString_shorter:
  assumes "readString d p = Inr (Inr (u, r))"
  shows "length r \<le> length p"
proof -
  from assms obtain b q where p: "p = b # q" by (cases p) (auto simp: readString_def)
  from assms obtain l r' where r: "readVarInt 7 p = Inr (Inr (l, r'))" "r = drop (unat l) r'"
    by (auto simp: readString_def p Let_def elim!: hbind_ok split: if_splits)
  then show ?thesis using readVarInt_shorter [OF r(1)] by simp
qed

lemma literal_name_shorter:
  assumes "literal_name d i buf = Inr (Inr (nm, u, r))"
  shows "length r \<le> length buf"
  using assms readString_shorter
  by (auto simp: literal_name_def go_bind_eq_Inr split: if_splits option.splits elim!: hbind_ok)

lemma parseFieldIndexed_consumes:
  assumes "parseFieldIndexed d = Inr (d', None)"
  shows "length (dbuf d') < length (dbuf d)"
proof -
  from assms obtain x where x: "readVarInt 7 (dbuf d) = Inr (Inr x)"
    unfolding parseFieldIndexed_def by (rule dbind_None)
  obtain i buf where ib: "x = (i, buf)" by (cases x)
  have "dbuf d' = buf"
    using assms x unfolding parseFieldIndexed_def ib
    by (auto simp: go_bind_eq_Inr split: option.splits dest!: callEmit_dbuf)
  with readVarInt_shorter [OF x [unfolded ib]] show ?thesis by simp
qed

lemma parseFieldLiteral_consumes:
  assumes "parseFieldLiteral d n it = Inr (d', None)"
  shows "length (dbuf d') < length (dbuf d)"
proof -
  from assms obtain i buf where 1: "readVarInt n (dbuf d) = Inr (Inr (i, buf))"
    unfolding parseFieldLiteral_def by (auto elim!: dbind_None)
  note a1 = assms [unfolded parseFieldLiteral_def 1 dbind_simps prod.case Let_def]
  from a1 obtain nm u buf2 where 2: "literal_name d i buf = Inr (Inr (nm, u, buf2))"
    by (auto elim!: dbind_None)
  note a2 = a1 [unfolded 2 dbind_simps prod.case]
  from a2 obtain v buf3 where 3: "readString d buf2 = Inr (Inr (v, buf3))"
    by (auto elim!: dbind_None)
  note a3 = a2 [unfolded 3 dbind_simps prod.case]
  have "dbuf d' = buf3"
    using a3 by (auto elim!: dbind_None dest!: callEmit_dbuf split: if_splits)
  with readVarInt_shorter [OF 1] literal_name_shorter [OF 2] readString_shorter [OF 3]
  show ?thesis by simp
qed

lemma parseDynamicTableSizeUpdate_consumes:
  assumes "parseDynamicTableSizeUpdate d = Inr (d', None)"
  shows "length (dbuf d') < length (dbuf d)"
proof -
  from assms obtain v buf where 1: "readVarInt 5 (dbuf d) = Inr (Inr (v, buf))"
    unfolding parseDynamicTableSizeUpdate_def by (auto elim!: dbind_None split: if_splits)
  have "dbuf d' = buf"
    using assms unfolding parseDynamicTableSizeUpdate_def 1
    by (auto simp: go_bind_eq_Inr split: if_splits)
  with readVarInt_shorter [OF 1] show ?thesis by simp
qed

lemma parseHeaderFieldRepr_consumes:
  assumes "parseHeaderFieldRepr d = Inr (d', None)"
  shows "length (dbuf d') < length (dbuf d)"
proof (cases "dbuf d")
  case Nil
  with assms show ?thesis by (simp add: parseHeaderFieldRepr_def)
next
  case (Cons b p)
  show ?thesis
    using assms unfolding parseHeaderFieldRepr_def Cons list.case Let_def
    by (auto simp: go_bind_eq_Inr Cons [symmetric] split: if_splits
        intro: parseFieldIndexed_consumes parseFieldLiteral_consumes parseDynamicTableSizeUpdate_consumes)
qed

section \<open>Writing\<close>

text \<open>The loop of \<open>Write\<close>: the result is the count, the error and the final state.\<close>

function write_loop :: "Decoder \<Rightarrow> nat \<Rightarrow> (Decoder \<times> nat \<times> hpackError option) res" where
  "write_loop d lenp =
     (if length (dbuf d) > 0
      then go_bind (parseHeaderFieldRepr d) (\<lambda>(d, err).
        if err = Some errNeedMore
        then let varIntOverhead = 8
             in if maxStrLen d \<noteq> 0 \<and> int (length (dbuf d)) > 2 * (maxStrLen d + varIntOverhead)
                then Inr (d, 0, Some ErrStringLength)
                else Inr (d\<lparr>saveBuf := saveBuf d @ dbuf d\<rparr>, lenp, None)
        else let d = d\<lparr>firstField := False\<rparr>
             in if err \<noteq> None then Inr (d, lenp, err) else write_loop d lenp)
      else Inr (d, lenp, None))"
  by pat_completeness auto
termination
proof (relation "measure (\<lambda>(d, n). length (dbuf d))", goal_cases)
  case 1
  show ?case by simp
next
  case (2 d lenp x d' err d'')
  then have "parseHeaderFieldRepr d = Inr (d', None)" by simp
  from parseHeaderFieldRepr_consumes [OF this] 2 show ?case by simp
qed

declare write_loop.simps [simp del]

definition decoder_Write :: "Decoder \<Rightarrow> u8 list \<Rightarrow> (Decoder \<times> nat \<times> hpackError option) res" where
  "decoder_Write d p =
     (if length p = 0 then Inr (d, 0, None)
      else let d = (if length (saveBuf d) = 0 then d\<lparr>dbuf := p\<rparr>
                    else d\<lparr>dbuf := saveBuf d @ p, saveBuf := []\<rparr>)
           in write_loop d (length p))"

definition decoder_Close :: "Decoder \<Rightarrow> Decoder \<times> hpackError option" where
  "decoder_Close d =
     (if length (saveBuf d) > 0
      then (d\<lparr>saveBuf := []\<rparr>, Some (DecodingError ''truncated headers''))
      else (d\<lparr>firstField := True\<rparr>, None))"

definition DecodeFull :: "Decoder \<Rightarrow> u8 list \<Rightarrow> (Decoder \<times> (hpackError + HeaderField list)) res" where
  "DecodeFull d p =
     (let restore = (\<lambda>d'. d'\<lparr>emitted := emitted d, emitStop := emitStop d\<rparr>)
      in go_bind (decoder_Write (SetEmitFunc d (\<lambda>_. False)) p) (\<lambda>(d, n, err).
           case err of
             Some e \<Rightarrow> Inr (restore d, Inl e)
           | None \<Rightarrow>
               let (d, err) = decoder_Close d
               in case err of
                    Some e \<Rightarrow> Inr (restore d, Inl e)
                  | None \<Rightarrow> Inr (restore d, Inr (emitted d))))"

end
