(* ===== verification/Http2Frame.thy ===== *)
theory Http2Frame
  imports Http2Io HpackDecode
begin

text \<open>
  HTTP/2 frames (\<open>src/http2/http2/frame.go\<close>), their error values (\<open>errors.go\<close>) and settings
  (\<open>http2.go\<close>): the frame header, one parser per frame type, the accessors of a SETTINGS frame, the
  framer's state and the check on the order of frames.

  A parser returns the tokens it passed to \<open>countError\<close> and an error or a frame; a frame is a value, so
  that its payload is what the framer's buffer held when it was parsed. The framer keeps the header
  buffer and the read buffer between calls, because \<open>ReadFull\<close> may leave part of them as they were.
\<close>

unbundle bit_operations_syntax

section \<open>Constants\<close>

type_synonym FrameType = u8
type_synonym Flags = u8
type_synonym ErrCode = u32
type_synonym SettingID = u16

definition frameHeaderLen :: nat where [simp]: "frameHeaderLen = 9"

definition FrameData :: FrameType where [simp]: "FrameData = 0x0"
definition FrameHeaders :: FrameType where [simp]: "FrameHeaders = 0x1"
definition FramePriority :: FrameType where [simp]: "FramePriority = 0x2"
definition FrameRSTStream :: FrameType where [simp]: "FrameRSTStream = 0x3"
definition FrameSettings :: FrameType where [simp]: "FrameSettings = 0x4"
definition FramePushPromise :: FrameType where [simp]: "FramePushPromise = 0x5"
definition FramePing :: FrameType where [simp]: "FramePing = 0x6"
definition FrameGoAway :: FrameType where [simp]: "FrameGoAway = 0x7"
definition FrameWindowUpdate :: FrameType where [simp]: "FrameWindowUpdate = 0x8"
definition FrameContinuation :: FrameType where [simp]: "FrameContinuation = 0x9"

definition FlagDataEndStream :: Flags where [simp]: "FlagDataEndStream = 0x1"
definition FlagDataPadded :: Flags where [simp]: "FlagDataPadded = 0x8"
definition FlagHeadersEndStream :: Flags where [simp]: "FlagHeadersEndStream = 0x1"
definition FlagHeadersEndHeaders :: Flags where [simp]: "FlagHeadersEndHeaders = 0x4"
definition FlagHeadersPadded :: Flags where [simp]: "FlagHeadersPadded = 0x8"
definition FlagHeadersPriority :: Flags where [simp]: "FlagHeadersPriority = 0x20"
definition FlagSettingsAck :: Flags where [simp]: "FlagSettingsAck = 0x1"
definition FlagPingAck :: Flags where [simp]: "FlagPingAck = 0x1"
definition FlagContinuationEndHeaders :: Flags where [simp]: "FlagContinuationEndHeaders = 0x4"
definition FlagPushPromiseEndHeaders :: Flags where [simp]: "FlagPushPromiseEndHeaders = 0x4"
definition FlagPushPromisePadded :: Flags where [simp]: "FlagPushPromisePadded = 0x8"

definition ErrCodeProtocol :: ErrCode where [simp]: "ErrCodeProtocol = 0x1"
definition ErrCodeFlowControl :: ErrCode where [simp]: "ErrCodeFlowControl = 0x3"
definition ErrCodeFrameSize :: ErrCode where [simp]: "ErrCodeFrameSize = 0x6"
definition ErrCodeCompression :: ErrCode where [simp]: "ErrCodeCompression = 0x9"

definition SettingEnablePush :: SettingID where [simp]: "SettingEnablePush = 0x2"
definition SettingInitialWindowSize :: SettingID where [simp]: "SettingInitialWindowSize = 0x4"
definition SettingMaxFrameSize :: SettingID where [simp]: "SettingMaxFrameSize = 0x5"

definition Has :: "Flags \<Rightarrow> Flags \<Rightarrow> bool" where
  "Has f v \<longleftrightarrow> f AND v = v"

text \<open>Decimal numbers, as \<open>%d\<close> prints them.\<close>

fun dec :: "nat \<Rightarrow> string" where
  "dec n = (if n < 10 then [char_of (48 + n)] else dec (n div 10) @ [char_of (48 + n mod 10)])"

declare dec.simps [simp del]

definition frameName :: "FrameType \<Rightarrow> string option" where
  "frameName = map_of
     [(FrameData, ''DATA''), (FrameHeaders, ''HEADERS''), (FramePriority, ''PRIORITY''),
      (FrameRSTStream, ''RST_STREAM''), (FrameSettings, ''SETTINGS''),
      (FramePushPromise, ''PUSH_PROMISE''), (FramePing, ''PING''), (FrameGoAway, ''GOAWAY''),
      (FrameWindowUpdate, ''WINDOW_UPDATE''), (FrameContinuation, ''CONTINUATION'')]"

definition FrameType_String :: "FrameType \<Rightarrow> string" where
  "FrameType_String t = (case frameName t of Some s \<Rightarrow> s | None \<Rightarrow> ''UNKNOWN_FRAME_TYPE_'' @ dec (unat t))"

section \<open>Errors\<close>

text \<open>The causes of a malformed header list.\<close>

datatype headerError =
    pseudoHeaderError string
  | duplicatePseudoHeaderError string
  | headerFieldNameError string
  | headerFieldValueError string
  | errMixPseudoHeaderTypes
  | errPseudoAfterRegular

datatype h2error =
    IoError ioError
  | ConnectionError ErrCode
  | StreamError u32 ErrCode "headerError option"
  | connError ErrCode string
  | ErrFrameTooLarge
  | errStreamID
  | errDepStreamID
  | errPadLength
  | errPadBytes
  | errorsNew string

definition streamError :: "u32 \<Rightarrow> ErrCode \<Rightarrow> h2error" where
  "streamError i code = StreamError i code None"

definition terminalReadFrameError :: "h2error option \<Rightarrow> bool" where
  "terminalReadFrameError err = (case err of Some (StreamError _ _ _) \<Rightarrow> False | _ \<Rightarrow> err \<noteq> None)"

section \<open>Frames\<close>

record FrameHeader =
  fh_valid :: bool
  fh_Type :: FrameType
  fh_Flags :: Flags
  fh_Length :: u32
  fh_StreamID :: u32

record PriorityParam =
  StreamDep :: u32
  Exclusive :: bool
  Weight :: u8

record Setting =
  ID :: SettingID
  Val :: u32

record MetaHeaders =
  mh_Fields :: "HeaderField list"
  Truncated :: bool

datatype Frame =
    DataFrame FrameHeader "u8 list"
  | SettingsFrame FrameHeader "u8 list"
  | PingFrame FrameHeader "u8 list"
  | GoAwayFrame FrameHeader u32 ErrCode "u8 list"
  | UnknownFrame FrameHeader "u8 list"
  | WindowUpdateFrame FrameHeader u32
  | HeadersFrame FrameHeader PriorityParam "u8 list"
  | PriorityFrame FrameHeader PriorityParam
  | RSTStreamFrame FrameHeader ErrCode
  | ContinuationFrame FrameHeader "u8 list"
  | PushPromiseFrame FrameHeader u32 "u8 list"
  | MetaHeadersFrame FrameHeader PriorityParam MetaHeaders

fun Header :: "Frame \<Rightarrow> FrameHeader" where
  "Header (DataFrame h _) = h"
| "Header (SettingsFrame h _) = h"
| "Header (PingFrame h _) = h"
| "Header (GoAwayFrame h _ _ _) = h"
| "Header (UnknownFrame h _) = h"
| "Header (WindowUpdateFrame h _) = h"
| "Header (HeadersFrame h _ _) = h"
| "Header (PriorityFrame h _) = h"
| "Header (RSTStreamFrame h _) = h"
| "Header (ContinuationFrame h _) = h"
| "Header (PushPromiseFrame h _ _) = h"
| "Header (MetaHeadersFrame h _ _) = h"

definition checkValid :: "FrameHeader \<Rightarrow> unit res" where
  "checkValid h = (if fh_valid h then Inr () else Inl (Panic ''Frame accessor called on non-owned Frame''))"

definition zeroPriority :: PriorityParam where
  "zeroPriority = \<lparr>StreamDep = 0, Exclusive = False, Weight = 0\<rparr>"

definition IsZero :: "PriorityParam \<Rightarrow> bool" where
  "IsZero p \<longleftrightarrow> p = zeroPriority"

section \<open>Reading fields of a payload\<close>

definition readByte :: "u8 list \<Rightarrow> ioError + u8 list \<times> u8" where
  "readByte p = (case p of [] \<Rightarrow> Inl ErrUnexpectedEOF | b # q \<Rightarrow> Inr (q, b))"

definition readUint32 :: "u8 list \<Rightarrow> (ioError + u8 list \<times> u32) res" where
  "readUint32 p =
     (if length p < 4 then Inr (Inl ErrUnexpectedEOF)
      else go_bind (Uint32 (take 4 p)) (\<lambda>v. Inr (Inr (drop 4 p, v))))"

text \<open>The result of a parser: the tokens given to \<open>countError\<close>, and an error or the frame.\<close>

type_synonym parsed = "(string list \<times> (h2error + Frame)) res"

abbreviation parse_error :: "string list \<Rightarrow> h2error \<Rightarrow> parsed" where
  "parse_error toks e \<equiv> Inr (toks, Inl e)"

abbreviation parse_ok :: "Frame \<Rightarrow> parsed" where
  "parse_ok f \<equiv> Inr ([], Inr f)"

text \<open>The optional leading byte of a padded payload.\<close>

definition readPad :: "bool \<Rightarrow> u8 list \<Rightarrow> string \<Rightarrow> (u8 list \<Rightarrow> u8 \<Rightarrow> parsed) \<Rightarrow> parsed" where
  "readPad padded p tok k =
     (if padded
      then case readByte p of
             Inl e \<Rightarrow> parse_error [tok] (IoError e)
           | Inr (p, n) \<Rightarrow> k p n
      else k p 0)"

section \<open>Parsers\<close>

definition parseDataFrame :: "FrameHeader \<Rightarrow> u8 list \<Rightarrow> parsed" where
  "parseDataFrame fh payload =
     (if fh_StreamID fh = 0
      then parse_error [''frame_data_stream_0''] (connError ErrCodeProtocol ''DATA frame with stream ID 0'')
      else readPad (Has (fh_Flags fh) FlagHeadersPadded) payload ''frame_data_pad_byte_short''
        (\<lambda>payload padSize.
           if unat padSize > length payload
           then parse_error [''frame_data_pad_too_big'']
                  (connError ErrCodeProtocol ''pad size larger than data payload'')
           else parse_ok (DataFrame fh (take (length payload - unat padSize) payload))))"

text \<open>Settings: six bytes each.\<close>

definition NumSettings :: "u8 list \<Rightarrow> nat" where
  "NumSettings p = length p div 6"

definition subslice :: "'a list \<Rightarrow> nat \<Rightarrow> nat \<Rightarrow> 'a list res" where
  "subslice xs lo hi = (if lo \<le> hi \<and> hi \<le> length xs then Inr (take (hi - lo) (drop lo xs)) else Inl IndexPanic)"

definition Setting_at :: "u8 list \<Rightarrow> nat \<Rightarrow> Setting res" where
  "Setting_at buf i =
     go_bind (subslice buf (i * 6) (i * 6 + 2)) (\<lambda>a. go_bind (Uint16 a) (\<lambda>k.
       go_bind (subslice buf (i * 6 + 2) (i * 6 + 6)) (\<lambda>b. go_bind (Uint32 b) (\<lambda>v.
         Inr \<lparr>ID = k, Val = v\<rparr>))))"

fun value_loop :: "u8 list \<Rightarrow> SettingID \<Rightarrow> nat list \<Rightarrow> u32 option res" where
  "value_loop p k [] = Inr None"
| "value_loop p k (i # is) =
     go_bind (Setting_at p i) (\<lambda>s. if ID s = k then Inr (Some (Val s)) else value_loop p k is)"

definition Value_of :: "FrameHeader \<Rightarrow> u8 list \<Rightarrow> SettingID \<Rightarrow> u32 option res" where
  "Value_of fh p k = go_bind (checkValid fh) (\<lambda>_. value_loop p k [0..<NumSettings p])"

definition parseSettingsFrame :: "FrameHeader \<Rightarrow> u8 list \<Rightarrow> parsed" where
  "parseSettingsFrame fh p =
     (if Has (fh_Flags fh) FlagSettingsAck \<and> fh_Length fh > 0
      then parse_error [''frame_settings_ack_with_length''] (ConnectionError ErrCodeFrameSize)
      else if fh_StreamID fh \<noteq> 0
      then parse_error [''frame_settings_has_stream''] (ConnectionError ErrCodeProtocol)
      else if length p mod 6 \<noteq> 0
      then parse_error [''frame_settings_mod_6''] (ConnectionError ErrCodeFrameSize)
      else go_bind (Value_of fh p SettingInitialWindowSize) (\<lambda>r. case r of
             Some v \<Rightarrow>
               if v > 0x7fffffff
               then parse_error [''frame_settings_window_size_too_big''] (ConnectionError ErrCodeFlowControl)
               else parse_ok (SettingsFrame fh p)
           | None \<Rightarrow> parse_ok (SettingsFrame fh p)))"

definition parsePingFrame :: "FrameHeader \<Rightarrow> u8 list \<Rightarrow> parsed" where
  "parsePingFrame fh payload =
     (if length payload \<noteq> 8
      then parse_error [''frame_ping_length''] (ConnectionError ErrCodeFrameSize)
      else if fh_StreamID fh \<noteq> 0
      then parse_error [''frame_ping_has_stream''] (ConnectionError ErrCodeProtocol)
      else parse_ok (PingFrame fh (copy_at (replicate 8 0) 0 payload)))"

text \<open>The error code is read from the first eight bytes, so from the first four of them.\<close>

definition parseGoAwayFrame :: "FrameHeader \<Rightarrow> u8 list \<Rightarrow> parsed" where
  "parseGoAwayFrame fh p =
     (if fh_StreamID fh \<noteq> 0
      then parse_error [''frame_goaway_has_stream''] (ConnectionError ErrCodeProtocol)
      else if length p < 8
      then parse_error [''frame_goaway_short''] (ConnectionError ErrCodeFrameSize)
      else go_bind (Uint32 (take 4 p)) (\<lambda>l. go_bind (Uint32 (take 8 p)) (\<lambda>c.
             parse_ok (GoAwayFrame fh (l AND 0x7fffffff) c (drop 8 p)))))"

definition parseUnknownFrame :: "FrameHeader \<Rightarrow> u8 list \<Rightarrow> parsed" where
  "parseUnknownFrame fh p = parse_ok (UnknownFrame fh p)"

definition parseWindowUpdateFrame :: "FrameHeader \<Rightarrow> u8 list \<Rightarrow> parsed" where
  "parseWindowUpdateFrame fh p =
     (if length p \<noteq> 4
      then parse_error [''frame_windowupdate_bad_len''] (ConnectionError ErrCodeFrameSize)
      else go_bind (Uint32 (take 4 p)) (\<lambda>v.
             let inc = v AND 0x7fffffff
             in if inc = 0
                then if fh_StreamID fh = 0 then parse_error [] (ConnectionError ErrCodeProtocol)
                     else parse_error [''frame_windowupdate_zero_inc_stream'']
                            (streamError (fh_StreamID fh) ErrCodeProtocol)
                else parse_ok (WindowUpdateFrame fh inc)))"

text \<open>The priority fields of a HEADERS frame.\<close>

definition readPriority :: "bool \<Rightarrow> u8 list \<Rightarrow> (u8 list \<Rightarrow> PriorityParam \<Rightarrow> parsed) \<Rightarrow> parsed" where
  "readPriority present p k =
     (if present
      then go_bind (readUint32 p) (\<lambda>r. case r of
             Inl e \<Rightarrow> parse_error [''frame_headers_prio_short''] (IoError e)
           | Inr (p, v) \<Rightarrow>
               let dep = v AND 0x7fffffff
               in case readByte p of
                    Inl e \<Rightarrow> parse_error [''frame_headers_prio_weight_short''] (IoError e)
                  | Inr (p, w) \<Rightarrow> k p \<lparr>StreamDep = dep, Exclusive = (v \<noteq> dep), Weight = w\<rparr>)
      else k p zeroPriority)"

definition parseHeadersFrame :: "FrameHeader \<Rightarrow> u8 list \<Rightarrow> parsed" where
  "parseHeadersFrame fh p =
     (if fh_StreamID fh = 0
      then parse_error [''frame_headers_zero_stream''] (connError ErrCodeProtocol ''HEADERS frame with stream ID 0'')
      else readPad (Has (fh_Flags fh) FlagHeadersPadded) p ''frame_headers_pad_short'' (\<lambda>p padLength.
        readPriority (Has (fh_Flags fh) FlagHeadersPriority) p (\<lambda>p prio.
          if int (length p) - int (unat padLength) < 0
          then parse_error [''frame_headers_pad_too_big''] (streamError (fh_StreamID fh) ErrCodeProtocol)
          else parse_ok (HeadersFrame fh prio (take (length p - unat padLength) p)))))"

definition parsePriorityFrame :: "FrameHeader \<Rightarrow> u8 list \<Rightarrow> parsed" where
  "parsePriorityFrame fh payload =
     (if fh_StreamID fh = 0
      then parse_error [''frame_priority_zero_stream''] (connError ErrCodeProtocol ''PRIORITY frame stream ID 0'')
      else if length payload \<noteq> 5
      then parse_error [] (connError ErrCodeFrameSize
             (''PRIORITY frame payload size was '' @ dec (length payload) @ ''; want 5''))
      else go_bind (Uint32 (take 4 payload)) (\<lambda>v.
             let streamID = v AND 0x7fffffff
             in parse_ok (PriorityFrame fh
                  \<lparr>StreamDep = streamID, Exclusive = (streamID \<noteq> v), Weight = payload ! 4\<rparr>)))"

definition parseRSTStreamFrame :: "FrameHeader \<Rightarrow> u8 list \<Rightarrow> parsed" where
  "parseRSTStreamFrame fh p =
     (if length p \<noteq> 4
      then parse_error [''frame_rststream_bad_len''] (ConnectionError ErrCodeFrameSize)
      else if fh_StreamID fh = 0
      then parse_error [''frame_rststream_zero_stream''] (ConnectionError ErrCodeProtocol)
      else go_bind (Uint32 (take 4 p)) (\<lambda>c. parse_ok (RSTStreamFrame fh c)))"

definition parseContinuationFrame :: "FrameHeader \<Rightarrow> u8 list \<Rightarrow> parsed" where
  "parseContinuationFrame fh p =
     (if fh_StreamID fh = 0
      then parse_error [''frame_continuation_zero_stream'']
             (connError ErrCodeProtocol ''CONTINUATION frame with stream ID 0'')
      else parse_ok (ContinuationFrame fh p))"

definition parsePushPromise :: "FrameHeader \<Rightarrow> u8 list \<Rightarrow> parsed" where
  "parsePushPromise fh p =
     (if fh_StreamID fh = 0
      then parse_error [''frame_pushpromise_zero_stream''] (ConnectionError ErrCodeProtocol)
      else readPad (Has (fh_Flags fh) FlagPushPromisePadded) p ''frame_pushpromise_pad_short'' (\<lambda>p padLength.
        go_bind (readUint32 p) (\<lambda>r. case r of
          Inl e \<Rightarrow> parse_error [''frame_pushpromise_promiseid_short''] (IoError e)
        | Inr (p, v) \<Rightarrow>
            if unat padLength > length p
            then parse_error [''frame_pushpromise_pad_too_big''] (ConnectionError ErrCodeProtocol)
            else parse_ok (PushPromiseFrame fh (v AND 0x7fffffff) (take (length p - unat padLength) p)))))"

definition typeFrameParser :: "FrameType \<Rightarrow> FrameHeader \<Rightarrow> u8 list \<Rightarrow> parsed" where
  "typeFrameParser t =
     (if t = FrameData then parseDataFrame
      else if t = FrameHeaders then parseHeadersFrame
      else if t = FramePriority then parsePriorityFrame
      else if t = FrameRSTStream then parseRSTStreamFrame
      else if t = FrameSettings then parseSettingsFrame
      else if t = FramePushPromise then parsePushPromise
      else if t = FramePing then parsePingFrame
      else if t = FrameGoAway then parseGoAwayFrame
      else if t = FrameWindowUpdate then parseWindowUpdateFrame
      else if t = FrameContinuation then parseContinuationFrame
      else parseUnknownFrame)"

section \<open>Accessors\<close>

fun StreamEnded :: "Frame \<Rightarrow> bool" where
  "StreamEnded (DataFrame h _) = Has (fh_Flags h) FlagDataEndStream"
| "StreamEnded f = Has (fh_Flags (Header f)) FlagHeadersEndStream"

definition IsAck :: "Frame \<Rightarrow> bool" where
  "IsAck f = Has (fh_Flags (Header f)) FlagSettingsAck"

definition HeadersEnded :: "Frame \<Rightarrow> bool" where
  "HeadersEnded f = Has (fh_Flags (Header f)) FlagHeadersEndHeaders"

definition HasPriority :: "Frame \<Rightarrow> bool" where
  "HasPriority f = Has (fh_Flags (Header f)) FlagHeadersPriority"

text \<open>The accessors of a byte field (\<open>Data\<close>, \<open>DebugData\<close>, \<open>Payload\<close>, \<open>HeaderBlockFragment\<close>).\<close>

fun frame_bytes_of :: "Frame \<Rightarrow> u8 list" where
  "frame_bytes_of (DataFrame _ b) = b"
| "frame_bytes_of (GoAwayFrame _ _ _ b) = b"
| "frame_bytes_of (UnknownFrame _ b) = b"
| "frame_bytes_of (HeadersFrame _ _ b) = b"
| "frame_bytes_of (ContinuationFrame _ b) = b"
| "frame_bytes_of (PushPromiseFrame _ _ b) = b"
| "frame_bytes_of _ = []"

definition frame_bytes :: "Frame \<Rightarrow> u8 list res" where
  "frame_bytes f = go_bind (checkValid (Header f)) (\<lambda>_. Inr (frame_bytes_of f))"

text \<open>The loops of \<open>HasDuplicates\<close>: over pairs of indices, and with a map of the ids seen.\<close>

fun dup_inner :: "u8 list \<Rightarrow> SettingID \<Rightarrow> nat list \<Rightarrow> bool res" where
  "dup_inner p idi [] = Inr False"
| "dup_inner p idi (j # js) =
     go_bind (Setting_at p j) (\<lambda>s. if idi = ID s then Inr True else dup_inner p idi js)"

fun dup_outer :: "u8 list \<Rightarrow> nat \<Rightarrow> nat list \<Rightarrow> bool res" where
  "dup_outer p num [] = Inr False"
| "dup_outer p num (i # is) =
     go_bind (Setting_at p i) (\<lambda>s. go_bind (dup_inner p (ID s) [i + 1..<num]) (\<lambda>b.
       if b then Inr True else dup_outer p num is))"

fun dup_seen :: "u8 list \<Rightarrow> (SettingID \<Rightarrow> bool) \<Rightarrow> nat list \<Rightarrow> bool res" where
  "dup_seen p seen [] = Inr False"
| "dup_seen p seen (i # is) =
     go_bind (Setting_at p i) (\<lambda>s. if seen (ID s) then Inr True else dup_seen p (seen(ID s := True)) is)"

definition HasDuplicates :: "u8 list \<Rightarrow> bool res" where
  "HasDuplicates p =
     (let num = NumSettings p
      in if num = 0 then Inr False
         else go_bind (if num < 10 then dup_outer p num [0..<num] else Inr False) (\<lambda>b.
                if b then Inr True else dup_seen p (\<lambda>_. False) [0..<num]))"

text \<open>\<open>ForEachSetting\<close> calls a function with a state of its own; an error ends the loop.\<close>

fun each_loop :: "(Setting \<Rightarrow> 's \<Rightarrow> 's \<times> h2error option) \<Rightarrow> u8 list \<Rightarrow> nat list \<Rightarrow> 's
    \<Rightarrow> ('s \<times> h2error option) res" where
  "each_loop fn p [] s = Inr (s, None)"
| "each_loop fn p (i # is) s =
     go_bind (Setting_at p i) (\<lambda>x. case fn x s of
       (s, Some e) \<Rightarrow> Inr (s, Some e) | (s, None) \<Rightarrow> each_loop fn p is s)"

definition ForEachSetting :: "(Setting \<Rightarrow> 's \<Rightarrow> 's \<times> h2error option) \<Rightarrow> FrameHeader \<Rightarrow> u8 list \<Rightarrow> 's
    \<Rightarrow> ('s \<times> h2error option) res" where
  "ForEachSetting fn fh p s = go_bind (checkValid fh) (\<lambda>_. each_loop fn p [0..<NumSettings p] s)"

definition Setting_Valid :: "Setting \<Rightarrow> h2error option" where
  "Setting_Valid s =
     (if ID s = SettingEnablePush
      then if Val s \<noteq> 1 \<and> Val s \<noteq> 0 then Some (ConnectionError ErrCodeProtocol) else None
      else if ID s = SettingInitialWindowSize
      then if Val s > 0x7fffffff then Some (ConnectionError ErrCodeFlowControl) else None
      else if ID s = SettingMaxFrameSize
      then if Val s < 16384 \<or> Val s > 0xffffff then Some (ConnectionError ErrCodeProtocol) else None
      else None)"

section \<open>The framer\<close>

datatype detail = Reason string | Cause headerError

record ('r, 'w) Framer =
  fr_r :: 'r
  lastFrame :: "Frame option"
  errDetail :: "detail option"
  counted :: "string list"
  lastHeaderStream :: u32
  maxReadSize :: u32
  headerBuf :: "u8 list"
  readBuf :: "u8 list"
  fr_w :: 'w
  wbuf :: "u8 list"
  AllowIllegalWrites :: bool
  AllowIllegalReads :: bool
  ReadMetaHeaders :: "Decoder option"
  MaxHeaderListSize :: u32

definition maxFrameSize :: u32 where
  "maxFrameSize = 0xffffff"

definition SetMaxReadFrameSize :: "('r, 'w) Framer \<Rightarrow> u32 \<Rightarrow> ('r, 'w) Framer" where
  "SetMaxReadFrameSize fr v = fr\<lparr>maxReadSize := (if v > maxFrameSize then maxFrameSize else v)\<rparr>"

definition NewFramer :: "'w \<Rightarrow> 'r \<Rightarrow> ('r, 'w) Framer" where
  "NewFramer w r = SetMaxReadFrameSize
     \<lparr>fr_r = r, lastFrame = None, errDetail = None, counted = [], lastHeaderStream = 0, maxReadSize = 0,
      headerBuf = replicate frameHeaderLen 0, readBuf = [], fr_w = w, wbuf = [],
      AllowIllegalWrites = False, AllowIllegalReads = False, ReadMetaHeaders = None,
      MaxHeaderListSize = 0\<rparr> maxFrameSize"

definition maxHeaderListSize :: "('r, 'w) Framer \<Rightarrow> u32" where
  "maxHeaderListSize fr = (if MaxHeaderListSize fr = 0 then 0x1000000 else MaxHeaderListSize fr)"

text \<open>\<open>getReadBuf\<close>: a slice of the read buffer, or a new buffer when it is too small.\<close>

definition getReadBuf :: "('r, 'w) Framer \<Rightarrow> u32 \<Rightarrow> ('r, 'w) Framer \<times> u8 list" where
  "getReadBuf fr sz =
     (if length (readBuf fr) \<ge> unat sz then (fr, take (unat sz) (readBuf fr))
      else let b = replicate (unat sz) 0 in (fr\<lparr>readBuf := b\<rparr>, b))"

definition framer_connError :: "('r, 'w) Framer \<Rightarrow> ErrCode \<Rightarrow> string \<Rightarrow> ('r, 'w) Framer \<times> h2error" where
  "framer_connError fr code reason = (fr\<lparr>errDetail := Some (Reason reason)\<rparr>, ConnectionError code)"

definition checkFrameOrder :: "('r, 'w) Framer \<Rightarrow> Frame \<Rightarrow> (('r, 'w) Framer \<times> h2error option) res" where
  "checkFrameOrder fr f =
     (let last = lastFrame fr; fr = fr\<lparr>lastFrame := Some f\<rparr>
      in if AllowIllegalReads fr then Inr (fr, None)
         else let fh = Header f;
                  fail = (\<lambda>reason. let (fr, e) = framer_connError fr ErrCodeProtocol reason in Inr (fr, Some e));
                  accept = Inr (if fh_Type fh = FrameHeaders \<or> fh_Type fh = FrameContinuation
                                then if Has (fh_Flags fh) FlagHeadersEndHeaders then fr\<lparr>lastHeaderStream := 0\<rparr>
                                     else fr\<lparr>lastHeaderStream := fh_StreamID fh\<rparr>
                                else fr, None)
              in if lastHeaderStream fr \<noteq> 0
                 then if fh_Type fh \<noteq> FrameContinuation
                      then case last of
                             None \<Rightarrow> Inl NilPanic
                           | Some l \<Rightarrow> fail (''got '' @ FrameType_String (fh_Type fh) @ '' for stream ''
                               @ dec (unat (fh_StreamID fh)) @ ''; expected CONTINUATION following ''
                               @ FrameType_String (fh_Type (Header l)) @ '' for stream ''
                               @ dec (unat (lastHeaderStream fr)))
                      else if fh_StreamID fh \<noteq> lastHeaderStream fr
                      then fail (''got CONTINUATION for stream '' @ dec (unat (fh_StreamID fh))
                             @ ''; expected stream '' @ dec (unat (lastHeaderStream fr)))
                      else accept
                 else if fh_Type fh = FrameContinuation
                 then fail (''unexpected CONITNUATION for stream '' @ dec (unat (fh_StreamID fh)))
                 else accept)"

section \<open>Reading one frame\<close>

definition readFrameHeader ::
  "'r reader \<Rightarrow> u8 list \<Rightarrow> 'r \<Rightarrow> ('r \<times> u8 list \<times> (ioError + FrameHeader)) res option" where
  "readFrameHeader rd buf r =
     map_option (\<lambda>(r, buf, n, err). case err of
         Some e \<Rightarrow> Inr (r, buf, Inl e)
       | None \<Rightarrow> go_bind (Uint32 (drop 5 buf)) (\<lambda>sid.
           Inr (r, buf, Inr
             \<lparr>fh_valid = True, fh_Type = buf ! 3, fh_Flags = buf ! 4,
              fh_Length = shl (ucast (buf ! 0)) 16 OR shl (ucast (buf ! 1)) 8 OR ucast (buf ! 2),
              fh_StreamID = sid AND 0x7fffffff\<rparr>)))
     (ReadFull rd r (take frameHeaderLen buf))"

text \<open>Sequencing of computations that may fail or not return.\<close>

definition obind :: "'a res option \<Rightarrow> ('a \<Rightarrow> 'b res option) \<Rightarrow> 'b res option" where
  "obind m f = Option.bind m (\<lambda>r. case r of Inl e \<Rightarrow> Some (Inl e) | Inr x \<Rightarrow> f x)"

lemma obind_simps [simp]:
  "obind None f = None" "obind (Some (Inl e)) f = Some (Inl e)" "obind (Some (Inr x)) f = f x"
  by (simp_all add: obind_def)

text \<open>
  \<open>ReadFrame\<close> up to the check of the frame's place in the sequence; the rest of it, which merges
  HEADERS and CONTINUATION frames, is recursive.
\<close>

type_synonym ('r, 'w) read_result = "(('r, 'w) Framer \<times> (h2error + Frame)) res option"

definition readFrame_parse :: "('r, 'w) Framer \<Rightarrow> FrameHeader \<Rightarrow> u8 list \<Rightarrow> ('r, 'w) read_result" where
  "readFrame_parse fr fh payload =
     obind (Some (typeFrameParser (fh_Type fh) fh payload)) (\<lambda>(toks, r).
       let fr = fr\<lparr>counted := counted fr @ toks\<rparr>
       in case r of
            Inl (connError code reason) \<Rightarrow>
              (let (fr, e) = framer_connError fr code reason in Some (Inr (fr, Inl e)))
          | Inl e \<Rightarrow> Some (Inr (fr, Inl e))
          | Inr f \<Rightarrow> obind (Some (checkFrameOrder fr f)) (\<lambda>(fr, err).
              case err of Some e \<Rightarrow> Some (Inr (fr, Inl e)) | None \<Rightarrow> Some (Inr (fr, Inr f))))"

definition readFrame_one :: "'r reader \<Rightarrow> ('r, 'w) Framer \<Rightarrow> ('r, 'w) read_result" where
  "readFrame_one rd fr =
     (let fr = fr\<lparr>errDetail := None\<rparr>
      in obind (readFrameHeader rd (headerBuf fr) (fr_r fr)) (\<lambda>(r, hb, h).
           let fr = fr\<lparr>fr_r := r, headerBuf := hb\<rparr>
           in case h of
                Inl e \<Rightarrow> Some (Inr (fr, Inl (IoError e)))
              | Inr fh \<Rightarrow>
                  if fh_Length fh > maxReadSize fr then Some (Inr (fr, Inl ErrFrameTooLarge))
                  else let (fr, payload) = getReadBuf fr (fh_Length fh)
                       in Option.bind (ReadFull rd (fr_r fr) payload) (\<lambda>(r, payload, n, err).
                            let fr = fr\<lparr>fr_r := r, readBuf := copy_at (readBuf fr) 0 payload\<rparr>
                            in case err of
                                 Some e \<Rightarrow> Some (Inr (fr, Inl (IoError e)))
                               | None \<Rightarrow> readFrame_parse fr fh payload)))"

end
