(* ===== verification/Http2Write.thy ===== *)
theory Http2Write
  imports Http2Frame
begin

text \<open>
  Writing of frames (\<open>src/http2/http2/frame.go\<close>). A frame is assembled in \<open>wbuf\<close> with a length of 0,
  \<open>endWrite\<close> fills in the length and passes the bytes to the writer in one call. Every method returns
  the framer and its error; an argument that the specification forbids is refused before anything is
  written, unless \<open>AllowIllegalWrites\<close> is set.
\<close>

unbundle bit_operations_syntax

section \<open>Assembling a frame\<close>

type_synonym ('r, 'w) write_result = "('r, 'w) Framer \<times> h2error option"

definition startWrite :: "('r, 'w) Framer \<Rightarrow> FrameType \<Rightarrow> Flags \<Rightarrow> u32 \<Rightarrow> ('r, 'w) Framer" where
  "startWrite f ftype flags streamID =
     f\<lparr>wbuf := [0, 0, 0, ftype, flags, ucast (shr streamID 24), ucast (shr streamID 16),
               ucast (shr streamID 8), ucast streamID]\<rparr>"

definition endWrite :: "'w writer \<Rightarrow> ('r, 'w) Framer \<Rightarrow> ('r, 'w) write_result" where
  "endWrite wr f =
     (let len = int (length (wbuf f)) - int frameHeaderLen
      in if len \<ge> 2 ^ 24 then (f, Some ErrFrameTooLarge)
         else let l = of_int len :: u64;
                  f = f\<lparr>wbuf := copy_at (wbuf f) 0 [ucast (shr l 16), ucast (shr l 8), ucast l]\<rparr>
              in case wr (fr_w f) (wbuf f) of (w, n, err) \<Rightarrow>
                   (f\<lparr>fr_w := w\<rparr>,
                    if err = None \<and> n \<noteq> int (length (wbuf f)) then Some (IoError ioError.ErrShortWrite)
                    else map_option IoError err))"

definition writeByte :: "('r, 'w) Framer \<Rightarrow> u8 \<Rightarrow> ('r, 'w) Framer" where
  "writeByte f v = f\<lparr>wbuf := wbuf f @ [v]\<rparr>"

definition writeBytes :: "('r, 'w) Framer \<Rightarrow> u8 list \<Rightarrow> ('r, 'w) Framer" where
  "writeBytes f v = f\<lparr>wbuf := wbuf f @ v\<rparr>"

definition writeUint16 :: "('r, 'w) Framer \<Rightarrow> u16 \<Rightarrow> ('r, 'w) Framer" where
  "writeUint16 f v = f\<lparr>wbuf := wbuf f @ [ucast (shr v 8), ucast v]\<rparr>"

definition writeUint32 :: "('r, 'w) Framer \<Rightarrow> u32 \<Rightarrow> ('r, 'w) Framer" where
  "writeUint32 f v =
     f\<lparr>wbuf := wbuf f @ [ucast (shr v 24), ucast (shr v 16), ucast (shr v 8), ucast v]\<rparr>"

definition validStreamIDOrZero :: "u32 \<Rightarrow> bool" where
  "validStreamIDOrZero streamID = (streamID AND 0x80000000 = 0)"

definition validStreamID :: "u32 \<Rightarrow> bool" where
  "validStreamID streamID = (streamID \<noteq> 0 \<and> streamID AND 0x80000000 = 0)"

definition padZeros :: "u8 list" where
  "padZeros = replicate 255 0"

section \<open>One method per frame type\<close>

text \<open>No padding is \<open>None\<close>, and is not the same as empty padding.\<close>

definition startWriteDataPadded ::
  "('r, 'w) Framer \<Rightarrow> u32 \<Rightarrow> bool \<Rightarrow> u8 list \<Rightarrow> u8 list option \<Rightarrow> ('r, 'w) write_result" where
  "startWriteDataPadded f streamID endStream data pad =
     (let padding = (case pad of None \<Rightarrow> [] | Some p \<Rightarrow> p)
      in if \<not> validStreamID streamID \<and> \<not> AllowIllegalWrites f then (f, Some errStreamID)
         else if length padding > 0 \<and> length padding > 255 then (f, Some errPadLength)
         else if length padding > 0 \<and> \<not> AllowIllegalWrites f \<and> list_ex (\<lambda>b. b \<noteq> 0) padding
         then (f, Some errPadBytes)
         else let flags = (if endStream then FlagDataEndStream else 0) OR (if pad \<noteq> None then FlagDataPadded else 0);
                  f = startWrite f FrameData flags streamID;
                  f = (if pad \<noteq> None then writeByte f (of_nat (length padding)) else f)
              in (writeBytes (writeBytes f data) padding, None))"

definition WriteDataPadded ::
  "'w writer \<Rightarrow> ('r, 'w) Framer \<Rightarrow> u32 \<Rightarrow> bool \<Rightarrow> u8 list \<Rightarrow> u8 list option \<Rightarrow> ('r, 'w) write_result" where
  "WriteDataPadded wr f streamID endStream data pad =
     (case startWriteDataPadded f streamID endStream data pad of
        (f, Some err) \<Rightarrow> (f, Some err)
      | (f, None) \<Rightarrow> endWrite wr f)"

definition WriteData :: "'w writer \<Rightarrow> ('r, 'w) Framer \<Rightarrow> u32 \<Rightarrow> bool \<Rightarrow> u8 list \<Rightarrow> ('r, 'w) write_result" where
  "WriteData wr f streamID endStream data = WriteDataPadded wr f streamID endStream data None"

definition WriteSettings :: "'w writer \<Rightarrow> ('r, 'w) Framer \<Rightarrow> Setting list \<Rightarrow> ('r, 'w) write_result" where
  "WriteSettings wr f settings =
     (let f = startWrite f FrameSettings 0 0
      in endWrite wr (foldl (\<lambda>f s. writeUint32 (writeUint16 f (ID s)) (Val s)) f settings))"

definition WriteSettingsAck :: "'w writer \<Rightarrow> ('r, 'w) Framer \<Rightarrow> ('r, 'w) write_result" where
  "WriteSettingsAck wr f = endWrite wr (startWrite f FrameSettings FlagSettingsAck 0)"

definition WritePing :: "'w writer \<Rightarrow> ('r, 'w) Framer \<Rightarrow> bool \<Rightarrow> u8 list \<Rightarrow> ('r, 'w) write_result" where
  "WritePing wr f ack data =
     endWrite wr (writeBytes (startWrite f FramePing (if ack then FlagPingAck else 0) 0) data)"

definition WriteGoAway :: "'w writer \<Rightarrow> ('r, 'w) Framer \<Rightarrow> u32 \<Rightarrow> ErrCode \<Rightarrow> u8 list \<Rightarrow> ('r, 'w) write_result" where
  "WriteGoAway wr f maxStreamID code debugData =
     (let f = startWrite f FrameGoAway 0 0;
          f = writeUint32 f (maxStreamID AND 0x7fffffff);
          f = writeUint32 f code
      in endWrite wr (writeBytes f debugData))"

definition WriteWindowUpdate :: "'w writer \<Rightarrow> ('r, 'w) Framer \<Rightarrow> u32 \<Rightarrow> u32 \<Rightarrow> ('r, 'w) write_result" where
  "WriteWindowUpdate wr f streamId incr =
     (if (incr < 1 \<or> incr > 2147483647) \<and> \<not> AllowIllegalWrites f
      then (f, Some (errorsNew ''illegal window increment value''))
      else endWrite wr (writeUint32 (startWrite f FrameWindowUpdate 0 streamId) incr))"

record HeadersFrameParam =
  hp_StreamID :: u32
  hp_BlockFragment :: "u8 list"
  hp_EndStream :: bool
  hp_EndHeaders :: bool
  hp_PadLength :: u8
  hp_Priority :: PriorityParam

definition WriteHeaders :: "'w writer \<Rightarrow> ('r, 'w) Framer \<Rightarrow> HeadersFrameParam \<Rightarrow> ('r, 'w) write_result" where
  "WriteHeaders wr f p =
     (if \<not> validStreamID (hp_StreamID p) \<and> \<not> AllowIllegalWrites f then (f, Some errStreamID)
      else let flags = (if hp_PadLength p \<noteq> 0 then FlagHeadersPadded else 0)
                 OR (if hp_EndStream p then FlagHeadersEndStream else 0)
                 OR (if hp_EndHeaders p then FlagHeadersEndHeaders else 0)
                 OR (if \<not> IsZero (hp_Priority p) then FlagHeadersPriority else 0);
               f = startWrite f FrameHeaders flags (hp_StreamID p);
               f = (if hp_PadLength p \<noteq> 0 then writeByte f (hp_PadLength p) else f);
               v = StreamDep (hp_Priority p)
           in if \<not> IsZero (hp_Priority p) \<and> \<not> validStreamIDOrZero v \<and> \<not> AllowIllegalWrites f
              then (f, Some errDepStreamID)
              else let f = (if \<not> IsZero (hp_Priority p)
                            then writeByte (writeUint32 f (if Exclusive (hp_Priority p) then v OR 0x80000000 else v))
                                   (Weight (hp_Priority p))
                            else f);
                       f = writeBytes f (hp_BlockFragment p)
                   in endWrite wr (writeBytes f (take (unat (hp_PadLength p)) padZeros)))"

definition WritePriority :: "'w writer \<Rightarrow> ('r, 'w) Framer \<Rightarrow> u32 \<Rightarrow> PriorityParam \<Rightarrow> ('r, 'w) write_result" where
  "WritePriority wr f streamID p =
     (if \<not> validStreamID streamID \<and> \<not> AllowIllegalWrites f then (f, Some errStreamID)
      else if \<not> validStreamIDOrZero (StreamDep p) then (f, Some errDepStreamID)
      else let f = startWrite f FramePriority 0 streamID;
               v = (if Exclusive p then StreamDep p OR 0x80000000 else StreamDep p)
           in endWrite wr (writeByte (writeUint32 f v) (Weight p)))"

definition WriteRSTStream :: "'w writer \<Rightarrow> ('r, 'w) Framer \<Rightarrow> u32 \<Rightarrow> ErrCode \<Rightarrow> ('r, 'w) write_result" where
  "WriteRSTStream wr f streamID code =
     (if \<not> validStreamID streamID \<and> \<not> AllowIllegalWrites f then (f, Some errStreamID)
      else endWrite wr (writeUint32 (startWrite f FrameRSTStream 0 streamID) code))"

definition WriteContinuation ::
  "'w writer \<Rightarrow> ('r, 'w) Framer \<Rightarrow> u32 \<Rightarrow> bool \<Rightarrow> u8 list \<Rightarrow> ('r, 'w) write_result" where
  "WriteContinuation wr f streamID endHeaders headerBlockFragment =
     (if \<not> validStreamID streamID \<and> \<not> AllowIllegalWrites f then (f, Some errStreamID)
      else let flags = (if endHeaders then FlagContinuationEndHeaders else 0)
           in endWrite wr (writeBytes (startWrite f FrameContinuation flags streamID) headerBlockFragment))"

record PushPromiseParam =
  pp_StreamID :: u32
  pp_PromiseID :: u32
  pp_BlockFragment :: "u8 list"
  pp_EndHeaders :: bool
  pp_PadLength :: u8

definition WritePushPromise :: "'w writer \<Rightarrow> ('r, 'w) Framer \<Rightarrow> PushPromiseParam \<Rightarrow> ('r, 'w) write_result" where
  "WritePushPromise wr f p =
     (if \<not> validStreamID (pp_StreamID p) \<and> \<not> AllowIllegalWrites f then (f, Some errStreamID)
      else let flags = (if pp_PadLength p \<noteq> 0 then FlagPushPromisePadded else 0)
                 OR (if pp_EndHeaders p then FlagPushPromiseEndHeaders else 0);
               f = startWrite f FramePushPromise flags (pp_StreamID p);
               f = (if pp_PadLength p \<noteq> 0 then writeByte f (pp_PadLength p) else f)
           in if \<not> validStreamID (pp_PromiseID p) \<and> \<not> AllowIllegalWrites f then (f, Some errStreamID)
              else let f = writeUint32 f (pp_PromiseID p);
                       f = writeBytes f (pp_BlockFragment p)
                   in endWrite wr (writeBytes f (take (unat (pp_PadLength p)) padZeros)))"

definition WriteRawFrame ::
  "'w writer \<Rightarrow> ('r, 'w) Framer \<Rightarrow> FrameType \<Rightarrow> Flags \<Rightarrow> u32 \<Rightarrow> u8 list \<Rightarrow> ('r, 'w) write_result" where
  "WriteRawFrame wr f t flags streamID payload =
     endWrite wr (writeBytes (startWrite f t flags streamID) payload)"

end
