(* ===== verification/Http2Meta.thy ===== *)
theory Http2Meta
  imports Http2Frame
begin

text \<open>
  Header lists (\<open>src/http2/http2/frame.go\<close>, \<open>src/http2/httpguts/httplex.go\<close> and the name check of
  \<open>http2.go\<close>): which names and values are valid, the pseudo header fields, and \<open>ReadFrame\<close> with
  \<open>readMetaFrame\<close>, which feeds the fragments of a HEADERS frame and its CONTINUATION frames to the HPACK
  decoder and collects the fields.

  \<open>readMetaFrame\<close> gives the decoder a callback that works on variables of its own. They are the record
  \<open>metaState\<close>, \<open>meta_emit\<close> is the body of the callback, and the variables after some calls are the fold of
  \<open>meta_emit\<close> over the fields the decoder has passed on. \<open>ReadFrame\<close> and \<open>readMetaFrame\<close> call each other, so
  they are one recursive function: with \<open>None\<close> it is \<open>ReadFrame\<close>, and with \<open>Some\<close> the loop of \<open>readMetaFrame\<close>
  at a frame of the block. The deferred reset of the callback is \<open>stopMeta\<close>. Logging is left out.
\<close>

unbundle bit_operations_syntax

section \<open>Names and values\<close>

text \<open>
  The indices that the token table sets. Strings are lists of bytes: a byte of a multi-byte character is
  at least 128, as is the character, and neither is in the table.
\<close>

definition tokenChars :: string where
  "tokenChars = ''!#$%&'' @ [CHR 0x27] @ ''*+-.0123456789ABCDEFGHIJKLMNOPQRSTUWVXYZ^_'' @ [CHR 0x60]
     @ ''abcdefghijklmnopqrstuvwxyz|~''"

definition isTokenTable :: "bool list" where
  "isTokenTable = map (\<lambda>i. char_of i \<in> set tokenChars) [0..<127]"

definition IsTokenRune :: "nat \<Rightarrow> bool" where
  "IsTokenRune i = (i < length isTokenTable \<and> isTokenTable ! i)"

definition isLWS :: "char \<Rightarrow> bool" where
  "isLWS b = (b = CHR '' '' \<or> b = CHR 0x09)"

definition isCTL :: "char \<Rightarrow> bool" where
  "isCTL b = ((of_char b :: nat) < 32 \<or> b = CHR 0x7F)"

definition ValidHeaderFieldName :: "string \<Rightarrow> bool" where
  "ValidHeaderFieldName v = (v \<noteq> [] \<and> list_all (\<lambda>r. IsTokenRune (of_char r)) v)"

definition ValidHeaderFieldValue :: "string \<Rightarrow> bool" where
  "ValidHeaderFieldValue v = list_all (\<lambda>b. \<not> (isCTL b \<and> \<not> isLWS b)) v"

fun wire_name_loop :: "string \<Rightarrow> bool" where
  "wire_name_loop [] = True"
| "wire_name_loop (r # v) =
     (if \<not> IsTokenRune (of_char r) then False
      else if (65 :: nat) \<le> of_char r \<and> of_char r \<le> (90 :: nat) then False
      else wire_name_loop v)"

definition validWireHeaderFieldName :: "string \<Rightarrow> bool" where
  "validWireHeaderFieldName v = (if length v = 0 then False else wire_name_loop v)"

section \<open>Pseudo header fields\<close>

fun PseudoValue :: "HeaderField list \<Rightarrow> string \<Rightarrow> string" where
  "PseudoValue [] pseudo = ''''"
| "PseudoValue (hf # hfs) pseudo =
     (if \<not> IsPseudo hf then ''''
      else if tl (Name hf) = pseudo then Value hf
      else PseudoValue hfs pseudo)"

fun RegularFields :: "HeaderField list \<Rightarrow> HeaderField list" where
  "RegularFields [] = []"
| "RegularFields (hf # hfs) = (if \<not> IsPseudo hf then hf # hfs else RegularFields hfs)"

fun PseudoFields :: "HeaderField list \<Rightarrow> HeaderField list" where
  "PseudoFields [] = []"
| "PseudoFields (hf # hfs) = (if \<not> IsPseudo hf then [] else hf # PseudoFields hfs)"

text \<open>The loop of \<open>checkPseudos\<close>: the fields before the current one, the rest, and the two flags.\<close>

fun pseudos_loop :: "HeaderField list \<Rightarrow> HeaderField list \<Rightarrow> bool \<Rightarrow> bool \<Rightarrow> headerError option" where
  "pseudos_loop prev [] isRequest isResponse =
     (if isRequest \<and> isResponse then Some errMixPseudoHeaderTypes else None)"
| "pseudos_loop prev (hf # hfs) isRequest isResponse =
     (let n = Name hf;
          req = n \<in> {'':method'', '':path'', '':scheme'', '':authority''};
          resp = (n = '':status'')
      in if \<not> req \<and> \<not> resp then Some (pseudoHeaderError n)
         else if list_ex (\<lambda>hf2. n = Name hf2) prev then Some (duplicatePseudoHeaderError n)
         else pseudos_loop (prev @ [hf]) hfs (isRequest \<or> req) (isResponse \<or> resp))"

definition checkPseudos :: "HeaderField list \<Rightarrow> headerError option" where
  "checkPseudos hfs = pseudos_loop [] (PseudoFields hfs) False False"

section \<open>The callback\<close>

record metaState =
  remainSize :: u32
  sawRegular :: bool
  invalid :: "headerError option"
  metaFields :: "HeaderField list"
  metaTruncated :: bool
  metaEnabled :: bool

definition meta_init :: "u32 \<Rightarrow> metaState" where
  "meta_init limit = \<lparr>remainSize = limit, sawRegular = False, invalid = None, metaFields = [],
     metaTruncated = False, metaEnabled = True\<rparr>"

definition meta_emit :: "metaState \<Rightarrow> HeaderField \<Rightarrow> metaState" where
  "meta_emit s hf =
     (let s = (if \<not> ValidHeaderFieldValue (Value hf)
               then s\<lparr>invalid := Some (headerFieldValueError (Name hf))\<rparr> else s);
          isPseudo = (take 1 (Name hf) = '':'');
          s = (if isPseudo
               then if sawRegular s then s\<lparr>invalid := Some errPseudoAfterRegular\<rparr> else s
               else let s = s\<lparr>sawRegular := True\<rparr>
                    in if \<not> validWireHeaderFieldName (Name hf)
                       then s\<lparr>invalid := Some (headerFieldNameError (Name hf))\<rparr> else s)
      in if invalid s \<noteq> None then s\<lparr>metaEnabled := False\<rparr>
         else if Size hf > remainSize s then s\<lparr>metaEnabled := False, metaTruncated := True\<rparr>
         else s\<lparr>remainSize := remainSize s - Size hf, metaFields := metaFields s @ [hf]\<rparr>)"

definition meta_after :: "u32 \<Rightarrow> HeaderField list \<Rightarrow> metaState" where
  "meta_after limit log = foldl meta_emit (meta_init limit) log"

section \<open>Reading frames\<close>

definition maxHeaderStringLength :: "('r, 'w) Framer \<Rightarrow> int" where
  "maxHeaderStringLength fr = uint (maxHeaderListSize fr)"

definition startMeta :: "('r, 'w) Framer \<Rightarrow> Decoder \<Rightarrow> ('r, 'w) Framer" where
  "startMeta fr hdec =
     (let limit = maxHeaderListSize fr;
          hdec = SetEmitEnabled hdec True;
          hdec = SetMaxStringLength hdec (maxHeaderStringLength fr);
          hdec = SetEmitFunc hdec (\<lambda>log. \<not> metaEnabled (meta_after limit log))
      in fr\<lparr>ReadMetaHeaders := Some hdec\<rparr>)"

definition stopMeta :: "('r, 'w) Framer \<Rightarrow> ('r, 'w) Framer" where
  "stopMeta fr = fr\<lparr>ReadMetaHeaders := map_option (\<lambda>hdec. SetEmitFunc hdec (\<lambda>_. False)) (ReadMetaHeaders fr)\<rparr>"

text \<open>Writing one fragment to the decoder: the framer and whether there was an error.\<close>

definition metaWrite :: "('r, 'w) Framer \<Rightarrow> u8 list \<Rightarrow> (('r, 'w) Framer \<times> hpackError option) res" where
  "metaWrite fr frag =
     (case ReadMetaHeaders fr of
        None \<Rightarrow> Inl NilPanic
      | Some hdec \<Rightarrow> go_bind (decoder_Write hdec frag) (\<lambda>(hdec, n, err).
          Inr (fr\<lparr>ReadMetaHeaders := Some hdec\<rparr>, err)))"

text \<open>What follows the loop: \<open>h\<close> and \<open>p\<close> are the parts of the HEADERS frame.\<close>

definition finishMeta :: "('r, 'w) Framer \<Rightarrow> FrameHeader \<Rightarrow> PriorityParam
    \<Rightarrow> (('r, 'w) Framer \<times> (h2error + Frame)) res" where
  "finishMeta fr h p =
     (case ReadMetaHeaders fr of
        None \<Rightarrow> Inl NilPanic
      | Some hdec \<Rightarrow>
          let s = meta_after (maxHeaderListSize fr) (emitted hdec);
              (hdec, err) = decoder_Close hdec;
              fr = stopMeta (fr\<lparr>ReadMetaHeaders := Some hdec\<rparr>);
              fail = (\<lambda>c. (fr\<lparr>errDetail := Some (Cause c)\<rparr>,
                           Inl (StreamError (fh_StreamID h) ErrCodeProtocol (Some c))))
          in Inr (if err \<noteq> None then (fr, Inl (ConnectionError ErrCodeCompression))
                  else case invalid s of
                         Some c \<Rightarrow> fail c
                       | None \<Rightarrow> (case checkPseudos (metaFields s) of
                           Some c \<Rightarrow> fail c
                         | None \<Rightarrow> (fr, Inr (MetaHeadersFrame (h\<lparr>fh_valid := False\<rparr>) p
                             \<lparr>mh_Fields = metaFields s, Truncated = metaTruncated s\<rparr>)))))"

partial_function (option) read_run ::
  "'r reader \<Rightarrow> ('r, 'w) Framer \<Rightarrow> (FrameHeader \<times> PriorityParam \<times> Frame) option \<Rightarrow> ('r, 'w) read_result"
where
  "read_run rd fr mode =
     (case mode of
        None \<Rightarrow>
          Option.bind (readFrame_one rd fr) (\<lambda>r. case r of
            Inl e \<Rightarrow> Some (Inl e)
          | Inr (fr, Inl e) \<Rightarrow> Some (Inr (fr, Inl e))
          | Inr (fr, Inr f) \<Rightarrow>
              (if fh_Type (Header f) = FrameHeaders \<and> ReadMetaHeaders fr \<noteq> None
               then case f of
                      HeadersFrame h p b \<Rightarrow>
                        if AllowIllegalReads fr
                        then Some (Inr (fr, Inl (errorsNew ''illegal use of AllowIllegalReads with ReadMetaHeaders'')))
                        else read_run rd (startMeta fr (the (ReadMetaHeaders fr))) (Some (h, p, f))
                    | _ \<Rightarrow> Some (Inl (Panic ''interface conversion''))
               else Some (Inr (fr, Inr f))))
      | Some (h, p, hc) \<Rightarrow>
          Option.bind (Some (go_bind (frame_bytes hc) (metaWrite fr))) (\<lambda>r. case r of
            Inl e \<Rightarrow> Some (Inl e)
          | Inr (fr, Some e) \<Rightarrow> Some (Inr (stopMeta fr, Inl (ConnectionError ErrCodeCompression)))
          | Inr (fr, None) \<Rightarrow>
              (if HeadersEnded hc then Some (finishMeta fr h p)
               else Option.bind (read_run rd fr None) (\<lambda>r. case r of
                      Inl e \<Rightarrow> Some (Inl e)
                    | Inr (fr, Inl e) \<Rightarrow> Some (Inr (stopMeta fr, Inl e))
                    | Inr (fr, Inr f) \<Rightarrow>
                        (case f of
                           ContinuationFrame _ _ \<Rightarrow> read_run rd fr (Some (h, p, f))
                         | _ \<Rightarrow> Some (Inl (Panic ''interface conversion'')))))))"

definition ReadFrame :: "'r reader \<Rightarrow> ('r, 'w) Framer \<Rightarrow> ('r, 'w) read_result" where
  "ReadFrame rd fr = read_run rd fr None"

end
