(* ===== verification/HpackCodec.thy ===== *)
theory HpackCodec
  imports HpackDecode
begin

text \<open>
  The encoder and the decoder together: what \<open>WriteField\<close> writes, a decoder whose dynamic table has the
  same entries reads back, and what the decoder does with arbitrary input.
\<close>

section \<open>Specifications\<close>

text \<open>Both ends hold the same dynamic table entries.\<close>

definition in_sync :: "Encoder \<Rightarrow> Decoder \<Rightarrow> bool" where
  "in_sync e d \<longleftrightarrow>
     ents (dtable (ddynTab d)) = ents (dtable (edynTab e)) \<and> dynamicTable_ok (edynTab e)
     \<and> length (ents (dtable (edynTab e))) < 2 ^ 62"

text \<open>The decoder is configured to accept strings of this length.\<close>

definition string_ok :: "Decoder \<Rightarrow> string \<Rightarrow> bool" where
  "string_ok d s \<longleftrightarrow>
     length s < 2 ^ 58 \<and> (maxStrLen d = 0 \<or> int (length s) \<le> maxStrLen d \<and> maxStrLen d < 2 ^ 63)"

definition accepts :: "Decoder \<Rightarrow> HeaderField \<Rightarrow> bool" where
  "accepts d f \<longleftrightarrow> emitEnabled d \<and> string_ok d (Name f) \<and> string_ok d (Value f)"

text \<open>The encoder does not add the field to its table: it is there already, or it may not be indexed.\<close>

definition unindexed :: "Encoder \<Rightarrow> HeaderField \<Rightarrow> bool" where
  "unindexed e f \<longleftrightarrow> (\<exists>i. searchTable e f = Inr (i, True)) \<or> \<not> shouldIndex e f"

text \<open>Writing several fields to a writer that accepts everything; the bytes written are collected.\<close>

definition accept_all :: "u8 list \<Rightarrow> int \<times> writeError option" where
  "accept_all bs = (int (length bs), None)"

fun encode_fields :: "Encoder \<Rightarrow> HeaderField list \<Rightarrow> (Encoder \<times> u8 list) res" where
  "encode_fields e [] = Inr (e, [])"
| "encode_fields e (f # fs) =
     go_bind (WriteField accept_all e f) (\<lambda>(e, err).
       go_bind (encode_fields e fs) (\<lambda>(e', bs). Inr (e', ebuf e @ bs)))"

text \<open>A fresh pair, except that the encoder's table has room for 4096 bytes.\<close>

definition example_encoder :: Encoder where
  "example_encoder =
     \<lparr>edynTab = emptyDynamicTable\<lparr>maxSize := 4096\<rparr>, minSize = uint32Max, maxSizeLimit = 4096,
      tableSizeUpdate = False, ebuf = []\<rparr>"

definition example_decoder :: Decoder where
  "example_decoder =
     \<lparr>ddynTab = emptyDynamicTable\<lparr>maxSize := 4096, allowedMaxSize := 4096\<rparr>, emitted = [],
      emitStop = (\<lambda>_. False), emitEnabled = True, maxStrLen = 0, dbuf = [], saveBuf = [], firstField = True\<rparr>"

section \<open>Looking up what was found\<close>

lemma table_len_static [simp]: "table_len staticTable = 61"
  by (simp add: table_len_def staticTable_def)

lemma ents_static [simp]: "ents staticTable = static_ents"
  by (simp add: staticTable_def)

lemma at_static:
  assumes "k < 61"
  shows "at d (of_nat (Suc k)) = Inr (Some (static_ents ! k))"
proof -
  have u: "unat (of_nat (Suc k) :: u64) = Suc k" using assms by (intro unat_of_nat64) simp
  then have 1: "of_nat (Suc k) \<noteq> (0 :: u64)" "of_nat (Suc k) \<le> (61 :: u64)"
    using assms by (auto simp only: word_le_nat_alt) (auto simp flip: unat_eq_zero)
  have 2: "of_nat (Suc k) - 1 = (of_nat k :: u64)" "unat (of_nat k :: u64) = k"
    using assms unat_of_nat64 [of k] by simp_all
  show ?thesis
    unfolding at_def using 1 2(2) assms by (simp only: 2(1) table_len_static ents_static) simp
qed

lemma sint_small:
  fixes i :: u64
  assumes "unat i < 2 ^ 63"
  shows "sint i = int (unat i)"
proof -
  have "int (unat i) < int (2 ^ 63)" using assms by (simp only: of_nat_less_iff)
  then have "uint i < 2 ^ 63" by simp
  moreover have "- (2 ^ 63) \<le> uint i" by (rule order_trans [of _ 0]) simp_all
  ultimately have "signed_take_bit 63 (uint i) = uint i" by (intro signed_take_bit_int_eq_self)
  then show ?thesis by (simp add: sint_uint)
qed

lemma at_dynamic:
  assumes "k < length (ents (dtable (ddynTab d)))" and "length (ents (dtable (ddynTab d))) < 2 ^ 62"
  shows "at d (of_nat (length (ents (dtable (ddynTab d))) - k) + 61) = Inr (Some (ents (dtable (ddynTab d)) ! k))"
proof -
  let ?l = "length (ents (dtable (ddynTab d)))"
  define i where "i = (of_nat (?l - k) + 61 :: u64)"
  have u: "unat (of_nat (?l - k) :: u64) = ?l - k" using assms by (intro unat_of_nat64) simp
  have ui: "unat i = ?l - k + 61" unfolding i_def using assms u by (subst unat_add_noov) simp_all
  have si: "sint i = int (unat i)" using ui assms by (intro sint_small) simp
  have m: "unat (of_nat (?l + 61) :: u64) = ?l + 61" using assms by (intro unat_of_nat64) simp
  have "i \<noteq> 0" "\<not> i \<le> 61" "\<not> of_nat (?l + 61) < i"
    using ui assms m by (auto simp: word_le_nat_alt word_less_nat_alt)
  then show ?thesis
    unfolding i_def [symmetric] at_def
    using assms ui si by (simp add: maxTableIndex_def table_len_def int_get_def Let_def nat_diff_distrib)
qed

text \<open>The index that a search returns leads the decoder to the entry that was found.\<close>

lemma at_best_match:
  assumes "best_match True staticTable f = (i, m)" and "i \<noteq> 0"
  shows "\<exists>hf. at d i = Inr (Some hf) \<and> Name hf = Name f \<and> (m \<longrightarrow> Value hf = Value f \<and> \<not> Sensitive f)"
proof -
  obtain k where k: "i = of_nat (Suc k)" "k < 61" "Name (static_ents ! k) = Name f"
    "m \<longrightarrow> Value (static_ents ! k) = Value f \<and> \<not> Sensitive f"
    using assms
    by (auto simp: best_match_def hpack_index_def pair_of_def newest_Some split: if_splits option.splits)
  with at_static show ?thesis by auto
qed

lemma at_best_match_dynamic:
  assumes "best_match False t f = (j, m)" and "j \<noteq> 0" and t: "ents t = ents (dtable (ddynTab d))"
    and len: "length (ents t) < 2 ^ 62"
  shows "\<exists>hf. at d (j + 61) = Inr (Some hf) \<and> Name hf = Name f \<and> (m \<longrightarrow> Value hf = Value f \<and> \<not> Sensitive f)"
proof -
  obtain k where k: "j = of_nat (length (ents t) - k)" "k < length (ents t)" "Name (ents t ! k) = Name f"
    "m \<longrightarrow> Value (ents t ! k) = Value f \<and> \<not> Sensitive f"
    using assms(1,2)
    by (auto simp: best_match_def hpack_index_def pair_of_def newest_Some split: if_splits option.splits)
  with at_dynamic [of k d] len t show ?thesis by auto
qed

lemma unat_hpack_index:
  assumes "k < length (ents t)" and "length (ents t) < 2 ^ 62"
  shows "unat (hpack_index st t k) = (if st then Suc k else length (ents t) - k)"
proof -
  have "unat (of_nat (Suc k) :: u64) = Suc k" using assms by (intro unat_of_nat64) simp
  moreover have "unat (of_nat (length (ents t) - k) :: u64) = length (ents t) - k"
    using assms by (intro unat_of_nat64) simp
  ultimately show ?thesis unfolding hpack_index_def by (simp only: if_True if_False split: if_split) simp
qed

lemma best_match_bounds:
  assumes "best_match st t f = (i, m)" and len: "length (ents t) < 2 ^ 62"
  shows "m \<longrightarrow> i \<noteq> 0" and "unat i \<le> length (ents t)"
proof -
  have *: "hpack_index st t k \<noteq> 0 \<and> unat (hpack_index st t k) \<le> length (ents t)"
    if "newest P (ents t) = Some k" for P k
    using unat_hpack_index [OF newest_less [OF that] len, of st] newest_less [OF that]
    by (auto split: if_splits)
  then show "m \<longrightarrow> i \<noteq> 0" "unat i \<le> length (ents t)"
    using assms(1) by (auto simp: best_match_def split: if_splits option.splits)
qed

lemma varint_fits_small:
  assumes "unat i < 2 ^ 63"
  shows "varint_fits n i"
proof -
  have "(1 :: nat) \<le> 2 ^ unat n" by simp
  with assms show ?thesis unfolding varint_fits_def by linarith
qed

definition found :: "Decoder \<Rightarrow> HeaderField \<Rightarrow> u64 \<Rightarrow> bool \<Rightarrow> bool" where
  "found d f i m \<longleftrightarrow>
     (m \<longrightarrow> i \<noteq> 0) \<and> unat i < 2 ^ 63 \<and>
     (i \<noteq> 0 \<longrightarrow> (\<exists>hf. at d i = Inr (Some hf) \<and> Name hf = Name f
        \<and> (m \<longrightarrow> Value hf = Value f \<and> \<not> Sensitive f)))"

lemma searchTable_found:
  assumes sync: "in_sync e d"
  obtains i m where "searchTable e f = Inr (i, m)" "found d f i m"
proof -
  let ?t = "dtable (edynTab e)"
  have t: "table_ok ?t" "length (ents ?t) < 2 ^ 62" "ents ?t = ents (dtable (ddynTab d))"
    using sync by (simp_all add: in_sync_def dynamicTable_ok_def)
  obtain i m where s: "best_match True staticTable f = (i, m)" by force
  obtain j m' where y: "best_match False ?t f = (j, m')" by force
  have bs: "m \<longrightarrow> i \<noteq> 0" "unat i \<le> 61" using best_match_bounds [OF s] by simp_all
  note by' = best_match_bounds [OF y t(2)]
  have uj: "unat (j + 61) = unat j + 61" using by'(2) t(2) by (subst unat_add_noov) simp_all
  have fs: "found d f i m" using bs at_best_match [OF s] by (auto simp: found_def)
  have fd: "found d f (j + 61) m'" if "j \<noteq> 0"
  proof -
    have "unat (j + 61) < 2 ^ 63" using uj by'(2) t(2) by simp
    moreover have "j + 61 \<noteq> 0" using uj by (metis unat_0 add_is_0 zero_neq_numeral)
    ultimately show ?thesis
      using at_best_match_dynamic [OF y that t(3,2)] by (auto simp: found_def)
  qed
  have eq: "searchTable e f = (if m then Inr (i, True)
      else if m' \<or> (i = 0 \<and> j \<noteq> 0) then Inr (j + 61, m') else Inr (i, False))"
    by (simp add: searchTable_def search_best_match [OF table_ok_static] search_best_match [OF t(1)] s y)
  show thesis
  proof (cases "m \<or> \<not> (m' \<or> (i = 0 \<and> j \<noteq> 0))")
    case True
    then have "searchTable e f = Inr (i, m)" using eq by auto
    with fs that show thesis by blast
  next
    case False
    then have "j \<noteq> 0" using by'(1) by blast
    with eq False fd that show thesis by simp
  qed
qed

section \<open>First bytes\<close>

lemma varint_hd:
  assumes "n \<le> 8"
  obtains b bs where "varint t n i = (b OR t) # bs" "\<And>k. bit b k \<Longrightarrow> k < unat n"
proof -
  define v where "v = (if i < prefix_max n then i else prefix_max n)"
  obtain bs where bs: "appendVarInt [] n i = ucast v # bs"
    by (cases "i < prefix_max n") (simp_all add: appendVarInt_small appendVarInt_big v_def)
  have "unat v \<le> 2 ^ unat n - 1"
    using unat_prefix_max [OF assms] by (auto simp: v_def word_less_nat_alt)
  moreover have "(1 :: nat) \<le> 2 ^ unat n" by simp
  ultimately have "unat v < 2 ^ unat n" by linarith
  from less_exp_bit [OF this] have "bit (ucast v :: u8) k \<Longrightarrow> k < unat n" for k
    by (simp add: bit_ucast_iff)
  with bs that show thesis by (simp add: varint_def)
qed

lemma type_test:
  fixes b t m :: u8
  assumes "\<And>k. bit b k \<Longrightarrow> k < n" and "take_bit n m = 0"
  shows "(b OR t) AND m = t AND m"
proof -
  have "\<not> (bit b k \<and> bit m k)" for k
  proof
    assume k: "bit b k \<and> bit m k"
    with assms(1) have "bit (take_bit n m) k" by (simp add: bit_simps)
    with assms(2) show False by simp
  qed
  then show ?thesis by (intro bit_word_eqI) (auto simp: bit_simps)
qed

section \<open>Strings\<close>

lemma readString_hpack_string:
  assumes "string_ok d s"
  obtains u where "readString d (hpack_string s @ rest) = Inr (Inr (u, rest))"
    "decodeString d u = Inr (Inr s)"
proof -
  let ?l = "HuffmanEncodeLength s"
  have len: "length s < 2 ^ 58" using assms by (simp add: string_ok_def)
  have us: "unat (of_nat (length s) :: u64) = length s" using len by (intro unat_of_nat64) simp
  have bits: "length (string_bits s) + 7 < 2 ^ 64" using length_string_bits_le [of s] len by simp
  have ul: "unat ?l = length (AppendHuffmanString [] s)"
    using HuffmanEncodeLength_bits [OF bits] by (simp add: length_AppendHuffmanString)
  have limit: "\<not> (maxStrLen d \<noteq> 0 \<and> v > of_int (maxStrLen d))" if "unat v \<le> length s" for v :: u64
  proof -
    have "unat (of_int (maxStrLen d) :: u64) = nat (maxStrLen d)"
      if "0 \<le> maxStrLen d" "maxStrLen d < 2 ^ 63"
      using that by (simp add: unat_eq_nat_uint uint_word_of_int take_bit_int_eq_self)
    with assms that show ?thesis by (auto simp: string_ok_def word_less_nat_alt)
  qed
  show thesis
  proof (cases "?l < of_nat (length s)")
    case True
    let ?b = "AppendHuffmanString [] s"
    have lt: "unat ?l < length s" using True us by (simp add: word_less_nat_alt)
    obtain b bs where v: "varint 0x80 7 ?l = (b OR 0x80) # bs" "\<And>k. bit b k \<Longrightarrow> k < unat (7 :: u8)"
      by (rule varint_hd [of 7 "0x80" ?l]) simp_all
    have flag: "(b OR 0x80) AND 128 = 0x80" using type_test [OF v(2), where m = 128 and t = "0x80"] by simp
    have rv: "readVarInt 7 (varint 0x80 7 ?l @ ?b @ rest) = Inr (Inr (?l, ?b @ rest))"
      using type_bits(1) lt len by (intro readVarInt_varint varint_fits_small) simp_all
    have "readString d (hpack_string s @ rest) = Inr (Inr (\<lparr>isHuff = True, ub = ?b\<rparr>, rest))"
      using True rv limit [of ?l] lt flag ul
      by (simp add: hpack_string_def readString_def v(1) Let_def)
    moreover have "decodeString d \<lparr>isHuff = True, ub = ?b\<rparr> = Inr (Inr s)"
    proof -
      have "fits (maxStrLen d) (length [])" "fits (maxStrLen d) (length s)"
        using assms by (auto simp: fits_def string_ok_def)
      with huffmanDecode_written [of "maxStrLen d" "[]" s] show ?thesis by (simp add: decodeString_def)
    qed
    ultimately show thesis by (rule that)
  next
    case False
    let ?n = "of_nat (length s) :: u64"
    obtain b bs where v: "varint 0 7 ?n = (b OR 0) # bs" "\<And>k. bit b k \<Longrightarrow> k < unat (7 :: u8)"
      by (rule varint_hd [of 7 0 ?n]) simp_all
    have flag: "b AND 128 = 0" using type_test [OF v(2), where m = 128 and t = 0] by simp
    have rv: "readVarInt 7 (varint 0 7 ?n @ map byte_of s @ rest) = Inr (Inr (?n, map byte_of s @ rest))"
      using len us by (intro readVarInt_varint varint_fits_small) simp_all
    have "readString d (hpack_string s @ rest) = Inr (Inr (\<lparr>isHuff = False, ub = map byte_of s\<rparr>, rest))"
      using False rv limit [of ?n] flag us
      by (simp add: hpack_string_def readString_def v(1) Let_def)
    moreover have "decodeString d \<lparr>isHuff = False, ub = map byte_of s\<rparr> = Inr (Inr s)"
      by (simp add: decodeString_def)
    ultimately show thesis by (rule that)
  qed
qed

lemma readString_huffman:
  assumes "length v < 2 ^ 58" and "maxStrLen d = 0"
  shows "readString d (varint 0x80 7 (of_nat (length v)) @ v @ rest)
    = Inr (Inr (\<lparr>isHuff = True, ub = v\<rparr>, rest))"
proof -
  let ?l = "of_nat (length v) :: u64"
  have us: "unat ?l = length v" using assms(1) by (intro unat_of_nat64) simp
  obtain b bs where v: "varint 0x80 7 ?l = (b OR 0x80) # bs" "\<And>k. bit b k \<Longrightarrow> k < unat (7 :: u8)"
    by (rule varint_hd [of 7 "0x80" ?l]) simp_all
  have flag: "(b OR 0x80) AND 128 = 0x80" using type_test [OF v(2), where m = 128 and t = "0x80"] by simp
  have "readVarInt 7 (varint 0x80 7 ?l @ v @ rest) = Inr (Inr (?l, v @ rest))"
    using type_bits(1) us assms(1) by (intro readVarInt_varint varint_fits_small) simp_all
  then show ?thesis using flag us assms(2) by (simp add: readString_def v(1) Let_def)
qed

text \<open>Eight ones are not valid Huffman data: the padding is too long.\<close>

lemma huffmanDecode_ones: "huffmanDecode [] 0 [0xff] = Inr (Inl ErrInvalidHuffman)"
proof -
  obtain root where root: "getRootHuffmanNode = Inr root" "\<And>c. has_code root (code_bits c) c"
    by (rule root_has_codes) blast
  have len: "length (code_bits 0) = 13" "take 8 (code_bits 0) = bits_of 8 (0xff :: u8)" by code_simp+
  obtain ch where ch: "root = Internal ch" using root(2) has_code_Internal by blast
  with root(2) [of 0] len obtain n where n: "ch 0xff = Some n" "has_code n (drop 8 (code_bits 0)) 0"
    by (auto simp: has_code.simps(2))
  from has_code_Internal [OF n(2)] obtain ch' where ch': "n = Internal ch'" by blast
  have "whole_bytes root 0 root 0xff 8 8 [] = whole_bytes root 0 (Internal ch') 0xff 0 8 []"
    using n(1) ch ch' by (subst whole_bytes.simps) (simp add: child_def shr_def)
  also have "\<dots> = Some (Inr (Inr (Internal ch', 0, 8, [])))" by (simp add: whole_bytes.simps)
  finally have "decode_bytes root 0 root 0 0 0 [] [0xff] = Inr (Inr (Internal ch', 0xff, 0, 8, []))"
    by (simp add: shl_def id_def)
  moreover have "last_bits root 0 (Internal ch') 0xff 0 8 [] = Some (Inr (Inr (0, 8, [])))"
    by (simp add: last_bits.simps)
  ultimately show ?thesis unfolding huffmanDecode_def root(1) by simp
qed

section \<open>One field\<close>

definition field_bytes :: "Encoder \<Rightarrow> HeaderField \<Rightarrow> u64 \<Rightarrow> bool \<Rightarrow> u8 list" where
  "field_bytes e f i m =
     (if m then varint 0x80 7 i
      else let indexing = shouldIndex e f
           in varint (encodeTypeByte indexing (Sensitive f)) (if indexing then 6 else 4) i
              @ (if i = 0 then hpack_string (Name f) else []) @ hpack_string (Value f))"

lemma varint_zero: "1 \<le> n \<Longrightarrow> n \<le> 8 \<Longrightarrow> varint t n 0 = [t]"
proof -
  assume n: "1 \<le> n" "n \<le> 8"
  have "1 \<le> unat n" using n(1) by (simp add: word_le_nat_alt)
  then have "(2 :: nat) ^ 1 \<le> 2 ^ unat n" by (intro power_increasing) simp_all
  then have "0 < prefix_max n" using unat_prefix_max [OF n(2)] by (simp add: word_less_nat_alt)
  then show ?thesis by (simp add: varint_def appendVarInt_small)
qed

text \<open>The bytes and the table of the encoder after a write without pending size updates.\<close>

lemma WriteField_eq:
  assumes "\<not> tableSizeUpdate e" and "searchTable e f = Inr (i, m)"
  shows "WriteField w e f =
    (let e' = e\<lparr>edynTab := (if \<not> m \<and> shouldIndex e f then dynamicTable_add (edynTab e) f else edynTab e),
                ebuf := field_bytes e f i m\<rparr>;
         (n, err) = w (field_bytes e f i m)
     in Inr (e', if err = None \<and> n \<noteq> int (length (field_bytes e f i m)) then Some ErrShortWrite else err))"
proof -
  have s: "searchTable (e\<lparr>ebuf := []\<rparr>) f = Inr (i, m)" "shouldIndex (e\<lparr>ebuf := []\<rparr>) f = shouldIndex e f"
    using assms(2) by (simp_all add: searchTable_def shouldIndex_def cong: if_cong)
  have 0: "[t] = varint t (if b then 6 else 4) 0" for t b by (simp add: varint_zero)
  show ?thesis
    using assms(1)
    by (cases "i = 0"; cases m; cases "shouldIndex e f")
      (simp_all add: WriteField_def write_updates_def s append_eqs field_bytes_def varint_zero Let_def)
qed

lemma callEmit_accepts:
  assumes "accepts d f" and "maxStrLen d' = maxStrLen d" and "emitEnabled d' = emitEnabled d"
    and "\<not> emitStop d' (emitted d' @ [f\<lparr>Sensitive := b\<rparr>])"
  shows "callEmit d' (f\<lparr>Sensitive := b\<rparr>) = (d'\<lparr>emitted := emitted d' @ [f\<lparr>Sensitive := b\<rparr>]\<rparr>, None)"
proof -
  have "emitEnabled d'" using assms(1,3) by (simp add: accepts_def)
  then have "d'\<lparr>emitEnabled := True\<rparr> = d'" by (cases d') simp
  then show ?thesis using assms by (auto simp: callEmit_def accepts_def string_ok_def Let_def)
qed

lemma parseFieldIndexed_written:
  assumes f: "found d f i True" and acc: "accepts d f"
    and buf: "dbuf d = varint 0x80 7 i @ rest" and go: "\<not> emitStop d (emitted d @ [f])"
  shows "parseFieldIndexed d = Inr (d\<lparr>dbuf := rest, emitted := emitted d @ [f]\<rparr>, None)"
proof -
  from f obtain hf where hf: "at d i = Inr (Some hf)" "Name hf = Name f" "Value hf = Value f" "\<not> Sensitive f"
    and i: "unat i < 2 ^ 63"
    by (auto simp: found_def)
  have r: "readVarInt 7 (dbuf d) = Inr (Inr (i, rest))"
    unfolding buf using type_bits(1) i by (intro readVarInt_varint varint_fits_small) simp_all
  have fe: "\<lparr>Name = Name f, Value = Value f, Sensitive = False\<rparr> = f\<lparr>Sensitive := False\<rparr>"
    "f\<lparr>Sensitive := False\<rparr> = f" using hf(4) by simp_all
  show ?thesis
    unfolding parseFieldIndexed_def r dbind_simps prod.case hf(1) go_bind_simps option.case hf(2,3) fe(1)
    by (subst callEmit_accepts [OF acc]) (simp_all add: fe(2) go)
qed

lemma parseFieldLiteral_parts:
  assumes f: "found d f i False" and acc: "accepts d f"
    and n: "1 \<le> n" "n \<le> 8" and t: "t AND ucast (prefix_max n) = 0"
    and buf: "dbuf d = varint t n i @ (if i = 0 then hpack_string (Name f) else [])
      @ vb @ rest"
    and v: "readString d (vb @ rest) = Inr (Inr (v, rest))" "decodeString d v = Inr (Inr (Value f))"
    and go: "\<not> emitStop d (emitted d @ [f\<lparr>Sensitive := sensitive it\<rparr>])"
  shows "parseFieldLiteral d n it =
    Inr (d\<lparr>dbuf := rest, emitted := emitted d @ [f\<lparr>Sensitive := sensitive it\<rparr>],
           ddynTab := (if indexed it then dynamicTable_add (ddynTab d) (f\<lparr>Sensitive := False\<rparr>) else ddynTab d)\<rparr>,
         None)"
proof -
  from f have i: "unat i < 2 ^ 63"
    and at: "i \<noteq> 0 \<Longrightarrow> \<exists>hf. at d i = Inr (Some hf) \<and> Name hf = Name f" by (auto simp: found_def)
  let ?name = "if i = 0 then hpack_string (Name f) else []"
  have r: "readVarInt n (dbuf d) = Inr (Inr (i, ?name @ vb @ rest))"
    unfolding buf by (rule readVarInt_varint [OF n t varint_fits_small [OF i]])
  obtain nm u where nm: "literal_name d i (?name @ vb @ rest)
      = Inr (Inr (nm, u, vb @ rest))"
    and dn: "(if i \<le> 0 then decodeString d u else Inr (Inr nm)) = Inr (Inr (Name f))"
  proof (cases "i = 0")
    case True
    obtain u where "readString d (hpack_string (Name f) @ vb @ rest)
        = Inr (Inr (u, vb @ rest))" "decodeString d u = Inr (Inr (Name f))"
      using acc by (auto simp: accepts_def elim: readString_hpack_string)
    with True that show thesis by (simp add: literal_name_def)
  next
    case False
    from at [OF this] obtain hf where "at d i = Inr (Some hf)" "Name hf = Name f" by blast
    moreover have "i > 0" "\<not> i \<le> 0" using False by (simp_all add: word_gt_0)
    ultimately show thesis using that False by (simp add: literal_name_def)
  qed
  have en: "emitEnabled d" using acc by (simp add: accepts_def)
  have fe: "\<lparr>Name = Name f, Value = Value f, Sensitive = False\<rparr> = f\<lparr>Sensitive := False\<rparr>" by simp
  have over: "f\<lparr>Sensitive := False, Sensitive := b\<rparr> = f\<lparr>Sensitive := b\<rparr>" for b by simp
  have dn': "(if (emitEnabled d \<or> indexed it) \<and> i \<le> 0 then decodeString d u else Inr (Inr nm))
      = Inr (Inr (Name f))" using dn en by simp
  have dv: "(if emitEnabled d \<or> indexed it then decodeString d v else Inr (Inr [])) = Inr (Inr (Value f))"
    using v(2) en by simp
  show ?thesis
    unfolding parseFieldLiteral_def r dbind_simps prod.case Let_def nm v(1) dn' dv fe over
    by (subst callEmit_accepts [OF acc]) (simp_all add: go)
qed

lemma parseFieldLiteral_written:
  assumes "found d f i False" and acc: "accepts d f"
    and "1 \<le> n" "n \<le> 8" and "t AND ucast (prefix_max n) = 0"
    and "dbuf d = varint t n i @ (if i = 0 then hpack_string (Name f) else [])
      @ hpack_string (Value f) @ rest"
    and "\<not> emitStop d (emitted d @ [f\<lparr>Sensitive := sensitive it\<rparr>])"
  shows "parseFieldLiteral d n it =
    Inr (d\<lparr>dbuf := rest, emitted := emitted d @ [f\<lparr>Sensitive := sensitive it\<rparr>],
           ddynTab := (if indexed it then dynamicTable_add (ddynTab d) (f\<lparr>Sensitive := False\<rparr>) else ddynTab d)\<rparr>,
         None)"
proof -
  obtain v where "readString d (hpack_string (Value f) @ rest) = Inr (Inr (v, rest))"
    "decodeString d v = Inr (Inr (Value f))"
    using acc by (auto simp: accepts_def elim: readString_hpack_string)
  from parseFieldLiteral_parts [OF assms(1-6) this assms(7)] show ?thesis .
qed

text \<open>The dispatch of the decoder on what the encoder wrote.\<close>

lemma dispatch_literal:
  assumes "t \<in> {0, 0x10, 0x40}" and "n = (if t = 0x40 then 6 else 4)"
    and "dbuf d = varint t n i @ rest"
  shows "parseHeaderFieldRepr d =
    (if t = 0x40 then go_bind (parseFieldLiteral d 6 indexedTrue)
       (\<lambda>(d, _). Inr (d, Some (DecodingError ''invalid encoding'')))
     else parseFieldLiteral d 4 (if t = 0 then indexedFalse else indexedNever))"
proof -
  have n: "n \<le> 8" using assms(2) by simp
  obtain b bs where v: "varint t n i = (b OR t) # bs" "\<And>k. bit b k \<Longrightarrow> k < unat n"
    by (rule varint_hd [OF n, of t i]) simp_all
  note test = type_test [OF v(2)]
  have *: "(b OR t) AND 128 = t AND 128" "(b OR t) AND 192 = t AND 192"
    "t \<noteq> 0x40 \<Longrightarrow> (b OR t) AND 240 = t AND 240"
    using test [where t = t and m = 128] test [where t = t and m = 192]
      test [where t = t and m = 240] assms(2) by (simp_all split: if_splits)
  show ?thesis
    unfolding parseHeaderFieldRepr_def assms(3) v(1) append_Cons list.case Let_def *(1,2)
    using assms(1) *(3) by auto
qed

lemma dispatch_indexed:
  assumes "dbuf d = varint 0x80 7 i @ rest"
  shows "parseHeaderFieldRepr d = parseFieldIndexed d"
proof -
  obtain b bs where v: "varint 0x80 7 i = (b OR 0x80) # bs" "\<And>k. bit b k \<Longrightarrow> k < unat (7 :: u8)"
    by (rule varint_hd [of 7 "0x80" i]) simp_all
  have "(b OR 0x80) AND 128 = 0x80" using type_test [OF v(2), where m = 128 and t = "0x80"] by simp
  then show ?thesis unfolding parseHeaderFieldRepr_def assms v(1) by (simp add: Let_def)
qed

lemma parse_unindexed_field:
  assumes f: "found d f i m" and acc: "accepts d f" and nix: "m \<or> \<not> shouldIndex e f"
    and go: "\<not> emitStop d (emitted d @ [f])"
  shows "parseHeaderFieldRepr (d\<lparr>dbuf := field_bytes e f i m @ rest\<rparr>)
    = Inr (d\<lparr>dbuf := rest, emitted := emitted d @ [f]\<rparr>, None)"
proof -
  let ?d = "d\<lparr>dbuf := field_bytes e f i m @ rest\<rparr>"
  have acc': "accepts ?d f" using acc by (simp add: accepts_def string_ok_def)
  have at: "at ?d = at d" by (simp add: fun_eq_iff at_def maxTableIndex_def)
  have f': "found ?d f i m" using f by (simp add: found_def at)
  show ?thesis
  proof (cases m)
    case True
    have buf: "dbuf ?d = varint 0x80 7 i @ rest" using True by (simp add: field_bytes_def)
    have "found ?d f i True" using f' True by simp
    from parseFieldIndexed_written [OF this acc' buf] go show ?thesis
      by (simp add: dispatch_indexed [OF buf])
  next
    case False
    let ?t = "if Sensitive f then 0x10 else 0 :: u8"
    let ?it = "if Sensitive f then indexedNever else indexedFalse"
    have buf: "dbuf ?d = varint ?t 4 i @ (if i = 0 then hpack_string (Name f) else [])
        @ hpack_string (Value f) @ rest"
      using False nix by (simp add: field_bytes_def encodeTypeByte_def Let_def)
    have "parseHeaderFieldRepr ?d = parseFieldLiteral ?d 4 ?it"
      using dispatch_literal [OF _ _ buf] by auto
    also have "\<dots> = Inr (?d\<lparr>dbuf := rest, emitted := emitted ?d @ [f\<lparr>Sensitive := sensitive ?it\<rparr>],
        ddynTab := (if indexed ?it then dynamicTable_add (ddynTab ?d) (f\<lparr>Sensitive := False\<rparr>) else ddynTab ?d)\<rparr>, None)"
    proof -
      have "found ?d f i False" using f' False by simp
      moreover have "?t AND ucast (prefix_max 4) = 0" using type_bits(4) by simp
      moreover have "f\<lparr>Sensitive := sensitive ?it\<rparr> = f" by (simp add: sensitive_def)
      ultimately show ?thesis using acc' buf go by (intro parseFieldLiteral_written) simp_all
    qed
    finally show ?thesis by (auto simp: indexed_def sensitive_def)
  qed
qed

lemma parse_indexed_field:
  assumes f: "found d f i False" and acc: "accepts d f" and ix: "shouldIndex e f"
    and go: "\<not> emitStop d (emitted d @ [f])"
  shows "parseHeaderFieldRepr (d\<lparr>dbuf := field_bytes e f i False @ rest\<rparr>)
    = Inr (d\<lparr>dbuf := rest, emitted := emitted d @ [f], ddynTab := dynamicTable_add (ddynTab d) f\<rparr>,
           Some (DecodingError ''invalid encoding''))"
proof -
  let ?d = "d\<lparr>dbuf := field_bytes e f i False @ rest\<rparr>"
  have acc': "accepts ?d f" using acc by (simp add: accepts_def string_ok_def)
  have at: "at ?d = at d" by (simp add: fun_eq_iff at_def maxTableIndex_def)
  have f': "found ?d f i False" using f by (simp add: found_def at)
  have ns: "\<not> Sensitive f" using ix by (simp add: shouldIndex_def)
  then have fe: "f\<lparr>Sensitive := False\<rparr> = f" by simp
  have buf: "dbuf ?d = varint 0x40 6 i @ (if i = 0 then hpack_string (Name f) else [])
      @ hpack_string (Value f) @ rest"
    using ix ns by (simp add: field_bytes_def encodeTypeByte_def Let_def)
  have "parseFieldLiteral ?d 6 indexedTrue =
      Inr (?d\<lparr>dbuf := rest, emitted := emitted ?d @ [f\<lparr>Sensitive := sensitive indexedTrue\<rparr>],
        ddynTab := (if indexed indexedTrue then dynamicTable_add (ddynTab ?d) (f\<lparr>Sensitive := False\<rparr>) else ddynTab ?d)\<rparr>, None)"
    using f' acc' type_bits(3) buf go
    by (intro parseFieldLiteral_written [where t = "0x40"]) (auto simp: sensitive_def fe)
  then show ?thesis
    using dispatch_literal [OF _ _ buf] by (simp add: indexed_def sensitive_def fe)
qed

section \<open>Several fields\<close>

lemma varint_not_Nil [simp]: "varint t n i \<noteq> []"
  using appendVarInt_not_Nil [of "[]" n i] by (auto simp: varint_def split: list.splits)

lemma field_bytes_not_Nil: "field_bytes e f i m \<noteq> []"
  by (simp add: field_bytes_def Let_def)

lemma write_loop_step:
  assumes "parseHeaderFieldRepr (d\<lparr>dbuf := b @ rest\<rparr>) = Inr (d', None)" and "b \<noteq> []"
  shows "write_loop (d\<lparr>dbuf := b @ rest\<rparr>) n = write_loop (d'\<lparr>firstField := False\<rparr>) n"
  using assms by (simp add: write_loop.simps [of "d\<lparr>dbuf := b @ rest\<rparr>"] Let_def)

lemma unindexed_buf [simp]: "unindexed (e\<lparr>ebuf := b\<rparr>) f = unindexed e f"
  by (simp add: unindexed_def searchTable_def shouldIndex_def cong: if_cong)

lemma write_unindexed:
  assumes "in_sync e d" and "\<not> tableSizeUpdate e" and "unindexed e f" and "accepts d f"
    and "\<not> emitStop d (emitted d @ [f])"
  obtains b where "WriteField accept_all e f = Inr (e\<lparr>ebuf := b\<rparr>, None)" "b \<noteq> []"
    "\<And>rest. parseHeaderFieldRepr (d\<lparr>dbuf := b @ rest\<rparr>)
      = Inr (d\<lparr>dbuf := rest, emitted := emitted d @ [f]\<rparr>, None)"
proof -
  obtain i m where s: "searchTable e f = Inr (i, m)" and fnd: "found d f i m"
    by (rule searchTable_found [OF assms(1)])
  have nix: "m \<or> \<not> shouldIndex e f" using assms(3) s by (auto simp: unindexed_def)
  show thesis
  proof (rule that)
    have "(if \<not> m \<and> shouldIndex e f then dynamicTable_add (edynTab e) f else edynTab e) = edynTab e"
      using nix by auto
    then show "WriteField accept_all e f = Inr (e\<lparr>ebuf := field_bytes e f i m\<rparr>, None)"
      by (simp add: WriteField_eq [OF assms(2) s] accept_all_def)
    show "field_bytes e f i m \<noteq> []" by (rule field_bytes_not_Nil)
    show "parseHeaderFieldRepr (d\<lparr>dbuf := field_bytes e f i m @ rest\<rparr>)
      = Inr (d\<lparr>dbuf := rest, emitted := emitted d @ [f]\<rparr>, None)" for rest
      using fnd assms(4) nix assms(5) by (rule parse_unindexed_field)
  qed
qed

text \<open>The callback stays switched on for these fields.\<close>

definition keeps_emitting :: "Decoder \<Rightarrow> HeaderField list \<Rightarrow> bool" where
  "keeps_emitting d fs \<longleftrightarrow> (\<forall>n<length fs. \<not> emitStop d (emitted d @ take (Suc n) fs))"

lemma keeps_emitting_Cons:
  "keeps_emitting d (f # fs) \<longleftrightarrow>
     \<not> emitStop d (emitted d @ [f]) \<and> keeps_emitting (d\<lparr>emitted := emitted d @ [f]\<rparr>) fs"
  by (auto simp: keeps_emitting_def less_Suc_eq_0_disj)

lemma fields_roundtrip:
  assumes "in_sync e d" and "\<not> tableSizeUpdate e" and "\<forall>f \<in> set fs. unindexed e f \<and> accepts d f"
    and "keeps_emitting d fs"
  shows "\<exists>b bs. encode_fields e fs = Inr (e\<lparr>ebuf := b\<rparr>, bs) \<and>
    (\<forall>n. write_loop (d\<lparr>dbuf := bs\<rparr>) n =
       Inr (d\<lparr>dbuf := [], emitted := emitted d @ fs, firstField := (fs = [] \<and> firstField d)\<rparr>, n, None))"
  using assms
proof (induction fs arbitrary: e d)
  case Nil
  have "encode_fields e [] = Inr (e\<lparr>ebuf := ebuf e\<rparr>, [])" by simp
  moreover have "write_loop (d\<lparr>dbuf := []\<rparr>) n =
      Inr (d\<lparr>dbuf := [], emitted := emitted d @ [], firstField := firstField d\<rparr>, n, None)" for n
    by (simp add: write_loop.simps)
  ultimately show ?case by (intro exI [of _ "ebuf e"] exI [of _ "[]"]) simp
next
  case (Cons f fs)
  then obtain b where w: "WriteField accept_all e f = Inr (e\<lparr>ebuf := b\<rparr>, None)" "b \<noteq> []"
    "\<And>rest. parseHeaderFieldRepr (d\<lparr>dbuf := b @ rest\<rparr>)
      = Inr (d\<lparr>dbuf := rest, emitted := emitted d @ [f]\<rparr>, None)"
    by (auto simp: keeps_emitting_Cons elim: write_unindexed)
  let ?d = "d\<lparr>emitted := emitted d @ [f], firstField := False\<rparr>"
  have "in_sync (e\<lparr>ebuf := b\<rparr>) ?d" using Cons.prems(1) by (simp add: in_sync_def)
  moreover have "\<forall>g \<in> set fs. unindexed (e\<lparr>ebuf := b\<rparr>) g \<and> accepts ?d g"
    using Cons.prems(3) by (simp add: accepts_def string_ok_def)
  moreover have "keeps_emitting ?d fs"
    using Cons.prems(4) by (simp add: keeps_emitting_Cons) (simp add: keeps_emitting_def)
  ultimately obtain b' bs where IH: "encode_fields (e\<lparr>ebuf := b\<rparr>) fs = Inr (e\<lparr>ebuf := b'\<rparr>, bs)"
    "\<And>n. write_loop (?d\<lparr>dbuf := bs\<rparr>) n =
       Inr (?d\<lparr>dbuf := [], emitted := emitted ?d @ fs, firstField := (fs = [] \<and> firstField ?d)\<rparr>, n, None)"
    using Cons.IH [of "e\<lparr>ebuf := b\<rparr>" ?d] Cons.prems(2) by auto
  have "encode_fields e (f # fs) = Inr (e\<lparr>ebuf := b'\<rparr>, b @ bs)" using w(1) IH(1) by simp
  moreover have "write_loop (d\<lparr>dbuf := b @ bs\<rparr>) n =
      Inr (d\<lparr>dbuf := [], emitted := emitted d @ (f # fs), firstField := False\<rparr>, n, None)" for n
  proof -
    have "d\<lparr>dbuf := bs, emitted := emitted d @ [f]\<rparr>\<lparr>firstField := False\<rparr> = ?d\<lparr>dbuf := bs\<rparr>"
      by (cases d) simp
    with write_loop_step [OF w(3) [of bs] w(2), of n] IH(2) [of n] show ?thesis by simp
  qed
  ultimately show ?case by (intro exI conjI allI) simp_all
qed

section \<open>Table size updates\<close>

text \<open>How many entries an eviction removes is determined by the entries.\<close>

lemma evict_count_unique:
  assumes "entries_size (drop m xs) \<le> v" and "\<forall>j<m. v < entries_size (drop j xs)"
    and "entries_size (drop m' xs) \<le> v" and "\<forall>j<m'. v < entries_size (drop j xs)"
  shows "m = m'"
  using assms by (metis leD linorder_neqE_nat)

lemma setMaxSize_spec:
  assumes "dynamicTable_ok dt"
  obtains dt' m where "setMaxSize dt v = Inr dt'" "dynamicTable_ok dt'" "maxSize dt' = v"
    "allowedMaxSize dt' = allowedMaxSize dt" "ents (dtable dt') = drop m (ents (dtable dt))"
    "entries_size (drop m (ents (dtable dt))) \<le> unat v"
    "\<forall>j<m. unat v < entries_size (drop j (ents (dtable dt)))"
proof -
  have "dynamicTable_ok (dt\<lparr>maxSize := v\<rparr>)" using assms by (simp add: dynamicTable_ok_def)
  then obtain dt' m where e: "evict (dt\<lparr>maxSize := v\<rparr>) = Inr dt'" "dynamicTable_ok dt'"
    "ents (dtable dt') = drop m (ents (dtable (dt\<lparr>maxSize := v\<rparr>)))"
    "dsize dt' \<le> maxSize (dt\<lparr>maxSize := v\<rparr>)" "maxSize dt' = maxSize (dt\<lparr>maxSize := v\<rparr>)"
    "allowedMaxSize dt' = allowedMaxSize (dt\<lparr>maxSize := v\<rparr>)"
    "\<forall>j<m. unat (maxSize (dt\<lparr>maxSize := v\<rparr>)) < entries_size (drop j (ents (dtable (dt\<lparr>maxSize := v\<rparr>))))"
    by (rule evict_spec)
  show thesis
    by (rule that [of dt' m]) (use e in \<open>simp_all add: setMaxSize_def dynamicTable_ok_def word_le_nat_alt\<close>)
qed

lemma dispatch_update:
  assumes "dbuf d = varint 0x20 5 i @ rest"
  shows "parseHeaderFieldRepr d = parseDynamicTableSizeUpdate d"
proof -
  obtain b bs where v: "varint 0x20 5 i = (b OR 0x20) # bs" "\<And>k. bit b k \<Longrightarrow> k < unat (5 :: u8)"
    by (rule varint_hd [of 5 "0x20" i]) simp_all
  note test = type_test [OF v(2), where t = "0x20"]
  have "(b OR 0x20) AND 128 = 0" "(b OR 0x20) AND 192 = 0" "(b OR 0x20) AND 224 = 0x20"
    using test [where m = 128] test [where m = 192] test [where m = 224] by simp_all
  moreover have "(b OR 0x20) AND 240 \<noteq> 0 \<and> (b OR 0x20) AND 240 \<noteq> 16"
  proof -
    have "bit ((b OR 0x20) AND 240) 5" by (simp add: bit_simps)
    moreover have "\<not> bit (0 :: u8) 5" "\<not> bit (16 :: u8) 5" by simp_all
    ultimately show ?thesis by metis
  qed
  ultimately show ?thesis unfolding parseHeaderFieldRepr_def assms v(1) by (simp add: Let_def)
qed

lemma parse_update:
  assumes ok: "dynamicTable_ok (ddynTab d)" and first: "firstField d \<or> dsize (ddynTab d) = 0"
    and v: "v \<le> allowedMaxSize (ddynTab d)"
  obtains dt m where
    "\<And>rest. parseHeaderFieldRepr (d\<lparr>dbuf := varint 0x20 5 (ucast v) @ rest\<rparr>) = Inr (d\<lparr>dbuf := rest, ddynTab := dt\<rparr>, None)"
    "dynamicTable_ok dt" "maxSize dt = v" "ents (dtable dt) = drop m (ents (dtable (ddynTab d)))"
    "entries_size (drop m (ents (dtable (ddynTab d)))) \<le> unat v"
    "\<forall>j<m. unat v < entries_size (drop j (ents (dtable (ddynTab d))))"
proof -
  obtain dt m where dt: "setMaxSize (ddynTab d) v = Inr dt" "dynamicTable_ok dt" "maxSize dt = v"
    "allowedMaxSize dt = allowedMaxSize (ddynTab d)"
    "ents (dtable dt) = drop m (ents (dtable (ddynTab d)))"
    "entries_size (drop m (ents (dtable (ddynTab d)))) \<le> unat v"
    "\<forall>j<m. unat v < entries_size (drop j (ents (dtable (ddynTab d))))"
    by (rule setMaxSize_spec [OF ok])
  have w32: "unat w < 2 ^ 32" for w :: u32 by (rule order_less_le_trans [OF unsigned_less]) simp
  have uv: "unat (ucast w :: u64) = unat w" for w :: u32
    using w32 [of w] by (simp add: unsigned_ucast_eq take_bit_nat_eq_self)
  have "unat v < 2 ^ 32" by (rule w32)
  then have fits: "varint_fits 5 (ucast v)" by (intro varint_fits_small) (simp add: uv)
  have r: "readVarInt 5 (varint 0x20 5 (ucast v) @ rest) = Inr (Inr (ucast v, rest))" for rest
    using type_bits(2) fits by (intro readVarInt_varint) simp_all
  have le: "\<not> (ucast v :: u64) > ucast (allowedMaxSize (ddynTab d))"
    using v by (simp add: word_less_nat_alt word_le_nat_alt uv)
  have rt: "(ucast (ucast v :: u64) :: u32) = v" by (rule bit_word_eqI) (simp add: bit_simps)
  have "parseHeaderFieldRepr (d\<lparr>dbuf := varint 0x20 5 (ucast v) @ rest\<rparr>)
      = Inr (d\<lparr>dbuf := rest, ddynTab := dt\<rparr>, None)" for rest
    using first le r [of rest] dt(1) rt
    by (subst dispatch_update) (auto simp: parseDynamicTableSizeUpdate_def word_gt_0)
  with dt(2,3,5,6,7) that show thesis by blast
qed

text \<open>The updates that a write begins with.\<close>

lemma write_updates_eq:
  assumes "tableSizeUpdate e"
  shows "write_updates (e\<lparr>ebuf := []\<rparr>) = Inr (e\<lparr>tableSizeUpdate := False, minSize := uint32Max,
    ebuf := (if minSize e < maxSize (edynTab e) then varint 0x20 5 (ucast (minSize e)) else [])
      @ varint 0x20 5 (ucast (maxSize (edynTab e)))\<rparr>)"
  using assms by (cases e) (simp add: write_updates_def append_eqs Let_def)

lemma update_out_of_place:
  assumes "\<not> firstField d" and "dsize (ddynTab d) \<noteq> 0" and "dbuf d = varint 0x20 5 i @ rest"
  shows "parseHeaderFieldRepr d = Inr (d, Some (DecodingError
    ''dynamic table size update MUST occur at the beginning of a header block''))"
  using assms by (simp add: dispatch_update [OF assms(3)] parseDynamicTableSizeUpdate_def word_gt_0)

section \<open>Arbitrary input\<close>

text \<open>
  How close the decoder is to running out of entry ids; the bytes still to parse count as well, because
  each entry takes at least one.
\<close>

definition load :: "Decoder \<Rightarrow> nat" where
  "load d = unat (evictCount (dtable (ddynTab d))) + length (ents (dtable (ddynTab d))) + length (dbuf d)"

lemma at_total: "length (ents (dtable (ddynTab d))) < 2 ^ 62 \<Longrightarrow> \<exists>r. at d i = Inr r"
proof -
  let ?l = "length (ents (dtable (ddynTab d)))"
  assume len: "?l < 2 ^ 62"
  consider "i = 0" | "i \<noteq> 0" "i \<le> 61" | "\<not> i \<le> 61" "i > of_nat (maxTableIndex d)"
    | "\<not> i \<le> 61" "\<not> i > of_nat (maxTableIndex d)" by blast
  then show ?thesis
  proof cases
    case 2
    then have "unat (i - 1) = unat i - 1" "unat i \<le> 61" "0 < unat i"
      by (simp_all add: unat_sub word_le_nat_alt unat_gt_0 Suc_le_eq)
    then have "unat (i - 1) < length (ents staticTable)" by simp
    with 2 show ?thesis by (simp add: at_def)
  next
    case 4
    have m: "unat (of_nat (?l + 61) :: u64) = ?l + 61" using len by (intro unat_of_nat64) simp
    then have i: "61 < unat i" "unat i \<le> ?l + 61"
      using 4 by (simp_all add: word_le_nat_alt word_less_nat_alt maxTableIndex_def table_len_def)
    then have si: "sint i = int (unat i)" using len by (intro sint_small) simp
    have "0 \<le> int ?l - (int (unat i) - 61)" "int ?l - (int (unat i) - 61) < int ?l" using i by linarith+
    with 4 si show ?thesis
      unfolding at_def table_len_static int_get_def table_len_def Let_def si by (cases "i = 0") simp_all
  qed (simp_all add: at_def)
qed

lemma hbind_total:
  assumes "\<exists>r. m = Inr r" and "\<And>x. m = Inr (Inr x) \<Longrightarrow> \<exists>r. f x = Inr r"
  shows "\<exists>r. hbind m f = Inr r"
proof -
  from assms(1) obtain r where "m = Inr r" by blast
  with assms(2) show ?thesis by (cases r) auto
qed

text \<open>What a parser guarantees: it returns, and without an error the load has not grown.\<close>

definition parse_safe :: "Decoder \<Rightarrow> dres \<Rightarrow> bool" where
  "parse_safe d r \<longleftrightarrow> (\<exists>d' err. r = Inr (d', err) \<and> (err = None \<longrightarrow> load d' \<le> load d))"

lemma dbind_safe:
  assumes "\<exists>r. m = Inr r" and "\<And>x. m = Inr (Inr x) \<Longrightarrow> parse_safe d (f x)"
  shows "parse_safe d (dbind d' m f)"
proof -
  from assms(1) obtain r where "m = Inr r" by blast
  with assms(2) show ?thesis by (cases r) (auto simp: parse_safe_def)
qed

lemma dbind_total:
  assumes "\<exists>r. m = Inr r" and "\<And>x. m = Inr (Inr x) \<Longrightarrow> \<exists>r. f x = Inr r"
  shows "\<exists>r. dbind d m f = Inr r"
proof -
  from assms(1) obtain r where "m = Inr r" by blast
  with assms(2) show ?thesis by (cases r) auto
qed

lemma readString_total: "\<exists>r. readString d p = Inr r"
proof (cases p)
  case (Cons b q)
  obtain r where "readVarInt 7 p = Inr r" using readVarInt_no_panic [of 7 p] by auto
  then show ?thesis unfolding readString_def Cons list.case Let_def
    by (intro hbind_total) (auto split: prod.splits)
qed (simp add: readString_def)

lemma decodeString_total: "\<exists>r. decodeString d u = Inr r"
  using huffmanDecode_safe [of "maxStrLen d" "ub u"] by (auto simp: decodeString_def loop_safe_def)

lemma callEmit_keeps:
  "callEmit d hf = (d', err) \<Longrightarrow> load d' = load d"
  by (auto simp: callEmit_def load_def Let_def split: if_splits)

lemma callEmit_ddynTab: "callEmit d hf = (d', err) \<Longrightarrow> ddynTab d' = ddynTab d"
  by (auto simp: callEmit_def Let_def split: if_splits)

lemma callEmit_safe: "load d \<le> load d0 \<Longrightarrow> parse_safe d0 (Inr (callEmit d hf))"
  using callEmit_keeps by (cases "callEmit d hf") (auto simp: parse_safe_def)

lemma parseFieldIndexed_safe:
  assumes "load d < 2 ^ 62"
  shows "parse_safe d (parseFieldIndexed d)"
  unfolding parseFieldIndexed_def
proof (rule dbind_safe)
  show "\<exists>r. readVarInt 7 (dbuf d) = Inr r" by (rule readVarInt_no_panic) simp_all
  fix x
  assume x: "readVarInt 7 (dbuf d) = Inr (Inr x)"
  obtain i buf where ib: "x = (i, buf)" by (cases x)
  have "length buf < length (dbuf d)" using readVarInt_shorter x ib by blast
  then have le: "load (d\<lparr>dbuf := buf\<rparr>) \<le> load d" by (simp add: load_def)
  obtain r where "at d i = Inr r" using at_total [of d i] assms by (auto simp: load_def)
  then show "parse_safe d (case x of (idx, buf) \<Rightarrow> go_bind (at d idx) (\<lambda>r. case r of
       None \<Rightarrow> Inr (d, Some (InvalidIndexError (sint idx)))
     | Some hf \<Rightarrow> Inr (callEmit (d\<lparr>dbuf := buf\<rparr>) \<lparr>Name = Name hf, Value = Value hf, Sensitive = False\<rparr>)))"
    using callEmit_safe [OF le] by (auto simp: ib parse_safe_def split: option.splits)
qed

lemma parseFieldLiteral_safe:
  assumes load: "load d < 2 ^ 62" and n: "1 \<le> n" "n \<le> 8"
  shows "parse_safe d (parseFieldLiteral d n it)"
proof -
  have name: "\<exists>r. literal_name d i buf = Inr r" for i buf
  proof -
    obtain r where "at d i = Inr r" using at_total [of d i] load by (auto simp: load_def)
    moreover obtain r' where "readString d buf = Inr r'" using readString_total by blast
    ultimately show ?thesis
      by (cases r') (auto simp: literal_name_def split: option.splits prod.splits)
  qed
  have "\<exists>r. parseFieldLiteral d n it = Inr r"
    unfolding parseFieldLiteral_def Let_def
    by (auto intro!: dbind_total simp: split_def name readString_total decodeString_total
        readVarInt_no_panic [OF n] simp del: split_paired_Ex)
  then obtain d' err where r: "parseFieldLiteral d n it = Inr (d', err)" by force
  have "load d' \<le> load d" if "err = None"
  proof -
    have "ddynTab d' = ddynTab d \<or> (\<exists>hf. ddynTab d' = dynamicTable_add (ddynTab d) hf)"
      using r that unfolding parseFieldLiteral_def Let_def
      by (auto elim!: dbind_None dest!: callEmit_ddynTab split: if_splits)
    moreover have "length (dbuf d') < length (dbuf d)" using r that parseFieldLiteral_consumes by blast
    ultimately show ?thesis by (auto simp: load_def dynamicTable_add_def addEntry_def Let_def)
  qed
  with r show ?thesis by (simp add: parse_safe_def)
qed

lemma parseDynamicTableSizeUpdate_safe:
  assumes load: "load d < 2 ^ 62"
  shows "parse_safe d (parseDynamicTableSizeUpdate d)"
proof (cases "\<not> firstField d \<and> dsize (ddynTab d) > 0")
  case True
  then show ?thesis by (simp add: parseDynamicTableSizeUpdate_def parse_safe_def)
next
  case False
  have "parse_safe d (case x of (sz, buf) \<Rightarrow>
      if sz > ucast (allowedMaxSize (ddynTab d))
      then Inr (d, Some (DecodingError ''dynamic table size update too large''))
      else go_bind (setMaxSize (ddynTab d) (ucast sz)) (\<lambda>dt. Inr (d\<lparr>ddynTab := dt, dbuf := buf\<rparr>, None)))"
    if x: "readVarInt 5 (dbuf d) = Inr (Inr x)" for x
  proof -
    obtain sz buf where sb: "x = (sz, buf)" by (cases x)
    have lt: "length buf < length (dbuf d)" using readVarInt_shorter x sb by blast
    obtain dt where "setMaxSize (ddynTab d) (ucast sz) = Inr dt"
      "unat (evictCount (dtable dt)) + length (ents (dtable dt))
        = unat (evictCount (dtable (ddynTab d))) + length (ents (dtable (ddynTab d)))"
      using evict_total [of "(ddynTab d)\<lparr>maxSize := ucast sz\<rparr>"] load
      by (auto simp: setMaxSize_def load_def)
    with lt show ?thesis by (auto simp: sb parse_safe_def load_def)
  qed
  then show ?thesis
    using False readVarInt_no_panic [of 5 "dbuf d"]
    by (auto simp: parseDynamicTableSizeUpdate_def intro!: dbind_safe)
qed

lemma parseHeaderFieldRepr_safe:
  assumes "load d < 2 ^ 62" and "dbuf d \<noteq> []"
  shows "parse_safe d (parseHeaderFieldRepr d)"
proof -
  obtain b p where b: "dbuf d = b # p" using assms(2) by (cases "dbuf d") simp_all
  note safe = parseFieldIndexed_safe [OF assms(1)] parseDynamicTableSizeUpdate_safe [OF assms(1)]
    parseFieldLiteral_safe [OF assms(1), of 4 indexedFalse] parseFieldLiteral_safe [OF assms(1), of 4 indexedNever]
  obtain d' err where "parseFieldLiteral d 6 indexedTrue = Inr (d', err)"
    using parseFieldLiteral_safe [OF assms(1), of 6 indexedTrue] by (auto simp: parse_safe_def)
  then have "parse_safe d (go_bind (parseFieldLiteral d 6 indexedTrue)
      (\<lambda>(d, _). Inr (d, Some (DecodingError ''invalid encoding''))))"
    by (simp add: parse_safe_def)
  moreover have "parse_safe d (Inr (d, Some (DecodingError ''invalid encoding'')))" by (simp add: parse_safe_def)
  ultimately show ?thesis
    using safe unfolding parseHeaderFieldRepr_def b list.case Let_def by simp
qed

lemma write_loop_total: "load d < 2 ^ 62 \<Longrightarrow> \<exists>d' r. write_loop d n = Inr (d', r)"
proof (induction d n rule: write_loop.induct)
  case (1 d n)
  show ?case
  proof (cases "dbuf d = []")
    case True
    then show ?thesis by (simp add: write_loop.simps)
  next
    case False
    from parseHeaderFieldRepr_safe [OF "1.prems" False] obtain d' err where
      p: "parseHeaderFieldRepr d = Inr (d', err)" "err = None \<longrightarrow> load d' \<le> load d"
      by (auto simp: parse_safe_def)
    show ?thesis
    proof (cases err)
      case None
      have "load (d'\<lparr>firstField := False\<rparr>) < 2 ^ 62" using p(2) None "1.prems" by (simp add: load_def)
      then have "\<exists>d'' r. write_loop (d'\<lparr>firstField := False\<rparr>) n = Inr (d'', r)"
        using "1.IH" [of "(d', err)" d' err] p(1) False None by simp
      then show ?thesis using p(1) False None by (simp add: write_loop.simps [of d] Let_def)
    next
      case (Some e)
      then show ?thesis using p(1) False by (simp add: write_loop.simps [of d] Let_def)
    qed
  qed
qed

lemma example_sync: "in_sync example_encoder example_decoder"
  using dynamicTable_ok_empty
  by (simp add: in_sync_def example_encoder_def example_decoder_def dynamicTable_ok_def
      emptyDynamicTable_def emptyTable_def table_init_def)

lemma example_decoder_ok: "dynamicTable_ok (ddynTab example_decoder)"
  using dynamicTable_ok_empty by (simp add: example_decoder_def dynamicTable_ok_def)

section \<open>Properties\<close>

text \<open>
  C6: Header blocks survive the wire. When both ends hold the same dynamic table entries, and the
  encoder adds none of the fields to its table (each is in a table already, is marked sensitive, or is
  too large), decoding what \<open>WriteField\<close> wrote for a list of fields gives exactly the same
  fields, in order and with their sensitivity, for every choice of index, literal and Huffman encoding
  that the encoder makes; both ends stay in step.
\<close>
theorem hpack_roundtrip:
  assumes "in_sync e d" and "\<not> tableSizeUpdate e" and "saveBuf d = []"
    and "\<forall>f \<in> set fs. unindexed e f \<and> accepts d f"
  shows "\<exists>e' bs d'. encode_fields e fs = Inr (e', bs) \<and> DecodeFull d bs = Inr (d', Inr fs)
    \<and> in_sync e' d' \<and> emitted d' = emitted d"
proof -
  have sync: "in_sync e (SetEmitFunc d (\<lambda>_. False))" using assms(1) by (simp add: in_sync_def SetEmitFunc_def)
  have "\<forall>f \<in> set fs. unindexed e f \<and> accepts (SetEmitFunc d (\<lambda>_. False)) f"
    using assms(4) by (simp add: accepts_def string_ok_def SetEmitFunc_def)
  moreover have "keeps_emitting (SetEmitFunc d (\<lambda>_. False)) fs" by (simp add: keeps_emitting_def SetEmitFunc_def)
  ultimately obtain b bs where
    enc: "encode_fields e fs = Inr (e\<lparr>ebuf := b\<rparr>, bs)" and
    loop: "\<And>n. write_loop (SetEmitFunc d (\<lambda>_. False)\<lparr>dbuf := bs\<rparr>) n = Inr (SetEmitFunc d (\<lambda>_. False)\<lparr>dbuf := [],
      emitted := emitted (SetEmitFunc d (\<lambda>_. False)) @ fs, firstField := (fs = [] \<and> firstField d)\<rparr>, n, None)"
    using fields_roundtrip [OF sync assms(2), of fs] by (auto simp: SetEmitFunc_def)
  show ?thesis
  proof (cases "bs = []")
    case True
    then have "emitted (SetEmitFunc d (\<lambda>_. False)\<lparr>dbuf := []\<rparr>) = emitted (SetEmitFunc d (\<lambda>_. False)\<lparr>dbuf := [],
        emitted := emitted (SetEmitFunc d (\<lambda>_. False)) @ fs, firstField := (fs = [] \<and> firstField d)\<rparr>)"
      using loop [of 0] by (simp add: write_loop.simps)
    then have "fs = []" by (simp add: SetEmitFunc_def)
    then have "DecodeFull d bs = Inr (d\<lparr>firstField := True\<rparr>, Inr fs)"
      using True assms(3) by (simp add: DecodeFull_def decoder_Write_def decoder_Close_def SetEmitFunc_def)
    with enc assms(1) show ?thesis
      by (intro exI [of _ "e\<lparr>ebuf := b\<rparr>"] exI [of _ bs] exI [of _ "d\<lparr>firstField := True\<rparr>"])
        (simp add: in_sync_def)
  next
    case False
    then have "DecodeFull d bs = Inr (d\<lparr>dbuf := [], firstField := True\<rparr>, Inr fs)"
      using loop [of "length bs"] assms(3)
      by (simp add: DecodeFull_def decoder_Write_def decoder_Close_def SetEmitFunc_def)
    with enc assms(1) show ?thesis
      by (intro exI [of _ "e\<lparr>ebuf := b\<rparr>"] exI [of _ bs]
          exI [of _ "d\<lparr>dbuf := [], firstField := True\<rparr>"]) (simp add: in_sync_def)
  qed
qed

theorem hpack_roundtrip_witness:
  "\<exists>e' bs d'. encode_fields example_encoder
      [\<lparr>Name = '':method'', Value = ''GET'', Sensitive = False\<rparr>,
       \<lparr>Name = ''authorization'', Value = ''secret'', Sensitive = True\<rparr>] = Inr (e', bs)
    \<and> DecodeFull example_decoder bs = Inr (d', Inr
      [\<lparr>Name = '':method'', Value = ''GET'', Sensitive = False\<rparr>,
       \<lparr>Name = ''authorization'', Value = ''secret'', Sensitive = True\<rparr>])
    \<and> in_sync e' d' \<and> emitted d' = emitted example_decoder"
proof (rule hpack_roundtrip [OF example_sync])
  have "searchTable example_encoder \<lparr>Name = '':method'', Value = ''GET'', Sensitive = False\<rparr> = Inr (2, True)"
    by code_simp
  then show "\<forall>f \<in> set [\<lparr>Name = '':method'', Value = ''GET'', Sensitive = False\<rparr>,
      \<lparr>Name = ''authorization'', Value = ''secret'', Sensitive = True\<rparr>].
      unindexed example_encoder f \<and> accepts example_decoder f"
    by (simp add: unindexed_def shouldIndex_def accepts_def string_ok_def example_decoder_def)
qed (simp_all add: example_encoder_def example_decoder_def)


text \<open>
  C22: A field that the encoder decides to index is never decoded: for every such field the decoder reports
  an invalid encoding. It has by then added the field to its table, so both tables still agree.
\<close>
theorem incremental_indexing_fails:
  assumes "in_sync e d" and "\<not> tableSizeUpdate e" and "saveBuf d = []"
    and "\<not> unindexed e f" and "accepts d f"
  shows "\<exists>e' d'. WriteField accept_all e f = Inr (e', None)
    \<and> DecodeFull d (ebuf e') = Inr (d', Inl (DecodingError ''invalid encoding''))
    \<and> ents (dtable (edynTab e')) = ents (dtable (edynTab e)) @ [f]
    \<and> ents (dtable (ddynTab d')) = ents (dtable (edynTab e'))"
proof -
  have sync: "in_sync e (SetEmitFunc d (\<lambda>_. False))" using assms(1) by (simp add: in_sync_def SetEmitFunc_def)
  obtain i m where s: "searchTable e f = Inr (i, m)" and fnd: "found (SetEmitFunc d (\<lambda>_. False)) f i m"
    by (rule searchTable_found [OF sync])
  have ix: "\<not> m" "shouldIndex e f" using assms(4) s by (auto simp: unindexed_def)
  let ?b = "field_bytes e f i False"
  let ?e' = "e\<lparr>edynTab := dynamicTable_add (edynTab e) f, ebuf := ?b\<rparr>"
  have w: "WriteField accept_all e f = Inr (?e', None)"
    using ix by (simp add: WriteField_eq [OF assms(2) s] accept_all_def)
  have acc: "accepts (SetEmitFunc d (\<lambda>_. False)) f" using assms(5) by (simp add: accepts_def string_ok_def SetEmitFunc_def)
  let ?d' = "d\<lparr>dbuf := [], ddynTab := dynamicTable_add (ddynTab d) f, firstField := False\<rparr>"
  have "parseHeaderFieldRepr (SetEmitFunc d (\<lambda>_. False)\<lparr>dbuf := ?b\<rparr>) =
      Inr (SetEmitFunc d (\<lambda>_. False)\<lparr>dbuf := [], emitted := emitted (SetEmitFunc d (\<lambda>_. False)) @ [f],
             ddynTab := dynamicTable_add (ddynTab d) f\<rparr>, Some (DecodingError ''invalid encoding''))"
    using parse_indexed_field [OF _ acc ix(2), of i "[]"] fnd ix(1) by (simp add: SetEmitFunc_def)
  then have "DecodeFull d ?b = Inr (?d', Inl (DecodingError ''invalid encoding''))"
    using assms(3) field_bytes_not_Nil [of e f i False]
    by (simp add: DecodeFull_def decoder_Write_def write_loop.simps SetEmitFunc_def Let_def)
  moreover have "ents (dtable (ddynTab ?d')) = ents (dtable (edynTab ?e'))"
    using assms(1) by (simp add: in_sync_def dynamicTable_add_def htab.add_contents)
  ultimately show ?thesis
    using w by (intro exI [of _ ?e'] exI [of _ ?d']) (simp add: dynamicTable_add_def htab.add_contents)
qed

theorem incremental_indexing_fails_witness:
  "\<exists>e' d'. WriteField accept_all example_encoder \<lparr>Name = ''x-id'', Value = ''7'', Sensitive = False\<rparr> = Inr (e', None)
    \<and> DecodeFull example_decoder (ebuf e') = Inr (d', Inl (DecodingError ''invalid encoding''))
    \<and> ents (dtable (edynTab e')) = ents (dtable (edynTab example_encoder))
        @ [\<lparr>Name = ''x-id'', Value = ''7'', Sensitive = False\<rparr>]
    \<and> ents (dtable (ddynTab d')) = ents (dtable (edynTab e'))"
proof (rule incremental_indexing_fails [OF example_sync])
  have "searchTable example_encoder \<lparr>Name = ''x-id'', Value = ''7'', Sensitive = False\<rparr> = Inr (0, False)"
    by code_simp
  moreover have "shouldIndex example_encoder \<lparr>Name = ''x-id'', Value = ''7'', Sensitive = False\<rparr>"
    by code_simp
  ultimately show "\<not> unindexed example_encoder \<lparr>Name = ''x-id'', Value = ''7'', Sensitive = False\<rparr>"
    by (simp add: unindexed_def)
qed (simp_all add: example_encoder_def example_decoder_def accepts_def string_ok_def)


text \<open>
  A table size change keeps both ends in step. After the encoder changes the maximum size of its
  table, the next write begins with an update; a decoder that had the same entries applies it at the start
  of a block, ends up with the same maximum size and the same entries as the encoder, and leaves the rest
  of the input.
\<close>
lemma table_size_update_sync:
  assumes sync: "in_sync e d" and ok: "dynamicTable_ok (ddynTab d)" and first: "firstField d"
    and "minSize e = uint32Max" and "v \<le> maxSizeLimit e" and "v \<le> allowedMaxSize (ddynTab d)"
  shows "\<exists>e1 e2 d'. encoder_SetMaxDynamicTableSize e v = Inr e1
    \<and> write_updates (e1\<lparr>ebuf := []\<rparr>) = Inr e2
    \<and> parseHeaderFieldRepr (d\<lparr>dbuf := ebuf e2 @ rest\<rparr>) = Inr (d', None) \<and> dbuf d' = rest
    \<and> in_sync e2 d' \<and> maxSize (ddynTab d') = v \<and> maxSize (edynTab e2) = v"
proof -
  let ?xs = "ents (dtable (edynTab e))"
  have eok: "dynamicTable_ok (edynTab e)" and xs: "ents (dtable (ddynTab d)) = ?xs"
    and len: "length ?xs < 2 ^ 62" using sync by (simp_all add: in_sync_def)
  obtain dt m where dt: "setMaxSize (edynTab e) v = Inr dt" "dynamicTable_ok dt" "maxSize dt = v"
    "allowedMaxSize dt = allowedMaxSize (edynTab e)" "ents (dtable dt) = drop m ?xs"
    "entries_size (drop m ?xs) \<le> unat v" "\<forall>j<m. unat v < entries_size (drop j ?xs)"
    by (rule setMaxSize_spec [OF eok])
  obtain dt' m' where p: "\<And>rest. parseHeaderFieldRepr (d\<lparr>dbuf := varint 0x20 5 (ucast v) @ rest\<rparr>)
      = Inr (d\<lparr>dbuf := rest, ddynTab := dt'\<rparr>, None)"
    "dynamicTable_ok dt'" "maxSize dt' = v" "ents (dtable dt') = drop m' (ents (dtable (ddynTab d)))"
    "entries_size (drop m' (ents (dtable (ddynTab d)))) \<le> unat v"
    "\<forall>j<m'. unat v < entries_size (drop j (ents (dtable (ddynTab d))))"
    using parse_update [OF ok _ assms(6)] first by blast
  have "m' = m" using evict_count_unique [of m' ?xs "unat v" m] p(5,6) dt(6,7) xs by simp
  define e1 where "e1 = e\<lparr>minSize := (if v < uint32Max then v else uint32Max), tableSizeUpdate := True, edynTab := dt\<rparr>"
  have 1: "encoder_SetMaxDynamicTableSize e v = Inr e1"
  proof -
    have "\<not> v > maxSizeLimit e" using assms(5) by simp
    then show ?thesis
      using dt(1) assms(4) by (cases "v < uint32Max") (simp_all add: encoder_SetMaxDynamicTableSize_def e1_def Let_def)
  qed
  define e2 where "e2 = e1\<lparr>tableSizeUpdate := False, minSize := uint32Max, ebuf := varint 0x20 5 (ucast v)\<rparr>"
  have "v \<le> uint32Max" by (simp add: uint32Max_def)
  then have "\<not> minSize e1 < v" by (auto simp: e1_def)
  then have 2: "write_updates (e1\<lparr>ebuf := []\<rparr>) = Inr e2"
    using dt(3) write_updates_eq [of e1] by (simp add: e2_def) (simp add: e1_def)
  have "in_sync e2 (d\<lparr>dbuf := rest, ddynTab := dt'\<rparr>)"
    using dt(2,5) p(4) len xs \<open>m' = m\<close> by (simp add: in_sync_def e2_def e1_def)
  with 1 2 p(1) [of rest] p(3) dt(3) show ?thesis
    by (intro exI [of _ e1] exI [of _ e2] exI [of _ "d\<lparr>dbuf := rest, ddynTab := dt'\<rparr>"])
      (simp add: e2_def e1_def)
qed

text \<open>
  When the table was shrunk and enlarged again between two writes, the encoder announces both sizes;
  the decoder rejects the second update whenever an entry survives the first one.
\<close>
lemma two_size_updates_rejected:
  assumes ok: "dynamicTable_ok (ddynTab d)" and "firstField d"
    and "tableSizeUpdate e" and "minSize e < maxSize (edynTab e)"
    and "minSize e \<le> allowedMaxSize (ddynTab d)"
    and "ents (dtable (ddynTab d)) = xs @ [f]" and "0 < unat (Size f)" and "Size f \<le> minSize e"
  shows "\<exists>e' d'. write_updates (e\<lparr>ebuf := []\<rparr>) = Inr e'
    \<and> write_loop (d\<lparr>dbuf := ebuf e' @ rest\<rparr>) n = Inr (d', n, Some (DecodingError
        ''dynamic table size update MUST occur at the beginning of a header block''))"
proof -
  let ?u = "varint 0x20 5 (ucast (minSize e))" and ?v = "varint 0x20 5 (ucast (maxSize (edynTab e)))"
  define e' where "e' = e\<lparr>tableSizeUpdate := False, minSize := uint32Max, ebuf := ?u @ ?v\<rparr>"
  have w: "write_updates (e\<lparr>ebuf := []\<rparr>) = Inr e'"
    using assms(4) by (simp add: write_updates_eq [OF assms(3)] e'_def)
  obtain dt m where p: "\<And>rest. parseHeaderFieldRepr (d\<lparr>dbuf := ?u @ rest\<rparr>) = Inr (d\<lparr>dbuf := rest, ddynTab := dt\<rparr>, None)"
    "dynamicTable_ok dt" "maxSize dt = minSize e" "ents (dtable dt) = drop m (ents (dtable (ddynTab d)))"
    "entries_size (drop m (ents (dtable (ddynTab d)))) \<le> unat (minSize e)"
    "\<forall>j<m. unat (minSize e) < entries_size (drop j (ents (dtable (ddynTab d))))"
    using parse_update [OF ok _ assms(5)] assms(2) by blast
  have "m \<le> length xs"
  proof (rule ccontr)
    assume "\<not> m \<le> length xs"
    then have "unat (minSize e) < entries_size (drop (length xs) (xs @ [f]))"
      using p(6) [rule_format, of "length xs"] assms(6) by simp
    with assms(8) show False by (simp add: word_le_nat_alt)
  qed
  then have "0 < entries_size (ents (dtable dt))" using p(4) assms(6,7) by simp
  then have pos: "dsize dt \<noteq> 0" using p(2) by (auto simp: dynamicTable_ok_def)
  let ?d1 = "d\<lparr>dbuf := ?v @ rest, ddynTab := dt, firstField := False\<rparr>"
  have "write_loop (d\<lparr>dbuf := ?u @ ?v @ rest\<rparr>) n = write_loop ?d1 n"
    using write_loop_step [OF p(1), where n = n] by simp
  also have "\<dots> = Inr (?d1\<lparr>firstField := False\<rparr>, n, Some (DecodingError
        ''dynamic table size update MUST occur at the beginning of a header block''))"
    using update_out_of_place [of ?d1] pos by (subst write_loop.simps) simp
  finally have "write_loop (d\<lparr>dbuf := ebuf e' @ rest\<rparr>) n = Inr (?d1\<lparr>firstField := False\<rparr>, n, Some (DecodingError
        ''dynamic table size update MUST occur at the beginning of a header block''))"
    by (simp add: e'_def)
  with w show ?thesis by blast
qed

text \<open>
  C19: The decoder survives every input: whatever bytes it is given, in whatever configuration, it returns
  without a panic, unless it is about to run out of entry ids.
\<close>
theorem DecodeFull_total:
  assumes "load (d\<lparr>dbuf := saveBuf d @ p\<rparr>) < 2 ^ 62"
  shows "\<exists>d' r. DecodeFull d p = Inr (d', r)"
proof -
  have "\<exists>d' r. decoder_Write (SetEmitFunc d (\<lambda>_. False)) p = Inr (d', r)"
    unfolding decoder_Write_def Let_def
    using assms write_loop_total [of "SetEmitFunc d (\<lambda>_. False)\<lparr>dbuf := p\<rparr>"]
      write_loop_total [of "SetEmitFunc d (\<lambda>_. False)\<lparr>dbuf := saveBuf d @ p, saveBuf := []\<rparr>"]
    by (cases "saveBuf d") (simp_all add: load_def SetEmitFunc_def)
  then obtain d' n err where "decoder_Write (SetEmitFunc d (\<lambda>_. False)) p = Inr (d', n, err)" by auto
  then show ?thesis
    by (cases err) (auto simp: DecodeFull_def Let_def split: prod.splits option.splits)
qed

theorem DecodeFull_total_witness:
  "\<exists>d' r. DecodeFull example_decoder [0xff, 0x41, 0x80] = Inr (d', r)"
  by (rule DecodeFull_total)
    (simp add: load_def example_decoder_def emptyDynamicTable_def emptyTable_def table_init_def)

text \<open>
  Invalid Huffman data is not reported: a literal field whose value does not decode is delivered with
  an empty value, and the block is accepted.
\<close>
lemma invalid_huffman_accepted:
  assumes "string_ok d nm" and "emitEnabled d" and "maxStrLen d = 0" and "saveBuf d = []"
    and "length v < 2 ^ 58" and "huffmanDecode [] 0 v = Inr (Inl err)"
  shows "\<exists>d'. DecodeFull d (varint 0x10 4 0 @ hpack_string nm @ varint 0x80 7 (of_nat (length v)) @ v)
    = Inr (d', Inr [\<lparr>Name = nm, Value = '''', Sensitive = True\<rparr>])"
proof -
  let ?f = "\<lparr>Name = nm, Value = '''', Sensitive = True\<rparr>" and ?vb = "varint 0x80 7 (of_nat (length v)) @ v"
  let ?b = "varint 0x10 4 0 @ hpack_string nm @ ?vb"
  let ?d = "SetEmitFunc d (\<lambda>_. False)\<lparr>dbuf := ?b\<rparr>"
  let ?u = "\<lparr>isHuff = True, ub = v\<rparr>"
  have acc: "accepts ?d ?f" using assms(1,2,3) by (simp add: accepts_def string_ok_def SetEmitFunc_def)
  have fnd: "found ?d ?f 0 False" by (simp add: found_def)
  have rs: "readString ?d (?vb @ []) = Inr (Inr (?u, []))"
    using readString_huffman [of v ?d "[]"] assms(3,5) by (simp add: SetEmitFunc_def)
  have ds: "decodeString ?d ?u = Inr (Inr (Value ?f))"
    using assms(3,6) by (simp add: decodeString_def SetEmitFunc_def)
  have buf: "dbuf ?d = varint 0x10 4 0 @ (if 0 = (0 :: u64) then hpack_string (Name ?f) else []) @ ?vb @ []"
    by simp
  have "parseHeaderFieldRepr ?d = parseFieldLiteral ?d 4 indexedNever"
    using dispatch_literal [of "0x10" 4 ?d 0 "hpack_string nm @ ?vb"] by simp
  also have "\<dots> = Inr (SetEmitFunc d (\<lambda>_. False)\<lparr>dbuf := [], emitted := [?f]\<rparr>, None)"
    using parseFieldLiteral_parts [OF fnd acc _ _ type_bits(4) buf rs ds, of indexedNever]
    by (simp add: sensitive_def indexed_def SetEmitFunc_def)
  finally have "write_loop ?d n = Inr (SetEmitFunc d (\<lambda>_. False)\<lparr>dbuf := [], emitted := [?f], firstField := False\<rparr>, n, None)" for n
    by (subst write_loop.simps) (simp add: write_loop.simps Let_def)
  then have "DecodeFull d ?b = Inr (d\<lparr>dbuf := [], firstField := True\<rparr>, Inr [?f])"
    using assms(4) by (simp add: DecodeFull_def decoder_Write_def decoder_Close_def SetEmitFunc_def)
  then show ?thesis by blast
qed

end
