(* ===== verification/Http2Server.thy ===== *)
theory Http2Server
  imports Http2Write Http2Meta HpackCodec "HOL-Library.List_Lexorder" "HOL-Library.Char_ord"
begin

text \<open>
  The frames that a server schedules (\<open>src/http2/http2/write.go\<close>), with the cache of header names
  (\<open>headermap.go\<close>), the ASCII helpers (\<open>ascii.go\<close>) and the status codes and sorted keys of \<open>http2.go\<close>.

  A \<open>writeContext\<close> is the server's connection; the methods use its framer, its HPACK encoder with the
  buffer that the encoder writes to, and \<open>Flush\<close>, which is a parameter \<open>fl\<close> on the state of the framer's
  writer. The types that implement \<open>writeFramer\<close> are the constructors of a datatype. A \<open>http.Header\<close> is a list
  of keys with their values, in any order: the keys are sorted before they are used.
\<close>

unbundle bit_operations_syntax

section \<open>Header names\<close>

definition isASCIIPrint :: "string \<Rightarrow> bool" where
  "isASCIIPrint s = list_all (\<lambda>c. \<not> ((of_char c :: nat) < 32 \<or> (of_char c :: nat) > 126)) s"

text \<open>\<open>strings.ToLower\<close> on ASCII text.\<close>

definition lower_char :: "char \<Rightarrow> char" where
  "lower_char c = (if 65 \<le> (of_char c :: nat) \<and> (of_char c :: nat) \<le> 90 then char_of ((of_char c :: nat) + 32) else c)"

definition upper_char :: "char \<Rightarrow> char" where
  "upper_char c = (if 97 \<le> (of_char c :: nat) \<and> (of_char c :: nat) \<le> 122 then char_of ((of_char c :: nat) - 32) else c)"

definition asciiToLower :: "string \<Rightarrow> string \<times> bool" where
  "asciiToLower s = (if \<not> isASCIIPrint s then ('''', False) else (map lower_char s, True))"

text \<open>
  \<open>http.CanonicalHeaderKey\<close>: the first letter and every letter after a hyphen in upper case, the others in
  lower case; a key with a byte that is not a token character is not changed.
\<close>

fun canonical_from :: "bool \<Rightarrow> string \<Rightarrow> string" where
  "canonical_from upper [] = []"
| "canonical_from upper (c # s) =
     (if upper then upper_char c else lower_char c) # canonical_from (c = CHR ''-'') s"

definition CanonicalHeaderKey :: "string \<Rightarrow> string" where
  "CanonicalHeaderKey s = (if list_all (\<lambda>c. IsTokenRune (of_char c)) s then canonical_from True s else s)"

definition common :: "string list" where
  "common =
     [''accept'', ''accept-charset'', ''accept-encoding'', ''accept-language'', ''accept-ranges'', ''age'',
      ''access-control-allow-credentials'', ''access-control-allow-headers'', ''access-control-allow-methods'',
      ''access-control-allow-origin'', ''access-control-expose-headers'', ''access-control-max-age'',
      ''access-control-request-headers'', ''access-control-request-method'', ''allow'', ''authorization'',
      ''cache-control'', ''content-disposition'', ''content-encoding'', ''content-language'', ''content-length'',
      ''content-location'', ''content-range'', ''content-type'', ''cookie'', ''date'', ''etag'', ''expect'', ''expires'',
      ''from'', ''host'', ''if-match'', ''if-modified-since'', ''if-none-match'', ''if-unmodified-since'',
      ''last-modified'', ''link'', ''location'', ''max-forwards'', ''origin'', ''proxy-authenticate'',
      ''proxy-authorization'', ''range'', ''referer'', ''refresh'', ''retry-after'', ''server'', ''set-cookie'',
      ''strict-transport-security'', ''trailer'', ''transfer-encoding'', ''user-agent'', ''vary'', ''via'',
      ''www-authenticate'', ''x-forwarded-for'', ''x-forwarded-proto'']"

definition commonLowerHeader :: "string \<rightharpoonup> string" where
  "commonLowerHeader = foldl (\<lambda>m v. m(CanonicalHeaderKey v \<mapsto> v)) Map.empty common"

definition commonCanonHeader :: "string \<rightharpoonup> string" where
  "commonCanonHeader = foldl (\<lambda>m v. m(v \<mapsto> CanonicalHeaderKey v)) Map.empty common"

definition lowerHeader :: "string \<Rightarrow> string \<times> bool" where
  "lowerHeader v = (case commonLowerHeader v of Some s \<Rightarrow> (s, True) | None \<Rightarrow> asciiToLower v)"

definition canonicalHeader :: "string \<Rightarrow> string" where
  "canonicalHeader v = (case commonCanonHeader v of Some s \<Rightarrow> s | None \<Rightarrow> CanonicalHeaderKey v)"

text \<open>\<open>strconv.Itoa\<close>.\<close>

definition Itoa :: "int \<Rightarrow> string" where
  "Itoa n = (if n < 0 then ''-'' @ dec (nat (- n)) else dec (nat n))"

definition httpCodeString :: "int \<Rightarrow> string" where
  "httpCodeString code = (if code = 200 then ''200'' else if code = 404 then ''404'' else Itoa code)"

type_synonym http_Header = "(string \<times> string list) list"

definition Keys :: "http_Header \<Rightarrow> string list" where
  "Keys h = sort (map fst h)"

section \<open>The types of write requests\<close>

record ('r, 'w) writeContext =
  wc_Framer :: "('r, 'w) Framer"
  wc_enc :: Encoder
  wc_buf :: "u8 list"

record writeResHeaders =
  rh_streamID :: u32
  httpResCode :: int
  rh_h :: http_Header
  trailers :: "string list option"
  rh_endStream :: bool
  date :: string
  contentType :: string
  contentLength :: string

record writePushPromise =
  wp_streamID :: u32
  wp_method :: string
  url_Scheme :: string
  url_Host :: string
  url_RequestURI :: string
  wp_h :: http_Header
  promisedID :: u32

datatype writeFramer =
    flushFrameWriter
  | writeSettings "Setting list"
  | writeGoAway u32 ErrCode
  | writeData u32 "u8 list" bool
  | handlerPanicRST u32
  | writeStreamError u32 ErrCode
  | writePingAck "u8 list"
  | writeSettingsAck
  | writeResponse writeResHeaders
  | writePush writePushPromise
  | write100ContinueHeadersFrame u32
  | writeWindowUpdate u32 u32

definition ErrCodeInternal :: ErrCode where [simp]: "ErrCodeInternal = 0x2"

fun staysWithinBuffer :: "writeFramer \<Rightarrow> int \<Rightarrow> bool" where
  "staysWithinBuffer flushFrameWriter mx = False"
| "staysWithinBuffer (writeSettings s) mx = (int frameHeaderLen + 6 * int (length s) \<le> mx)"
| "staysWithinBuffer (writeGoAway _ _) mx = False"
| "staysWithinBuffer (writeData _ p _) mx = (int frameHeaderLen + int (length p) \<le> mx)"
| "staysWithinBuffer (handlerPanicRST _) mx = (int frameHeaderLen + 4 \<le> mx)"
| "staysWithinBuffer (writeStreamError _ _) mx = (int frameHeaderLen + 4 \<le> mx)"
| "staysWithinBuffer (writePingAck d) mx = (int frameHeaderLen + int (length d) \<le> mx)"
| "staysWithinBuffer writeSettingsAck mx = (int frameHeaderLen \<le> mx)"
| "staysWithinBuffer (writeResponse _) mx = False"
| "staysWithinBuffer (writePush _) mx = False"
| "staysWithinBuffer (write100ContinueHeadersFrame _) mx =
     (9 + 2 * (int (length '':status'') + int (length ''100'')) \<le> mx)"
| "staysWithinBuffer (writeWindowUpdate _ _) mx = (int frameHeaderLen + 4 \<le> mx)"

section \<open>Encoding headers\<close>

text \<open>The encoder writes to a \<open>bytes.Buffer\<close>, which accepts everything; the error is not looked at.\<close>

definition encKV :: "('r, 'w) writeContext \<Rightarrow> string \<Rightarrow> string \<Rightarrow> ('r, 'w) writeContext res" where
  "encKV c k v =
     go_bind (WriteField accept_all (wc_enc c) \<lparr>Name = k, Value = v, Sensitive = False\<rparr>) (\<lambda>(e, err).
       Inr (c\<lparr>wc_enc := e, wc_buf := wc_buf c @ ebuf e\<rparr>))"

fun encode_values :: "('r, 'w) writeContext \<Rightarrow> string \<Rightarrow> string list \<Rightarrow> ('r, 'w) writeContext res" where
  "encode_values c k [] = Inr c"
| "encode_values c k (v # vv) =
     (if \<not> ValidHeaderFieldValue v then encode_values c k vv
      else if k = ''transfer-encoding'' \<and> v \<noteq> ''trailers'' then encode_values c k vv
      else go_bind (encKV c k v) (\<lambda>c. encode_values c k vv))"

fun encode_keys :: "('r, 'w) writeContext \<Rightarrow> http_Header \<Rightarrow> string list \<Rightarrow> ('r, 'w) writeContext res" where
  "encode_keys c h [] = Inr c"
| "encode_keys c h (k # ks) =
     (let vv = (case map_of h k of None \<Rightarrow> [] | Some vv \<Rightarrow> vv)
      in case lowerHeader k of (k, ascii) \<Rightarrow>
           if \<not> ascii then encode_keys c h ks
           else if \<not> validWireHeaderFieldName k then encode_keys c h ks
           else go_bind (encode_values c k vv) (\<lambda>c. encode_keys c h ks))"

definition encodeHeaders ::
  "('r, 'w) writeContext \<Rightarrow> http_Header \<Rightarrow> string list option \<Rightarrow> ('r, 'w) writeContext res" where
  "encodeHeaders c h keys = encode_keys c h (case keys of None \<Rightarrow> Keys h | Some ks \<Rightarrow> ks)"

section \<open>Writing header blocks\<close>

type_synonym ('r, 'w) ctx_result = "('r, 'w) writeContext \<times> h2error option"

definition splitSize :: nat where
  "splitSize = 16384"

text \<open>The loop of \<open>splitHeaderBlock\<close>.\<close>

function splitHeaderBlock :: "(('r, 'w) writeContext \<Rightarrow> u8 list \<Rightarrow> bool \<Rightarrow> bool \<Rightarrow> ('r, 'w) ctx_result)
    \<Rightarrow> ('r, 'w) writeContext \<Rightarrow> u8 list \<Rightarrow> bool \<Rightarrow> ('r, 'w) ctx_result" where
  "splitHeaderBlock fn c headerBlock first =
     (if length headerBlock > 0
      then let frag = (if length headerBlock > splitSize then take splitSize headerBlock else headerBlock);
               headerBlock = drop (length frag) headerBlock
           in case fn c frag first (length headerBlock = 0) of
                (c, Some err) \<Rightarrow> (c, Some err)
              | (c, None) \<Rightarrow> splitHeaderBlock fn c headerBlock False
      else (c, None))"
  by pat_completeness auto
termination
  by (relation "measure (\<lambda>(fn, c, b, first). length b)") (auto simp: splitSize_def)

declare splitHeaderBlock.simps [simp del]

text \<open>A call of a method of the framer.\<close>

definition with_framer :: "('r, 'w) writeContext \<Rightarrow> ('r, 'w) write_result \<Rightarrow> ('r, 'w) ctx_result" where
  "with_framer c r = (c\<lparr>wc_Framer := fst r\<rparr>, snd r)"

definition res_writeHeaderBlock ::
  "'w writer \<Rightarrow> writeResHeaders \<Rightarrow> ('r, 'w) writeContext \<Rightarrow> u8 list \<Rightarrow> bool \<Rightarrow> bool \<Rightarrow> ('r, 'w) ctx_result" where
  "res_writeHeaderBlock wr w c frag firstFrag lastFrag =
     with_framer c
       (if firstFrag
        then WriteHeaders wr (wc_Framer c)
               \<lparr>hp_StreamID = rh_streamID w, hp_BlockFragment = frag, hp_EndStream = rh_endStream w,
                hp_EndHeaders = lastFrag, hp_PadLength = 0, hp_Priority = zeroPriority\<rparr>
        else WriteContinuation wr (wc_Framer c) (rh_streamID w) lastFrag frag)"

definition push_writeHeaderBlock ::
  "'w writer \<Rightarrow> writePushPromise \<Rightarrow> ('r, 'w) writeContext \<Rightarrow> u8 list \<Rightarrow> bool \<Rightarrow> bool \<Rightarrow> ('r, 'w) ctx_result" where
  "push_writeHeaderBlock wr w c frag firstFrag lastFrag =
     with_framer c
       (if firstFrag
        then WritePushPromise wr (wc_Framer c)
               \<lparr>pp_StreamID = wp_streamID w, pp_PromiseID = promisedID w, pp_BlockFragment = frag,
                pp_EndHeaders = lastFrag, pp_PadLength = 0\<rparr>
        else WriteContinuation wr (wc_Framer c) (wp_streamID w) lastFrag frag)"

text \<open>\<open>HeaderEncoder\<close> and \<open>Reset\<close> of the buffer it returns.\<close>

definition resetBuffer :: "('r, 'w) writeContext \<Rightarrow> ('r, 'w) writeContext" where
  "resetBuffer c = c\<lparr>wc_buf := []\<rparr>"

definition encKV_if :: "bool \<Rightarrow> ('r, 'w) writeContext \<Rightarrow> string \<Rightarrow> string \<Rightarrow> ('r, 'w) writeContext res" where
  "encKV_if b c k v = (if b then encKV c k v else Inr c)"

definition res_writeFrame ::
  "'w writer \<Rightarrow> ('r, 'w) writeContext \<Rightarrow> writeResHeaders \<Rightarrow> ('r, 'w) ctx_result res" where
  "res_writeFrame wr c w =
     (let c = resetBuffer c
      in go_bind (encKV_if (httpResCode w \<noteq> 0) c '':status'' (httpCodeString (httpResCode w))) (\<lambda>c.
         go_bind (encodeHeaders c (rh_h w) (trailers w)) (\<lambda>c.
         go_bind (encKV_if (contentType w \<noteq> '''') c ''content-type'' (contentType w)) (\<lambda>c.
         go_bind (encKV_if (contentLength w \<noteq> '''') c ''content-length'' (contentLength w)) (\<lambda>c.
         go_bind (encKV_if (date w \<noteq> '''') c ''date'' (date w)) (\<lambda>c.
           if length (wc_buf c) = 0 \<and> trailers w = None then Inl (Panic ''unexpected empty hpack'')
           else Inr (splitHeaderBlock (res_writeHeaderBlock wr w) c (wc_buf c) True)))))))"

definition push_writeFrame ::
  "'w writer \<Rightarrow> ('r, 'w) writeContext \<Rightarrow> writePushPromise \<Rightarrow> ('r, 'w) ctx_result res" where
  "push_writeFrame wr c w =
     (let c = resetBuffer c
      in go_bind (encKV c '':method'' (wp_method w)) (\<lambda>c.
         go_bind (encKV c '':scheme'' (url_Scheme w)) (\<lambda>c.
         go_bind (encKV c '':authority'' (url_Host w)) (\<lambda>c.
         go_bind (encKV c '':path'' (url_RequestURI w)) (\<lambda>c.
         go_bind (encodeHeaders c (wp_h w) None) (\<lambda>c.
           if length (wc_buf c) = 0 then Inl (Panic ''unexpected empty hpack'')
           else Inr (splitHeaderBlock (push_writeHeaderBlock wr w) c (wc_buf c) True)))))))"

section \<open>Write requests\<close>

type_synonym 'w flusher = "'w \<Rightarrow> 'w \<times> ioError option"

definition flush_writeFrame :: "'w flusher \<Rightarrow> ('r, 'w) writeContext \<Rightarrow> ('r, 'w) ctx_result" where
  "flush_writeFrame fl c =
     (case fl (fr_w (wc_Framer c)) of (w, err) \<Rightarrow>
        (c\<lparr>wc_Framer := (wc_Framer c)\<lparr>fr_w := w\<rparr>\<rparr>, map_option IoError err))"

definition settings_writeFrame :: "'w writer \<Rightarrow> ('r, 'w) writeContext \<Rightarrow> Setting list \<Rightarrow> ('r, 'w) ctx_result" where
  "settings_writeFrame wr c s = with_framer c (WriteSettings wr (wc_Framer c) s)"

text \<open>The error of \<open>Flush\<close> is ignored.\<close>

definition goAway_writeFrame ::
  "'w writer \<Rightarrow> 'w flusher \<Rightarrow> ('r, 'w) writeContext \<Rightarrow> u32 \<Rightarrow> ErrCode \<Rightarrow> ('r, 'w) ctx_result" where
  "goAway_writeFrame wr fl c maxStreamID code =
     (case WriteGoAway wr (wc_Framer c) maxStreamID code [] of (f, err) \<Rightarrow>
        case fl (fr_w f) of (w, _) \<Rightarrow> (c\<lparr>wc_Framer := f\<lparr>fr_w := w\<rparr>\<rparr>, err))"

definition data_writeFrame ::
  "'w writer \<Rightarrow> ('r, 'w) writeContext \<Rightarrow> u32 \<Rightarrow> u8 list \<Rightarrow> bool \<Rightarrow> ('r, 'w) ctx_result" where
  "data_writeFrame wr c streamID p endStream = with_framer c (WriteData wr (wc_Framer c) streamID endStream p)"

definition handlerPanic_writeFrame :: "'w writer \<Rightarrow> ('r, 'w) writeContext \<Rightarrow> u32 \<Rightarrow> ('r, 'w) ctx_result" where
  "handlerPanic_writeFrame wr c streamID = with_framer c (WriteRSTStream wr (wc_Framer c) streamID ErrCodeInternal)"

definition streamError_writeFrame ::
  "'w writer \<Rightarrow> ('r, 'w) writeContext \<Rightarrow> u32 \<Rightarrow> ErrCode \<Rightarrow> ('r, 'w) ctx_result" where
  "streamError_writeFrame wr c streamID code = with_framer c (WriteRSTStream wr (wc_Framer c) streamID code)"

definition pingAck_writeFrame :: "'w writer \<Rightarrow> ('r, 'w) writeContext \<Rightarrow> u8 list \<Rightarrow> ('r, 'w) ctx_result" where
  "pingAck_writeFrame wr c d = with_framer c (WritePing wr (wc_Framer c) True d)"

definition settingsAck_writeFrame :: "'w writer \<Rightarrow> ('r, 'w) writeContext \<Rightarrow> ('r, 'w) ctx_result" where
  "settingsAck_writeFrame wr c = with_framer c (WriteSettingsAck wr (wc_Framer c))"

definition continue_writeFrame :: "'w writer \<Rightarrow> ('r, 'w) writeContext \<Rightarrow> u32 \<Rightarrow> ('r, 'w) ctx_result res" where
  "continue_writeFrame wr c streamID =
     go_bind (encKV (resetBuffer c) '':status'' ''100'') (\<lambda>c.
       Inr (with_framer c (WriteHeaders wr (wc_Framer c)
         \<lparr>hp_StreamID = streamID, hp_BlockFragment = wc_buf c, hp_EndStream = False,
          hp_EndHeaders = True, hp_PadLength = 0, hp_Priority = zeroPriority\<rparr>)))"

definition windowUpdate_writeFrame ::
  "'w writer \<Rightarrow> ('r, 'w) writeContext \<Rightarrow> u32 \<Rightarrow> u32 \<Rightarrow> ('r, 'w) ctx_result" where
  "windowUpdate_writeFrame wr c streamID n = with_framer c (WriteWindowUpdate wr (wc_Framer c) streamID n)"

lemmas writeFrame_defs = flush_writeFrame_def settings_writeFrame_def goAway_writeFrame_def data_writeFrame_def
  handlerPanic_writeFrame_def streamError_writeFrame_def pingAck_writeFrame_def settingsAck_writeFrame_def
  continue_writeFrame_def windowUpdate_writeFrame_def

text \<open>The method of the request that was scheduled.\<close>

fun writeFrame :: "'w writer \<Rightarrow> 'w flusher \<Rightarrow> ('r, 'w) writeContext \<Rightarrow> writeFramer \<Rightarrow> ('r, 'w) ctx_result res" where
  "writeFrame wr fl c flushFrameWriter = Inr (flush_writeFrame fl c)"
| "writeFrame wr fl c (writeSettings s) = Inr (settings_writeFrame wr c s)"
| "writeFrame wr fl c (writeGoAway maxStreamID code) = Inr (goAway_writeFrame wr fl c maxStreamID code)"
| "writeFrame wr fl c (writeData streamID p endStream) = Inr (data_writeFrame wr c streamID p endStream)"
| "writeFrame wr fl c (handlerPanicRST streamID) = Inr (handlerPanic_writeFrame wr c streamID)"
| "writeFrame wr fl c (writeStreamError streamID code) = Inr (streamError_writeFrame wr c streamID code)"
| "writeFrame wr fl c (writePingAck d) = Inr (pingAck_writeFrame wr c d)"
| "writeFrame wr fl c writeSettingsAck = Inr (settingsAck_writeFrame wr c)"
| "writeFrame wr fl c (writeResponse w) = res_writeFrame wr c w"
| "writeFrame wr fl c (writePush w) = push_writeFrame wr c w"
| "writeFrame wr fl c (write100ContinueHeadersFrame streamID) = continue_writeFrame wr c streamID"
| "writeFrame wr fl c (writeWindowUpdate streamID n) = Inr (windowUpdate_writeFrame wr c streamID n)"

end
