(* ===== verification/Http2Wire.thy ===== *)
theory Http2Wire
  imports Http2Write
begin

text \<open>
  Frames on the wire: what the \<open>Write\<close> methods put out, the parsers read back. \<open>sent\<close> lists the frames
  the methods can write, \<open>encoding\<close> gives their wire format and \<open>received\<close> the frame a reader gets.
  \<open>write_sent_assembled\<close> and the locale \<open>full_writer\<close>, for a writer that takes all it is given, carry the
  writing side; the \<open>parse_\<close> lemmas and \<open>parse_encoding\<close> carry the parsers.
\<close>

unbundle bit_operations_syntax

section \<open>Words\<close>

lemma and_mask31: "v AND 0x7fffffff = take_bit 31 v" for v :: u32
proof -
  have "(0x7fffffff :: u32) = mask 31" by (simp add: mask_eq_exp_minus_1)
  then show ?thesis by (simp add: take_bit_eq_mask)
qed

lemma and_bit31: "v AND 0x80000000 = 0 \<longleftrightarrow> \<not> bit v 31" for v :: u32
proof -
  have "(0x80000000 :: u32) = 2 ^ 31" by simp
  then show ?thesis by (metis and_exp_eq_0_iff_not_bit)
qed

lemma take_bit_31: "take_bit 31 v = v \<longleftrightarrow> \<not> bit v 31" for v :: u32
proof
  assume "take_bit 31 v = v"
  then show "\<not> bit v 31" by (metis bit_take_bit_iff less_irrefl)
next
  assume "\<not> bit v 31"
  then show "take_bit 31 v = v"
    by (intro bit_word_eqI) (auto simp: bit_simps less_Suc_eq numeral_eq_Suc)
qed

lemma set_bit31: "take_bit 31 (v OR 0x80000000) = take_bit 31 v" "bit (v OR 0x80000000) 31" for v :: u32
proof -
  have b: "(0x80000000 :: u32) = 2 ^ 31" by simp
  show "take_bit 31 (v OR 0x80000000) = take_bit 31 v"
    unfolding b by (rule bit_word_eqI) (auto simp: bit_simps)
  show "bit (v OR 0x80000000) 31" unfolding b by (simp add: bit_simps)
qed

text \<open>The length of a payload, in three bytes.\<close>

definition be24 :: "nat \<Rightarrow> u8 list" where
  "be24 n = (let l = of_nat n :: u64 in [ucast (shr l 16), ucast (shr l 8), ucast l])"

lemma be24_value:
  assumes "n < 2 ^ 24"
  shows "shl (ucast (be24 n ! 0)) 16 OR shl (ucast (be24 n ! 1)) 8 OR ucast (be24 n ! 2) = (of_nat n :: u32)"
proof (rule bit_word_eqI, goal_cases)
  case (1 k)
  have "k < 24" if "bit n k"
    using that assms by (metis bit_take_bit_iff take_bit_nat_eq_self_iff)
  with 1 show ?case
    by (cases "k < 8"; cases "k < 16"; cases "k < 24") (auto simp: be24_def Let_def bit_simps)
qed

section \<open>The wire format\<close>

definition wire :: "FrameType \<Rightarrow> Flags \<Rightarrow> u32 \<Rightarrow> u8 list \<Rightarrow> u8 list" where
  "wire t flags sid payload = be24 (length payload) @ [t, flags] @ be32 sid @ payload"

definition wire_header :: "FrameType \<Rightarrow> Flags \<Rightarrow> u32 \<Rightarrow> u8 list \<Rightarrow> FrameHeader" where
  "wire_header t flags sid payload =
     \<lparr>fh_valid = True, fh_Type = t, fh_Flags = flags, fh_Length = of_nat (length payload), fh_StreamID = sid\<rparr>"

text \<open>What the methods of the framer can write.\<close>

datatype sent =
    SData u32 bool "u8 list" "u8 list option"
  | SHeaders HeadersFrameParam
  | SPriority u32 PriorityParam
  | SRSTStream u32 ErrCode
  | SSettings "Setting list"
  | SSettingsAck
  | SPushPromise PushPromiseParam
  | SPing bool "u8 list"
  | SGoAway u32 ErrCode "u8 list"
  | SWindowUpdate u32 u32
  | SContinuation u32 bool "u8 list"
  | SRaw FrameType Flags u32 "u8 list"

fun write_sent :: "'w writer \<Rightarrow> ('r, 'w) Framer \<Rightarrow> sent \<Rightarrow> ('r, 'w) write_result" where
  "write_sent wr f (SData sid es d pad) = WriteDataPadded wr f sid es d pad"
| "write_sent wr f (SHeaders p) = WriteHeaders wr f p"
| "write_sent wr f (SPriority sid p) = WritePriority wr f sid p"
| "write_sent wr f (SRSTStream sid c) = WriteRSTStream wr f sid c"
| "write_sent wr f (SSettings ss) = WriteSettings wr f ss"
| "write_sent wr f SSettingsAck = WriteSettingsAck wr f"
| "write_sent wr f (SPushPromise p) = WritePushPromise wr f p"
| "write_sent wr f (SPing ack d) = WritePing wr f ack d"
| "write_sent wr f (SGoAway l c d) = WriteGoAway wr f l c d"
| "write_sent wr f (SWindowUpdate sid i) = WriteWindowUpdate wr f sid i"
| "write_sent wr f (SContinuation sid eh b) = WriteContinuation wr f sid eh b"
| "write_sent wr f (SRaw t fl sid b) = WriteRawFrame wr f t fl sid b"

definition flag :: "bool \<Rightarrow> Flags \<Rightarrow> Flags" where
  "flag b v = (if b then v else 0)"

definition dep_word :: "PriorityParam \<Rightarrow> u32" where
  "dep_word p = (if Exclusive p then StreamDep p OR 0x80000000 else StreamDep p)"

definition pad_field :: "u8 \<Rightarrow> u8 list" where
  "pad_field n = (if n \<noteq> 0 then [n] else [])"

definition setting_bytes :: "Setting \<Rightarrow> u8 list" where
  "setting_bytes s = be16 (ID s) @ be32 (Val s)"

text \<open>Type, flags, stream and payload of a frame.\<close>

fun encoding :: "sent \<Rightarrow> FrameType \<times> Flags \<times> u32 \<times> u8 list" where
  "encoding (SData sid es d pad) =
     (FrameData, flag es FlagDataEndStream OR flag (pad \<noteq> None) FlagDataPadded, sid,
      (case pad of None \<Rightarrow> d | Some p \<Rightarrow> of_nat (length p) # d @ p))"
| "encoding (SHeaders p) =
     (FrameHeaders, flag (hp_PadLength p \<noteq> 0) FlagHeadersPadded OR flag (hp_EndStream p) FlagHeadersEndStream
        OR flag (hp_EndHeaders p) FlagHeadersEndHeaders OR flag (\<not> IsZero (hp_Priority p)) FlagHeadersPriority,
      hp_StreamID p,
      pad_field (hp_PadLength p)
        @ (if IsZero (hp_Priority p) then [] else be32 (dep_word (hp_Priority p)) @ [Weight (hp_Priority p)])
        @ hp_BlockFragment p @ replicate (unat (hp_PadLength p)) 0)"
| "encoding (SPriority sid p) = (FramePriority, 0, sid, be32 (dep_word p) @ [Weight p])"
| "encoding (SRSTStream sid c) = (FrameRSTStream, 0, sid, be32 c)"
| "encoding (SSettings ss) = (FrameSettings, 0, 0, concat (map setting_bytes ss))"
| "encoding SSettingsAck = (FrameSettings, FlagSettingsAck, 0, [])"
| "encoding (SPushPromise p) =
     (FramePushPromise, flag (pp_PadLength p \<noteq> 0) FlagPushPromisePadded OR flag (pp_EndHeaders p) FlagPushPromiseEndHeaders,
      pp_StreamID p,
      pad_field (pp_PadLength p) @ be32 (pp_PromiseID p) @ pp_BlockFragment p @ replicate (unat (pp_PadLength p)) 0)"
| "encoding (SPing ack d) = (FramePing, flag ack FlagPingAck, 0, d)"
| "encoding (SGoAway l c d) = (FrameGoAway, 0, 0, be32 (l AND 0x7fffffff) @ be32 c @ d)"
| "encoding (SWindowUpdate sid i) = (FrameWindowUpdate, 0, sid, be32 i)"
| "encoding (SContinuation sid eh b) = (FrameContinuation, flag eh FlagContinuationEndHeaders, sid, b)"
| "encoding (SRaw t fl sid b) = (t, fl, sid, b)"

definition payload_of :: "sent \<Rightarrow> u8 list" where
  "payload_of x = snd (snd (snd (encoding x)))"

definition wire_of :: "sent \<Rightarrow> u8 list" where
  "wire_of x = (case encoding x of (t, fl, sid, b) \<Rightarrow> wire t fl sid b)"

definition header_of :: "sent \<Rightarrow> FrameHeader" where
  "header_of x = (case encoding x of (t, fl, sid, b) \<Rightarrow> wire_header t fl sid b)"

text \<open>The arguments the specification of HTTP/2 allows.\<close>

fun legal_args :: "sent \<Rightarrow> bool" where
  "legal_args (SData sid es d pad) \<longleftrightarrow> validStreamID sid
     \<and> (case pad of None \<Rightarrow> True | Some p \<Rightarrow> length p \<le> 255 \<and> list_all (\<lambda>b. b = 0) p)"
| "legal_args (SHeaders p) \<longleftrightarrow> validStreamID (hp_StreamID p) \<and> validStreamIDOrZero (StreamDep (hp_Priority p))"
| "legal_args (SPriority sid p) \<longleftrightarrow> validStreamID sid \<and> validStreamIDOrZero (StreamDep p)"
| "legal_args (SRSTStream sid c) \<longleftrightarrow> validStreamID sid"
| "legal_args (SSettings ss) \<longleftrightarrow> list_all (\<lambda>s. ID s = SettingInitialWindowSize \<longrightarrow> Val s \<le> 0x7fffffff) ss"
| "legal_args SSettingsAck \<longleftrightarrow> True"
| "legal_args (SPushPromise p) \<longleftrightarrow> validStreamID (pp_StreamID p) \<and> validStreamID (pp_PromiseID p)"
| "legal_args (SPing ack d) \<longleftrightarrow> length d = 8"
| "legal_args (SGoAway l c d) \<longleftrightarrow> True"
| "legal_args (SWindowUpdate sid i) \<longleftrightarrow> validStreamIDOrZero sid \<and> 1 \<le> i \<and> i \<le> 0x7fffffff"
| "legal_args (SContinuation sid eh b) \<longleftrightarrow> validStreamID sid"
| "legal_args (SRaw t fl sid b) \<longleftrightarrow> 10 \<le> t \<and> validStreamIDOrZero sid"

definition legal :: "sent \<Rightarrow> bool" where
  "legal x \<longleftrightarrow> legal_args x \<and> length (payload_of x) < 2 ^ 24"

text \<open>The frame that arrives. The error code of a GOAWAY frame is not the one that was sent.\<close>

fun received :: "sent \<Rightarrow> Frame" where
  "received (SData sid es d pad) = DataFrame (header_of (SData sid es d pad)) d"
| "received (SHeaders p) = HeadersFrame (header_of (SHeaders p)) (hp_Priority p) (hp_BlockFragment p)"
| "received (SPriority sid p) = PriorityFrame (header_of (SPriority sid p)) p"
| "received (SRSTStream sid c) = RSTStreamFrame (header_of (SRSTStream sid c)) c"
| "received (SSettings ss) = SettingsFrame (header_of (SSettings ss)) (concat (map setting_bytes ss))"
| "received SSettingsAck = SettingsFrame (header_of SSettingsAck) []"
| "received (SPushPromise p) = PushPromiseFrame (header_of (SPushPromise p)) (pp_PromiseID p) (pp_BlockFragment p)"
| "received (SPing ack d) = PingFrame (header_of (SPing ack d)) d"
| "received (SGoAway l c d) =
     GoAwayFrame (header_of (SGoAway l c d)) (l AND 0x7fffffff) (l AND 0x7fffffff) d"
| "received (SWindowUpdate sid i) = WindowUpdateFrame (header_of (SWindowUpdate sid i)) i"
| "received (SContinuation sid eh b) = ContinuationFrame (header_of (SContinuation sid eh b)) b"
| "received (SRaw t fl sid b) = UnknownFrame (header_of (SRaw t fl sid b)) b"

text \<open>A request in three frames.\<close>

definition example_headers :: sent where
  "example_headers = SHeaders \<lparr>hp_StreamID = 1, hp_BlockFragment = [0x82], hp_EndStream = False,
     hp_EndHeaders = False, hp_PadLength = 2, hp_Priority = \<lparr>StreamDep = 3, Exclusive = True, Weight = 7\<rparr>\<rparr>"

definition example_frames :: "sent list" where
  "example_frames = [example_headers, SContinuation 1 True [0x84], SData 1 True [1, 2, 3] (Some [0, 0])]"

section \<open>Writing\<close>

lemmas assemble = startWrite_def writeByte_def writeBytes_def writeUint16_def writeUint32_def be32_def be16_def
  flag_def dep_word_def pad_field_def

lemma settings_buffer:
  "foldl (\<lambda>f s. writeUint32 (writeUint16 f (ID s)) (Val s)) f ss = f\<lparr>wbuf := wbuf f @ concat (map setting_bytes ss)\<rparr>"
  by (induction ss arbitrary: f) (simp_all add: assemble setting_bytes_def)

lemma take_padZeros: "take (unat n) padZeros = replicate (unat n) 0" for n :: u8
  using unsigned_less [of n, where 'a = nat] by (simp add: padZeros_def min_def)

text \<open>Legal arguments pass the checks, and the frame is assembled in the buffer.\<close>

lemma write_sent_assembled:
  assumes "legal_args x" and "encoding x = (t, fl, sid, b)"
  shows "write_sent wr f x = endWrite wr (f\<lparr>wbuf := [0, 0, 0, t, fl] @ be32 sid @ b\<rparr>)"
proof (cases x)
  case (SData i es d pad)
  then show ?thesis using assms
    by (cases pad) (auto simp: WriteDataPadded_def startWriteDataPadded_def Let_def list_ex_iff list_all_iff assemble)
next
  case (SHeaders p)
  then show ?thesis using assms
    by (cases "hp_PadLength p = 0"; cases "IsZero (hp_Priority p)"; cases "hp_EndStream p"; cases "hp_EndHeaders p")
      (auto simp: WriteHeaders_def Let_def take_padZeros assemble)
next
  case (SPriority i p)
  then show ?thesis using assms by (auto simp: WritePriority_def Let_def assemble)
next
  case (SSettings ss)
  then show ?thesis
    using assms by (auto simp: WriteSettings_def settings_buffer Let_def startWrite_def be32_def)
next
  case (SPushPromise p)
  then show ?thesis using assms
    by (cases "pp_PadLength p = 0"; cases "pp_EndHeaders p")
      (auto simp: WritePushPromise_def Let_def take_padZeros assemble)
next
  case (SWindowUpdate i v)
  then have "\<not> (v < 1 \<or> v > 2147483647)" using assms by auto
  then show ?thesis using assms SWindowUpdate by (simp add: WriteWindowUpdate_def assemble)
qed (use assms in \<open>auto simp: WriteRSTStream_def WriteSettingsAck_def WritePing_def WriteGoAway_def
  WriteContinuation_def WriteRawFrame_def Let_def assemble\<close>)

locale full_writer =
  fixes wr :: "'w writer" and written :: "'w \<Rightarrow> u8 list"
  assumes write_all: "wr w p = (w', n, err) \<Longrightarrow> n = int (length p) \<and> err = None \<and> written w' = written w @ p"
begin

lemma endWrite_wire:
  assumes "wbuf f = [0, 0, 0, t, fl] @ be32 sid @ payload" and "length payload < 2 ^ 24"
  obtains f' where "endWrite wr f = (f', None)" "written (fr_w f') = written (fr_w f) @ wire t fl sid payload"
    "fr_r f' = fr_r f" "AllowIllegalWrites f' = AllowIllegalWrites f"
proof -
  obtain w n err where w: "wr (fr_w f) (wire t fl sid payload) = (w, n, err)" by (metis prod_cases3)
  have "int (length (wbuf f)) - int frameHeaderLen = int (length payload)" using assms(1) by simp
  moreover have "copy_at (wbuf f) 0 (be24 (length payload)) = wire t fl sid payload"
    by (simp add: assms(1) copy_at_def wire_def be24_def Let_def)
  moreover have "length (wire t fl sid payload) = length (wbuf f)"
    by (simp add: assms(1) wire_def be24_def Let_def)
  ultimately have "endWrite wr f = (f\<lparr>wbuf := wire t fl sid payload, fr_w := w\<rparr>, None)"
    using assms(2) w write_all [OF w] by (simp add: endWrite_def be24_def Let_def)
  with write_all [OF w] that show thesis by simp
qed

definition writes_frame :: "('r, 'w) Framer \<Rightarrow> ('r, 'w) write_result \<Rightarrow> u8 list \<Rightarrow> bool" where
  "writes_frame f r bs \<longleftrightarrow> (\<exists>f'. r = (f', None) \<and> written (fr_w f') = written (fr_w f) @ bs
     \<and> fr_r f' = fr_r f \<and> AllowIllegalWrites f' = AllowIllegalWrites f)"

lemma endWrite_writes:
  assumes "wbuf g = [0, 0, 0, t, fl] @ be32 sid @ payload" and "length payload < 2 ^ 24"
    and "fr_w g = fr_w f" "fr_r g = fr_r f" "AllowIllegalWrites g = AllowIllegalWrites f"
  shows "writes_frame f (endWrite wr g) (wire t fl sid payload)"
  by (rule endWrite_wire [OF assms(1,2)]) (auto simp: writes_frame_def assms(3-))

lemma write_sent_wire:
  assumes "legal x"
  shows "writes_frame f (write_sent wr f x) (wire_of x)"
proof -
  obtain t fl sid b where e: "encoding x = (t, fl, sid, b)" by (metis prod_cases4)
  with assms have "legal_args x" "length b < 2 ^ 24" by (simp_all add: legal_def payload_of_def)
  then show ?thesis
    using endWrite_writes [of "f\<lparr>wbuf := [0, 0, 0, t, fl] @ be32 sid @ b\<rparr>" t fl sid b f]
    by (simp add: write_sent_assembled [OF _ e] wire_of_def e)
qed

end

interpretation mem: full_writer Buffer_Write "\<lambda>b. b"
  by unfold_locales (auto simp: Buffer_Write_def)

section \<open>Parsing\<close>

lemma readPad_field:
  "readPad (n \<noteq> 0) (pad_field n @ p) tok k = k p n"
  by (simp add: readPad_def pad_field_def readByte_def)

lemma Has_flags [simp]:
  "Has (flag a 1 OR flag b 8) 8 = b"
  "Has (flag a 8 OR flag b 1 OR flag c 4 OR flag d 0x20) 8 = a"
  "Has (flag a 8 OR flag b 1 OR flag c 4 OR flag d 0x20) 0x20 = d"
  "Has (flag a 8 OR flag b 1 OR flag c 4 OR flag d 0x20) 4 = c"
  "Has (flag a 8 OR flag b 4) 8 = a" "Has (flag a 8 OR flag b 4) 4 = b" "Has (flag a 4) 4 = a" "Has 0 1 = False"
  by (cases a; cases b; cases c; cases d; simp add: Has_def flag_def)+

lemma dep_word_take: "validStreamIDOrZero (StreamDep p) \<Longrightarrow> dep_word p AND 0x7fffffff = StreamDep p"
  by (auto simp: dep_word_def validStreamIDOrZero_def and_mask31 and_bit31 set_bit31 take_bit_31)

lemma dep_word_exclusive:
  "validStreamIDOrZero (StreamDep p) \<Longrightarrow> (dep_word p \<noteq> StreamDep p) = Exclusive p"
  using set_bit31(2) [of "StreamDep p"] by (auto simp: dep_word_def validStreamIDOrZero_def and_bit31)

lemma valid_take: "validStreamID v \<Longrightarrow> v AND 0x7fffffff = v" "validStreamIDOrZero v \<Longrightarrow> v AND 0x7fffffff = v"
  by (simp_all add: validStreamID_def validStreamIDOrZero_def and_mask31 and_bit31 take_bit_31)

lemma readPriority_field:
  assumes "validStreamIDOrZero (StreamDep p)"
  shows "readPriority (\<not> IsZero p)
    ((if IsZero p then [] else be32 (dep_word p) @ [Weight p]) @ q) k = k q p"
proof (cases "IsZero p")
  case True
  then show ?thesis by (simp add: readPriority_def IsZero_def)
next
  case False
  have "take 4 (be32 (dep_word p) @ Weight p # q) = be32 (dep_word p) @ []"
    "drop 4 (be32 (dep_word p) @ Weight p # q) = Weight p # q" by simp_all
  then have "readPriority (\<not> IsZero p) ((if IsZero p then [] else be32 (dep_word p) @ [Weight p]) @ q) k
      = k q \<lparr>StreamDep = StreamDep p, Exclusive = Exclusive p, Weight = Weight p\<rparr>"
    using False assms Uint32_be32 [of "dep_word p" "[]"]
    by (simp add: readPriority_def readUint32_def readByte_def dep_word_take dep_word_exclusive Let_def)
  then show ?thesis by (cases p) simp
qed

lemma copy_at_full [simp]: "length d = 8 \<Longrightarrow> copy_at (replicate 8 0) 0 d = d" for d :: "u8 list"
  by simp

text \<open>Settings are read back in order.\<close>

lemma Setting_at_Cons:
  "Setting_at (setting_bytes s @ rest) 0 = Inr s"
  "Setting_at (setting_bytes s @ rest) (Suc i) = Setting_at rest i"
proof -
  have "take 2 (setting_bytes s @ rest) = be16 (ID s)" "take 4 (drop 2 (setting_bytes s @ rest)) = be32 (Val s)"
    by (simp_all add: setting_bytes_def)
  then have "Setting_at (setting_bytes s @ rest) 0 = Inr \<lparr>ID = ID s, Val = Val s\<rparr>"
    using Uint16_be16 [of "ID s" "[]"] Uint32_be32 [of "Val s" "[]"]
    by (simp add: Setting_at_def subslice_def) (simp add: setting_bytes_def)
  then show "Setting_at (setting_bytes s @ rest) 0 = Inr s" by (cases s) simp
  have "drop (6 + n) (setting_bytes s @ rest) = drop n rest" for n by (simp add: setting_bytes_def)
  then show "Setting_at (setting_bytes s @ rest) (Suc i) = Setting_at rest i"
    by (simp add: Setting_at_def subslice_def) (simp add: setting_bytes_def add.commute add.left_commute)
qed

lemma Setting_at_bytes:
  "i < length ss \<Longrightarrow> Setting_at (concat (map setting_bytes ss)) i = Inr (ss ! i)"
  by (induction ss arbitrary: i) (auto simp: Setting_at_Cons less_Suc_eq_0_disj)

lemma length_settings: "length (concat (map setting_bytes ss)) = 6 * length ss"
  by (induction ss) (simp_all add: setting_bytes_def)

lemma NumSettings_bytes: "NumSettings (concat (map setting_bytes ss)) = length ss"
  by (simp add: NumSettings_def length_settings)

lemma value_loop_bytes:
  assumes "\<forall>i \<in> set is. i < length ss"
  shows "value_loop (concat (map setting_bytes ss)) k is =
    Inr (map_option Val (List.find (\<lambda>s. ID s = k) (map (\<lambda>i. ss ! i) is)))"
  using assms by (induction "is") (simp_all add: Setting_at_bytes)

lemma map_nth_all: "map (\<lambda>i. ss ! i) [0..<length ss] = ss"
  by (rule map_nth)

lemma Value_bytes:
  "fh_valid h \<Longrightarrow> Value_of h (concat (map setting_bytes ss)) k = Inr (map_option Val (List.find (\<lambda>s. ID s = k) ss))"
  by (simp add: Value_of_def checkValid_def NumSettings_bytes value_loop_bytes map_nth_all)

text \<open>
  Each parser recovers the frame. In these lemmas \<open>x\<close> is the frame with its encoding \<open>(t, fl, sid, b)\<close>.
\<close>

lemma parse_data:
  assumes x: "x = SData i es d pad" and l: "legal_args x" and e: "encoding x = (t, fl, sid, b)"
    and h: "header_of x = wire_header t fl sid b"
  shows "typeFrameParser t (wire_header t fl sid b) b = parse_ok (received x)"
proof -
  have s: "fh_StreamID (wire_header t fl sid b) \<noteq> 0"
    using x l e by (auto simp: wire_header_def validStreamID_def)
  show ?thesis
  proof (cases pad)
    case None
    with s x e h show ?thesis
      by (auto simp: typeFrameParser_def parseDataFrame_def readPad_def) (auto simp: wire_header_def)
  next
    case (Some q)
    then have "unat (of_nat (length q) :: u8) = length q" using l x by (simp add: unat_of_nat)
    with s x e h Some show ?thesis
      by (auto simp: typeFrameParser_def parseDataFrame_def readPad_def readByte_def) (auto simp: wire_header_def)
  qed
qed

lemma parse_headers:
  assumes x: "x = SHeaders p" and l: "legal_args x" and e: "encoding x = (t, fl, sid, b)"
    and h: "header_of x = wire_header t fl sid b"
  shows "typeFrameParser t (wire_header t fl sid b) b = parse_ok (received x)"
proof -
  have s: "fh_StreamID (wire_header t fl sid b) \<noteq> 0" "validStreamIDOrZero (StreamDep (hp_Priority p))"
    using x l e by (auto simp: wire_header_def validStreamID_def)
  have f: "fh_Flags (wire_header t fl sid b) = fl" by (simp add: wire_header_def)
  let ?q = "hp_BlockFragment p @ replicate (unat (hp_PadLength p)) 0"
  have b: "b = pad_field (hp_PadLength p) @ (if IsZero (hp_Priority p) then []
      else be32 (dep_word (hp_Priority p)) @ [Weight (hp_Priority p)]) @ ?q"
    and flags: "Has fl FlagHeadersPadded = (hp_PadLength p \<noteq> 0)" "Has fl FlagHeadersPriority = (\<not> IsZero (hp_Priority p))"
    using x e by auto
  have "typeFrameParser t = parseHeadersFrame" using x e by (auto simp: typeFrameParser_def)
  moreover have "parseHeadersFrame (wire_header t fl sid b) b
      = parse_ok (HeadersFrame (wire_header t fl sid b) (hp_Priority p) (hp_BlockFragment p))"
    unfolding parseHeadersFrame_def f flags using s(1)
    by (simp add: b [THEN arg_cong, of "readPad _"] readPad_field readPriority_field [OF s(2)])
  ultimately show ?thesis using x h by simp
qed

lemma parse_push_promise:
  assumes x: "x = SPushPromise p" and l: "legal_args x" and e: "encoding x = (t, fl, sid, b)"
    and h: "header_of x = wire_header t fl sid b"
  shows "typeFrameParser t (wire_header t fl sid b) b = parse_ok (received x)"
proof -
  have s: "fh_StreamID (wire_header t fl sid b) \<noteq> 0" using x l e by (auto simp: wire_header_def validStreamID_def)
  have f: "fh_Flags (wire_header t fl sid b) = fl" by (simp add: wire_header_def)
  let ?q = "be32 (pp_PromiseID p) @ pp_BlockFragment p @ replicate (unat (pp_PadLength p)) 0"
  have b: "b = pad_field (pp_PadLength p) @ ?q" and flags: "Has fl FlagPushPromisePadded = (pp_PadLength p \<noteq> 0)"
    and v: "pp_PromiseID p AND 0x7fffffff = pp_PromiseID p"
    using x e l by (auto intro: valid_take)
  have "typeFrameParser t = parsePushPromise" using x e by (auto simp: typeFrameParser_def)
  moreover have "parsePushPromise (wire_header t fl sid b) b
      = parse_ok (PushPromiseFrame (wire_header t fl sid b) (pp_PromiseID p) (pp_BlockFragment p))"
    unfolding parsePushPromise_def f flags using s Uint32_be32 [of "pp_PromiseID p" "[]"]
    by (simp add: b [THEN arg_cong, of "readPad _"] readPad_field readUint32_def v)
  ultimately show ?thesis using x h by simp
qed

lemma parse_priority:
  assumes x: "x = SPriority i p" and l: "legal_args x" and e: "encoding x = (t, fl, sid, b)"
    and h: "header_of x = wire_header t fl sid b"
  shows "typeFrameParser t (wire_header t fl sid b) b = parse_ok (received x)"
proof -
  have "take 4 b = be32 (dep_word p) @ []" "length b = 5" "b ! 4 = Weight p"
    using x e by (auto simp: nth_append)
  moreover have "(StreamDep p \<noteq> dep_word p) = Exclusive p"
    using dep_word_exclusive [of p] l x by auto
  ultimately show ?thesis
    using x e h l Uint32_be32 [of "dep_word p" "[]"]
    by (auto simp: typeFrameParser_def parsePriorityFrame_def dep_word_take validStreamID_def wire_header_def)
qed

lemma parse_settings:
  assumes x: "x = SSettings ss" and l: "legal_args x" and e: "encoding x = (t, fl, sid, b)"
    and h: "header_of x = wire_header t fl sid b"
  shows "typeFrameParser t (wire_header t fl sid b) b = parse_ok (received x)"
proof -
  have "List.find (\<lambda>s. ID s = 4) ss = Some s \<Longrightarrow> Val s \<le> 0x7fffffff" for s
    using l x by (auto simp: list_all_iff find_Some_iff)
  moreover have v: "fh_valid (wire_header t fl sid b)" by (simp add: wire_header_def)
  ultimately show ?thesis using x e h
    by (auto simp: typeFrameParser_def parseSettingsFrame_def length_settings Value_bytes wire_header_def
        split: option.splits)
qed

lemma parse_goaway:
  assumes x: "x = SGoAway li c d" and e: "encoding x = (t, fl, sid, b)"
    and h: "header_of x = wire_header t fl sid b"
  shows "typeFrameParser t (wire_header t fl sid b) b = parse_ok (received x)"
proof -
  define m where "m = li AND 0x7fffffff"
  have m: "m AND 0x7fffffff = m" by (simp add: m_def and_mask31)
  have b: "b = be32 m @ be32 c @ d" and t: "t = FrameGoAway" "sid = 0" using x e by (auto simp: m_def)
  have "take 4 b = be32 m @ []" "take 8 b = be32 m @ be32 c" "drop 8 b = d" "\<not> length b < 8"
    by (simp_all add: b)
  then have "parseGoAwayFrame (wire_header t fl sid b) b = parse_ok (GoAwayFrame (wire_header t fl sid b) m m d)"
    unfolding parseGoAwayFrame_def by (simp only: Uint32_be32) (simp add: wire_header_def t m)
  moreover have "typeFrameParser t = parseGoAwayFrame" by (simp add: typeFrameParser_def t)
  ultimately show ?thesis using x h by (simp add: m_def)
qed

lemma parse_window_update:
  assumes x: "x = SWindowUpdate i v" and l: "legal_args x" and e: "encoding x = (t, fl, sid, b)"
    and h: "header_of x = wire_header t fl sid b"
  shows "typeFrameParser t (wire_header t fl sid b) b = parse_ok (received x)"
proof -
  have "unat v < 2 ^ 31" and v0: "v \<noteq> 0" using l x by (auto simp: word_le_nat_alt)
  then have "\<not> bit v 31" using less_exp_bit [of v 31 31] by auto
  then have v: "v AND 0x7fffffff = v" using take_bit_31 and_mask31 by metis
  show ?thesis using x e h v0 Uint32_be32 [of v "[]"]
    by (auto simp: typeFrameParser_def parseWindowUpdateFrame_def wire_header_def Let_def v)
qed

lemma parse_raw:
  assumes x: "x = SRaw ty fl' i q" and l: "legal_args x" and e: "encoding x = (t, fl, sid, b)"
    and h: "header_of x = wire_header t fl sid b"
  shows "typeFrameParser t (wire_header t fl sid b) b = parse_ok (received x)"
proof -
  have "\<not> (ty = 0 \<or> ty = 1 \<or> ty = 2 \<or> ty = 3 \<or> ty = 4 \<or> ty = 5 \<or> ty = 6 \<or> ty = 7 \<or> ty = 8 \<or> ty = 9)"
    using l x by (auto simp: word_le_nat_alt)
  then show ?thesis using x e h by (auto simp: typeFrameParser_def parseUnknownFrame_def)
qed

lemma parse_encoding:
  assumes "legal x" and e: "encoding x = (t, fl, sid, b)"
  shows "typeFrameParser t (wire_header t fl sid b) b = parse_ok (received x)"
proof -
  have l: "legal_args x" using assms by (simp add: legal_def)
  have h: "header_of x = wire_header t fl sid b" by (simp add: header_of_def e)
  note parse = parse_data [OF _ l e h] parse_headers [OF _ l e h] parse_push_promise [OF _ l e h]
    parse_priority [OF _ l e h] parse_settings [OF _ l e h] parse_goaway [OF _ e h]
    parse_window_update [OF _ l e h] parse_raw [OF _ l e h]
  show ?thesis
  proof (cases x)
    case (SRSTStream i c)
    then show ?thesis using e h l Uint32_be32 [of c "[]"]
      by (auto simp: typeFrameParser_def parseRSTStreamFrame_def validStreamID_def wire_header_def)
  next
    case (SPing ack d)
    then show ?thesis using e h l
      by (auto simp: typeFrameParser_def parsePingFrame_def wire_header_def)
  next
    case (SContinuation i eh q)
    then show ?thesis using e h l
      by (auto simp: typeFrameParser_def parseContinuationFrame_def wire_header_def validStreamID_def)
  next
    case SSettingsAck
    then show ?thesis using e h Value_bytes [of h "[]"]
      by (auto simp: typeFrameParser_def parseSettingsFrame_def wire_header_def Value_of_def checkValid_def NumSettings_def)
  qed (rule parse; assumption)+
qed

end
