(* ===== verification/Http2Codec.thy ===== *)
theory Http2Codec
  imports Http2Wire Http2Meta
begin

text \<open>
  A framer that reads what a framer wrote: the reader's side of the wire format, the specification of the
  order of frames (\<open>order_step\<close>, \<open>order_run\<close>), sequences of frames, and the properties of reading and
  writing together. The lemmas on reading are proved for any \<open>full_reader\<close>, those on writing for any
  \<open>full_writer\<close>, and the properties for the interpretations on a buffer.
\<close>

unbundle bit_operations_syntax

section \<open>Reading\<close>

lemma length_be24 [simp]: "length (be24 n) = 3"
  by (simp add: be24_def Let_def)

definition frame_start :: "FrameType \<Rightarrow> Flags \<Rightarrow> u32 \<Rightarrow> nat \<Rightarrow> u8 list" where
  "frame_start t flags sid n = be24 n @ [t, flags] @ be32 sid"

lemma frame_start_fields:
  assumes "n < 2 ^ 24" and "sid AND 0x7fffffff = sid"
  shows "length (frame_start t fl sid n) = 9"
    "frame_start t fl sid n ! 3 = t" "frame_start t fl sid n ! 4 = fl"
    "Uint32 (drop 5 (frame_start t fl sid n)) = Inr sid"
    "shl (ucast (frame_start t fl sid n ! 0)) 16 OR shl (ucast (frame_start t fl sid n ! 1)) 8
       OR ucast (frame_start t fl sid n ! 2) = (of_nat n :: u32)"
proof -
  have "be24 n = [be24 n ! 0, be24 n ! 1, be24 n ! 2]" by (simp add: be24_def Let_def)
  then obtain a b c where abc: "be24 n = [a, b, c]" "a = be24 n ! 0" "b = be24 n ! 1" "c = be24 n ! 2" by blast
  show "length (frame_start t fl sid n) = 9" by (simp add: frame_start_def)
  show "frame_start t fl sid n ! 3 = t" "frame_start t fl sid n ! 4 = fl"
    by (simp_all add: frame_start_def abc(1))
  show "Uint32 (drop 5 (frame_start t fl sid n)) = Inr sid"
    using Uint32_be32 [of sid "[]"] by (simp add: frame_start_def)
  show "shl (ucast (frame_start t fl sid n ! 0)) 16 OR shl (ucast (frame_start t fl sid n ! 1)) 8
       OR ucast (frame_start t fl sid n ! 2) = (of_nat n :: u32)"
    using be24_value [OF assms(1)] by (simp add: frame_start_def nth_append)
qed

context full_reader
begin

lemma readFrameHeader_wire:
  assumes "content r = frame_start t fl sid n @ rest" and "n < 2 ^ 24" and "sid AND 0x7fffffff = sid"
    and "length hb = 9"
  obtains r' where "readFrameHeader rd hb r = Some (Inr (r', frame_start t fl sid n, Inr
      \<lparr>fh_valid = True, fh_Type = t, fh_Flags = fl, fh_Length = of_nat n, fh_StreamID = sid\<rparr>))"
    "content r' = rest"
proof -
  note fs = frame_start_fields [OF assms(2,3), of t fl]
  have "length (take frameHeaderLen hb) \<le> length (content r)" using assms(1,4) fs(1) by simp
  then obtain r' where r': "ReadFull rd r (take frameHeaderLen hb)
      = Some (r', take (length (take frameHeaderLen hb)) (content r), length (take frameHeaderLen hb), None)"
    "content r' = drop (length (take frameHeaderLen hb)) (content r)"
    by (rule ReadFull_content)
  then have "ReadFull rd r (take frameHeaderLen hb) = Some (r', frame_start t fl sid n, 9, None)" "content r' = rest"
    using assms(1,4) fs(1) by simp_all
  with that fs(2-5) assms(3) show thesis by (simp add: readFrameHeader_def)
qed

lemma readFrame_one_wire:
  assumes "content (fr_r fr) = wire t fl sid b @ rest" and "length b < 2 ^ 24" and "sid AND 0x7fffffff = sid"
    and "length b \<le> unat (maxReadSize fr)" and "length (headerBuf fr) = 9"
  obtains r rb where "content r = rest"
    "readFrame_one rd fr = readFrame_parse
      (fr\<lparr>errDetail := None, fr_r := r, headerBuf := frame_start t fl sid (length b), readBuf := rb\<rparr>)
      (wire_header t fl sid b) b"
proof -
  have "content (fr_r fr) = frame_start t fl sid (length b) @ b @ rest"
    using assms(1) by (simp add: wire_def frame_start_def)
  from readFrameHeader_wire [OF this assms(2,3,5)] obtain r1 where
    h: "readFrameHeader rd (headerBuf fr) (fr_r fr) = Some (Inr (r1, frame_start t fl sid (length b), Inr (wire_header t fl sid b)))"
    and c1: "content r1 = b @ rest"
    unfolding wire_header_def by blast
  have len: "unat (of_nat (length b) :: u32) = length b" using assms(2) by (simp add: unat_of_nat)
  let ?fr = "fr\<lparr>errDetail := None, fr_r := r1, headerBuf := frame_start t fl sid (length b)\<rparr>"
  obtain fr2 p where g: "getReadBuf ?fr (of_nat (length b)) = (fr2, p)" by (metis surj_pair)
  have fr2: "fr2 = ?fr\<lparr>readBuf := readBuf fr2\<rparr>" "length p = length b" "length p \<le> length (readBuf fr2)"
    using g len by (auto simp: getReadBuf_def Let_def split: if_splits)
  then have r1: "fr_r fr2 = r1" by (metis Framer.select_convs(1) Framer.surjective Framer.update_convs(1,7,8))
  obtain r2 where r2: "ReadFull rd r1 p = Some (r2, b, length b, None)" "content r2 = rest"
    using ReadFull_content [of p r1] c1 fr2(2) by (metis append_eq_conv_conj length_append le_add1)
  have "\<not> fh_Length (wire_header t fl sid b) > maxReadSize fr"
    using assms(4) len by (simp add: wire_header_def word_less_nat_alt)
  then have "readFrame_one rd fr = readFrame_parse
      (fr2\<lparr>fr_r := r2, readBuf := copy_at (readBuf fr2) 0 b\<rparr>) (wire_header t fl sid b) b"
    using h g r2(1) r1 by (simp add: readFrame_one_def Let_def wire_header_def)
  also have "fr2\<lparr>fr_r := r2, readBuf := copy_at (readBuf fr2) 0 b\<rparr> =
      fr\<lparr>errDetail := None, fr_r := r2, headerBuf := frame_start t fl sid (length b), readBuf := copy_at (readBuf fr2) 0 b\<rparr>"
    by (subst fr2(1)) simp
  finally show thesis using that r2(2) by blast
qed

end

section \<open>The order of frames\<close>

text \<open>
  The order the framer keeps: the state is the stream whose header block is open, or 0. An open block takes
  only CONTINUATION frames of its stream, and a CONTINUATION frame needs an open block. Only HEADERS frames
  open one. The comments of the frames, and HTTP/2, also let a PUSH_PROMISE frame without END_HEADERS open
  one, which \<open>checkFrameOrder\<close> does not track.
\<close>

definition order_step :: "u32 \<Rightarrow> Frame \<Rightarrow> u32 option" where
  "order_step s f =
     (if s \<noteq> 0
      then if fh_Type (Header f) = FrameContinuation \<and> fh_StreamID (Header f) = s
           then Some (if HeadersEnded f then 0 else s) else None
      else if fh_Type (Header f) = FrameContinuation then None
      else if fh_Type (Header f) = FrameHeaders then Some (if HeadersEnded f then 0 else fh_StreamID (Header f))
      else Some 0)"

fun order_run :: "u32 \<Rightarrow> Frame list \<Rightarrow> u32 option" where
  "order_run s [] = Some s"
| "order_run s (f # fs) = (case order_step s f of None \<Rightarrow> None | Some s' \<Rightarrow> order_run s' fs)"

definition framer_ok :: "('r, 'w) Framer \<Rightarrow> bool" where
  "framer_ok fr \<longleftrightarrow> length (headerBuf fr) = 9 \<and> (lastHeaderStream fr \<noteq> 0 \<longrightarrow> lastFrame fr \<noteq> None)"

lemma framer_ok_New [simp]: "framer_ok (NewFramer w r)"
  by (simp add: framer_ok_def NewFramer_def SetMaxReadFrameSize_def)

lemma checkFrameOrder_ok:
  assumes "\<not> AllowIllegalReads fr" and "order_step (lastHeaderStream fr) f = Some s"
  shows "checkFrameOrder fr f = Inr (fr\<lparr>lastFrame := Some f, lastHeaderStream := s\<rparr>, None)"
  using assms by (cases fr) (auto simp: checkFrameOrder_def order_step_def HeadersEnded_def Let_def split: if_splits)

lemma checkFrameOrder_bad:
  assumes "\<not> AllowIllegalReads fr" and "order_step (lastHeaderStream fr) f = None" and "framer_ok fr"
  shows "\<exists>e. checkFrameOrder fr f
    = Inr (fr\<lparr>lastFrame := Some f, errDetail := Some e\<rparr>, Some (ConnectionError ErrCodeProtocol))"
  using assms
  by (auto simp: checkFrameOrder_def order_step_def framer_connError_def framer_ok_def Let_def split: if_splits)

text \<open>Reading does not change how a framer is configured.\<close>

definition same_config :: "('r, 'w) Framer \<Rightarrow> ('r, 'w) Framer \<Rightarrow> bool" where
  "same_config fr fr' \<longleftrightarrow> ReadMetaHeaders fr' = ReadMetaHeaders fr
     \<and> AllowIllegalReads fr' = AllowIllegalReads fr \<and> MaxHeaderListSize fr' = MaxHeaderListSize fr"

text \<open>Reading and writing several frames.\<close>

fun read_frames :: "'r reader \<Rightarrow> nat \<Rightarrow> ('r, 'w) Framer \<Rightarrow> (('r, 'w) Framer \<times> Frame list \<times> h2error option) res option" where
  "read_frames rd 0 fr = Some (Inr (fr, [], None))"
| "read_frames rd (Suc n) fr =
     obind (ReadFrame rd fr) (\<lambda>(fr, r). case r of
       Inl e \<Rightarrow> Some (Inr (fr, [], Some e))
     | Inr f \<Rightarrow> obind (read_frames rd n fr) (\<lambda>(fr, fs, e). Some (Inr (fr, f # fs, e))))"

fun write_frames :: "'w writer \<Rightarrow> ('r, 'w) Framer \<Rightarrow> sent list \<Rightarrow> ('r, 'w) write_result" where
  "write_frames wr f [] = (f, None)"
| "write_frames wr f (x # xs) =
     (case write_sent wr f x of (f, None) \<Rightarrow> write_frames wr f xs | (f, Some e) \<Rightarrow> (f, Some e))"

lemma ReadFrame_plain:
  assumes "ReadMetaHeaders fr = None"
    and "readFrame_one rd fr = Some (Inr (fr', r))" and "ReadMetaHeaders fr' = None"
  shows "ReadFrame rd fr = Some (Inr (fr', r))"
  using assms by (cases r) (simp_all add: ReadFrame_def read_run.simps [of rd fr])

lemma Header_received: "Header (received x) = header_of x"
  by (cases x) simp_all

lemma received_not_connError: "received x = f \<Longrightarrow> fh_Type (Header f) = fst (encoding x)"
  by (auto simp: Header_received header_of_def wire_header_def split: prod.splits)

lemma legal_stream:
  assumes "legal x" and "encoding x = (t, fl, sid, b)"
  shows "sid AND 0x7fffffff = sid"
  using assms by (cases x) (auto simp: legal_def valid_take)

context full_reader
begin

text \<open>A frame that is in order is delivered, and one that is not is a protocol error.\<close>

lemma readFrame_one_received:
  assumes "content (fr_r fr) = wire_of x @ rest" and "legal x" and "framer_ok fr"
    and "length (payload_of x) \<le> unat (maxReadSize fr)" and "\<not> AllowIllegalReads fr"
  shows "\<exists>fr'. readFrame_one rd fr = Some (Inr (fr', case order_step (lastHeaderStream fr) (received x) of
        None \<Rightarrow> Inl (ConnectionError ErrCodeProtocol) | Some _ \<Rightarrow> Inr (received x)))
    \<and> content (fr_r fr') = rest \<and> framer_ok fr' \<and> same_config fr fr' \<and> maxReadSize fr' = maxReadSize fr
    \<and> (\<forall>s. order_step (lastHeaderStream fr) (received x) = Some s \<longrightarrow> lastHeaderStream fr' = s)"
proof -
  obtain t fl sid b where e: "encoding x = (t, fl, sid, b)" by (metis prod_cases4)
  have b: "b = payload_of x" "length b < 2 ^ 24" using assms(2) e by (simp_all add: payload_of_def legal_def)
  have c: "content (fr_r fr) = wire t fl sid b @ rest" using assms(1) e by (simp add: wire_of_def)
  obtain r rb where r: "content r = rest"
    "readFrame_one rd fr = readFrame_parse
      (fr\<lparr>errDetail := None, fr_r := r, headerBuf := frame_start t fl sid (length b), readBuf := rb\<rparr>)
      (wire_header t fl sid b) b"
    using readFrame_one_wire [OF c b(2) legal_stream [OF assms(2) e]] assms(3,4) b(1) by (auto simp: framer_ok_def)
  let ?fr = "fr\<lparr>errDetail := None, fr_r := r, headerBuf := frame_start t fl sid (length b), readBuf := rb\<rparr>"
  have p: "typeFrameParser (fh_Type (wire_header t fl sid b)) (wire_header t fl sid b) b = parse_ok (received x)"
    using parse_encoding [OF assms(2) e] by (simp add: wire_header_def)
  have ok: "framer_ok ?fr"
    using assms(3) frame_start_fields(1) [OF b(2) legal_stream [OF assms(2) e], of t fl] by (simp add: framer_ok_def)
  have one: "readFrame_one rd fr = obind (Some (checkFrameOrder ?fr (received x))) (\<lambda>(fr, err).
      case err of Some e \<Rightarrow> Some (Inr (fr, Inl e)) | None \<Rightarrow> Some (Inr (fr, Inr (received x))))"
    unfolding r(2) readFrame_parse_def p by simp
  show ?thesis
  proof (cases "order_step (lastHeaderStream fr) (received x)")
    case None
    then obtain d where "checkFrameOrder ?fr (received x) = Inr (?fr\<lparr>lastFrame := Some (received x), errDetail := Some d\<rparr>,
        Some (ConnectionError ErrCodeProtocol))"
      using checkFrameOrder_bad [of ?fr "received x"] assms(5) ok by auto
    with one None r(1) ok show ?thesis by (auto simp: framer_ok_def same_config_def)
  next
    case (Some s)
    have "checkFrameOrder ?fr (received x) = Inr (?fr\<lparr>lastFrame := Some (received x), lastHeaderStream := s\<rparr>, None)"
      using checkFrameOrder_ok [of ?fr "received x" s] assms(5) Some by simp
    with one Some r(1) ok show ?thesis by (auto simp: framer_ok_def same_config_def)
  qed
qed

lemma ReadFrame_received:
  assumes "content (fr_r fr) = wire_of x @ rest" and "legal x" and "framer_ok fr"
    and "length (payload_of x) \<le> unat (maxReadSize fr)"
    and "\<not> AllowIllegalReads fr" and "ReadMetaHeaders fr = None"
  shows "\<exists>fr'. ReadFrame rd fr = Some (Inr (fr', case order_step (lastHeaderStream fr) (received x) of
        None \<Rightarrow> Inl (ConnectionError ErrCodeProtocol) | Some _ \<Rightarrow> Inr (received x)))
    \<and> content (fr_r fr') = rest
    \<and> (\<forall>s. order_step (lastHeaderStream fr) (received x) = Some s \<longrightarrow> framer_ok fr' \<and> lastHeaderStream fr' = s
        \<and> \<not> AllowIllegalReads fr' \<and> ReadMetaHeaders fr' = None \<and> maxReadSize fr' = maxReadSize fr)"
  using readFrame_one_received [OF assms(1-5)] ReadFrame_plain [OF assms(6)] assms(5,6)
  by (auto simp: same_config_def)

lemma read_frames_received:
  assumes "content (fr_r fr) = concat (map wire_of xs) @ rest" and "framer_ok fr"
    and "\<forall>x \<in> set xs. legal x \<and> length (payload_of x) \<le> unat (maxReadSize fr)"
    and "\<not> AllowIllegalReads fr" and "ReadMetaHeaders fr = None"
    and "order_run (lastHeaderStream fr) (map received xs) = Some s"
  shows "\<exists>fr'. read_frames rd (length xs) fr = Some (Inr (fr', map received xs, None))
    \<and> content (fr_r fr') = rest \<and> lastHeaderStream fr' = s \<and> framer_ok fr' \<and> \<not> AllowIllegalReads fr'
    \<and> ReadMetaHeaders fr' = None \<and> maxReadSize fr' = maxReadSize fr"
  using assms
proof (induction xs arbitrary: fr)
  case (Cons x xs)
  from Cons.prems(6) obtain s' where s': "order_step (lastHeaderStream fr) (received x) = Some s'"
    "order_run s' (map received xs) = Some s"
    by (auto split: option.splits)
  have "content (fr_r fr) = wire_of x @ concat (map wire_of xs) @ rest" using Cons.prems(1) by simp
  from ReadFrame_received [OF this _ Cons.prems(2)] Cons.prems(3-5) s'(1) obtain fr1 where
    1: "ReadFrame rd fr = Some (Inr (fr1, Inr (received x)))" "content (fr_r fr1) = concat (map wire_of xs) @ rest"
      "framer_ok fr1" "lastHeaderStream fr1 = s'" "\<not> AllowIllegalReads fr1" "ReadMetaHeaders fr1 = None"
      "maxReadSize fr1 = maxReadSize fr"
    by auto
  from Cons.IH [OF 1(2,3)] 1(4-7) Cons.prems(3) s'(2) obtain fr2 where
    "read_frames rd (length xs) fr1 = Some (Inr (fr2, map received xs, None))"
    "content (fr_r fr2) = rest" "lastHeaderStream fr2 = s" "framer_ok fr2" "\<not> AllowIllegalReads fr2"
    "ReadMetaHeaders fr2 = None" "maxReadSize fr2 = maxReadSize fr1" by auto
  with 1(1,7) show ?case by simp
qed simp

lemma read_frames_append:
  "read_frames rd (m + n) fr = obind (read_frames rd m fr) (\<lambda>(fr, fs, e). case e of
     Some _ \<Rightarrow> Some (Inr (fr, fs, e))
   | None \<Rightarrow> obind (read_frames rd n fr) (\<lambda>(fr', fs', e'). Some (Inr (fr', fs @ fs', e'))))"
proof (induction m arbitrary: fr)
  case 0
  show ?case by (cases "read_frames rd n fr") (auto simp: obind_def split: sum.splits)
next
  case (Suc m)
  show ?case
    by (auto simp: Suc.IH obind_def bind_eq_None_conv split: sum.splits option.splits Option.bind_splits)
qed

end

context full_writer
begin

lemma write_frames_wire:
  assumes "\<forall>x \<in> set xs. legal x"
  shows "writes_frame f (write_frames wr f xs) (concat (map wire_of xs))"
  using assms
proof (induction xs arbitrary: f)
  case Nil
  show ?case by (simp add: writes_frame_def)
next
  case (Cons x xs)
  from write_sent_wire [of x f] Cons.prems obtain f1 where
    1: "write_sent wr f x = (f1, None)" "written (fr_w f1) = written (fr_w f) @ wire_of x" "fr_r f1 = fr_r f"
      "AllowIllegalWrites f1 = AllowIllegalWrites f"
    by (auto simp: writes_frame_def)
  from Cons.IH [of f1] Cons.prems 1 show ?case by (auto simp: writes_frame_def)
qed

end

section \<open>Settings\<close>

lemma each_loop_bytes:
  assumes "\<forall>i \<in> set is. i < length ss"
  shows "each_loop (\<lambda>x acc. (acc @ [x], None)) (concat (map setting_bytes ss)) is acc
    = Inr (acc @ map (\<lambda>i. ss ! i) is, None)"
  using assms by (induction "is" arbitrary: acc) (simp_all add: Setting_at_bytes)

lemma dup_seen_bytes:
  assumes "\<forall>i \<in> set is. i < length ss"
  shows "dup_seen (concat (map setting_bytes ss)) seen is
    = Inr (\<not> (distinct (map (\<lambda>i. ID (ss ! i)) is) \<and> (\<forall>i \<in> set is. \<not> seen (ID (ss ! i)))))"
  using assms
proof (induction "is" arbitrary: seen)
  case (Cons i "is")
  show ?case
  proof (cases "seen (ID (ss ! i))")
    case False
    then have "dup_seen (concat (map setting_bytes ss)) seen (i # is)
        = dup_seen (concat (map setting_bytes ss)) (seen(ID (ss ! i) := True)) is"
      using Cons.prems by (simp add: Setting_at_bytes)
    also have "\<dots> = Inr (\<not> (distinct (map (\<lambda>i. ID (ss ! i)) is)
        \<and> (\<forall>j \<in> set is. ID (ss ! i) \<noteq> ID (ss ! j) \<and> \<not> seen (ID (ss ! j)))))"
      using Cons.prems by (subst Cons.IH) (auto simp: fun_upd_def, metis)
    finally show ?thesis using False by (auto simp: image_iff)
  qed (use Cons.prems in \<open>simp add: Setting_at_bytes\<close>)
qed simp

lemma dup_inner_bytes:
  assumes "\<forall>j \<in> set js. j < length ss"
  shows "dup_inner (concat (map setting_bytes ss)) v js = Inr (\<exists>j \<in> set js. v = ID (ss ! j))"
  using assms by (induction js) (auto simp: Setting_at_bytes)

lemma dup_outer_bytes:
  assumes "\<forall>i \<in> set is. i < length ss"
  shows "dup_outer (concat (map setting_bytes ss)) (length ss) is
    = Inr (\<exists>i \<in> set is. \<exists>j \<in> {i<..<length ss}. ID (ss ! i) = ID (ss ! j))"
  using assms
proof (induction "is")
  case (Cons i "is")
  then have "dup_inner (concat (map setting_bytes ss)) (ID (ss ! i)) [i + 1..<length ss]
      = Inr (\<exists>j \<in> set [i + 1..<length ss]. ID (ss ! i) = ID (ss ! j))"
    by (intro dup_inner_bytes) simp
  moreover have "set [i + 1..<length ss] = {i<..<length ss}" by auto
  ultimately show ?case using Cons by (auto simp: Setting_at_bytes)
qed simp

lemma HasDuplicates_bytes:
  "HasDuplicates (concat (map setting_bytes ss)) = Inr (\<not> distinct (map ID ss))"
proof -
  let ?p = "concat (map setting_bytes ss)" and ?n = "length ss"
  have seen: "dup_seen ?p (\<lambda>_. False) [0..<?n] = Inr (\<not> distinct (map ID ss))"
  proof -
    have "map (\<lambda>i. ID (ss ! i)) [0..<?n] = map ID ss" by (rule nth_equalityI) simp_all
    then show ?thesis using dup_seen_bytes [of "[0..<?n]" ss "\<lambda>_. False"] by simp
  qed
  have outer: "dup_outer ?p ?n [0..<?n] = Inr (\<not> distinct (map ID ss))"
  proof -
    have "(\<exists>i \<in> set [0..<?n]. \<exists>j \<in> {i<..<?n}. ID (ss ! i) = ID (ss ! j)) = (\<not> distinct (map ID ss))"
      (is "?dup = _")
    proof
      assume ?dup
      then obtain i j where "i < j" "j < ?n" "ID (ss ! i) = ID (ss ! j)" by auto
      then show "\<not> distinct (map ID ss)" using nth_eq_iff_index_eq [of "map ID ss" i j] by auto
    next
      assume "\<not> distinct (map ID ss)"
      then obtain i j where ij: "i < ?n" "j < ?n" "i \<noteq> j" "ID (ss ! i) = ID (ss ! j)" by (auto simp: distinct_conv_nth)
      show ?dup
      proof (cases "i < j")
        case True
        with ij show ?thesis by (intro bexI [of _ i] bexI [of _ j]) auto
      next
        case False
        with ij show ?thesis by (intro bexI [of _ j] bexI [of _ i]) auto
      qed
    qed
    then show ?thesis using dup_outer_bytes [of "[0..<?n]" ss] by simp
  qed
  show ?thesis by (auto simp: HasDuplicates_def NumSettings_bytes seen outer Let_def)
qed

text \<open>A promise whose header block goes on in a CONTINUATION frame.\<close>

definition example_promise :: PushPromiseParam where
  "example_promise = \<lparr>pp_StreamID = 1, pp_PromiseID = 2, pp_BlockFragment = [0x82], pp_EndHeaders = False, pp_PadLength = 0\<rparr>"

section \<open>Properties\<close>

text \<open>
  C15: Frames survive the wire. Whatever frames a framer writes with legal arguments (all twelve ways of
  writing one, with and without padding and priority), in an order that the framer
  accepts (blocks opened by HEADERS contiguous, CONTINUATION frames only in them, hence none after a
  PUSH_PROMISE), a framer that reads the bytes gets the frames back in order, with the padding removed and
  the reserved bits dropped, and has then consumed exactly these bytes. The one field that does not
  arrive is the error code of GOAWAY: \<open>received\<close> has the last stream id there.
\<close>
theorem frames_roundtrip:
  assumes "\<forall>x \<in> set xs. legal x" and "order_run 0 (map received xs) = Some s"
  shows "\<exists>f fr. write_frames Buffer_Write (NewFramer [] r) xs = (f, None)
    \<and> read_frames Buffer_Read (length xs) (NewFramer w (fr_w f)) = Some (Inr (fr, map received xs, None))
    \<and> fr_r fr = []"
proof -
  obtain f where f: "write_frames Buffer_Write (NewFramer [] r) xs = (f, None)" "fr_w f = concat (map wire_of xs)"
    using mem.write_frames_wire [OF assms(1), of "NewFramer [] r"]
    by (auto simp: mem.writes_frame_def NewFramer_def SetMaxReadFrameSize_def)
  let ?fr = "NewFramer w (fr_w f)"
  have "fr_r ?fr = concat (map wire_of xs) @ []" using f(2) by (simp add: NewFramer_def SetMaxReadFrameSize_def)
  moreover have "\<forall>x \<in> set xs. legal x \<and> length (payload_of x) \<le> unat (maxReadSize ?fr)"
    using assms(1) by (auto simp: legal_def NewFramer_def SetMaxReadFrameSize_def maxFrameSize_def)
  moreover have "\<not> AllowIllegalReads ?fr" "ReadMetaHeaders ?fr = None" "lastHeaderStream ?fr = 0"
    by (simp_all add: NewFramer_def SetMaxReadFrameSize_def)
  ultimately show ?thesis
    using buffer.read_frames_received [of ?fr xs "[]" s] assms(2) f(1) by auto
qed

theorem frames_roundtrip_witness:
  "\<exists>f fr. write_frames Buffer_Write (NewFramer [] ()) example_frames = (f, None)
    \<and> read_frames Buffer_Read (length example_frames) (NewFramer () (fr_w f))
      = Some (Inr (fr, map received example_frames, None))
    \<and> fr_r fr = []"
proof (rule frames_roundtrip)
  show "order_run 0 (map received example_frames) = Some 0" by code_simp
qed (simp add: example_frames_def example_headers_def legal_def payload_of_def validStreamID_def
    validStreamIDOrZero_def pad_field_def IsZero_def zeroPriority_def)

text \<open>
  C30: Header blocks that HEADERS frames open stay contiguous: a framer that reads legal frames delivers
  them as long as they are in order, and answers the first one that is not (any other frame inside such a
  block, a CONTINUATION of another stream, or a CONTINUATION outside such a block, also one that continues
  a PUSH_PROMISE) with a connection error of type PROTOCOL_ERROR.
\<close>
theorem frame_order_enforced:
  assumes "\<forall>x \<in> set xs. legal x" and "legal y"
    and "order_run 0 (map received xs) = Some s" and "order_step s (received y) = None"
  shows "\<exists>fr. read_frames Buffer_Read (Suc (length xs))
      (NewFramer w (concat (map wire_of xs) @ wire_of y @ rest))
    = Some (Inr (fr, map received xs, Some (ConnectionError ErrCodeProtocol))) \<and> fr_r fr = rest"
proof -
  let ?fr = "NewFramer w (concat (map wire_of xs) @ wire_of y @ rest)"
  have new: "\<not> AllowIllegalReads ?fr" "ReadMetaHeaders ?fr = None" "lastHeaderStream ?fr = 0"
    "fr_r ?fr = concat (map wire_of xs) @ wire_of y @ rest" "maxReadSize ?fr = 0xffffff"
    by (simp_all add: NewFramer_def SetMaxReadFrameSize_def maxFrameSize_def)
  have small: "length (payload_of x) \<le> unat (maxReadSize ?fr)" if "legal x" for x
    using that by (simp add: legal_def new(5))
  obtain fr1 where 1: "read_frames Buffer_Read (length xs) ?fr = Some (Inr (fr1, map received xs, None))"
    "fr_r fr1 = wire_of y @ rest" "lastHeaderStream fr1 = s" "framer_ok fr1" "\<not> AllowIllegalReads fr1"
    "ReadMetaHeaders fr1 = None" "maxReadSize fr1 = maxReadSize ?fr"
    using buffer.read_frames_received [of ?fr xs "wire_of y @ rest" s] new small assms(1,3) by auto
  obtain fr2 where "ReadFrame Buffer_Read fr1 = Some (Inr (fr2, Inl (ConnectionError ErrCodeProtocol)))" "fr_r fr2 = rest"
    using buffer.ReadFrame_received [OF 1(2) assms(2) 1(4)] small [OF assms(2)] 1 assms(4) by auto
  with 1(1) show ?thesis
    using buffer.read_frames_append [of "length xs" 1 ?fr] by simp
qed

theorem frame_order_enforced_witness:
  "\<exists>fr. read_frames Buffer_Read (Suc (length [example_headers])) (NewFramer ()
      (concat (map wire_of [example_headers]) @ wire_of (SPing False (replicate 8 0)) @ [7]))
    = Some (Inr (fr, map received [example_headers], Some (ConnectionError ErrCodeProtocol))) \<and> fr_r fr = [7]"
proof (rule frame_order_enforced)
  show "order_run 0 (map received [example_headers]) = Some 1" by code_simp
  show "order_step 1 (received (SPing False (replicate 8 0))) = None" by code_simp
qed (simp_all add: example_headers_def legal_def payload_of_def validStreamID_def
    validStreamIDOrZero_def pad_field_def IsZero_def zeroPriority_def)

text \<open>
  C31: A header block that starts in a PUSH_PROMISE frame without END_HEADERS cannot be received: the
  framer delivers the PUSH_PROMISE, refuses the CONTINUATION frame that has to follow, with a connection
  error of type PROTOCOL_ERROR, and accepts any other legal frame in its place.
\<close>
theorem push_promise_continuation_refused:
  assumes "legal (SPushPromise p)" and "\<not> pp_EndHeaders p" and "legal y"
  shows "\<exists>fr. read_frames Buffer_Read 2 (NewFramer w (wire_of (SPushPromise p) @ wire_of y))
    = Some (Inr (if fh_Type (header_of y) = FrameContinuation
        then (fr, [received (SPushPromise p)], Some (ConnectionError ErrCodeProtocol))
        else (fr, [received (SPushPromise p), received y], None)))"
proof -
  let ?x = "SPushPromise p" and ?fr = "NewFramer w (wire_of (SPushPromise p) @ wire_of y)"
  have new: "\<not> AllowIllegalReads ?fr" "ReadMetaHeaders ?fr = None" "lastHeaderStream ?fr = 0"
    "fr_r ?fr = wire_of ?x @ wire_of y @ []" "maxReadSize ?fr = 0xffffff"
    by (simp_all add: NewFramer_def SetMaxReadFrameSize_def maxFrameSize_def)
  have small: "length (payload_of x) \<le> unat (maxReadSize ?fr)" if "legal x" for x
    using that by (simp add: legal_def new(5))
  have "order_step 0 (received ?x) = Some 0"
    by (simp add: order_step_def header_of_def wire_header_def FramePushPromise_def FrameContinuation_def FrameHeaders_def)
  then obtain fr1 where 1: "ReadFrame Buffer_Read ?fr = Some (Inr (fr1, Inr (received ?x)))"
    "fr_r fr1 = wire_of y @ []" "lastHeaderStream fr1 = 0" "framer_ok fr1" "\<not> AllowIllegalReads fr1"
    "ReadMetaHeaders fr1 = None" "maxReadSize fr1 = maxReadSize ?fr"
    using buffer.ReadFrame_received [of ?fr ?x "wire_of y @ []"] new small assms(1) by auto
  have "order_step 0 (received y) = None \<longleftrightarrow> fh_Type (header_of y) = FrameContinuation"
    by (simp add: order_step_def Header_received)
  moreover obtain fr2 where "ReadFrame Buffer_Read fr1 = Some (Inr (fr2, case order_step 0 (received y) of
      None \<Rightarrow> Inl (ConnectionError ErrCodeProtocol) | Some _ \<Rightarrow> Inr (received y)))"
    using buffer.ReadFrame_received [OF 1(2) assms(3) 1(4)] small [OF assms(3)] 1 by auto
  ultimately show ?thesis using 1(1) by (auto simp: numeral_2_eq_2 split: option.splits)
qed

theorem push_promise_continuation_refused_witness:
  "\<exists>fr. read_frames Buffer_Read 2 (NewFramer () (wire_of (SPushPromise example_promise)
      @ wire_of (SContinuation 1 True [0x84])))
    = Some (Inr (fr, [received (SPushPromise example_promise)], Some (ConnectionError ErrCodeProtocol)))"
proof -
  have "legal (SPushPromise example_promise)" "\<not> pp_EndHeaders example_promise" "legal (SContinuation 1 True [0x84])"
    by (simp_all add: example_promise_def legal_def payload_of_def validStreamID_def pad_field_def)
  from push_promise_continuation_refused [OF this, of "()"] show ?thesis
    by (simp add: header_of_def wire_header_def)
qed

text \<open>
  The parameters of a SETTINGS frame are read back: \<open>ForEachSetting\<close> visits them in the order they
  were written, \<open>Value\<close> returns the first one with the given id, and \<open>HasDuplicates\<close>, which compares all
  pairs of a short list and keeps a map for a long one, tells whether an id occurs twice.
\<close>
lemma settings_read_back:
  "\<exists>h p. received (SSettings ss) = SettingsFrame h p
    \<and> ForEachSetting (\<lambda>x acc. (acc @ [x], None)) h p [] = Inr (ss, None)
    \<and> (\<forall>k. Value_of h p k = Inr (map_option Val (List.find (\<lambda>s. ID s = k) ss)))
    \<and> HasDuplicates p = Inr (\<not> distinct (map ID ss))"
proof -
  let ?p = "concat (map setting_bytes ss)" and ?h = "header_of (SSettings ss)"
  have "fh_valid ?h" by (simp add: header_of_def wire_header_def)
  then show ?thesis
    using each_loop_bytes [of "[0..<length ss]" ss "[]"]
    by (simp add: ForEachSetting_def checkValid_def NumSettings_bytes map_nth_all Value_bytes HasDuplicates_bytes)
qed

text \<open>
  C39: The error code of a GOAWAY frame is lost: whatever code is written, the reader finds the last
  stream id in its place.
\<close>
theorem goaway_code_lost:
  assumes "length d < 2 ^ 24 - 8"
  shows "\<exists>f fr h. WriteGoAway Buffer_Write (NewFramer [] r) lastID code d = (f, None)
    \<and> ReadFrame Buffer_Read (NewFramer w (fr_w f))
      = Some (Inr (fr, Inr (GoAwayFrame h (lastID AND 0x7fffffff) (lastID AND 0x7fffffff) d)))"
proof -
  let ?x = "SGoAway lastID code d"
  have l: "legal ?x" using assms by (simp add: legal_def payload_of_def)
  obtain f where f: "WriteGoAway Buffer_Write (NewFramer [] r) lastID code d = (f, None)" "fr_w f = wire_of ?x"
    using mem.write_sent_wire [OF l, of "NewFramer [] r"]
    by (auto simp: mem.writes_frame_def NewFramer_def SetMaxReadFrameSize_def)
  let ?fr = "NewFramer w (fr_w f)"
  have new: "fr_r ?fr = wire_of ?x @ []" "\<not> AllowIllegalReads ?fr" "ReadMetaHeaders ?fr = None"
    "lastHeaderStream ?fr = 0" "length (payload_of ?x) \<le> unat (maxReadSize ?fr)"
    using l f(2) by (simp_all add: NewFramer_def SetMaxReadFrameSize_def maxFrameSize_def legal_def)
  have "order_step 0 (received ?x) = Some 0" by (simp add: order_step_def header_of_def wire_header_def)
  then show ?thesis
    using buffer.ReadFrame_received [OF new(1) l] new f(1) by fastforce
qed

theorem goaway_code_lost_witness:
  "\<exists>f fr h. WriteGoAway Buffer_Write (NewFramer [] ()) 5 2 [] = (f, None)
    \<and> ReadFrame Buffer_Read (NewFramer () (fr_w f))
      = Some (Inr (fr, Inr (GoAwayFrame h (5 AND 0x7fffffff) (5 AND 0x7fffffff) [])))"
  by (rule goaway_code_lost) simp

text \<open>
  C40: A read that returns less than asked for corrupts the buffer: \<open>ReadFull\<close> passes the whole buffer to
  every call, so when the bytes arrive in two pieces the second piece overwrites the first, and success is
  reported.
\<close>
theorem short_read_overwrites:
  assumes "0 < length a" and "length a < length buf" and "length b \<le> length buf"
    and "length buf \<le> length a + length b"
  shows "ReadFull Conn_Read [a, b] buf
    = Some ([], b @ drop (length b) (a @ drop (length a) buf), length a + length b, None)"
  using assms
  by (auto simp: ReadFull_def ReadAtLeast_def readAtLeast_loop.simps [of _ "[a, b]"]
      readAtLeast_loop.simps [of _ "[b]"] readAtLeast_loop.simps [of _ "[]"] copy_at_def)

theorem short_read_overwrites_witness:
  "ReadFull Conn_Read [[0, 0, 4], [8, 0, 0, 0, 0, 1]] (replicate 9 0)
    = Some ([], [8, 0, 0, 0, 0, 1] @ drop (length [8, 0, 0, 0, 0, 1 :: u8]) ([0, 0, 4] @ drop (length [0, 0, 4 :: u8]) (replicate 9 0)),
        length [0, 0, 4 :: u8] + length [8, 0, 0, 0, 0, 1 :: u8], None)"
  by (rule short_read_overwrites) simp_all

end
