(* ===== verification/HpackChunks.thy ===== *)
theory HpackChunks
  imports HpackCodec
begin

text \<open>
  Header blocks in pieces: a decoder that is given a block in several calls of \<open>Write\<close>, cut anywhere, does
  what it does when it is given the block at once. What a parser returns other than \<open>errNeedMore\<close> does not
  depend on the bytes that follow (\<open>parse_extend\<close>); what is left unparsed of a piece is the beginning of one
  representation, which is short enough for the bound on saved input (\<open>field_bytes_bound\<close>).
\<close>

unbundle bit_operations_syntax

section \<open>Parsing with more input\<close>

lemma dbind_result:
  assumes "dbind d m f = Inr (d', err)"
  obtains e where "m = Inr (Inl e)" "d' = d" "err = Some e" | x where "m = Inr (Inr x)" "f x = Inr (d', err)"
proof -
  from assms obtain r where "m = Inr r" by (auto simp: dbind_def go_bind_eq_Inr)
  with assms that show thesis by (cases r) auto
qed

text \<open>The result \<open>m\<close> of a read off \<open>p\<close> determines the result \<open>m'\<close> off a longer input, unless input was missing.\<close>

definition extends :: "u8 list \<Rightarrow> ('a \<times> u8 list) hres \<Rightarrow> ('a \<times> u8 list) hres \<Rightarrow> bool" where
  "extends b m m' \<longleftrightarrow>
     (\<forall>x r. m = Inr (Inr (x, r)) \<longrightarrow> m' = Inr (Inr (x, r @ b)))
     \<and> (\<forall>e. m = Inr (Inl e) \<and> e \<noteq> errNeedMore \<longrightarrow> m' = Inr (Inl e)) \<and> (\<forall>e. m = Inl e \<longrightarrow> m' = Inl e)"

lemma readVarInt_loop_extend:
  "readVarInt_loop i m p = Inr (v, r) \<Longrightarrow> readVarInt_loop i m (p @ b) = Inr (v, r @ b)"
  "readVarInt_loop i m p = Inl e \<Longrightarrow> e \<noteq> errNeedMore \<Longrightarrow> readVarInt_loop i m (p @ b) = Inl e"
  by (induction i m p rule: readVarInt_loop.induct) (auto simp: Let_def split: if_splits)

lemma readVarInt_extend: "extends b (readVarInt n p) (readVarInt n (p @ b))"
proof (cases p)
  case Nil
  then show ?thesis by (auto simp: readVarInt_def extends_def)
next
  case (Cons c q)
  then show ?thesis
    by (auto simp: readVarInt_def extends_def Let_def intro: readVarInt_loop_extend)
qed

lemma readString_extend: "extends b (readString d p) (readString d (p @ b))"
proof (cases p)
  case Nil
  then show ?thesis by (auto simp: readString_def extends_def)
next
  case (Cons c q)
  obtain x where x: "readVarInt 7 p = Inr x" using readVarInt_no_panic [of 7 p] by auto
  note ext = readVarInt_extend [of b 7 p, unfolded extends_def x]
  show ?thesis
  proof (cases x)
    case (Inl e)
    with ext x Cons show ?thesis by (auto simp: readString_def extends_def)
  next
    case (Inr z)
    obtain l r where z: "z = (l, r)" by (cases z)
    have "readVarInt 7 (p @ b) = Inr (Inr (l, r @ b))" using ext Inr z by simp
    with x Inr z Cons show ?thesis by (auto simp: readString_def extends_def Let_def)
  qed
qed

lemma literal_name_extend:
  assumes "literal_name d i p = Inr (Inr (nm, u, r))"
  shows "literal_name d i (p @ b) = Inr (Inr (nm, u, r @ b))"
  using assms readString_extend [of b d p]
  by (auto simp: literal_name_def extends_def go_bind_eq_Inr split: if_splits option.splits elim!: hbind_ok)

lemma literal_name_extend_err:
  assumes "literal_name d i p = Inr (Inl e)" and "e \<noteq> errNeedMore"
  shows "literal_name d i (p @ b) = Inr (Inl e)"
proof (cases "i > 0")
  case True
  with assms show ?thesis by (auto simp: literal_name_def go_bind_eq_Inr split: option.splits)
next
  case False
  then have "readString d p = Inr (Inl e)"
    using assms(1) by (cases "readString d p") (auto simp: literal_name_def hbind_def split: sum.splits)
  then have "readString d (p @ b) = Inr (Inl e)" using readString_extend [of b d p] assms(2) by (simp add: extends_def)
  then show ?thesis using False by (simp add: literal_name_def)
qed

text \<open>The same for a method of the decoder: more input is left over.\<close>

definition dstable :: "u8 list \<Rightarrow> dres \<Rightarrow> dres \<Rightarrow> bool" where
  "dstable b r r' \<longleftrightarrow>
     (\<forall>d' err. r = Inr (d', err) \<and> err \<noteq> Some errNeedMore \<longrightarrow> r' = Inr (d'\<lparr>dbuf := dbuf d' @ b\<rparr>, err))
     \<and> (\<forall>e. r = Inl e \<longrightarrow> r' = Inl e)"

lemma dbind_stable:
  assumes "extends b m m'" and "\<And>x r. m = Inr (Inr (x, r)) \<Longrightarrow> dstable b (f (x, r)) (f' (x, r @ b))"
  shows "dstable b (dbind (d\<lparr>dbuf := p\<rparr>) m f) (dbind (d\<lparr>dbuf := p @ b\<rparr>) m' f')"
proof (cases m)
  case (Inl e)
  with assms(1) show ?thesis by (simp add: extends_def dstable_def)
next
  case (Inr r)
  show ?thesis
  proof (cases r)
    case (Inl e)
    then show ?thesis using assms(1) Inr by (auto simp: extends_def dstable_def)
  next
    case (Inr z)
    obtain x q where "z = (x, q)" by (cases z)
    then have m: "m = Inr (Inr (x, q))" using \<open>m = Inr r\<close> Inr by simp
    then have "m' = Inr (Inr (x, q @ b))" using assms(1) by (simp add: extends_def)
    with m assms(2) [OF m] show ?thesis by simp
  qed
qed

lemma dbind_stable_pure:
  assumes "\<And>x. dstable b (f x) (f' x)"
  shows "dstable b (dbind (d\<lparr>dbuf := p\<rparr>) m f) (dbind (d\<lparr>dbuf := p @ b\<rparr>) m f')"
proof (cases m)
  case (Inr r)
  with assms show ?thesis by (cases r) (auto simp: dstable_def)
qed (simp add: dstable_def)

lemma stable_const: "dstable b (Inr (d\<lparr>dbuf := p\<rparr>, err)) (Inr (d\<lparr>dbuf := p @ b\<rparr>, err))"
  by (simp add: dstable_def)

lemma callEmit_stable: "dstable b (Inr (callEmit (d\<lparr>dbuf := p\<rparr>) hf)) (Inr (callEmit (d\<lparr>dbuf := p @ b\<rparr>) hf))"
  by (auto simp: dstable_def callEmit_def Let_def split: if_splits)

lemma at_dbuf [simp]: "at (d\<lparr>dbuf := p\<rparr>) i = at d i"
  by (simp add: at_def maxTableIndex_def)

lemma string_dbuf [simp]: "readString (d\<lparr>dbuf := p\<rparr>) q = readString d q" "decodeString (d\<lparr>dbuf := p\<rparr>) u = decodeString d u"
proof -
  show "readString (d\<lparr>dbuf := p\<rparr>) q = readString d q" by (cases q) (auto simp: readString_def Let_def cong: if_cong)
  show "decodeString (d\<lparr>dbuf := p\<rparr>) u = decodeString d u" by (simp add: decodeString_def)
qed

lemma literal_name_dbuf [simp]: "literal_name (d\<lparr>dbuf := p\<rparr>) i q = literal_name d i q"
  by (simp add: literal_name_def)

lemma parseFieldIndexed_stable:
  "dstable b (parseFieldIndexed (d\<lparr>dbuf := p\<rparr>)) (parseFieldIndexed (d\<lparr>dbuf := p @ b\<rparr>))"
proof -
  have "dstable b (go_bind (at d i) (\<lambda>r. case r of
          None \<Rightarrow> Inr (d\<lparr>dbuf := p\<rparr>, Some (InvalidIndexError (sint i)))
        | Some hf \<Rightarrow> Inr (callEmit (d\<lparr>dbuf := q\<rparr>) \<lparr>Name = Name hf, Value = Value hf, Sensitive = False\<rparr>)))
      (go_bind (at d i) (\<lambda>r. case r of
          None \<Rightarrow> Inr (d\<lparr>dbuf := p @ b\<rparr>, Some (InvalidIndexError (sint i)))
        | Some hf \<Rightarrow> Inr (callEmit (d\<lparr>dbuf := q @ b\<rparr>) \<lparr>Name = Name hf, Value = Value hf, Sensitive = False\<rparr>)))" for i q
  proof (cases "at d i")
    case (Inl e)
    then show ?thesis by (simp add: dstable_def)
  next
    case (Inr r)
    then show ?thesis by (cases r) (simp_all add: stable_const callEmit_stable)
  qed
  then show ?thesis
    unfolding parseFieldIndexed_def using readVarInt_extend [of b 7 p] by (auto intro!: dbind_stable)
qed

text \<open>What follows the name of a literal.\<close>

definition literal_rest :: "Decoder \<Rightarrow> indexType \<Rightarrow> u64 \<Rightarrow> string \<Rightarrow> unencodedString \<Rightarrow> u8 list \<Rightarrow> dres" where
  "literal_rest d it nameIdx name undecodedName buf =
     (let wantStr = (emitEnabled d \<or> indexed it)
      in dbind d (readString d buf) (\<lambda>(undecodedValue, buf).
           dbind d (if wantStr \<and> nameIdx \<le> 0 then decodeString d undecodedName else Inr (Inr name)) (\<lambda>name.
             dbind d (if wantStr then decodeString d undecodedValue else Inr (Inr '''')) (\<lambda>val.
               let d = d\<lparr>dbuf := buf\<rparr>;
                   hf = \<lparr>Name = name, Value = val, Sensitive = False\<rparr>;
                   d = (if indexed it then d\<lparr>ddynTab := dynamicTable_add (ddynTab d) hf\<rparr> else d)
               in Inr (callEmit d (hf\<lparr>Sensitive := sensitive it\<rparr>))))))"

lemma parseFieldLiteral_eq:
  "parseFieldLiteral d n it = dbind d (readVarInt n (dbuf d)) (\<lambda>(i, buf).
     dbind d (literal_name d i buf) (\<lambda>(nm, u, buf). literal_rest d it i nm u buf))"
  by (simp add: parseFieldLiteral_def literal_rest_def Let_def)

lemma literal_rest_stable:
  "dstable b (literal_rest (d\<lparr>dbuf := p\<rparr>) it i nm u q) (literal_rest (d\<lparr>dbuf := p @ b\<rparr>) it i nm u (q @ b))"
proof -
  have swap: "d\<lparr>dbuf := r, ddynTab := t\<rparr> = d\<lparr>ddynTab := t, dbuf := r\<rparr>" for r t by (cases d) simp
  have emit: "dstable b
      (Inr (callEmit (if indexed it then d\<lparr>dbuf := r, ddynTab := t\<rparr> else d\<lparr>dbuf := r\<rparr>) hf))
      (Inr (callEmit (if indexed it then d\<lparr>dbuf := r @ b, ddynTab := t\<rparr> else d\<lparr>dbuf := r @ b\<rparr>) hf))" for r t hf
    using callEmit_stable [where d = "d\<lparr>ddynTab := t\<rparr>" and p = r and b = b and hf = hf]
      callEmit_stable [where d = d and p = r and b = b and hf = hf] by (simp add: swap)
  show ?thesis
    unfolding literal_rest_def Let_def using emit
    by (auto intro!: dbind_stable [OF readString_extend] dbind_stable_pure)
qed

lemma literal_name_stable:
  assumes "\<And>nm u r. dstable b (f (nm, u, r)) (f' (nm, u, r @ b))"
  shows "dstable b (dbind (d\<lparr>dbuf := p\<rparr>) (literal_name d i q) f) (dbind (d\<lparr>dbuf := p @ b\<rparr>) (literal_name d i (q @ b)) f')"
proof (cases "literal_name d i q")
  case (Inl e)
  obtain r where r: "readString d q = Inr r" using readString_total by blast
  then have i: "i > 0" using Inl by (cases r) (auto simp: literal_name_def split: if_splits)
  then have "literal_name d i (q @ b) = Inl e"
    using Inl by (cases "at d i") (auto simp: literal_name_def split: option.splits)
  with Inl show ?thesis by (simp add: dstable_def)
next
  case (Inr r)
  show ?thesis
  proof (cases r)
    case (Inl e)
    then show ?thesis using literal_name_extend_err [of d i q e b] Inr by (auto simp: dstable_def)
  next
    case (Inr z)
    obtain nm u q' where "z = (nm, u, q')" by (cases z)
    then have "literal_name d i q = Inr (Inr (nm, u, q'))" using \<open>literal_name d i q = Inr r\<close> Inr by simp
    with literal_name_extend [OF this] assms show ?thesis by simp
  qed
qed

lemma parseFieldLiteral_stable:
  "dstable b (parseFieldLiteral (d\<lparr>dbuf := p\<rparr>) n it) (parseFieldLiteral (d\<lparr>dbuf := p @ b\<rparr>) n it)"
  unfolding parseFieldLiteral_eq using literal_rest_stable
  by (auto intro!: dbind_stable [OF readVarInt_extend] literal_name_stable)

lemma parseDynamicTableSizeUpdate_stable:
  "dstable b (parseDynamicTableSizeUpdate (d\<lparr>dbuf := p\<rparr>)) (parseDynamicTableSizeUpdate (d\<lparr>dbuf := p @ b\<rparr>))"
proof -
  have "dstable b
      (go_bind (setMaxSize (ddynTab d) v) (\<lambda>dt. Inr (d\<lparr>ddynTab := dt, dbuf := q\<rparr>, None)))
      (go_bind (setMaxSize (ddynTab d) v) (\<lambda>dt. Inr (d\<lparr>ddynTab := dt, dbuf := q @ b\<rparr>, None)))" for v q
    by (cases "setMaxSize (ddynTab d) v") (simp_all add: dstable_def)
  then show ?thesis
    unfolding parseDynamicTableSizeUpdate_def using stable_const
    by (auto intro!: dbind_stable [OF readVarInt_extend])
qed

text \<open>
  A representation that parses on some input has been cut, or parses on the beginning of the input already.
\<close>

lemma parse_stable:
  assumes "p = c # q" and "\<not> (c AND 128 = 0 \<and> c AND 192 = 64)"
  shows "dstable b (parseHeaderFieldRepr (d\<lparr>dbuf := p\<rparr>)) (parseHeaderFieldRepr (d\<lparr>dbuf := p @ b\<rparr>))"
  using parseFieldIndexed_stable [where b = b and d = d and p = p] parseFieldLiteral_stable [where b = b and d = d and p = p]
    stable_const [where b = b and d = d and p = p] parseDynamicTableSizeUpdate_stable [where b = b and d = d and p = p]
    assms
  unfolding parseHeaderFieldRepr_def by (simp add: Let_def)

lemma parse_not_incremental:
  assumes "parseHeaderFieldRepr d = Inr (d', None)" and "dbuf d = c # q"
  shows "\<not> (c AND 128 = 0 \<and> c AND 192 = 64)"
  using assms by (auto simp: parseHeaderFieldRepr_def Let_def go_bind_eq_Inr)

lemma parse_extend:
  assumes "p \<noteq> []" and "parseHeaderFieldRepr (d\<lparr>dbuf := p\<rparr>) = Inr (d', None)"
  shows "parseHeaderFieldRepr (d\<lparr>dbuf := p @ b\<rparr>) = Inr (d'\<lparr>dbuf := dbuf d' @ b\<rparr>, None)"
proof -
  obtain c q where p: "p = c # q" using assms(1) by (cases p) simp_all
  then have "\<not> (c AND 128 = 0 \<and> c AND 192 = 64)" using parse_not_incremental [OF assms(2)] by simp
  from parse_stable [OF p this, of b d] assms(2) show ?thesis by (simp add: dstable_def)
qed

lemma parse_prefix:
  assumes "p \<noteq> []" and "parseHeaderFieldRepr (d\<lparr>dbuf := p @ b\<rparr>) = Inr (d', None)"
  obtains (cut) d1 where "parseHeaderFieldRepr (d\<lparr>dbuf := p\<rparr>) = Inr (d1, Some errNeedMore)"
  | (whole) d1 where "parseHeaderFieldRepr (d\<lparr>dbuf := p\<rparr>) = Inr (d1, None)" "d' = d1\<lparr>dbuf := dbuf d1 @ b\<rparr>"
proof -
  obtain c q where p: "p = c # q" using assms(1) by (cases p) simp_all
  then have "\<not> (c AND 128 = 0 \<and> c AND 192 = 64)" using parse_not_incremental [OF assms(2)] by simp
  from parse_stable [OF p this, of b d] assms(2) that show thesis
    by (cases "parseHeaderFieldRepr (d\<lparr>dbuf := p\<rparr>)") (auto simp: dstable_def)
qed

section \<open>Writing in pieces\<close>

lemma callEmit_need_more: "callEmit d hf \<noteq> (d', Some errNeedMore)"
  by (auto simp: callEmit_def Let_def)

lemma callEmit_saveBuf: "callEmit d hf = (d', err) \<Longrightarrow> saveBuf d' = saveBuf d"
  by (auto simp: callEmit_def Let_def split: if_splits)

lemma parse_need_more:
  assumes "parseHeaderFieldRepr d = Inr (d', Some errNeedMore)"
  shows "d' = d"
  using assms unfolding parseHeaderFieldRepr_def parseFieldIndexed_def parseFieldLiteral_def
    parseDynamicTableSizeUpdate_def Let_def
  by (auto elim!: dbind_result simp: go_bind_eq_Inr callEmit_need_more split: if_splits list.splits option.splits)

lemma parse_saveBuf:
  assumes "parseHeaderFieldRepr d = Inr (d', err)"
  shows "saveBuf d' = saveBuf d"
  using assms unfolding parseHeaderFieldRepr_def parseFieldIndexed_def parseFieldLiteral_def
    parseDynamicTableSizeUpdate_def Let_def
  by (auto elim!: dbind_result simp: go_bind_eq_Inr dest!: callEmit_saveBuf split: if_splits list.splits option.splits)

lemma write_loop_Nil: "dbuf d = [] \<Longrightarrow> write_loop d n = Inr (d, n, None)"
  by (simp add: write_loop.simps)

lemma write_loop_parsed:
  "dbuf d \<noteq> [] \<Longrightarrow> parseHeaderFieldRepr d = Inr (d', None) \<Longrightarrow> write_loop d n = write_loop (d'\<lparr>firstField := False\<rparr>) n"
  by (simp add: write_loop.simps [of d] Let_def)

text \<open>Whenever a piece is written without an error, writing the next one continues where the loop would be.\<close>

lemma write_loop_resume:
  assumes "write_loop d m = Inr (d1, k, None)" and "saveBuf d = []" and "b \<noteq> []"
    and "\<forall>n. write_loop (d\<lparr>dbuf := dbuf d @ b\<rparr>) n = Inr (d2, n, None)"
  shows "decoder_Write d1 b = Inr (d2, length b, None)"
  using assms
proof (induction d m rule: write_loop.induct)
  case (1 d m)
  show ?case
  proof (cases "dbuf d = []")
    case True
    then have "d1 = d" using "1.prems"(1) by (simp add: write_loop_Nil)
    then show ?thesis using "1.prems"(2-4) True by (simp add: decoder_Write_def)
  next
    case False
    obtain d' err where p: "parseHeaderFieldRepr d = Inr (d', err)"
      using "1.prems"(1) False by (cases "parseHeaderFieldRepr d") (auto simp: write_loop.simps [of d])
    consider "err = Some errNeedMore" | "err = None" | e where "err = Some e" "e \<noteq> errNeedMore" by (cases err) auto
    then show ?thesis
    proof cases
      case 1
      then have "d' = d" using parse_need_more p by simp
      then have "d1 = d\<lparr>saveBuf := dbuf d\<rparr>"
        using "1.prems"(1,2) False p 1 by (auto simp: write_loop.simps [of d] Let_def split: if_splits)
      moreover have "d\<lparr>dbuf := dbuf d @ b, saveBuf := []\<rparr> = d\<lparr>dbuf := dbuf d @ b\<rparr>" using "1.prems"(2) by (cases d) simp
      ultimately show ?thesis using False "1.prems"(3,4) by (simp add: decoder_Write_def)
    next
      case 2
      let ?d = "d'\<lparr>firstField := False\<rparr>"
      have ext: "parseHeaderFieldRepr (d\<lparr>dbuf := dbuf d @ b\<rparr>) = Inr (d'\<lparr>dbuf := dbuf d' @ b\<rparr>, None)"
        using parse_extend [of "dbuf d" d d' b] p 2 False by simp
      have "write_loop (?d\<lparr>dbuf := dbuf ?d @ b\<rparr>) n = Inr (d2, n, None)" for n
      proof -
        have swap: "?d\<lparr>dbuf := dbuf ?d @ b\<rparr> = d'\<lparr>dbuf := dbuf d' @ b, firstField := False\<rparr>" by (cases d') simp
        show ?thesis unfolding swap using "1.prems"(4) write_loop_parsed [OF _ ext] False by simp
      qed
      moreover have "write_loop ?d m = Inr (d1, k, None)" "saveBuf ?d = []"
        using "1.prems"(1,2) False p 2 write_loop_parsed [of d d' m] parse_saveBuf [OF p] by simp_all
      ultimately show ?thesis using "1.IH" [of "(d', err)" d' err ?d] p False 2 "1.prems"(3) by simp
    next
      case 3
      then show ?thesis using "1.prems"(1) False p by (simp add: write_loop.simps [of d] Let_def)
    qed
  qed
qed

section \<open>The length of a representation\<close>

lemma length_groups:
  assumes "unat v < 2 ^ (7 * k)" and "1 \<le> k"
  shows "length (groups v) \<le> k"
  using assms
proof (induction k arbitrary: v)
  case (Suc k)
  show ?case
  proof (cases "128 \<le> v")
    case True
    then have "128 \<le> unat v" by (simp add: word_le_nat_alt)
    have k: "1 \<le> k"
    proof (rule ccontr)
      assume "\<not> 1 \<le> k"
      then have "k = 0" by simp
      with Suc.prems(1) \<open>128 \<le> unat v\<close> show False by simp
    qed
    have "unat (shr v 7) < 2 ^ (7 * k)"
      using Suc.prems(1) by (simp add: unat_shr7 div_less_iff_less_mult power_add)
    then have "length (groups (shr v 7)) \<le> k" using Suc.IH k by blast
    then show ?thesis by (simp add: groups_big [OF True])
  next
    case False
    then show ?thesis by (simp add: groups_small not_le)
  qed
qed simp

lemma length_varint:
  assumes "unat i < 2 ^ (7 * k)" and "1 \<le> k"
  shows "length (varint t n i) \<le> Suc k"
proof -
  have "unat (i - prefix_max n) < 2 ^ (7 * k)" if "\<not> i < prefix_max n"
    using that assms(1) by (simp add: unat_sub not_less word_le_nat_alt)
  then have "length (appendVarInt [] n i) \<le> Suc k"
    using length_groups assms(2) by (cases "i < prefix_max n") (auto simp: appendVarInt_small appendVarInt_big)
  then show ?thesis by (cases "appendVarInt [] n i") (simp_all add: varint_def)
qed

lemma length_hpack_string:
  assumes "length s < 2 ^ 35"
  shows "length (hpack_string s) \<le> 6 + length s"
proof -
  have us: "unat (of_nat (length s) :: u64) = length s" using assms by (intro unat_of_nat64) simp
  have bits: "length (string_bits s) + 7 < 2 ^ 64" using length_string_bits_le [of s] assms by simp
  have ul: "unat (HuffmanEncodeLength s) = length (AppendHuffmanString [] s)"
    using HuffmanEncodeLength_bits [OF bits] by (simp add: length_AppendHuffmanString)
  show ?thesis
  proof (cases "HuffmanEncodeLength s < of_nat (length s)")
    case True
    then have "length (AppendHuffmanString [] s) < length s" using us ul by (simp add: word_less_nat_alt)
    moreover have "length (varint 0x80 7 (HuffmanEncodeLength s)) \<le> Suc 5"
      using calculation ul assms by (intro length_varint) simp_all
    ultimately show ?thesis using True by (simp add: hpack_string_def)
  next
    case False
    have "length (varint 0 7 (of_nat (length s))) \<le> Suc 5" using us assms by (intro length_varint) simp_all
    then show ?thesis using False by (simp add: hpack_string_def)
  qed
qed

text \<open>What is left of a piece stays within the limit on saved input.\<close>

definition saves :: "Decoder \<Rightarrow> nat \<Rightarrow> bool" where
  "saves d n \<longleftrightarrow> maxStrLen d = 0 \<or> int n \<le> 2 * (maxStrLen d + 8)"

lemma field_bytes_bound:
  assumes "accepts d f" and "maxStrLen d < 2 ^ 35"
  shows "saves d (length (field_bytes e f i m))"
proof (cases "maxStrLen d = 0")
  case False
  have "unat i < 2 ^ (7 * 10)" using unsigned_less [of i, where 'a = nat] by simp
  then have vi: "length (varint t n i) \<le> 11" for t n using length_varint [of i 10 t n] by simp
  have pos: "1 \<le> maxStrLen d" and sl: "int (length (Name f)) \<le> maxStrLen d" "int (length (Value f)) \<le> maxStrLen d"
    using assms(1) False by (auto simp: accepts_def string_ok_def)
  then have "length (hpack_string (Name f)) \<le> 6 + length (Name f)" "length (hpack_string (Value f)) \<le> 6 + length (Value f)"
    using assms(2) by (intro length_hpack_string; simp)+
  moreover have "length (varint t (if b then 6 else 4) 0) = 1" for t b by (simp add: varint_zero)
  ultimately show ?thesis
    using vi [of 128 7] vi [of "encodeTypeByte (shouldIndex e f) (Sensitive f)" "if shouldIndex e f then 6 else 4"] pos sl
    by (auto simp: saves_def field_bytes_def Let_def)
qed (simp add: saves_def)

section \<open>Fields in pieces\<close>

lemma write_unindexed_bound:
  assumes "in_sync e d" and "\<not> tableSizeUpdate e" and "unindexed e f" and "accepts d f"
    and "\<not> emitStop d (emitted d @ [f])" and "maxStrLen d < 2 ^ 35"
  obtains b where "WriteField accept_all e f = Inr (e\<lparr>ebuf := b\<rparr>, None)" "b \<noteq> []" "saves d (length b)"
    "\<And>rest. parseHeaderFieldRepr (d\<lparr>dbuf := b @ rest\<rparr>)
      = Inr (d\<lparr>dbuf := rest, emitted := emitted d @ [f]\<rparr>, None)"
proof -
  obtain b where b: "WriteField accept_all e f = Inr (e\<lparr>ebuf := b\<rparr>, None)" "b \<noteq> []"
    "\<And>rest. parseHeaderFieldRepr (d\<lparr>dbuf := b @ rest\<rparr>) = Inr (d\<lparr>dbuf := rest, emitted := emitted d @ [f]\<rparr>, None)"
    by (rule write_unindexed [OF assms(1-5)]) blast
  obtain i m where s: "searchTable e f = Inr (i, m)" by (rule searchTable_found [OF assms(1)])
  have "\<exists>e' err. Inr (e', err) = WriteField accept_all e f \<and> ebuf e' = field_bytes e f i m"
    by (simp add: WriteField_eq [OF assms(2) s] accept_all_def)
  then have "b = field_bytes e f i m" using b(1) by auto
  with field_bytes_bound [OF assms(4,6)] b that show thesis by simp
qed

text \<open>Every beginning of an encoded block can be written.\<close>

lemma fields_prefix:
  assumes "in_sync e d" and "\<not> tableSizeUpdate e" and "\<forall>f \<in> set fs. unindexed e f \<and> accepts d f"
    and "keeps_emitting d fs" and "maxStrLen d < 2 ^ 35" and "saveBuf d = []"
    and "encode_fields e fs = Inr (e', p @ q)"
  shows "\<exists>d1. \<forall>n. write_loop (d\<lparr>dbuf := p\<rparr>) n = Inr (d1, n, None)"
  using assms
proof (induction fs arbitrary: e d p)
  case Nil
  then show ?case by (simp add: write_loop_Nil)
next
  case (Cons f fs)
  show ?case
  proof (cases "p = []")
    case True
    then show ?thesis by (simp add: write_loop_Nil)
  next
    case False
    obtain b where b: "WriteField accept_all e f = Inr (e\<lparr>ebuf := b\<rparr>, None)" "b \<noteq> []" "saves d (length b)"
      "\<And>rest. parseHeaderFieldRepr (d\<lparr>dbuf := b @ rest\<rparr>) = Inr (d\<lparr>dbuf := rest, emitted := emitted d @ [f]\<rparr>, None)"
      using Cons.prems(1-5) by (auto simp: keeps_emitting_Cons elim: write_unindexed_bound [of e d f])
    obtain bs where bs: "encode_fields (e\<lparr>ebuf := b\<rparr>) fs = Inr (e', bs)" "p @ q = b @ bs"
      using Cons.prems(7) b(1) by (auto simp: go_bind_eq_Inr)
    show ?thesis
    proof (cases "length b \<le> length p")
      case True
      then obtain p' where p': "p = b @ p'" "bs = p' @ q" using bs(2) by (auto simp: append_eq_append_conv2)
      let ?d = "d\<lparr>emitted := emitted d @ [f], firstField := False\<rparr>"
      have "\<exists>d1. \<forall>n. write_loop (?d\<lparr>dbuf := p'\<rparr>) n = Inr (d1, n, None)"
      proof (rule Cons.IH)
        show "in_sync (e\<lparr>ebuf := b\<rparr>) ?d" using Cons.prems(1) by (simp add: in_sync_def)
        show "\<forall>g \<in> set fs. unindexed (e\<lparr>ebuf := b\<rparr>) g \<and> accepts ?d g"
          using Cons.prems(3) by (simp add: accepts_def string_ok_def)
        show "keeps_emitting ?d fs" using Cons.prems(4) by (simp add: keeps_emitting_Cons) (simp add: keeps_emitting_def)
        show "encode_fields (e\<lparr>ebuf := b\<rparr>) fs = Inr (e', p' @ q)" using bs(1) p'(2) by simp
      qed (use Cons.prems(2,5,6) in auto)
      moreover have "?d\<lparr>dbuf := p'\<rparr> = d\<lparr>dbuf := p', emitted := emitted d @ [f]\<rparr>\<lparr>firstField := False\<rparr>" by (cases d) simp
      ultimately show ?thesis using write_loop_step [OF b(4) [of p'] b(2)] p'(1) by simp
    next
      case False
      then obtain r where r: "b = p @ r" "r \<noteq> []" using bs(2) by (auto simp: append_eq_append_conv2)
      have "parseHeaderFieldRepr (d\<lparr>dbuf := p @ r\<rparr>) = Inr (d\<lparr>dbuf := [], emitted := emitted d @ [f]\<rparr>, None)"
        using b(4) [of "[]"] r(1) by simp
      then consider (cut) d1 where "parseHeaderFieldRepr (d\<lparr>dbuf := p\<rparr>) = Inr (d1, Some errNeedMore)"
        | (whole) d1 where "d\<lparr>dbuf := [], emitted := emitted d @ [f]\<rparr> = d1\<lparr>dbuf := dbuf d1 @ r\<rparr>"
        by (rule parse_prefix [OF \<open>p \<noteq> []\<close>]) blast+
      then show ?thesis
      proof cases
        case (cut d1)
        then have "d1 = d\<lparr>dbuf := p\<rparr>" by (rule parse_need_more)
        moreover have "saves d (length p)" using b(3) r(1) by (auto simp: saves_def)
        ultimately show ?thesis using cut \<open>p \<noteq> []\<close>
          by (auto simp: write_loop.simps [of "d\<lparr>dbuf := p\<rparr>"] saves_def Let_def)
      next
        case (whole d1)
        from arg_cong [OF whole, of dbuf] r(2) show ?thesis by simp
      qed
    qed
  qed
qed

text \<open>Writing the next piece, after the pieces before it, which together are \<open>a\<close>.\<close>

lemma next_piece:
  assumes "in_sync e d" and "\<not> tableSizeUpdate e" and "\<forall>f \<in> set fs. unindexed e f \<and> accepts d f"
    and "keeps_emitting d fs" and "maxStrLen d < 2 ^ 35" and "saveBuf d = []"
    and "encode_fields e fs = Inr (e', a @ b @ q)" and "b \<noteq> []"
    and "\<And>n. write_loop (d\<lparr>dbuf := a\<rparr>) n = Inr (d1, n, None)"
  obtains d2 where "decoder_Write d1 b = Inr (d2, length b, None)"
    "\<And>n. write_loop (d\<lparr>dbuf := a @ b\<rparr>) n = Inr (d2, n, None)"
proof -
  have "encode_fields e fs = Inr (e', (a @ b) @ q)" using assms(7) by simp
  from fields_prefix [OF assms(1-6) this] obtain d2 where
    d2: "\<And>n. write_loop (d\<lparr>dbuf := a @ b\<rparr>) n = Inr (d2, n, None)" by blast
  have "decoder_Write d1 b = Inr (d2, length b, None)"
    using write_loop_resume [of "d\<lparr>dbuf := a\<rparr>" 0 d1 0 b d2] assms(6,8,9) d2 by simp
  with d2 that show thesis by blast
qed

text \<open>A sequence of calls of \<open>Write\<close>, up to the first error.\<close>

fun decoder_Writes :: "Decoder \<Rightarrow> u8 list list \<Rightarrow> (Decoder \<times> hpackError option) res" where
  "decoder_Writes d [] = Inr (d, None)"
| "decoder_Writes d (p # ps) =
     go_bind (decoder_Write d p) (\<lambda>(d, n, err).
       case err of Some e \<Rightarrow> Inr (d, Some e) | None \<Rightarrow> decoder_Writes d ps)"

lemma decoder_Writes_nonempty: "decoder_Writes d ps = decoder_Writes d (filter (\<lambda>p. p \<noteq> []) ps)"
  by (induction ps arbitrary: d) (auto simp: decoder_Write_def cong: option.case_cong)

lemma decoder_Writes_rest:
  assumes "in_sync e d" and "\<not> tableSizeUpdate e" and "\<forall>f \<in> set fs. unindexed e f \<and> accepts d f"
    and "keeps_emitting d fs" and "maxStrLen d < 2 ^ 35" and "saveBuf d = []"
    and "encode_fields e fs = Inr (e', a @ concat ps)" and "\<forall>p \<in> set ps. p \<noteq> []"
    and "\<And>n. write_loop (d\<lparr>dbuf := a\<rparr>) n = Inr (d1, n, None)"
  shows "\<exists>d2. decoder_Writes d1 ps = Inr (d2, None) \<and> (\<forall>n. write_loop (d\<lparr>dbuf := a @ concat ps\<rparr>) n = Inr (d2, n, None))"
  using assms(7-)
proof (induction ps arbitrary: a d1)
  case (Cons p ps)
  then have "encode_fields e fs = Inr (e', a @ p @ concat ps)" "p \<noteq> []" by simp_all
  then obtain d2 where d2: "decoder_Write d1 p = Inr (d2, length p, None)"
    "\<And>n. write_loop (d\<lparr>dbuf := a @ p\<rparr>) n = Inr (d2, n, None)"
    by (rule next_piece [OF assms(1-6) _ _ Cons.prems(3)]) blast
  have "\<exists>d3. decoder_Writes d2 ps = Inr (d3, None)
      \<and> (\<forall>n. write_loop (d\<lparr>dbuf := (a @ p) @ concat ps\<rparr>) n = Inr (d3, n, None))"
    using Cons.prems(1,2) d2(2) by (intro Cons.IH) simp_all
  with d2(1) show ?case by simp
qed simp

text \<open>An indexed field and one that is never indexed.\<close>

definition secret_fields :: "HeaderField list" where
  "secret_fields = [\<lparr>Name = '':method'', Value = ''GET'', Sensitive = False\<rparr>,
     \<lparr>Name = ''authorization'', Value = ''secret'', Sensitive = True\<rparr>]"

lemma secret_fields_ok: "\<forall>f \<in> set secret_fields. unindexed example_encoder f \<and> accepts example_decoder f"
proof -
  have "searchTable example_encoder \<lparr>Name = '':method'', Value = ''GET'', Sensitive = False\<rparr> = Inr (2, True)"
    by code_simp
  then show ?thesis
    by (simp add: secret_fields_def unindexed_def shouldIndex_def accepts_def string_ok_def example_decoder_def)
qed

text \<open>All pieces of a block.\<close>

lemma write_pieces:
  assumes "in_sync e d" and "\<not> tableSizeUpdate e" and "\<forall>f \<in> set fs. unindexed e f \<and> accepts d f"
    and "keeps_emitting d fs" and "maxStrLen d < 2 ^ 35" and "saveBuf d = []" and "dbuf d = []"
    and "encode_fields e fs = Inr (e', concat ps)"
  shows "decoder_Writes d ps
    = Inr (d\<lparr>emitted := emitted d @ fs, firstField := (fs = [] \<and> firstField d)\<rparr>, None)"
proof -
  have cat: "concat (filter (\<lambda>p. p \<noteq> []) ps) = concat ps" by (induction ps) auto
  have start: "write_loop (d\<lparr>dbuf := []\<rparr>) n = Inr (d, n, None)" for n
    using assms(7) by (simp add: write_loop_Nil)
  have enc: "encode_fields e fs = Inr (e', [] @ concat (filter (\<lambda>p. p \<noteq> []) ps))" using assms(8) cat by simp
  obtain d2 where d2: "decoder_Writes d (filter (\<lambda>p. p \<noteq> []) ps) = Inr (d2, None)"
    "\<And>n. write_loop (d\<lparr>dbuf := concat ps\<rparr>) n = Inr (d2, n, None)"
    using decoder_Writes_rest [OF assms(1-6) enc _ start] by (auto simp: cat)
  obtain b bs where "encode_fields e fs = Inr (e\<lparr>ebuf := b\<rparr>, bs)" "\<And>n. write_loop (d\<lparr>dbuf := bs\<rparr>) n =
      Inr (d\<lparr>dbuf := [], emitted := emitted d @ fs, firstField := (fs = [] \<and> firstField d)\<rparr>, n, None)"
    using fields_roundtrip [OF assms(1-4)] by blast
  with assms(8) d2(2) have "d2 = d\<lparr>dbuf := [], emitted := emitted d @ fs, firstField := (fs = [] \<and> firstField d)\<rparr>"
    by (metis Inr_inject prod.inject)
  also have "\<dots> = d\<lparr>emitted := emitted d @ fs, firstField := (fs = [] \<and> firstField d)\<rparr>" using assms(7) by (cases d) simp
  finally show ?thesis using decoder_Writes_nonempty [of d ps] d2(1) by simp
qed

section \<open>Properties\<close>

text \<open>
  A header block may be cut anywhere: when an encoded block is written to the decoder in any number of
  pieces, cut at any place, also inside a field or an integer, and with empty pieces, the decoder passes
  exactly the fields to its callback and has nothing left over, as if it had been given the block at once.
\<close>
lemma block_in_pieces:
  assumes "in_sync e d" and "\<not> tableSizeUpdate e" and "\<forall>f \<in> set fs. unindexed e f \<and> accepts d f"
    and "keeps_emitting d fs" and "maxStrLen d < 2 ^ 35" and "saveBuf d = []" and "dbuf d = []"
    and "encode_fields e fs = Inr (e', concat ps)"
  shows "decoder_Writes d ps
    = Inr (d\<lparr>emitted := emitted d @ fs, firstField := (fs = [] \<and> firstField d)\<rparr>, None)"
  using assms by (rule write_pieces)

end
