(* ===== verification/Http2Safety.thy ===== *)
theory Http2Safety
  imports Http2Codec HpackChunks
begin

text \<open>
  Reading from an arbitrary peer: every parser returns on every payload, \<open>ReadFrame\<close> returns for every
  content of the reader without a panic (the type assertion on the frame after a HEADERS frame included), and
  the invariant \<open>framer_ok\<close> is kept, so that the caller can go on. \<open>pot\<close> bounds the number of entry ids
  that the decoder can still use up, and each fragment adds at most its length to it.
\<close>

unbundle bit_operations_syntax

section \<open>The decoder between calls of Write\<close>

definition pot :: "Decoder \<Rightarrow> nat" where
  "pot d = unat (evictCount (dtable (ddynTab d))) + length (ents (dtable (ddynTab d))) + length (saveBuf d)"

lemma write_loop_pot:
  "load d < 2 ^ 62 \<Longrightarrow> saveBuf d = [] \<Longrightarrow>
    \<exists>d' k err. write_loop d n = Inr (d', k, err) \<and> (err = None \<longrightarrow> pot d' \<le> load d)"
proof (induction d n rule: write_loop.induct)
  case (1 d n)
  show ?case
  proof (cases "dbuf d = []")
    case True
    then show ?thesis using "1.prems" by (simp add: write_loop.simps pot_def load_def)
  next
    case False
    from parseHeaderFieldRepr_safe [OF "1.prems"(1) False] obtain d' err where
      p: "parseHeaderFieldRepr d = Inr (d', err)" "err = None \<longrightarrow> load d' \<le> load d"
      by (auto simp: parse_safe_def)
    have s: "saveBuf d' = []" using parse_saveBuf [OF p(1)] "1.prems"(2) by simp
    show ?thesis
    proof (cases err)
      case None
      have l: "load (d'\<lparr>firstField := False\<rparr>) \<le> load d" using p(2) None by (simp add: load_def)
      then have "\<exists>d'' k err. write_loop (d'\<lparr>firstField := False\<rparr>) n = Inr (d'', k, err)
          \<and> (err = None \<longrightarrow> pot d'' \<le> load (d'\<lparr>firstField := False\<rparr>))"
        using "1.IH" [of "(d', err)" d' err] p(1) False None s "1.prems"(1) by simp
      with l show ?thesis using p(1) False None by (fastforce simp: write_loop.simps [of d] Let_def)
    next
      case (Some e)
      then show ?thesis using p(1) False parse_need_more [of d d'] "1.prems"(2)
        by (auto simp: write_loop.simps [of d] Let_def pot_def load_def)
    qed
  qed
qed

lemma decoder_Write_pot:
  assumes "pot d + length p < 2 ^ 62"
  obtains d' k err where "decoder_Write d p = Inr (d', k, err)" "err = None \<longrightarrow> pot d' \<le> pot d + length p"
proof (cases "p = []")
  case True
  with that show thesis by (simp add: decoder_Write_def)
next
  case False
  let ?d = "if length (saveBuf d) = 0 then d\<lparr>dbuf := p\<rparr> else d\<lparr>dbuf := saveBuf d @ p, saveBuf := []\<rparr>"
  have "load ?d = pot d + length p" "saveBuf ?d = []" by (simp_all add: load_def pot_def)
  with write_loop_pot [of ?d "length p"] assms that False show thesis
    by (auto simp: decoder_Write_def Let_def)
qed

section \<open>Parsers\<close>

lemma Setting_at_total: "i < NumSettings p \<Longrightarrow> \<exists>s. Setting_at p i = Inr s"
proof -
  assume "i < NumSettings p"
  then have "i * 6 + 6 \<le> length p" by (simp add: NumSettings_def)
  then obtain a b where "subslice p (i * 6) (i * 6 + 2) = Inr a" "length a = 2"
    "subslice p (i * 6 + 2) (i * 6 + 6) = Inr b" "length b = 4" by (simp add: subslice_def)
  then show ?thesis using Uint_Inr(1) [of b] Uint_Inr(2) [of a] by (auto simp: Setting_at_def)
qed

lemma value_loop_total: "\<forall>i \<in> set is. i < NumSettings p \<Longrightarrow> \<exists>r. value_loop p k is = Inr r"
proof (induction "is")
  case (Cons i "is")
  then show ?case using Setting_at_total [of i p] by auto
qed simp

lemma Value_of_total: "fh_valid h \<Longrightarrow> \<exists>r. Value_of h p k = Inr r"
  using value_loop_total [of "[0..<NumSettings p]" p k] by (simp add: Value_of_def checkValid_def)

lemma readUint32_total: "\<exists>r. readUint32 p = Inr r"
  using Uint_Inr(1) [of "take 4 p"] by (auto simp: readUint32_def)

lemma readPad_total:
  assumes "\<And>q n. \<exists>r. k q n = Inr r"
  shows "\<exists>r. readPad b p tok k = Inr r"
  using assms by (auto simp: readPad_def split: sum.splits)

lemma readPriority_total:
  assumes "\<And>q n. \<exists>r. k q n = Inr r"
  shows "\<exists>r. readPriority b p k = Inr r"
  using assms readUint32_total [of p] by (auto simp: readPriority_def Let_def split: sum.splits)

lemma typeFrameParser_total:
  assumes "fh_valid h"
  shows "\<exists>r. typeFrameParser t h p = Inr r"
proof -
  obtain v where v: "Value_of h p SettingInitialWindowSize = Inr v" using Value_of_total [OF assms] by blast
  have take4: "\<exists>v. Uint32 (take 4 p) = Inr v" if "4 \<le> length p" using Uint_Inr(1) [of "take 4 p"] that by simp
  have take8: "\<exists>v. Uint32 (take 8 p) = Inr v" if "8 \<le> length p" using Uint_Inr(1) [of "take 8 p"] that by simp
  have u: "\<exists>r. readUint32 q = Inr r" for q by (rule readUint32_total)
  have push: "\<exists>r. parsePushPromise h p = Inr r"
  proof -
    have "\<exists>r. go_bind (readUint32 q) (\<lambda>r. case r of
          Inl e \<Rightarrow> parse_error [''frame_pushpromise_promiseid_short''] (IoError e)
        | Inr (p, v) \<Rightarrow>
            if unat n > length p
            then parse_error [''frame_pushpromise_pad_too_big''] (ConnectionError ErrCodeProtocol)
            else parse_ok (PushPromiseFrame h (v AND 0x7fffffff) (take (length p - unat n) p))) = Inr r" for q n
      using u [of q] by (auto split: sum.splits)
    then show ?thesis unfolding parsePushPromise_def by (auto intro!: readPad_total simp del: split_paired_Ex)
  qed
  have "\<exists>r. parseHeadersFrame h p = Inr r"
    unfolding parseHeadersFrame_def by (auto intro!: readPad_total readPriority_total simp del: split_paired_Ex)
  moreover have "\<exists>r. parseDataFrame h p = Inr r"
    unfolding parseDataFrame_def by (auto intro!: readPad_total simp del: split_paired_Ex)
  moreover have "\<exists>r. parseSettingsFrame h p = Inr r"
    using v by (auto simp: parseSettingsFrame_def split: option.splits)
  moreover have "\<exists>r. parseGoAwayFrame h p = Inr r"
    using take4 take8 by (fastforce simp: parseGoAwayFrame_def)
  ultimately show ?thesis using push take4
    by (auto simp: typeFrameParser_def parsePriorityFrame_def parseRSTStreamFrame_def
        parsePingFrame_def parseWindowUpdateFrame_def parseContinuationFrame_def parseUnknownFrame_def Let_def)
qed


text \<open>What a parsed frame looks like: it has the header it was parsed with, and no more bytes than the payload.\<close>

definition frame_shape :: "FrameType \<Rightarrow> FrameHeader \<Rightarrow> u8 list \<Rightarrow> Frame \<Rightarrow> bool" where
  "frame_shape t h p f \<longleftrightarrow> Header f = h \<and> length (frame_bytes_of f) \<le> length p
     \<and> (\<forall>h' q m. f \<noteq> MetaHeadersFrame h' q m)
     \<and> (t = FrameHeaders \<longrightarrow> fh_StreamID h \<noteq> 0 \<and> (\<exists>q b. f = HeadersFrame h q b))
     \<and> (t = FrameContinuation \<longrightarrow> fh_StreamID h \<noteq> 0 \<and> (\<exists>b. f = ContinuationFrame h b))"

lemma readUint32_cases:
  assumes "go_bind (readUint32 p) k = Inr y"
  obtains e where "k (Inl e) = Inr y" | q v where "k (Inr (q, v)) = Inr y" "length q \<le> length p"
  using assms by (auto simp: readUint32_def go_bind_eq_Inr split: if_splits)

lemma readPad_ok:
  assumes "readPad b p tok k = Inr (toks, Inr f)"
  obtains q n where "k q n = Inr (toks, Inr f)" "length q \<le> length p"
  using assms by (auto simp: readPad_def readByte_def split: if_splits sum.splits list.splits)

lemma readPriority_ok:
  assumes "readPriority b p k = Inr (toks, Inr f)"
  obtains q pr where "k q pr = Inr (toks, Inr f)" "length q \<le> length p"
  using assms
  by (auto simp: readPriority_def readByte_def Let_def elim!: readUint32_cases
      split: if_splits sum.splits list.splits)

lemma typeFrameParser_shape:
  assumes "typeFrameParser t h p = Inr (toks, Inr f)"
  shows "frame_shape t h p f"
proof -
  have "frame_shape FrameData h p f" if "parseDataFrame h p = Inr (toks, Inr f)"
    using that by (auto simp: parseDataFrame_def frame_shape_def split: if_splits elim!: readPad_ok)
  moreover have "frame_shape FrameHeaders h p f" if "parseHeadersFrame h p = Inr (toks, Inr f)"
    using that by (auto simp: parseHeadersFrame_def frame_shape_def split: if_splits elim!: readPad_ok readPriority_ok)
  moreover have "frame_shape FramePriority h p f" if "parsePriorityFrame h p = Inr (toks, Inr f)"
    using that by (auto simp: parsePriorityFrame_def frame_shape_def go_bind_eq_Inr Let_def split: if_splits)
  moreover have "frame_shape FrameRSTStream h p f" if "parseRSTStreamFrame h p = Inr (toks, Inr f)"
    using that by (auto simp: parseRSTStreamFrame_def frame_shape_def go_bind_eq_Inr split: if_splits)
  moreover have "frame_shape FrameSettings h p f" if "parseSettingsFrame h p = Inr (toks, Inr f)"
    using that by (auto simp: parseSettingsFrame_def frame_shape_def go_bind_eq_Inr split: if_splits option.splits)
  moreover have "frame_shape FramePushPromise h p f" if "parsePushPromise h p = Inr (toks, Inr f)"
    using that by (auto simp: parsePushPromise_def frame_shape_def split: if_splits
        elim!: readPad_ok readUint32_cases)
  moreover have "frame_shape FramePing h p f" if "parsePingFrame h p = Inr (toks, Inr f)"
    using that by (auto simp: parsePingFrame_def frame_shape_def split: if_splits)
  moreover have "frame_shape FrameGoAway h p f" if "parseGoAwayFrame h p = Inr (toks, Inr f)"
    using that by (auto simp: parseGoAwayFrame_def frame_shape_def go_bind_eq_Inr split: if_splits)
  moreover have "frame_shape FrameWindowUpdate h p f" if "parseWindowUpdateFrame h p = Inr (toks, Inr f)"
    using that by (auto simp: parseWindowUpdateFrame_def frame_shape_def go_bind_eq_Inr Let_def split: if_splits)
  moreover have "frame_shape FrameContinuation h p f" if "parseContinuationFrame h p = Inr (toks, Inr f)"
    using that by (auto simp: parseContinuationFrame_def frame_shape_def split: if_splits)
  ultimately show ?thesis using assms
    by (auto simp: typeFrameParser_def parseUnknownFrame_def split: if_splits) (auto simp: frame_shape_def)
qed

section \<open>One frame\<close>

lemma checkFrameOrder_safe:
  assumes "framer_ok fr"
  obtains fr' err where "checkFrameOrder fr f = Inr (fr', err)" "framer_ok fr'" "fr_r fr' = fr_r fr"
    "ReadMetaHeaders fr' = ReadMetaHeaders fr" "AllowIllegalReads fr' = AllowIllegalReads fr"
    "MaxHeaderListSize fr' = MaxHeaderListSize fr"
    "err = None \<Longrightarrow> AllowIllegalReads fr \<or> order_step (lastHeaderStream fr) f = Some (lastHeaderStream fr')"
proof (cases "AllowIllegalReads fr")
  case True
  then show thesis using assms that [of "fr\<lparr>lastFrame := Some f\<rparr>" None]
    by (simp add: checkFrameOrder_def framer_ok_def Let_def)
next
  case False
  show thesis
  proof (cases "order_step (lastHeaderStream fr) f")
    case None
    with checkFrameOrder_bad [OF False None assms] show thesis using that assms by (auto simp: framer_ok_def)
  next
    case (Some s)
    with checkFrameOrder_ok [OF False Some] show thesis using that assms by (auto simp: framer_ok_def)
  qed
qed

text \<open>The guarantees for a frame \<open>f\<close> that was read by \<open>fr\<close>, with \<open>fr'\<close> the framer after it.\<close>

definition one_ok :: "('r \<Rightarrow> u8 list) \<Rightarrow> ('r, 'w) Framer \<Rightarrow> ('r, 'w) Framer \<Rightarrow> Frame \<Rightarrow> bool" where
  "one_ok content fr fr' f \<longleftrightarrow>
     (\<exists>p. length (content (fr_r fr')) + 9 + length p \<le> length (content (fr_r fr))
        \<and> frame_shape (fh_Type (Header f)) (Header f) p f)
     \<and> fh_valid (Header f)
     \<and> (AllowIllegalReads fr \<or> order_step (lastHeaderStream fr) f = Some (lastHeaderStream fr'))"

lemma readFrame_parse_safe:
  assumes "framer_ok fr" and "fh_valid h"
  obtains fr' r where "readFrame_parse fr h p = Some (Inr (fr', r))" "framer_ok fr'" "fr_r fr' = fr_r fr"
    "same_config fr fr'"
    "\<And>f. r = Inr f \<Longrightarrow> frame_shape (fh_Type h) h p f
       \<and> (AllowIllegalReads fr \<or> order_step (lastHeaderStream fr) f = Some (lastHeaderStream fr'))"
proof -
  obtain toks q where q: "typeFrameParser (fh_Type h) h p = Inr (toks, q)"
    using typeFrameParser_total [OF assms(2), of "fh_Type h" p] by auto
  let ?fr = "fr\<lparr>counted := counted fr @ toks\<rparr>"
  have ok: "framer_ok ?fr" using assms(1) by (simp add: framer_ok_def)
  show thesis
  proof (cases q)
    case (Inl e)
    obtain fr' e' where "readFrame_parse fr h p = Some (Inr (fr', Inl e'))" "framer_ok fr'" "fr_r fr' = fr_r fr" "same_config fr fr'"
      using assms(1) q Inl
      by (cases e) (auto simp: readFrame_parse_def framer_connError_def framer_ok_def same_config_def Let_def)
    with that show thesis by blast
  next
    case (Inr f)
    obtain fr' err where c: "checkFrameOrder ?fr f = Inr (fr', err)" "framer_ok fr'" "fr_r fr' = fr_r fr" "same_config fr fr'"
      "err = None \<Longrightarrow> AllowIllegalReads fr \<or> order_step (lastHeaderStream fr) f = Some (lastHeaderStream fr')"
      by (rule checkFrameOrder_safe [OF ok, of f]) (auto simp: same_config_def)
    then have "readFrame_parse fr h p = Some (Inr (fr', case err of Some e \<Rightarrow> Inl e | None \<Rightarrow> Inr f))"
      using q Inr by (simp add: readFrame_parse_def Let_def split: option.splits)
    with c that typeFrameParser_shape [of "fh_Type h" h p toks f] q Inr show thesis
      by (cases err) auto
  qed
qed

text \<open>The part of \<open>ReadFrame\<close> that follows the frame header.\<close>

definition readFrame_payload :: "'r reader \<Rightarrow> ('r, 'w) Framer \<Rightarrow> FrameHeader \<Rightarrow> ('r, 'w) read_result" where
  "readFrame_payload rd fr fh =
     (let (fr, payload) = getReadBuf fr (fh_Length fh)
      in Option.bind (ReadFull rd (fr_r fr) payload) (\<lambda>(r, payload, n, err).
           let fr = fr\<lparr>fr_r := r, readBuf := copy_at (readBuf fr) 0 payload\<rparr>
           in case err of
                Some e \<Rightarrow> Some (Inr (fr, Inl (IoError e)))
              | None \<Rightarrow> readFrame_parse fr fh payload))"

context full_reader
begin

text \<open>Filling a buffer always ends, and without an error it consumes exactly its length.\<close>

lemma ReadFull_safe:
  obtains r' buf' n err where "ReadFull rd r buf = Some (r', buf', n, err)" "length buf' = length buf"
    "err = None \<Longrightarrow> length (content r') + length buf = length (content r)"
proof (cases "length buf \<le> length (content r)")
  case True
  then show thesis by (rule ReadFull_content) (use that True in auto)
next
  case False
  then show thesis using ReadFull_short [of r buf] that by fastforce
qed

lemma readFrameHeader_safe:
  assumes "length hb = 9"
  obtains r' hb' h where "readFrameHeader rd hb r = Some (Inr (r', hb', h))" "length hb' = 9"
    "\<And>fh. h = Inr fh \<Longrightarrow> fh_valid fh \<and> length (content r') + 9 = length (content r)"
proof -
  obtain r' hb' n err where r: "ReadFull rd r (take frameHeaderLen hb) = Some (r', hb', n, err)" "length hb' = 9"
    "err = None \<Longrightarrow> length (content r') + 9 = length (content r)"
    by (rule ReadFull_safe [of r "take frameHeaderLen hb"]) (use assms in auto)
  obtain v where "Uint32 (drop 5 hb') = Inr v" using Uint_Inr(1) [of "drop 5 hb'"] r(2) by auto
  with r that show thesis by (cases err) (auto simp: readFrameHeader_def)
qed

lemma readFrame_payload_safe:
  assumes "framer_ok fr" and "fh_valid fh"
  obtains fr' r where "readFrame_payload rd fr fh = Some (Inr (fr', r))" "framer_ok fr'" "same_config fr fr'"
    "\<And>f. r = Inr f \<Longrightarrow> \<exists>q. length (content (fr_r fr')) + length q \<le> length (content (fr_r fr))
       \<and> frame_shape (fh_Type fh) fh q f
       \<and> (AllowIllegalReads fr \<or> order_step (lastHeaderStream fr) f = Some (lastHeaderStream fr'))"
proof -
  obtain fr2 p where g: "getReadBuf fr (fh_Length fh) = (fr2, p)" by (metis surj_pair)
  then have fr2: "framer_ok fr2" "same_config fr fr2" "fr_r fr2 = fr_r fr" "lastHeaderStream fr2 = lastHeaderStream fr"
    using assms(1) by (auto simp: getReadBuf_def framer_ok_def same_config_def Let_def split: if_splits)
  obtain r2 q n err where r2: "ReadFull rd (fr_r fr) p = Some (r2, q, n, err)" "length q = length p"
    "err = None \<Longrightarrow> length (content r2) + length p = length (content (fr_r fr))"
    by (rule ReadFull_safe [of "fr_r fr" p]) auto
  let ?fr2 = "fr2\<lparr>fr_r := r2, readBuf := copy_at (readBuf fr2) 0 q\<rparr>"
  have ok2: "framer_ok ?fr2" "same_config fr ?fr2" using fr2 by (simp_all add: framer_ok_def same_config_def)
  have one: "readFrame_payload rd fr fh = (case err of Some e \<Rightarrow> Some (Inr (?fr2, Inl (IoError e)))
      | None \<Rightarrow> readFrame_parse ?fr2 fh q)"
    using g r2(1) fr2(3) by (simp add: readFrame_payload_def Let_def split: option.splits)
  show thesis
  proof (cases err)
    case (Some e)
    with one ok2 that show thesis by simp
  next
    case None
    obtain fr3 r where p: "readFrame_parse ?fr2 fh q = Some (Inr (fr3, r))" "framer_ok fr3" "fr_r fr3 = r2"
      "same_config ?fr2 fr3" "\<And>f. r = Inr f \<Longrightarrow> frame_shape (fh_Type fh) fh q f
         \<and> (AllowIllegalReads ?fr2 \<or> order_step (lastHeaderStream ?fr2) f = Some (lastHeaderStream fr3))"
      by (rule readFrame_parse_safe [OF ok2(1) assms(2), of q]) auto
    then have "\<exists>q. length (content (fr_r fr3)) + length q \<le> length (content (fr_r fr)) \<and> frame_shape (fh_Type fh) fh q f
       \<and> (AllowIllegalReads fr \<or> order_step (lastHeaderStream fr) f = Some (lastHeaderStream fr3))" if "r = Inr f" for f
      using that r2(2,3) None fr2(2,4) by (intro exI [of _ q]) (simp add: same_config_def)
    moreover have "same_config fr fr3" using ok2(2) p(4) by (simp add: same_config_def)
    ultimately show thesis using that p(1,2) one None by simp
  qed
qed

lemma readFrame_one_safe:
  assumes "framer_ok fr"
  obtains fr' r where "readFrame_one rd fr = Some (Inr (fr', r))" "framer_ok fr'" "same_config fr fr'"
    "\<And>f. r = Inr f \<Longrightarrow> one_ok content fr fr' f"
proof -
  have "length (headerBuf fr) = 9" using assms by (simp add: framer_ok_def)
  then obtain r1 hb h where h: "readFrameHeader rd (headerBuf fr) (fr_r fr) = Some (Inr (r1, hb, h))" "length hb = 9"
    "\<And>fh. h = Inr fh \<Longrightarrow> fh_valid fh \<and> length (content r1) + 9 = length (content (fr_r fr))"
    by (rule readFrameHeader_safe [where r = "fr_r fr"]) auto
  let ?fr = "fr\<lparr>errDetail := None, fr_r := r1, headerBuf := hb\<rparr>"
  have ok: "framer_ok ?fr" "same_config fr ?fr" using assms h(2) by (simp_all add: framer_ok_def same_config_def)
  show thesis
  proof (cases h)
    case (Inl e)
    then have "readFrame_one rd fr = Some (Inr (?fr, Inl (IoError e)))" using h(1) by (simp add: readFrame_one_def)
    with ok that show thesis by blast
  next
    case (Inr fh)
    show thesis
    proof (cases "fh_Length fh > maxReadSize fr")
      case True
      then have "readFrame_one rd fr = Some (Inr (?fr, Inl ErrFrameTooLarge))"
        using h(1) Inr by (simp add: readFrame_one_def)
      with ok that show thesis by blast
    next
      case False
      obtain fr' r where p: "readFrame_payload rd ?fr fh = Some (Inr (fr', r))" "framer_ok fr'" "same_config ?fr fr'"
        "\<And>f. r = Inr f \<Longrightarrow> \<exists>q. length (content (fr_r fr')) + length q \<le> length (content r1) \<and> frame_shape (fh_Type fh) fh q f
           \<and> (AllowIllegalReads fr \<or> order_step (lastHeaderStream fr) f = Some (lastHeaderStream fr'))"
        by (rule readFrame_payload_safe [OF ok(1), of fh]) (use h(3) Inr in auto)
      have "readFrame_one rd fr = readFrame_payload rd ?fr fh"
        using h(1) Inr False by (simp add: readFrame_one_def readFrame_payload_def Let_def)
      moreover have "one_ok content fr fr' f" if "r = Inr f" for f
      proof -
        from p(4) [OF that] obtain q where "length (content (fr_r fr')) + length q \<le> length (content r1)"
          "frame_shape (fh_Type fh) fh q f" by blast
        then show ?thesis using p(4) [OF that] h(3) [OF Inr]
          by (auto simp: one_ok_def frame_shape_def intro!: exI [of _ q])
      qed
      moreover have "same_config fr fr'" using ok(2) p(3) by (simp add: same_config_def)
      ultimately show thesis using that p(1,2) by simp
    qed
  qed
qed

text \<open>Merging a header block: \<open>hc\<close> is the frame whose fragment is written next.\<close>

lemma read_block_total:
  assumes "framer_ok fr" and "\<not> AllowIllegalReads fr" and "ReadMetaHeaders fr = Some d"
    and "pot d + length (frame_bytes_of hc) + length (content (fr_r fr)) < 2 ^ 62"
    and "fh_valid (Header hc)" and "\<not> HeadersEnded hc \<Longrightarrow> lastHeaderStream fr \<noteq> 0"
  shows "\<exists>fr' r. read_run rd fr (Some (h, p, hc)) = Some (Inr (fr', r)) \<and> framer_ok fr'"
  using assms
proof (induction "length (content (fr_r fr))" arbitrary: fr d hc rule: less_induct)
  case less
  obtain d1 k err where w: "decoder_Write d (frame_bytes_of hc) = Inr (d1, k, err)"
    "err = None \<longrightarrow> pot d1 \<le> pot d + length (frame_bytes_of hc)"
    by (rule decoder_Write_pot [of d "frame_bytes_of hc"]) (use less.prems(4) in auto)
  let ?fr = "fr\<lparr>ReadMetaHeaders := Some d1\<rparr>"
  have m: "go_bind (frame_bytes hc) (metaWrite fr) = Inr (?fr, err)"
    using w(1) less.prems(3,5) by (simp add: frame_bytes_def checkValid_def metaWrite_def)
  have ok: "framer_ok ?fr" using less.prems(1) by (simp add: framer_ok_def)
  show ?case
  proof (cases "err = None \<and> \<not> HeadersEnded hc")
    case False
    then show ?thesis using m ok
      by (cases err) (auto simp: read_run.simps [of rd fr] finishMeta_def stopMeta_def framer_ok_def Let_def
          split: option.splits prod.splits)
  next
    case True
    obtain fr2 r where one: "readFrame_one rd ?fr = Some (Inr (fr2, r))" "framer_ok fr2" "same_config ?fr fr2"
      "\<And>f. r = Inr f \<Longrightarrow> one_ok content ?fr fr2 f"
      by (rule readFrame_one_safe [OF ok]) blast
    show ?thesis
    proof (cases r)
      case (Inl e)
      with one m True show ?thesis
        by (auto simp: read_run.simps [of rd fr] read_run.simps [of rd ?fr] stopMeta_def framer_ok_def)
    next
      case (Inr f)
      obtain q where q: "length (content (fr_r fr2)) + 9 + length q \<le> length (content (fr_r fr))"
        "frame_shape (fh_Type (Header f)) (Header f) q f" using one(4) [OF Inr] by (auto simp: one_ok_def)
      have o: "order_step (lastHeaderStream fr) f = Some (lastHeaderStream fr2)" "fh_valid (Header f)"
        using one(4) [OF Inr] less.prems(2) by (auto simp: one_ok_def)
      then have t: "fh_Type (Header f) = FrameContinuation" "\<not> HeadersEnded f \<Longrightarrow> lastHeaderStream fr2 \<noteq> 0"
        using less.prems(6) True by (auto simp: order_step_def split: if_splits)
      then obtain b where f: "f = ContinuationFrame (Header f) b" "length (frame_bytes_of f) \<le> length q"
        using q(2) by (auto simp: frame_shape_def)
      have step: "read_run rd fr (Some (h, p, hc)) = read_run rd fr2 (Some (h, p, f))"
        using m True one(1) Inr t(1) f(1)
        by (auto simp: read_run.simps [of rd fr] read_run.simps [of rd ?fr] split: Frame.splits)
      have "\<exists>fr' r. read_run rd fr2 (Some (h, p, f)) = Some (Inr (fr', r)) \<and> framer_ok fr'"
      proof (rule less.hyps)
        show "length (content (fr_r fr2)) < length (content (fr_r fr))" using q(1) by simp
        show "pot d1 + length (frame_bytes_of f) + length (content (fr_r fr2)) < 2 ^ 62"
          using w(2) True q(1) f(2) less.prems(4) by simp
        show "\<not> AllowIllegalReads fr2" "ReadMetaHeaders fr2 = Some d1"
          using one(3) less.prems(2) by (simp_all add: same_config_def)
      qed (use one(2) o(2) t(2) in auto)
      then show ?thesis using step by simp
    qed
  qed
qed

lemma ReadFrame_safe:
  assumes "framer_ok fr" and "\<forall>d. ReadMetaHeaders fr = Some d \<longrightarrow> pot d + length (content (fr_r fr)) < 2 ^ 62"
  shows "\<exists>fr' r. ReadFrame rd fr = Some (Inr (fr', r)) \<and> framer_ok fr'"
proof -
  obtain fr1 r where one: "readFrame_one rd fr = Some (Inr (fr1, r))" "framer_ok fr1" "same_config fr fr1"
    "\<And>f. r = Inr f \<Longrightarrow> one_ok content fr fr1 f"
    by (rule readFrame_one_safe [OF assms(1)]) blast
  show ?thesis
  proof (cases "\<exists>f d. r = Inr f \<and> fh_Type (Header f) = FrameHeaders \<and> ReadMetaHeaders fr1 = Some d \<and> \<not> AllowIllegalReads fr1")
    case True
    then obtain f d where f: "r = Inr f" "fh_Type (Header f) = FrameHeaders" "ReadMetaHeaders fr1 = Some d" "\<not> AllowIllegalReads fr1"
      by blast
    obtain q where q: "length (content (fr_r fr1)) + 9 + length q \<le> length (content (fr_r fr))"
      "frame_shape FrameHeaders (Header f) q f" using one(4) [OF f(1)] f(2) by (auto simp: one_ok_def)
    then obtain p b where hf: "f = HeadersFrame (Header f) p b" "length (frame_bytes_of f) \<le> length q" "fh_StreamID (Header f) \<noteq> 0"
      by (auto simp: frame_shape_def)
    have run: "ReadFrame rd fr = read_run rd (startMeta fr1 d) (Some (Header f, p, f))"
      using one(1) f hf(1) by (auto simp: ReadFrame_def read_run.simps [of rd fr None] split: Frame.splits)
    obtain d' where d': "ReadMetaHeaders (startMeta fr1 d) = Some d'" "pot d' = pot d"
      by (auto simp: startMeta_def SetEmitEnabled_def SetMaxStringLength_def SetEmitFunc_def pot_def Let_def)
    have "order_step (lastHeaderStream fr) f = Some (lastHeaderStream fr1)" "fh_valid (Header f)"
      using one(4) [OF f(1)] one(3) f(4) by (auto simp: one_ok_def same_config_def)
    then have last: "\<not> HeadersEnded f \<Longrightarrow> lastHeaderStream fr1 \<noteq> 0" "fh_valid (Header f)"
      using f(2) hf(3) by (auto simp: order_step_def split: if_splits)
    show ?thesis unfolding run
    proof (rule read_block_total [OF _ _ d'(1)])
      show "pot d' + length (frame_bytes_of f) + length (content (fr_r (startMeta fr1 d))) < 2 ^ 62"
      proof -
        have "pot d + length (content (fr_r fr)) < 2 ^ 62" using assms(2) f(3) one(3) by (auto simp: same_config_def)
        then show ?thesis using d'(2) q(1) hf(2) by (simp add: startMeta_def Let_def)
      qed
    qed (use one(2) f(4) last in \<open>auto simp: startMeta_def framer_ok_def Let_def\<close>)
  next
    case False
    have "\<exists>r'. ReadFrame rd fr = Some (Inr (fr1, r'))"
    proof (cases r)
      case (Inl e)
      then show ?thesis using one(1) by (simp add: ReadFrame_def read_run.simps [of rd fr])
    next
      case (Inr f)
      then have "fh_Type (Header f) = FrameHeaders \<Longrightarrow> \<exists>h q b. f = HeadersFrame h q b"
        using one(4) by (auto simp: one_ok_def frame_shape_def)
      then show ?thesis using one(1) False Inr
        by (auto simp: ReadFrame_def read_run.simps [of rd fr] split: Frame.splits)
    qed
    with one(2) show ?thesis by blast
  qed
qed

end

section \<open>Arguments that are refused\<close>

text \<open>The arguments that the methods of the framer check.\<close>

fun refused :: "sent \<Rightarrow> bool" where
  "refused (SData sid es d pad) \<longleftrightarrow> \<not> validStreamID sid
     \<or> (\<exists>p. pad = Some p \<and> (length p > 255 \<or> list_ex (\<lambda>b. b \<noteq> 0) p))"
| "refused (SHeaders p) \<longleftrightarrow> \<not> validStreamID (hp_StreamID p) \<or> \<not> validStreamIDOrZero (StreamDep (hp_Priority p))"
| "refused (SPriority sid p) \<longleftrightarrow> \<not> validStreamID sid \<or> \<not> validStreamIDOrZero (StreamDep p)"
| "refused (SRSTStream sid c) \<longleftrightarrow> \<not> validStreamID sid"
| "refused (SPushPromise p) \<longleftrightarrow> \<not> validStreamID (pp_StreamID p) \<or> \<not> validStreamID (pp_PromiseID p)"
| "refused (SWindowUpdate sid i) \<longleftrightarrow> i < 1 \<or> i > 2147483647"
| "refused (SContinuation sid eh b) \<longleftrightarrow> \<not> validStreamID sid"
| "refused _ \<longleftrightarrow> False"

definition nothing_written :: "('r, 'w) Framer \<Rightarrow> ('r, 'w) write_result \<Rightarrow> bool" where
  "nothing_written f r \<longleftrightarrow> (\<exists>f' e. r = (f', Some e) \<and> fr_w f' = fr_w f)"

lemma refused_nothing_written:
  assumes "refused x" and "\<not> AllowIllegalWrites f"
  shows "nothing_written f (write_sent wr f x)"
proof (cases x)
  case (SData sid es d pad)
  then show ?thesis using assms
    by (cases pad) (auto simp: nothing_written_def WriteDataPadded_def startWriteDataPadded_def list_ex_iff Let_def)
next
  case (SHeaders p)
  moreover have "IsZero q \<Longrightarrow> validStreamIDOrZero (StreamDep q)" for q
    by (simp add: IsZero_def zeroPriority_def validStreamIDOrZero_def)
  ultimately show ?thesis using assms
    by (auto simp: nothing_written_def WriteHeaders_def startWrite_def writeByte_def Let_def)
next
  case (SPushPromise p)
  then show ?thesis using assms
    by (auto simp: nothing_written_def WritePushPromise_def startWrite_def writeByte_def Let_def)
next
  case (SWindowUpdate sid i)
  then show ?thesis using assms by (simp add: nothing_written_def WriteWindowUpdate_def)
qed (use assms in \<open>auto simp: nothing_written_def WritePriority_def WriteRSTStream_def WriteContinuation_def\<close>)

lemma too_large_nothing_written:
  assumes "legal_args x" and "2 ^ 24 \<le> length (payload_of x)"
  shows "nothing_written f (write_sent wr f x)"
proof -
  obtain t fl sid b where e: "encoding x = (t, fl, sid, b)" by (metis prod_cases4)
  have "int (length ([0, 0, 0, t, fl] @ be32 sid @ b)) - int frameHeaderLen \<ge> 2 ^ 24"
    using assms(2) e by (simp add: payload_of_def)
  then show ?thesis
    by (simp add: write_sent_assembled [OF assms(1) e] endWrite_def nothing_written_def Let_def)
qed

section \<open>Properties\<close>

text \<open>
  C18: Reading always ends: whatever bytes a peer sends, \<open>ReadFrame\<close> returns a frame or an error; it does
  not panic (no slice out of range, no failed type assertion on the frames of a header block, no nil
  frame in the message about the order of frames), it does not loop, and it leaves the framer in a
  state from which the next call is as safe. The bound is the number of entry ids of the decoder's table.
\<close>
theorem ReadFrame_total:
  assumes "framer_ok fr" and "\<forall>d. ReadMetaHeaders fr = Some d \<longrightarrow> pot d + length (fr_r fr) < 2 ^ 62"
  shows "\<exists>fr' r. ReadFrame Buffer_Read fr = Some (Inr (fr', r)) \<and> framer_ok fr'"
  using buffer.ReadFrame_safe [OF assms] .

theorem ReadFrame_total_witness:
  "\<exists>fr' r. ReadFrame Buffer_Read (NewFramer () [0, 0, 1, 1, 0, 0, 0, 0, 1, 0x82, 0, 0, 0, 9, 4, 0, 0, 0, 1]
      \<lparr>ReadMetaHeaders := Some example_decoder\<rparr>) = Some (Inr (fr', r)) \<and> framer_ok fr'"
  by (rule ReadFrame_total) (simp_all add: framer_ok_def NewFramer_def SetMaxReadFrameSize_def pot_def
      example_decoder_def emptyDynamicTable_def emptyTable_def table_init_def)

text \<open>
  C33: Illegal frames are not sent: when an argument is refused (a stream id of 0 or with the reserved bit,
  padding that is too long or not zero, a window increment out of range), or the payload does not fit a
  frame, the method returns an error and the writer is not called.
\<close>
theorem illegal_write_refused:
  assumes "\<not> AllowIllegalWrites f" and "refused x \<or> legal_args x \<and> 2 ^ 24 \<le> length (payload_of x)"
  shows "\<exists>f' e. write_sent wr f x = (f', Some e) \<and> fr_w f' = fr_w f"
  using refused_nothing_written [OF _ assms(1)] too_large_nothing_written assms(2)
  unfolding nothing_written_def by blast

theorem illegal_write_refused_witness:
  "\<exists>f' e. write_sent Buffer_Write (NewFramer [] ()) (SData 1 True [5] (Some [0, 1])) = (f', Some e)
    \<and> fr_w f' = fr_w (NewFramer [] ())"
  by (rule illegal_write_refused) (simp_all add: NewFramer_def SetMaxReadFrameSize_def)

end
