(* ===== verification/Http2Headers.thy ===== *)
theory Http2Headers
  imports Http2Safety
begin

text \<open>
  Header lists end to end: which lists of fields the framer delivers (\<open>well_formed_list\<close>), that they respect the configured limit, and that the fields an encoder and a framer
  send arrive at a framer with a decoder in step.
\<close>

unbundle bit_operations_syntax

section \<open>Pseudo header fields\<close>

lemma IsPseudo_take: "take (Suc 0) (Name hf) = '':'' \<longleftrightarrow> IsPseudo hf"
  by (cases "Name hf") (auto simp: IsPseudo_def)

lemma PseudoFields_takeWhile: "PseudoFields hfs = takeWhile IsPseudo hfs"
  by (induction hfs) simp_all

lemma RegularFields_dropWhile: "RegularFields hfs = dropWhile IsPseudo hfs"
  by (induction hfs) simp_all

definition request_pseudo :: "HeaderField \<Rightarrow> bool" where
  "request_pseudo hf \<longleftrightarrow> Name hf \<in> {'':method'', '':path'', '':scheme'', '':authority''}"

definition response_pseudo :: "HeaderField \<Rightarrow> bool" where
  "response_pseudo hf \<longleftrightarrow> Name hf = '':status''"

lemma pseudos_loop_None:
  "pseudos_loop prev hfs rq rs = None \<longleftrightarrow>
     (\<forall>f \<in> set hfs. request_pseudo f \<or> response_pseudo f) \<and> distinct (map Name hfs)
     \<and> Name ` set hfs \<inter> Name ` set prev = {}
     \<and> \<not> ((rq \<or> (\<exists>f \<in> set hfs. request_pseudo f)) \<and> (rs \<or> (\<exists>f \<in> set hfs. response_pseudo f)))"
proof (induction hfs arbitrary: prev rq rs)
  case (Cons hf hfs)
  have step: "pseudos_loop prev (hf # hfs) rq rs = None \<longleftrightarrow>
      (request_pseudo hf \<or> response_pseudo hf) \<and> Name hf \<notin> Name ` set prev
      \<and> pseudos_loop (prev @ [hf]) hfs (rq \<or> request_pseudo hf) (rs \<or> response_pseudo hf) = None"
    by (auto simp: request_pseudo_def response_pseudo_def list_ex_iff Let_def image_iff)
  show ?case unfolding step Cons.IH by auto
qed simp

section \<open>The callback of the decoder\<close>

definition valid_fields :: "HeaderField list \<Rightarrow> bool" where
  "valid_fields fs \<longleftrightarrow> (\<forall>f \<in> set fs. ValidHeaderFieldValue (Value f))
     \<and> (\<forall>f \<in> set fs. \<not> IsPseudo f \<longrightarrow> validWireHeaderFieldName (Name f))
     \<and> (\<forall>f \<in> set (RegularFields fs). \<not> IsPseudo f)"

lemma valid_fields_snoc:
  "valid_fields (fs @ [f]) \<longleftrightarrow> valid_fields fs \<and> ValidHeaderFieldValue (Value f)
     \<and> (if IsPseudo f then \<forall>g \<in> set fs. IsPseudo g else validWireHeaderFieldName (Name f))"
proof (cases "\<forall>g \<in> set fs. IsPseudo g")
  case True
  then have drop: "dropWhile IsPseudo fs = []" by simp
  show ?thesis using True by (auto simp: valid_fields_def RegularFields_dropWhile drop)
next
  case False
  then have "dropWhile IsPseudo (fs @ [f]) = dropWhile IsPseudo fs @ [f]" by (auto simp: dropWhile_append1)
  with False show ?thesis by (auto simp: valid_fields_def RegularFields_dropWhile)
qed

text \<open>The invariant of the callback's variables.\<close>

definition meta_inv :: "u32 \<Rightarrow> metaState \<Rightarrow> bool" where
  "meta_inv limit s \<longleftrightarrow> valid_fields (metaFields s)
     \<and> (\<not> sawRegular s \<longrightarrow> (\<forall>f \<in> set (metaFields s). IsPseudo f))
     \<and> sum_list (map (\<lambda>f. unat (Size f)) (metaFields s)) + unat (remainSize s) = unat limit"

lemma meta_inv_emit:
  assumes "meta_inv limit s"
  shows "meta_inv limit (meta_emit s hf)"
proof -
  have "unat (remainSize s - Size hf) = unat (remainSize s) - unat (Size hf)" "unat (Size hf) \<le> unat (remainSize s)"
    if "\<not> Size hf > remainSize s"
    using that by (simp_all add: unat_sub word_less_nat_alt not_less word_le_nat_alt)
  with assms show ?thesis
    by (auto simp: meta_inv_def meta_emit_def valid_fields_snoc IsPseudo_take Let_def)
qed

lemma meta_inv_after: "meta_inv limit (meta_after limit log)"
proof (induction log rule: rev_induct)
  case (snoc f log)
  then show ?case by (simp add: meta_after_def meta_inv_emit)
qed (simp add: meta_after_def meta_init_def meta_inv_def valid_fields_def)

text \<open>Valid fields that fit are all collected.\<close>

definition list_size :: "HeaderField list \<Rightarrow> nat" where
  "list_size fs = sum_list (map (\<lambda>f. length (Name f) + length (Value f) + 32) fs)"

definition collected :: "u32 \<Rightarrow> HeaderField list \<Rightarrow> metaState \<Rightarrow> bool" where
  "collected limit fs s \<longleftrightarrow> metaFields s = fs \<and> invalid s = None \<and> \<not> metaTruncated s \<and> metaEnabled s
     \<and> sawRegular s = (\<exists>f \<in> set fs. \<not> IsPseudo f) \<and> unat (remainSize s) + list_size fs = unat limit"

lemma meta_after_collected:
  "valid_fields fs \<Longrightarrow> list_size fs \<le> unat limit \<Longrightarrow> collected limit fs (meta_after limit fs)"
proof (induction fs rule: rev_induct)
  case Nil
  show ?case by (simp add: collected_def meta_after_def meta_init_def list_size_def)
next
  case (snoc f fs)
  let ?s = "meta_after limit fs" and ?n = "length (Name f) + length (Value f) + 32"
  have sz: "list_size (fs @ [f]) = list_size fs + ?n" by (simp add: list_size_def)
  have c: "collected limit fs ?s" using snoc by (auto simp: valid_fields_snoc sz)
  then have r: "?n \<le> unat (remainSize ?s)" using snoc.prems(2) by (simp add: collected_def sz)
  then have "?n < 2 ^ 32" using unsigned_less [of "remainSize ?s", where 'a = nat] by simp
  then have n: "unat (Size f) = ?n" by (simp only: Size_def unat_of_nat) simp
  then have le: "\<not> Size f > remainSize ?s" "unat (remainSize ?s - Size f) = unat (remainSize ?s) - ?n"
    using r by (simp_all add: word_less_nat_alt unat_sub word_le_nat_alt)
  have "meta_after limit (fs @ [f]) = ?s\<lparr>sawRegular := sawRegular ?s \<or> \<not> IsPseudo f,
      remainSize := remainSize ?s - Size f, metaFields := metaFields ?s @ [f]\<rparr>"
    using c snoc.prems(1) le(1)
    by (cases ?s) (auto simp: meta_after_def meta_emit_def valid_fields_snoc collected_def IsPseudo_take Let_def)
  with c le(2) r show ?case by (auto simp: collected_def sz)
qed

section \<open>Frames of header lists\<close>

lemma checkFrameOrder_keeps:
  "checkFrameOrder fr f = Inr (fr', err) \<Longrightarrow> same_config fr fr'"
  by (auto simp: checkFrameOrder_def framer_connError_def same_config_def Let_def split: if_splits option.splits)

lemma readFrame_parse_keeps:
  assumes "readFrame_parse fr fh p = Some (Inr (fr', r))"
  shows "same_config fr fr' \<and> r \<noteq> Inr (MetaHeadersFrame h q m)"
proof -
  from assms obtain toks x where x: "typeFrameParser (fh_Type fh) fh p = Inr (toks, x)"
    by (cases "typeFrameParser (fh_Type fh) fh p") (auto simp: readFrame_parse_def)
  show ?thesis
  proof (cases x)
    case (Inl e)
    with assms x show ?thesis
      by (cases e) (auto simp: readFrame_parse_def framer_connError_def same_config_def Let_def)
  next
    case (Inr f)
    let ?fr = "fr\<lparr>counted := counted fr @ toks\<rparr>"
    obtain fr1 err where c: "checkFrameOrder ?fr f = Inr (fr1, err)"
      using assms x Inr by (cases "checkFrameOrder ?fr f") (auto simp: readFrame_parse_def Let_def)
    then have "fr' = fr1" "r = (case err of Some e \<Rightarrow> Inl e | None \<Rightarrow> Inr f)"
      using assms x Inr by (auto simp: readFrame_parse_def Let_def split: option.splits)
    with checkFrameOrder_keeps [OF c] typeFrameParser_shape [of "fh_Type fh" fh p toks f] x Inr show ?thesis
      by (auto simp: same_config_def frame_shape_def split: option.splits)
  qed
qed

lemma readFrame_payload_keeps:
  assumes "readFrame_payload rd fr fh = Some (Inr (fr', r))"
  shows "same_config fr fr' \<and> r \<noteq> Inr (MetaHeadersFrame h q m)"
proof -
  obtain fr2 p where g: "getReadBuf fr (fh_Length fh) = (fr2, p)" by (metis surj_pair)
  then have 2: "same_config fr fr2" by (auto simp: getReadBuf_def same_config_def Let_def split: if_splits)
  from assms g obtain r2 q' n err where "ReadFull rd (fr_r fr2) p = Some (r2, q', n, err)"
    by (cases "ReadFull rd (fr_r fr2) p") (auto simp: readFrame_payload_def)
  with assms g 2 show ?thesis
    by (cases err) (auto simp: readFrame_payload_def same_config_def Let_def dest!: readFrame_parse_keeps)
qed

lemma readFrame_one_keeps:
  assumes "readFrame_one rd fr = Some (Inr (fr', r))"
  shows "same_config fr fr' \<and> r \<noteq> Inr (MetaHeadersFrame h q m)"
proof -
  from assms obtain x where "readFrameHeader rd (headerBuf fr) (fr_r fr) = Some x"
    by (cases "readFrameHeader rd (headerBuf fr) (fr_r fr)") (auto simp: readFrame_one_def)
  with assms obtain r1 hb fh where x: "readFrameHeader rd (headerBuf fr) (fr_r fr) = Some (Inr (r1, hb, fh))"
    by (cases x) (auto simp: readFrame_one_def)
  let ?fr = "fr\<lparr>errDetail := None, fr_r := r1, headerBuf := hb\<rparr>"
  have "same_config fr ?fr" by (simp add: same_config_def)
  moreover have "readFrame_one rd fr = (case fh of Inl e \<Rightarrow> Some (Inr (?fr, Inl (IoError e)))
      | Inr fh \<Rightarrow> if fh_Length fh > maxReadSize fr then Some (Inr (?fr, Inl ErrFrameTooLarge))
                  else readFrame_payload rd ?fr fh)"
    using x by (cases fh) (simp_all add: readFrame_one_def readFrame_payload_def Let_def)
  ultimately show ?thesis using assms readFrame_payload_keeps [of rd ?fr _ fr' r]
    by (cases fh) (auto simp: same_config_def split: if_splits)
qed

text \<open>What \<open>ReadFrame\<close> and the loop of \<open>readMetaFrame\<close> guarantee of their result.\<close>

definition good_list :: "('r, 'w) Framer \<Rightarrow> MetaHeaders \<Rightarrow> bool" where
  "good_list fr m \<longleftrightarrow> valid_fields (mh_Fields m) \<and> checkPseudos (mh_Fields m) = None
     \<and> sum_list (map (\<lambda>f. unat (Size f)) (mh_Fields m)) \<le> unat (maxHeaderListSize fr)"

definition good_result :: "('r, 'w) Framer \<Rightarrow> (('r, 'w) Framer \<times> (h2error + Frame)) res \<Rightarrow> bool" where
  "good_result fr y \<longleftrightarrow> (\<forall>fr' r. y = Inr (fr', r) \<longrightarrow> MaxHeaderListSize fr' = MaxHeaderListSize fr
     \<and> (\<forall>h p m. r = Inr (MetaHeadersFrame h p m) \<longrightarrow> good_list fr m))"

lemma good_result_cong: "MaxHeaderListSize fr = MaxHeaderListSize fr1 \<Longrightarrow> good_result fr y = good_result fr1 y"
  by (simp add: good_result_def good_list_def maxHeaderListSize_def)

lemma finishMeta_good: "good_result fr (finishMeta fr h p)"
proof (cases "ReadMetaHeaders fr")
  case (Some d)
  note inv = meta_inv_after [of "maxHeaderListSize fr" "emitted d"]
  show ?thesis using Some inv
    by (auto simp: good_result_def good_list_def finishMeta_def stopMeta_def meta_inv_def Let_def
        split: prod.splits option.splits if_splits)
qed (simp add: good_result_def finishMeta_def)

lemma metaWrite_keeps: "metaWrite fr b = Inr (fr', err) \<Longrightarrow> MaxHeaderListSize fr' = MaxHeaderListSize fr"
  by (auto simp: metaWrite_def go_bind_eq_Inr split: option.splits)

lemma good_result_stop:
  "good_result fr (Inr (fr', Inl e))" if "MaxHeaderListSize fr' = MaxHeaderListSize fr"
  using that by (simp add: good_result_def)

lemma stopMeta_size [simp]: "MaxHeaderListSize (stopMeta fr) = MaxHeaderListSize fr"
  by (simp add: stopMeta_def)

lemma startMeta_size [simp]: "MaxHeaderListSize (startMeta fr d) = MaxHeaderListSize fr"
  by (simp add: startMeta_def Let_def)

lemma good_next:
  assumes "\<And>rd fr mode y. run rd fr mode = Some y \<Longrightarrow> good_result fr y" and "good_result fr w"
    and "(case w of Inl e \<Rightarrow> Some (Inl e)
          | Inr (fr, Inl e) \<Rightarrow> Some (Inr (stopMeta fr, Inl e))
          | Inr (fr, Inr f) \<Rightarrow> (case f of ContinuationFrame _ _ \<Rightarrow> run rd fr (Some (h, p, f))
                                | _ \<Rightarrow> Some (Inl (Panic ''interface conversion'')))) = Some y"
  shows "good_result fr y"
proof -
  have run: "good_result fr y" if "run rd fr1 q = Some y" "w = Inr (fr1, r)" for fr1 q r
  proof -
    have "MaxHeaderListSize fr = MaxHeaderListSize fr1" using assms(2) that(2) by (simp add: good_result_def)
    with assms(1) [OF that(1)] show ?thesis by (simp only: good_result_cong [of fr fr1])
  qed
  show ?thesis
  proof (cases w)
    case (Inr z)
    obtain fr1 r where z: "z = (fr1, r)" by (cases z)
    have m: "MaxHeaderListSize fr1 = MaxHeaderListSize fr" using assms(2) Inr z by (simp add: good_result_def)
    have panic: "good_result fr (Inl (Panic s))" for s by (simp add: good_result_def)
    from assms(3) Inr z m show ?thesis
      by (cases r) (auto simp: panic good_result_def [of fr "Inr _"] intro: run split: Frame.splits)
  qed (use assms(3) in \<open>auto simp: good_result_def\<close>)
qed

lemma read_run_good:
  assumes "read_run rd fr mode = Some y"
  shows "good_result fr y"
proof (rule read_run.raw_induct [of "\<lambda>rd fr mode y. good_result fr y", OF _ assms], goal_cases)
  case (1 run rd fr mode y)
  note IH = "1"(1) and body = "1"(2)
  show ?case
  proof (cases mode)
    case None
    from body None obtain x where x: "readFrame_one rd fr = Some x" by (cases "readFrame_one rd fr") auto
    show ?thesis
    proof (cases x)
      case (Inl e)
      with body None x show ?thesis by (auto simp: good_result_def)
    next
      case (Inr z)
      obtain fr1 r where z: "z = (fr1, r)" by (cases z)
      have k: "same_config fr fr1" "\<And>h p m. r \<noteq> Inr (MetaHeadersFrame h p m)"
        using readFrame_one_keeps [of rd fr fr1 r] x Inr z by blast+
      then have g: "good_result fr (Inr (fr1, r))" "MaxHeaderListSize fr1 = MaxHeaderListSize fr"
        by (simp_all add: good_result_def same_config_def)
      have s: "good_result fr y" if "run rd (startMeta fr1 d) (Some q) = Some y" for d q
        using IH [OF that] g(2) by (simp add: good_result_cong [of fr "startMeta fr1 d"])
      show ?thesis using body None x Inr z g
        by (auto simp: good_result_def split: sum.splits if_splits Frame.splits dest!: s)
    qed
  next
    case (Some a)
    obtain h p hc where a: "a = (h, p, hc)" by (cases a)
    show ?thesis
    proof (cases "go_bind (frame_bytes hc) (metaWrite fr)")
      case (Inl e)
      with body Some a show ?thesis by (auto simp: good_result_def)
    next
      case (Inr z)
      obtain fr1 err where z: "z = (fr1, err)" by (cases z)
      have m: "MaxHeaderListSize fr1 = MaxHeaderListSize fr"
        using Inr z metaWrite_keeps by (auto simp: go_bind_eq_Inr)
      note cong = good_result_cong [of fr fr1, OF m [symmetric]]
      consider "err \<noteq> None" | "err = None" "HeadersEnded hc" | "err = None" "\<not> HeadersEnded hc" by blast
      then show ?thesis
      proof cases
        case 1
        with body Some a Inr z m show ?thesis by (auto simp: good_result_def)
      next
        case 2
        with body Some a Inr z finishMeta_good [of fr1 h p] show ?thesis by (simp add: cong)
      next
        case 3
        with body Some a Inr z obtain w where w: "run rd fr1 None = Some w" by (cases "run rd fr1 None") auto
        have gw: "good_result fr w" using IH [OF w] cong by simp
        from body Some a Inr z 3 w show ?thesis by (intro good_next [OF IH gw, where y = y]) auto
      qed
    qed
  qed
qed

section \<open>A header block in one frame\<close>

text \<open>The decoder as \<open>readMetaFrame\<close> sets it up.\<close>

definition meta_decoder :: "('r, 'w) Framer \<Rightarrow> Decoder \<Rightarrow> Decoder" where
  "meta_decoder fr d = d\<lparr>emitEnabled := True, maxStrLen := maxHeaderStringLength fr, emitted := [],
     emitStop := (\<lambda>log. \<not> metaEnabled (meta_after (maxHeaderListSize fr) log))\<rparr>"

lemma maxHeaderListSize_update [simp]: "maxHeaderListSize (fr\<lparr>ReadMetaHeaders := x\<rparr>) = maxHeaderListSize fr"
  by (simp add: maxHeaderListSize_def)

lemma startMeta_decoder: "startMeta fr d = fr\<lparr>ReadMetaHeaders := Some (meta_decoder fr d)\<rparr>"
  by (simp add: startMeta_def meta_decoder_def SetEmitEnabled_def SetMaxStringLength_def SetEmitFunc_def Let_def)

lemma string_fits: "f \<in> set fs \<Longrightarrow> length (Name f) + length (Value f) + 32 \<le> list_size fs"
  unfolding list_size_def by (induction fs) auto

lemma meta_decoder_accepts:
  assumes "list_size fs \<le> unat (maxHeaderListSize fr)" and "f \<in> set fs"
  shows "accepts (meta_decoder fr d) f"
proof -
  have "length (Name f) + length (Value f) + 32 \<le> unat (maxHeaderListSize fr)"
    using string_fits [OF assms(2)] assms(1) by simp
  then have "int (length (Name f) + length (Value f) + 32) \<le> int (unat (maxHeaderListSize fr))" by (simp only: zle_int)
  then have "int (length (Name f)) + int (length (Value f)) + 32 \<le> uint (maxHeaderListSize fr)" by simp
  moreover have "uint (maxHeaderListSize fr) < 2 ^ 32" using unsigned_less [of "maxHeaderListSize fr", where 'a = int] by simp
  ultimately show ?thesis
    by (auto simp: accepts_def string_ok_def meta_decoder_def maxHeaderStringLength_def)
qed

lemma valid_fields_take: "valid_fields fs \<Longrightarrow> valid_fields (take n fs)"
proof (induction fs rule: rev_induct)
  case (snoc f fs)
  then show ?case by (cases "n \<le> length fs") (auto simp: valid_fields_snoc)
qed simp

lemma list_size_take: "list_size (take n fs) \<le> list_size fs"
  by (metis append_take_drop_id le_add1 list_size_def map_append sum_list_append)

lemma meta_decoder_keeps_emitting:
  assumes "valid_fields fs" and "list_size fs \<le> unat (maxHeaderListSize fr)"
  shows "keeps_emitting (meta_decoder fr d) fs"
proof -
  have "metaEnabled (meta_after (maxHeaderListSize fr) (take n fs))" for n
    using meta_after_collected [OF valid_fields_take [OF assms(1)], of n "maxHeaderListSize fr"]
      list_size_take [of n fs] assms(2) by (simp add: collected_def)
  then show ?thesis by (simp add: keeps_emitting_def meta_decoder_def)
qed

text \<open>The decoder hands all fields to the callback.\<close>

lemma decode_block:
  assumes "in_sync e d" and "\<not> tableSizeUpdate e" and "saveBuf d = []"
    and "\<forall>f \<in> set fs. unindexed e f" and "valid_fields fs" and "list_size fs \<le> unat (maxHeaderListSize fr)"
    and "encode_fields e fs = Inr (e', bs)"
  obtains d' n where "decoder_Write (meta_decoder fr d) bs = Inr (d', n, None)" "emitted d' = fs" "saveBuf d' = []"
    "in_sync e' d'"
proof -
  let ?d = "meta_decoder fr d"
  have sync: "in_sync e ?d" using assms(1) by (simp add: in_sync_def meta_decoder_def)
  have acc: "\<forall>f \<in> set fs. unindexed e f \<and> accepts ?d f" using assms(4) meta_decoder_accepts [OF assms(6)] by blast
  obtain b where e': "e' = e\<lparr>ebuf := b\<rparr>" and loop: "\<And>n. write_loop (?d\<lparr>dbuf := bs\<rparr>) n =
      Inr (?d\<lparr>dbuf := [], emitted := emitted ?d @ fs, firstField := (fs = [] \<and> firstField ?d)\<rparr>, n, None)"
    using fields_roundtrip [OF sync assms(2) acc meta_decoder_keeps_emitting [OF assms(5,6)]] assms(7) by auto
  let ?d' = "?d\<lparr>dbuf := [], emitted := fs, firstField := (fs = [] \<and> firstField ?d)\<rparr>"
  have s: "saveBuf ?d' = []" "in_sync e' ?d'" using assms(1,3) by (simp_all add: in_sync_def meta_decoder_def e')
  show thesis
  proof (cases "bs = []")
    case True
    then have "?d\<lparr>dbuf := []\<rparr> = ?d\<lparr>dbuf := [], emitted := emitted ?d @ fs, firstField := (fs = [] \<and> firstField ?d)\<rparr>"
      using loop [of 0] by (simp add: write_loop.simps)
    from arg_cong [OF this, of emitted] have "fs = []" by simp
    then show thesis using True assms(1,3) that [of ?d 0]
      by (simp add: decoder_Write_def meta_decoder_def in_sync_def e')
  next
    case False
    then have "decoder_Write ?d bs = Inr (?d', length bs, None)"
      using loop [of "length bs"] assms(3) by (simp add: decoder_Write_def meta_decoder_def)
    with s that show thesis by simp
  qed
qed

lemma finishMeta_collected:
  assumes "ReadMetaHeaders fr = Some d" and "emitted d = fs" and "saveBuf d = []" and "checkPseudos fs = None"
    and "valid_fields fs" and "list_size fs \<le> unat (maxHeaderListSize fr)"
  shows "finishMeta fr h p = Inr (stopMeta (fr\<lparr>ReadMetaHeaders := Some (d\<lparr>firstField := True\<rparr>)\<rparr>),
    Inr (MetaHeadersFrame (h\<lparr>fh_valid := False\<rparr>) p \<lparr>mh_Fields = fs, Truncated = False\<rparr>))"
  using meta_after_collected [OF assms(5,6)] assms(1-4)
  by (simp add: finishMeta_def decoder_Close_def collected_def Let_def)

context full_reader
begin

lemma ReadFrame_block:
  assumes "content (fr_r fr) = wire_of (SHeaders p) @ rest" and "legal (SHeaders p)" and "framer_ok fr"
    and "length (payload_of (SHeaders p)) \<le> unat (maxReadSize fr)" and "\<not> AllowIllegalReads fr"
    and "lastHeaderStream fr = 0" and "ReadMetaHeaders fr = Some d" and "hp_EndHeaders p"
    and "decoder_Write (meta_decoder fr d) (hp_BlockFragment p) = Inr (d', n, None)" and "saveBuf d' = []"
    and "emitted d' = fs" and "valid_fields fs" and "list_size fs \<le> unat (maxHeaderListSize fr)"
    and "checkPseudos fs = None"
  shows "\<exists>fr' h. ReadFrame rd fr = Some (Inr (fr', Inr (MetaHeadersFrame h (hp_Priority p)
      \<lparr>mh_Fields = fs, Truncated = False\<rparr>))) \<and> content (fr_r fr') = rest \<and> fh_StreamID h = hp_StreamID p"
proof -
  let ?h = "header_of (SHeaders p)"
  have h: "fh_Type ?h = FrameHeaders" "fh_StreamID ?h = hp_StreamID p" "fh_valid ?h" "Has (fh_Flags ?h) 4"
    using assms(8) by (simp_all add: header_of_def wire_header_def)
  then have order: "order_step (lastHeaderStream fr) (received (SHeaders p)) = Some 0"
    by (simp add: order_step_def HeadersEnded_def assms(6))
  obtain fr1 where one: "readFrame_one rd fr = Some (Inr (fr1, Inr (received (SHeaders p))))"
    "content (fr_r fr1) = rest" "same_config fr fr1"
    using readFrame_one_received [OF assms(1-5)] order by auto
  have limit: "maxHeaderListSize fr1 = maxHeaderListSize fr" "meta_decoder fr1 d = meta_decoder fr d"
    using one(3) by (simp_all add: same_config_def maxHeaderListSize_def meta_decoder_def maxHeaderStringLength_def)
  let ?fr = "fr1\<lparr>ReadMetaHeaders := Some (meta_decoder fr d)\<rparr>"
  have "ReadFrame rd fr = read_run rd ?fr (Some (?h, hp_Priority p, received (SHeaders p)))"
    using one h(1) assms(5,7)
    by (simp add: ReadFrame_def read_run.simps [of rd fr] startMeta_decoder limit same_config_def)
  also have "\<dots> = Some (finishMeta (fr1\<lparr>ReadMetaHeaders := Some d'\<rparr>) ?h (hp_Priority p))"
    using h(3,4) assms(9)
    by (simp add: read_run.simps [of rd ?fr] frame_bytes_def checkValid_def metaWrite_def HeadersEnded_def)
  finally show ?thesis
    using finishMeta_collected [of "fr1\<lparr>ReadMetaHeaders := Some d'\<rparr>" d' fs ?h "hp_Priority p"] assms(10-14) one(2) h(2) limit(1)
    by (simp add: stopMeta_def)
qed

end

text \<open>A request of two fields.\<close>

definition example_request :: "HeaderField list" where
  "example_request = [\<lparr>Name = '':method'', Value = ''GET'', Sensitive = False\<rparr>,
     \<lparr>Name = '':path'', Value = ''/'', Sensitive = False\<rparr>]"

definition example_param :: HeadersFrameParam where
  "example_param = \<lparr>hp_StreamID = 1, hp_BlockFragment = [0x82, 0x84], hp_EndStream = True, hp_EndHeaders = True,
     hp_PadLength = 3, hp_Priority = \<lparr>StreamDep = 3, Exclusive = True, Weight = 7\<rparr>\<rparr>"

lemma example_request_ok:
  "valid_fields example_request" "checkPseudos example_request = None" "list_size example_request = 80"
  "\<forall>f \<in> set example_request. unindexed example_encoder f"
  "legal (SHeaders example_param)" "hp_EndHeaders example_param"
proof -
  show "valid_fields example_request"
    by (simp add: example_request_def valid_fields_def ValidHeaderFieldValue_def isCTL_def IsPseudo_def)
  show "checkPseudos example_request = None"
    by (simp add: example_request_def checkPseudos_def IsPseudo_def Let_def)
  show "list_size example_request = 80" by (simp add: example_request_def list_size_def)
  have "searchTable example_encoder \<lparr>Name = '':method'', Value = ''GET'', Sensitive = False\<rparr> = Inr (2, True)"
    "searchTable example_encoder \<lparr>Name = '':path'', Value = ''/'', Sensitive = False\<rparr> = Inr (4, True)"
    by code_simp+
  then show "\<forall>f \<in> set example_request. unindexed example_encoder f" by (simp add: example_request_def unindexed_def)
  show "legal (SHeaders example_param)" "hp_EndHeaders example_param"
    by (simp_all add: example_param_def legal_def payload_of_def validStreamID_def
      validStreamIDOrZero_def pad_field_def IsZero_def zeroPriority_def)
qed

lemma example_request_encoded:
  "\<exists>e'. encode_fields example_encoder example_request = Inr (e', hp_BlockFragment example_param)"
proof -
  have "(case encode_fields example_encoder example_request of Inr (_, bs) \<Rightarrow> Some bs | _ \<Rightarrow> None)
      = Some (hp_BlockFragment example_param)" by code_simp
  then show ?thesis by (auto split: sum.splits prod.splits)
qed

lemma example_request_read:
  "\<exists>fr' h. ReadFrame Buffer_Read (NewFramer () (wire_of (SHeaders example_param))\<lparr>ReadMetaHeaders := Some example_decoder\<rparr>)
    = Some (Inr (fr', Inr (MetaHeadersFrame h (hp_Priority example_param) \<lparr>mh_Fields = example_request, Truncated = False\<rparr>)))"
proof -
  let ?fr = "NewFramer () (wire_of (SHeaders example_param))\<lparr>ReadMetaHeaders := Some example_decoder\<rparr>"
  have new: "fr_r ?fr = wire_of (SHeaders example_param) @ []" "\<not> AllowIllegalReads ?fr" "lastHeaderStream ?fr = 0"
    "framer_ok ?fr" "length (payload_of (SHeaders example_param)) \<le> unat (maxReadSize ?fr)"
    "ReadMetaHeaders ?fr = Some example_decoder" "list_size example_request \<le> unat (maxHeaderListSize ?fr)"
    using example_request_ok(3,5)
    by (simp_all add: NewFramer_def SetMaxReadFrameSize_def maxFrameSize_def legal_def framer_ok_def maxHeaderListSize_def)
  obtain e' where e': "encode_fields example_encoder example_request = Inr (e', hp_BlockFragment example_param)"
    using example_request_encoded by blast
  obtain d' n where "decoder_Write (meta_decoder ?fr example_decoder) (hp_BlockFragment example_param) = Inr (d', n, None)"
    "emitted d' = example_request" "saveBuf d' = []"
    by (rule decode_block [OF example_sync _ _ example_request_ok(4,1) new(7) e'])
      (simp_all add: example_encoder_def example_decoder_def)
  from buffer.ReadFrame_block [OF new(1) example_request_ok(5) new(4,5,2,3,6) example_request_ok(6) this(1,3,2)
      example_request_ok(1) new(7) example_request_ok(2)]
  show ?thesis by blast
qed

section \<open>Properties\<close>

text \<open>
  C17: Header lists survive the wire. A client encodes fields that its encoder does not index, puts the block
  into a HEADERS frame (with any padding and priority) and writes it; a framer whose decoder is in step
  reads one frame and delivers exactly these fields in order, provided they are well formed and fit the
  reader's limit. This is the composition of the HPACK encoder, the frame writer, the frame parser, the
  HPACK decoder and the collection of fields by \<open>readMetaFrame\<close>.
\<close>
theorem header_list_roundtrip:
  assumes "in_sync e d" and "\<not> tableSizeUpdate e" and "saveBuf d = []" and "\<forall>f \<in> set fs. unindexed e f"
    and "encode_fields e fs = Inr (e', hp_BlockFragment p)" and "legal (SHeaders p)" and "hp_EndHeaders p"
    and "valid_fields fs" and "checkPseudos fs = None" and "list_size fs \<le> 0x1000000"
  shows "\<exists>f fr h. WriteHeaders Buffer_Write (NewFramer [] r) p = (f, None)
    \<and> ReadFrame Buffer_Read (NewFramer w (fr_w f)\<lparr>ReadMetaHeaders := Some d\<rparr>)
      = Some (Inr (fr, Inr (MetaHeadersFrame h (hp_Priority p) \<lparr>mh_Fields = fs, Truncated = False\<rparr>)))
    \<and> fh_StreamID h = hp_StreamID p \<and> fr_r fr = []"
proof -
  obtain f where f: "WriteHeaders Buffer_Write (NewFramer [] r) p = (f, None)" "fr_w f = wire_of (SHeaders p)"
    using mem.write_sent_wire [OF assms(6), of "NewFramer [] r"]
    by (auto simp: mem.writes_frame_def NewFramer_def SetMaxReadFrameSize_def)
  let ?fr = "NewFramer w (fr_w f)\<lparr>ReadMetaHeaders := Some d\<rparr>"
  have new: "fr_r ?fr = wire_of (SHeaders p) @ []" "\<not> AllowIllegalReads ?fr" "lastHeaderStream ?fr = 0"
    "framer_ok ?fr" "length (payload_of (SHeaders p)) \<le> unat (maxReadSize ?fr)" "ReadMetaHeaders ?fr = Some d"
    "unat (maxHeaderListSize ?fr) = 0x1000000"
    using assms(6) f(2)
    by (simp_all add: NewFramer_def SetMaxReadFrameSize_def maxFrameSize_def legal_def framer_ok_def maxHeaderListSize_def)
  have fits: "list_size fs \<le> unat (maxHeaderListSize ?fr)" using assms(10) new(7) by simp
  obtain d' n where "decoder_Write (meta_decoder ?fr d) (hp_BlockFragment p) = Inr (d', n, None)"
    "emitted d' = fs" "saveBuf d' = []"
    by (rule decode_block [OF assms(1-4,8) fits assms(5)])
  from buffer.ReadFrame_block [OF new(1) assms(6) new(4,5,2,3,6) assms(7) this(1,3,2) assms(8) fits assms(9)] f(1)
  show ?thesis by auto
qed

theorem header_list_roundtrip_witness:
  "\<exists>f fr h. WriteHeaders Buffer_Write (NewFramer [] ()) example_param = (f, None)
    \<and> ReadFrame Buffer_Read (NewFramer () (fr_w f)\<lparr>ReadMetaHeaders := Some example_decoder\<rparr>)
      = Some (Inr (fr, Inr (MetaHeadersFrame h (hp_Priority example_param) \<lparr>mh_Fields = example_request, Truncated = False\<rparr>)))
    \<and> fh_StreamID h = hp_StreamID example_param \<and> fr_r fr = []"
proof -
  obtain e' where "encode_fields example_encoder example_request = Inr (e', hp_BlockFragment example_param)"
    using example_request_encoded by blast
  then show ?thesis
    by (intro header_list_roundtrip [OF example_sync]) (use example_request_ok in
      \<open>auto simp: example_encoder_def example_decoder_def\<close>)
qed

text \<open>
  \<open>checkPseudos\<close> accepts a header list exactly when each of its leading pseudo fields is a known one,
  none occurs twice, and they do not mix those of a request with that of a response.
\<close>
lemma checkPseudos_iff:
  "checkPseudos hfs = None \<longleftrightarrow>
     list_all (\<lambda>f. request_pseudo f \<or> response_pseudo f) (PseudoFields hfs)
     \<and> distinct (map Name (PseudoFields hfs))
     \<and> \<not> (list_ex request_pseudo (PseudoFields hfs) \<and> list_ex response_pseudo (PseudoFields hfs))"
  unfolding checkPseudos_def pseudos_loop_None by (simp add: list_all_iff list_ex_iff)

text \<open>
  What a delivered list looks like, without reference to the checks of the code: no value has a control
  byte other than the tab, and the list is a group of pseudo fields, those of a request or that of a
  response and each at most once, followed by fields whose names are non-empty and made of the lower-case
  token characters of RFC 7230.
\<close>
definition text_byte :: "char \<Rightarrow> bool" where
  "text_byte c \<longleftrightarrow> c = CHR 0x09 \<or> 32 \<le> (of_char c :: nat) \<and> (of_char c :: nat) \<noteq> 127"

definition lower_tchar :: "char \<Rightarrow> bool" where
  "lower_tchar c \<longleftrightarrow> c \<in> set (''!#$%&'' @ [CHR 0x27] @ ''*+-.0123456789^_'' @ [CHR 0x60] @ ''abcdefghijklmnopqrstuvwxyz|~'')"

definition well_formed_list :: "HeaderField list \<Rightarrow> bool" where
  "well_formed_list fs \<longleftrightarrow> (\<forall>f \<in> set fs. \<forall>c \<in> set (Value f). text_byte c) \<and>
     (\<exists>ps rs. fs = ps @ rs \<and> distinct (map Name ps)
       \<and> (set (map Name ps) \<subseteq> {'':method'', '':path'', '':scheme'', '':authority''} \<or> set (map Name ps) \<subseteq> {'':status''})
       \<and> (\<forall>f \<in> set rs. Name f \<noteq> [] \<and> (\<forall>c \<in> set (Name f). lower_tchar c)))"

lemma text_value: "ValidHeaderFieldValue v \<longleftrightarrow> (\<forall>c \<in> set v. text_byte c)"
proof -
  have "isCTL c \<and> \<not> isLWS c \<longleftrightarrow> \<not> text_byte c" for c
  proof -
    have "(of_char c :: nat) = 127 \<longleftrightarrow> c = CHR 0x7F" "(of_char c :: nat) = 32 \<longleftrightarrow> c = CHR '' ''"
      using of_char_eq_iff [where ?'a = nat, of c "CHR 0x7F"] of_char_eq_iff [where ?'a = nat, of c "CHR '' ''"] by simp_all
    then show ?thesis by (auto simp: isCTL_def isLWS_def text_byte_def)
  qed
  then show ?thesis by (simp add: ValidHeaderFieldValue_def list_all_iff)
qed

lemma IsTokenRune_iff: "IsTokenRune i \<longleftrightarrow> i < 127 \<and> char_of i \<in> set tokenChars"
  by (auto simp: IsTokenRune_def isTokenTable_def)

lemma lower_name: "validWireHeaderFieldName v \<longleftrightarrow> v \<noteq> [] \<and> (\<forall>c \<in> set v. lower_tchar c)"
proof -
  have tokens: "filter (\<lambda>c. \<not> (65 \<le> (of_char c :: nat) \<and> of_char c \<le> (90 :: nat))) tokenChars
      = ''!#$%&'' @ [CHR 0x27] @ ''*+-.0123456789^_'' @ [CHR 0x60] @ ''abcdefghijklmnopqrstuvwxyz|~''"
    by code_simp
  have lower: "lower_tchar c \<longleftrightarrow> c \<in> set tokenChars \<and> \<not> (65 \<le> (of_char c :: nat) \<and> of_char c \<le> (90 :: nat))" for c
    unfolding lower_tchar_def tokens [symmetric] by simp
  have "list_all (\<lambda>c. (of_char c :: nat) < 127) tokenChars" by code_simp
  then have "IsTokenRune (of_char c) \<and> \<not> (65 \<le> (of_char c :: nat) \<and> of_char c \<le> (90 :: nat)) \<longleftrightarrow> lower_tchar c" for c
    unfolding lower IsTokenRune_iff by (auto simp: list_all_iff)
  then have "wire_name_loop v \<longleftrightarrow> (\<forall>c \<in> set v. lower_tchar c)" by (induction v) auto
  then show ?thesis by (auto simp: validWireHeaderFieldName_def)
qed

lemma good_well_formed:
  assumes "valid_fields fs" and "checkPseudos fs = None"
  shows "well_formed_list fs"
proof -
  have "\<forall>f \<in> set (RegularFields fs). Name f \<noteq> [] \<and> (\<forall>c \<in> set (Name f). lower_tchar c)"
    using assms(1) set_dropWhileD [of _ IsPseudo fs]
    unfolding valid_fields_def lower_name RegularFields_dropWhile by blast
  moreover have "set (map Name (PseudoFields fs)) \<subseteq> {'':method'', '':path'', '':scheme'', '':authority''}
      \<or> set (map Name (PseudoFields fs)) \<subseteq> {'':status''}"
    using assms(2) unfolding checkPseudos_iff list_all_iff list_ex_iff request_pseudo_def response_pseudo_def
    by auto
  moreover have "fs = PseudoFields fs @ RegularFields fs"
    by (simp add: PseudoFields_takeWhile RegularFields_dropWhile)
  ultimately show ?thesis using assms unfolding well_formed_list_def checkPseudos_iff valid_fields_def text_value by blast
qed

text \<open>
  C23: What the framer delivers is a well-formed header list within its limit, whatever the reader and the
  peer do: the sizes of the fields (name, value and 32 bytes of overhead each) add up to at most the
  limit, no value contains a control byte other than the tab, and the fields are pseudo fields of a
  request or of a response, each at most once, followed by regular ones with lower-case token names.
\<close>
theorem header_list_bounded:
  assumes "ReadFrame rd fr = Some (Inr (fr', Inr (MetaHeadersFrame h p m)))"
  shows "sum_list (map (\<lambda>f. unat (Size f)) (mh_Fields m)) \<le> unat (maxHeaderListSize fr)
    \<and> well_formed_list (mh_Fields m)"
  using read_run_good [OF assms [unfolded ReadFrame_def]] by (simp add: good_result_def good_list_def good_well_formed)

theorem header_list_bounded_witness:
  "\<exists>fr' h p m. ReadFrame Buffer_Read
      (NewFramer () (wire_of (SHeaders example_param))\<lparr>ReadMetaHeaders := Some example_decoder\<rparr>)
      = Some (Inr (fr', Inr (MetaHeadersFrame h p m)))
    \<and> sum_list (map (\<lambda>f. unat (Size f)) (mh_Fields m)) \<le> unat (maxHeaderListSize
        (NewFramer () (wire_of (SHeaders example_param))\<lparr>ReadMetaHeaders := Some example_decoder\<rparr>))
    \<and> well_formed_list (mh_Fields m)"
  using example_request_read header_list_bounded by blast

end
