(* ===== verification/Http2Response.thy ===== *)
theory Http2Response
  imports Http2Server Http2Headers
begin

text \<open>
  Responses from the server's headers to the fields that a client's framer delivers: the fields that
  \<open>writeResHeaders\<close> encodes (\<open>res_fields\<close>), the frames that \<open>splitHeaderBlock\<close> makes of the encoded block
  (\<open>block_frames\<close>), and a reader that puts the pieces together again, on top of \<open>HpackChunks\<close>. The cache of
  lower-case names is shown to change nothing, and the estimates of \<open>staysWithinBuffer\<close> to be enough.
\<close>

unbundle bit_operations_syntax

section \<open>The cache of names\<close>

definition plain_char :: "char \<Rightarrow> bool" where
  "plain_char c \<longleftrightarrow> c \<in> set ''-abcdefghijklmnopqrstuvwxyz''"

lemma plain_char_ok:
  assumes "plain_char c"
  shows "IsTokenRune (of_char c)" "lower_char (upper_char c) = c" "lower_char c = c"
    "\<not> (of_char c :: nat) < 32" "\<not> (of_char c :: nat) > 126"
    "\<not> (of_char (upper_char c) :: nat) < 32" "\<not> (of_char (upper_char c) :: nat) > 126"
    "\<not> ((65 :: nat) \<le> of_char c \<and> of_char c \<le> (90 :: nat))"
proof -
  have "list_all (\<lambda>c. IsTokenRune (of_char c) \<and> lower_char (upper_char c) = c \<and> lower_char c = c
      \<and> \<not> (of_char c :: nat) < 32 \<and> \<not> (of_char c :: nat) > 126
      \<and> \<not> (of_char (upper_char c) :: nat) < 32 \<and> \<not> (of_char (upper_char c) :: nat) > 126
      \<and> \<not> ((65 :: nat) \<le> of_char c \<and> of_char c \<le> (90 :: nat))) ''-abcdefghijklmnopqrstuvwxyz''"
    by (simp add: IsTokenRune_iff tokenChars_def lower_char_def upper_char_def, code_simp)
  with assms show "IsTokenRune (of_char c)" "lower_char (upper_char c) = c" "lower_char c = c"
    "\<not> (of_char c :: nat) < 32" "\<not> (of_char c :: nat) > 126"
    "\<not> (of_char (upper_char c) :: nat) < 32" "\<not> (of_char (upper_char c) :: nat) > 126"
    "\<not> ((65 :: nat) \<le> of_char c \<and> of_char c \<le> (90 :: nat))"
    unfolding plain_char_def list_all_iff by blast+
qed

lemma canonical_lower:
  "list_all plain_char s \<Longrightarrow> isASCIIPrint (canonical_from b s) \<and> map lower_char (canonical_from b s) = s"
  by (induction s arbitrary: b) (auto simp: isASCIIPrint_def plain_char_ok)

lemma asciiToLower_canonical: "list_all plain_char s \<Longrightarrow> asciiToLower (CanonicalHeaderKey s) = (s, True)"
proof -
  assume s: "list_all plain_char s"
  then have "list_all (\<lambda>c. IsTokenRune (of_char c)) s" by (auto simp: list_all_iff plain_char_ok)
  with canonical_lower [OF s] show ?thesis by (simp add: CanonicalHeaderKey_def asciiToLower_def)
qed

lemma common_plain: "v \<in> set common \<Longrightarrow> list_all plain_char v"
proof -
  have "list_all (list_all plain_char) common" by (simp add: common_def plain_char_def)
  then show "v \<in> set common \<Longrightarrow> list_all plain_char v" by (simp add: list_all_iff)
qed

lemma foldl_upd_Some:
  "foldl (\<lambda>m v. m(f v \<mapsto> g v)) m xs k = Some s \<Longrightarrow> m k = Some s \<or> (\<exists>v \<in> set xs. k = f v \<and> s = g v)"
  by (induction xs arbitrary: m) (fastforce split: if_splits)+

lemma names_uncached: "lowerHeader v = asciiToLower v \<and> canonicalHeader v = CanonicalHeaderKey v"
proof -
  have "lowerHeader v = asciiToLower v"
  proof (cases "commonLowerHeader v")
    case (Some s)
    then have "s \<in> set common \<and> v = CanonicalHeaderKey s"
      unfolding commonLowerHeader_def using foldl_upd_Some [of CanonicalHeaderKey "\<lambda>v. v" Map.empty common v s] by auto
    with Some asciiToLower_canonical [OF common_plain] show ?thesis by (simp add: lowerHeader_def)
  qed (simp add: lowerHeader_def)
  moreover have "canonicalHeader v = CanonicalHeaderKey v"
  proof (cases "commonCanonHeader v")
    case (Some s)
    then have "s = CanonicalHeaderKey v"
      unfolding commonCanonHeader_def using foldl_upd_Some [of "\<lambda>v. v" CanonicalHeaderKey Map.empty common v s] by auto
    with Some show ?thesis by (simp add: canonicalHeader_def)
  qed (simp add: canonicalHeader_def)
  ultimately show ?thesis ..
qed

section \<open>The fields of a response\<close>

definition plain_field :: "string \<Rightarrow> string \<Rightarrow> HeaderField" where
  "plain_field k v = \<lparr>Name = k, Value = v, Sensitive = False\<rparr>"

definition value_fields :: "string \<Rightarrow> string list \<Rightarrow> HeaderField list" where
  "value_fields k vv = map (plain_field k)
     (filter (\<lambda>v. ValidHeaderFieldValue v \<and> (k = ''transfer-encoding'' \<longrightarrow> v = ''trailers'')) vv)"

definition key_fields :: "http_Header \<Rightarrow> string \<Rightarrow> HeaderField list" where
  "key_fields h k = (case lowerHeader k of (k', ascii) \<Rightarrow>
     if ascii \<and> validWireHeaderFieldName k' then value_fields k' (case map_of h k of None \<Rightarrow> [] | Some vv \<Rightarrow> vv) else [])"

definition header_fields :: "http_Header \<Rightarrow> string list option \<Rightarrow> HeaderField list" where
  "header_fields h keys = concat (map (key_fields h) (case keys of None \<Rightarrow> Keys h | Some ks \<Rightarrow> ks))"

definition field_if :: "bool \<Rightarrow> string \<Rightarrow> string \<Rightarrow> HeaderField list" where
  "field_if b k v = (if b then [plain_field k v] else [])"

definition res_fields :: "writeResHeaders \<Rightarrow> HeaderField list" where
  "res_fields w = field_if (httpResCode w \<noteq> 0) '':status'' (httpCodeString (httpResCode w))
     @ header_fields (rh_h w) (trailers w)
     @ field_if (contentType w \<noteq> '''') ''content-type'' (contentType w)
     @ field_if (contentLength w \<noteq> '''') ''content-length'' (contentLength w)
     @ field_if (date w \<noteq> '''') ''date'' (date w)"

text \<open>Encoding a list of fields into the buffer of the context.\<close>

definition encode_list :: "('r, 'w) writeContext \<Rightarrow> HeaderField list \<Rightarrow> ('r, 'w) writeContext res" where
  "encode_list c fs = go_bind (encode_fields (wc_enc c) fs) (\<lambda>(e, bs). Inr (c\<lparr>wc_enc := e, wc_buf := wc_buf c @ bs\<rparr>))"

lemma encode_list_Nil [simp]: "encode_list c [] = Inr c"
  by (simp add: encode_list_def)

lemma go_bind_assoc: "go_bind (go_bind m f) g = go_bind m (\<lambda>x. go_bind (f x) g)"
  by (cases m) simp_all

lemma encode_list_Cons:
  "encode_list c (plain_field k v # fs) = go_bind (encKV c k v) (\<lambda>c. encode_list c fs)"
  by (cases "WriteField accept_all (wc_enc c) (plain_field k v)")
    (auto simp: encode_list_def encKV_def plain_field_def [symmetric] go_bind_assoc split_def)

lemma encode_fields_append:
  "encode_fields e (fs @ gs) = go_bind (encode_fields e fs) (\<lambda>(e, bs).
     go_bind (encode_fields e gs) (\<lambda>(e', bs'). Inr (e', bs @ bs')))"
proof (induction fs arbitrary: e)
  case Nil
  show ?case by (cases "encode_fields e gs") auto
next
  case (Cons f fs)
  then show ?case by (simp add: go_bind_assoc split_def)
qed

lemma encode_list_append: "encode_list c (fs @ gs) = go_bind (encode_list c fs) (\<lambda>c. encode_list c gs)"
  by (simp add: encode_list_def encode_fields_append go_bind_assoc split_def)

lemma encKV_if_list: "encKV_if b c k v = encode_list c (field_if b k v)"
  by (simp add: encKV_if_def field_if_def encode_list_Cons go_bind_def split: sum.splits)

lemma encode_values_list: "encode_values c k vv = encode_list c (value_fields k vv)"
  by (induction vv arbitrary: c) (auto simp: value_fields_def encode_list_Cons)

lemma encode_keys_list: "encode_keys c h ks = encode_list c (concat (map (key_fields h) ks))"
  by (induction ks arbitrary: c) (auto simp: key_fields_def encode_list_append encode_values_list Let_def split: prod.splits)

lemma encodeHeaders_list: "encodeHeaders c h keys = encode_list c (header_fields h keys)"
  by (simp add: encodeHeaders_def header_fields_def encode_keys_list)

lemma res_writeFrame_eq:
  "res_writeFrame wr c w = go_bind (encode_fields (wc_enc c) (res_fields w)) (\<lambda>(e, bs).
     if bs = [] \<and> trailers w = None then Inl (Panic ''unexpected empty hpack'')
     else Inr (splitHeaderBlock (res_writeHeaderBlock wr w) (c\<lparr>wc_enc := e, wc_buf := bs\<rparr>) bs True))"
proof -
  have "res_writeFrame wr c w = go_bind (encode_list (resetBuffer c) (res_fields w)) (\<lambda>c.
      if length (wc_buf c) = 0 \<and> trailers w = None then Inl (Panic ''unexpected empty hpack'')
      else Inr (splitHeaderBlock (res_writeHeaderBlock wr w) c (wc_buf c) True))"
    by (simp add: res_writeFrame_def res_fields_def encode_list_append encKV_if_list encodeHeaders_list go_bind_assoc Let_def)
  then show ?thesis by (simp add: encode_list_def resetBuffer_def go_bind_assoc split_def cong: if_cong)
qed

section \<open>Header lists of a response are well formed\<close>

lemma wire_name_not_pseudo: "validWireHeaderFieldName k \<Longrightarrow> \<not> IsPseudo (plain_field k v)"
proof -
  assume k: "validWireHeaderFieldName k"
  then obtain c s where c: "k = c # s" "IsTokenRune (of_char c)"
    by (cases k) (auto simp: validWireHeaderFieldName_def split: if_splits)
  moreover have "\<not> IsTokenRune (of_char CHR '':'')" unfolding IsTokenRune_iff by code_simp
  ultimately show ?thesis by (auto simp: IsPseudo_def plain_field_def)
qed

definition regular_ok :: "HeaderField \<Rightarrow> bool" where
  "regular_ok f \<longleftrightarrow> ValidHeaderFieldValue (Value f) \<and> validWireHeaderFieldName (Name f) \<and> \<not> IsPseudo f"

lemma header_fields_ok: "f \<in> set (header_fields h keys) \<Longrightarrow> regular_ok f"
  by (auto simp: header_fields_def key_fields_def value_fields_def regular_ok_def wire_name_not_pseudo
      split: prod.splits if_splits) (simp_all add: plain_field_def)

lemma valid_fields_regular:
  assumes "valid_fields fs" and "\<forall>g \<in> set gs. regular_ok g"
  shows "valid_fields (fs @ gs)"
  using assms(2)
proof (induction gs rule: rev_induct)
  case (snoc g gs)
  then have "valid_fields ((fs @ gs) @ [g])" by (subst valid_fields_snoc) (auto simp: regular_ok_def)
  then show ?case by simp
qed (simp add: assms(1))

lemma dec_valid: "ValidHeaderFieldValue (dec n)"
proof (induction n rule: dec.induct)
  case (1 n)
  have digit: "\<not> isCTL (char_of (48 + d))" if "d < 10" for d :: nat
  proof -
    have "(of_char (char_of (48 + d) :: char) :: nat) = 48 + d" using that by (simp add: of_char_of)
    then have "(of_char (char_of (48 + d) :: char) :: nat) \<noteq> 127" "\<not> (of_char (char_of (48 + d) :: char) :: nat) < 32"
      using that by simp_all
    moreover have "(of_char CHR 0x7F :: nat) = 127" by simp
    ultimately show ?thesis unfolding isCTL_def by metis
  qed
  show ?case
    using 1 digit [of n] digit [of "n mod 10"] by (subst dec.simps) (simp add: ValidHeaderFieldValue_def)
qed

lemma httpCodeString_valid: "ValidHeaderFieldValue (httpCodeString code)"
  using dec_valid by (simp add: httpCodeString_def Itoa_def ValidHeaderFieldValue_def isCTL_def)

lemma plain_wire_name: "k \<noteq> [] \<Longrightarrow> list_all plain_char k \<Longrightarrow> validWireHeaderFieldName k"
proof -
  have "wire_name_loop k" if "list_all plain_char k" for k
    using that
  proof (induction k)
    case (Cons c k)
    then have c: "plain_char c" by simp
    show ?case using Cons plain_char_ok(1) [OF c] plain_char_ok(8) [OF c] by simp
  qed simp
  then show "k \<noteq> [] \<Longrightarrow> list_all plain_char k \<Longrightarrow> validWireHeaderFieldName k"
    by (simp add: validWireHeaderFieldName_def)
qed

lemma res_fields_valid:
  assumes "ValidHeaderFieldValue (contentType w)" and "ValidHeaderFieldValue (contentLength w)" and "ValidHeaderFieldValue (date w)"
  shows "valid_fields (res_fields w)" "checkPseudos (res_fields w) = None"
proof -
  let ?s = "field_if (httpResCode w \<noteq> 0) '':status'' (httpCodeString (httpResCode w))"
  define gs where "gs = header_fields (rh_h w) (trailers w)
     @ field_if (contentType w \<noteq> '''') ''content-type'' (contentType w)
     @ field_if (contentLength w \<noteq> '''') ''content-length'' (contentLength w)
     @ field_if (date w \<noteq> '''') ''date'' (date w)"
  have res: "res_fields w = ?s @ gs" by (simp add: res_fields_def gs_def)
  have name: "regular_ok (plain_field k v)" if "k \<noteq> []" "list_all plain_char k" "ValidHeaderFieldValue v" for k v
    using plain_wire_name [OF that(1,2)] that(3) wire_name_not_pseudo by (auto simp: regular_ok_def) (simp_all add: plain_field_def)
  have gs: "\<forall>g \<in> set gs. regular_ok g"
    using assms by (auto simp: gs_def field_if_def header_fields_ok intro!: name) (simp_all add: plain_char_def)
  have ps: "IsPseudo (plain_field '':status'' v)" for v by (simp add: IsPseudo_def plain_field_def)
  have s: "valid_fields ?s" using ps httpCodeString_valid
    by (auto simp: valid_fields_def field_if_def RegularFields_dropWhile) (simp add: plain_field_def)
  show "valid_fields (res_fields w)" unfolding res by (rule valid_fields_regular [OF s gs])
  have "takeWhile IsPseudo gs = []" using gs by (cases gs) (auto simp: regular_ok_def)
  then have "PseudoFields (res_fields w) = ?s"
    unfolding res by (subst PseudoFields_takeWhile) (simp add: takeWhile_append field_if_def ps)
  then show "checkPseudos (res_fields w) = None"
    by (simp add: checkPseudos_def field_if_def plain_field_def Let_def)
qed

section \<open>The frames of a block\<close>

function chop :: "u8 list \<Rightarrow> u8 list list" where
  "chop bs = (if bs = [] then [] else take splitSize bs # chop (drop splitSize bs))"
  by pat_completeness auto
termination by (relation "measure length") (auto simp: splitSize_def)

declare chop.simps [simp del]

lemma concat_chop: "concat (chop bs) = bs"
proof (induction bs rule: chop.induct)
  case (1 bs)
  then show ?case by (subst chop.simps) auto
qed

lemma chop_pieces: "p \<in> set (chop bs) \<Longrightarrow> p \<noteq> [] \<and> length p \<le> splitSize"
proof (induction bs rule: chop.induct)
  case (1 bs)
  then show ?case by (subst (asm) (2) chop.simps) (auto simp: splitSize_def split: if_splits)
qed

lemma chop_Nil [simp]: "chop bs = [] \<longleftrightarrow> bs = []"
  by (subst chop.simps) simp

lemma chop_empty [simp]: "chop [] = []"
  by simp

fun continuations :: "u32 \<Rightarrow> u8 list list \<Rightarrow> sent list" where
  "continuations sid [] = []"
| "continuations sid (p # ps) = SContinuation sid (ps = []) p # continuations sid ps"

definition res_headers :: "writeResHeaders \<Rightarrow> u8 list \<Rightarrow> bool \<Rightarrow> HeadersFrameParam" where
  "res_headers w frag lastFrag = \<lparr>hp_StreamID = rh_streamID w, hp_BlockFragment = frag, hp_EndStream = rh_endStream w,
     hp_EndHeaders = lastFrag, hp_PadLength = 0, hp_Priority = zeroPriority\<rparr>"

fun block_frames :: "writeResHeaders \<Rightarrow> u8 list list \<Rightarrow> sent list" where
  "block_frames w [] = []"
| "block_frames w (p # ps) = SHeaders (res_headers w p (ps = [])) # continuations (rh_streamID w) ps"

lemma splitHeaderBlock_step:
  assumes "bs \<noteq> []"
  shows "splitHeaderBlock fn c bs first = (case fn c (take splitSize bs) first (drop splitSize bs = []) of
     (c, Some err) \<Rightarrow> (c, Some err) | (c, None) \<Rightarrow> splitHeaderBlock fn c (drop splitSize bs) False)"
proof -
  have "(if length bs > splitSize then take splitSize bs else bs) = take splitSize bs" by simp
  moreover have "drop (length (take splitSize bs)) bs = drop splitSize bs" by (cases "length bs \<le> splitSize") (simp_all add: min_def)
  ultimately show ?thesis using assms by (subst splitHeaderBlock.simps) (simp only: Let_def, simp)
qed

lemma splitHeaderBlock_Nil [simp]: "splitHeaderBlock fn c [] first = (c, None)"
  by (subst splitHeaderBlock.simps) simp

lemma split_continuations:
  "splitHeaderBlock (res_writeHeaderBlock wr w) c bs False
    = with_framer c (write_frames wr (wc_Framer c) (continuations (rh_streamID w) (chop bs)))"
proof (induction bs arbitrary: c rule: chop.induct)
  case (1 bs)
  show ?case
  proof (cases "bs = []")
    case True
    then show ?thesis by (simp add: with_framer_def)
  next
    case False
    then have "chop bs = take splitSize bs # chop (drop splitSize bs)" by (subst chop.simps) simp
    with False 1 show ?thesis
      by (simp add: splitHeaderBlock_step res_writeHeaderBlock_def with_framer_def split: prod.splits option.splits)
  qed
qed

lemma split_frames:
  "splitHeaderBlock (res_writeHeaderBlock wr w) c bs True
    = with_framer c (write_frames wr (wc_Framer c) (block_frames w (chop bs)))"
proof (cases "bs = []")
  case True
  then show ?thesis by (simp add: with_framer_def)
next
  case False
  then have "chop bs = take splitSize bs # chop (drop splitSize bs)" by (subst chop.simps) simp
  with False show ?thesis
    by (simp add: splitHeaderBlock_step split_continuations res_writeHeaderBlock_def res_headers_def with_framer_def
        split: prod.splits option.splits)
qed

lemma continuations_legal:
  assumes "validStreamID sid" and "\<forall>p \<in> set ps. length p \<le> splitSize"
  shows "\<forall>x \<in> set (continuations sid ps). legal x \<and> length (payload_of x) \<le> splitSize"
  using assms(2)
proof (induction ps)
  case (Cons p ps)
  then show ?case using assms(1) by (auto simp: legal_def payload_of_def splitSize_def)
qed simp

lemma block_frames_legal:
  assumes "validStreamID (rh_streamID w)"
  shows "\<forall>x \<in> set (block_frames w (chop bs)). legal x \<and> length (payload_of x) \<le> splitSize"
proof (cases "chop bs")
  case (Cons p ps)
  then have "\<forall>q \<in> set (p # ps). length q \<le> splitSize" using chop_pieces [of _ bs] by auto
  then show ?thesis using continuations_legal [of "rh_streamID w" ps] assms Cons
    by (auto simp: legal_def payload_of_def res_headers_def pad_field_def IsZero_def zeroPriority_def
        validStreamIDOrZero_def splitSize_def)
qed simp

section \<open>Reading the frames of a block\<close>

lemma HeadersEnded_received:
  "HeadersEnded (received (SContinuation sid eh b)) = eh"
  "HeadersEnded (received (SHeaders p)) = hp_EndHeaders p"
  by (simp_all add: HeadersEnded_def header_of_def wire_header_def)

lemma frame_bytes_received:
  "frame_bytes (received (SContinuation sid eh b)) = Inr b"
  "frame_bytes (received (SHeaders p)) = Inr (hp_BlockFragment p)"
  by (simp_all add: frame_bytes_def checkValid_def header_of_def wire_header_def)

lemma order_continuation:
  "sid \<noteq> 0 \<Longrightarrow> order_step sid (received (SContinuation sid eh b)) = Some (if eh then 0 else sid)"
  by (simp add: order_step_def HeadersEnded_received Header_received header_of_def wire_header_def del: received.simps)

context full_reader
begin

text \<open>The loop of \<open>readMetaFrame\<close> writes the fragments to the decoder one after the other.\<close>

lemma read_continuations:
  assumes "ReadMetaHeaders fr = Some d" and "frame_bytes hc = Inr b" and "HeadersEnded hc \<longleftrightarrow> ps = []"
    and "decoder_Writes d (b # ps) = Inr (d', None)" and "sid \<noteq> 0" and "ps \<noteq> [] \<longrightarrow> lastHeaderStream fr = sid"
    and "content (fr_r fr) = concat (map wire_of (continuations sid ps)) @ rest" and "framer_ok fr"
    and "\<forall>x \<in> set (continuations sid ps). legal x \<and> length (payload_of x) \<le> unat (maxReadSize fr)"
    and "\<not> AllowIllegalReads fr"
  shows "\<exists>fr'. read_run rd fr (Some (h, pr, hc)) = Some (finishMeta fr' h pr) \<and> ReadMetaHeaders fr' = Some d'
    \<and> content (fr_r fr') = rest \<and> MaxHeaderListSize fr' = MaxHeaderListSize fr"
  using assms
proof (induction ps arbitrary: fr d hc b)
  case Nil
  then obtain n where "decoder_Write d b = Inr (d', n, None)"
    by (auto simp: go_bind_eq_Inr split: option.splits)
  with Nil.prems show ?case
    by (intro exI [of _ "fr\<lparr>ReadMetaHeaders := Some d'\<rparr>"]) (simp add: read_run.simps [of rd fr] metaWrite_def)
next
  case (Cons p ps)
  let ?x = "SContinuation sid (ps = []) p"
  obtain d1 n where d1: "decoder_Write d b = Inr (d1, n, None)" "decoder_Writes d1 (p # ps) = Inr (d', None)"
    using Cons.prems(4) by (subst (asm) decoder_Writes.simps) (auto simp: go_bind_eq_Inr split: option.splits)
  let ?fr = "fr\<lparr>ReadMetaHeaders := Some d1\<rparr>"
  have pre: "content (fr_r ?fr) = wire_of ?x @ concat (map wire_of (continuations sid ps)) @ rest" "legal ?x" "framer_ok ?fr"
    "length (payload_of ?x) \<le> unat (maxReadSize ?fr)" "\<not> AllowIllegalReads ?fr" "lastHeaderStream ?fr = sid"
    using Cons.prems(6-10) by (simp_all add: framer_ok_def)
  obtain fr1 where one: "readFrame_one rd ?fr = Some (Inr (fr1, Inr (received ?x)))"
    "content (fr_r fr1) = concat (map wire_of (continuations sid ps)) @ rest" "framer_ok fr1" "same_config ?fr fr1"
    "maxReadSize fr1 = maxReadSize ?fr" "lastHeaderStream fr1 = (if ps = [] then 0 else sid)"
    using readFrame_one_received [OF pre(1-5)] order_continuation [OF Cons.prems(5), of "ps = []" p] pre(6) by auto
  have ty: "fh_Type (Header (received ?x)) \<noteq> FrameHeaders" by (simp add: header_of_def wire_header_def)
  have "read_run rd ?fr None = Some (Inr (fr1, Inr (received ?x)))"
    using one(1) ty by (simp add: read_run.simps [of rd ?fr])
  then have "read_run rd fr (Some (h, pr, hc)) = read_run rd fr1 (Some (h, pr, received ?x))"
    using Cons.prems(1-3) d1(1) by (simp add: read_run.simps [of rd fr] metaWrite_def)
  moreover have "\<exists>fr'. read_run rd fr1 (Some (h, pr, received ?x)) = Some (finishMeta fr' h pr) \<and> ReadMetaHeaders fr' = Some d'
      \<and> content (fr_r fr') = rest \<and> MaxHeaderListSize fr' = MaxHeaderListSize fr1"
    using one Cons.prems(5,9,10)
    by (intro Cons.IH [OF _ _ _ d1(2)]) (auto simp: same_config_def HeadersEnded_received frame_bytes_received
        simp del: received.simps)
  ultimately show ?case using one(4) by (simp add: same_config_def)
qed

lemma ReadFrame_frames:
  assumes "content (fr_r fr) = concat (map wire_of (block_frames w (p # ps))) @ rest"
    and "\<forall>x \<in> set (block_frames w (p # ps)). legal x \<and> length (payload_of x) \<le> unat (maxReadSize fr)"
    and "framer_ok fr" and "\<not> AllowIllegalReads fr" and "lastHeaderStream fr = 0" and "ReadMetaHeaders fr = Some d"
    and "decoder_Writes (meta_decoder fr d) (p # ps) = Inr (d', None)" and "emitted d' = fs" and "saveBuf d' = []"
    and "checkPseudos fs = None" and "valid_fields fs" and "list_size fs \<le> unat (maxHeaderListSize fr)"
  shows "\<exists>fr' h. ReadFrame rd fr = Some (Inr (fr', Inr (MetaHeadersFrame h zeroPriority \<lparr>mh_Fields = fs, Truncated = False\<rparr>)))
    \<and> content (fr_r fr') = rest \<and> fh_StreamID h = rh_streamID w \<and> (Has (fh_Flags h) FlagHeadersEndStream \<longleftrightarrow> rh_endStream w)"
proof -
  let ?x = "SHeaders (res_headers w p (ps = []))" and ?sid = "rh_streamID w"
  let ?h = "header_of ?x"
  have pre: "content (fr_r fr) = wire_of ?x @ concat (map wire_of (continuations ?sid ps)) @ rest" "legal ?x"
    "length (payload_of ?x) \<le> unat (maxReadSize fr)"
    "\<forall>x \<in> set (continuations ?sid ps). legal x \<and> length (payload_of x) \<le> unat (maxReadSize fr)"
    using assms(1,2) by simp_all
  have sid: "?sid \<noteq> 0" using pre(2) by (auto simp: legal_def res_headers_def validStreamID_def)
  have h: "fh_Type ?h = FrameHeaders" "fh_StreamID ?h = ?sid" "Has (fh_Flags ?h) FlagHeadersEndStream \<longleftrightarrow> rh_endStream w"
    by (simp add: header_of_def wire_header_def, simp add: header_of_def wire_header_def res_headers_def)
      (simp add: header_of_def wire_header_def res_headers_def IsZero_def zeroPriority_def flag_def Has_def)
  have order: "order_step (lastHeaderStream fr) (received ?x) = Some (if ps = [] then 0 else ?sid)"
    using h(1,2) unfolding order_step_def HeadersEnded_received by (auto simp: assms(5) res_headers_def header_of_def wire_header_def)
  obtain fr1 where one: "readFrame_one rd fr = Some (Inr (fr1, Inr (received ?x)))"
    "content (fr_r fr1) = concat (map wire_of (continuations ?sid ps)) @ rest" "framer_ok fr1" "same_config fr fr1"
    "maxReadSize fr1 = maxReadSize fr" "lastHeaderStream fr1 = (if ps = [] then 0 else ?sid)"
    using readFrame_one_received [OF pre(1,2) assms(3) pre(3) assms(4)] order by auto
  have same: "maxHeaderListSize fr1 = maxHeaderListSize fr" "meta_decoder fr1 d = meta_decoder fr d"
    using one(4) by (simp_all add: same_config_def maxHeaderListSize_def meta_decoder_def maxHeaderStringLength_def)
  let ?fr = "fr1\<lparr>ReadMetaHeaders := Some (meta_decoder fr d)\<rparr>"
  have run: "ReadFrame rd fr = read_run rd ?fr (Some (?h, zeroPriority, received ?x))"
    using one(1,4) h(1) assms(4,6)
    by (simp add: ReadFrame_def read_run.simps [of rd fr] startMeta_decoder same same_config_def res_headers_def)
  have "\<exists>fr'. read_run rd ?fr (Some (?h, zeroPriority, received ?x)) = Some (finishMeta fr' ?h zeroPriority)
      \<and> ReadMetaHeaders fr' = Some d' \<and> content (fr_r fr') = rest \<and> MaxHeaderListSize fr' = MaxHeaderListSize ?fr"
    using one pre(4) assms(4)
    by (intro read_continuations [OF _ frame_bytes_received(2) _ _ sid])
      (auto simp: HeadersEnded_received res_headers_def framer_ok_def same_config_def assms(7) simp del: received.simps decoder_Writes.simps)
  then obtain fr2 where fr2: "ReadFrame rd fr = Some (finishMeta fr2 ?h zeroPriority)" "ReadMetaHeaders fr2 = Some d'"
    "content (fr_r fr2) = rest" "MaxHeaderListSize fr2 = MaxHeaderListSize fr1" using run by auto
  then have "maxHeaderListSize fr2 = maxHeaderListSize fr1" by (simp add: maxHeaderListSize_def)
  with assms(12) same(1) have "list_size fs \<le> unat (maxHeaderListSize fr2)" by simp
  from finishMeta_collected [OF fr2(2) assms(8-11) this] fr2 h(2,3) show ?thesis by (simp add: stopMeta_def)
qed

end

section \<open>Buffered writes\<close>

lemma WriteField_length:
  assumes "searchTable e f = Inr (i, m)" and "WriteField accept_all e f = Inr (e', err)"
  shows "length (ebuf e') \<le> 12 + length (field_bytes e f i m)"
proof (cases "tableSizeUpdate e")
  case False
  with assms show ?thesis by (auto simp: WriteField_eq [OF False assms(1)] accept_all_def)
next
  case True
  have small: "length (varint 0x20 5 (ucast v)) \<le> 6" for v :: u32
    using length_varint [of "ucast v" 5 "0x20" 5] unsigned_less [of v, where 'a = nat] by (simp add: unsigned_ucast_eq take_bit_nat_eq_self)
  define e1 where "e1 = e\<lparr>tableSizeUpdate := False, minSize := uint32Max,
    ebuf := (if minSize e < maxSize (edynTab e) then varint 0x20 5 (ucast (minSize e)) else [])
      @ varint 0x20 5 (ucast (maxSize (edynTab e)))\<rparr>"
  have w: "write_updates (e\<lparr>ebuf := []\<rparr>) = Inr e1" using write_updates_eq [OF True] by (simp add: e1_def)
  have s: "searchTable e1 f = Inr (i, m)" "shouldIndex e1 f = shouldIndex e f"
    using assms(1) by (simp_all add: e1_def searchTable_def shouldIndex_def cong: if_cong)
  have "length (ebuf e1) \<le> 12" using small [of "minSize e"] small [of "maxSize (edynTab e)"] by (simp add: e1_def)
  moreover have "ebuf e' = ebuf e1 @ field_bytes e f i m"
    using assms(2) varint_zero [of "if shouldIndex e f then 6 else 4"]
    by (cases "i = 0"; cases m; cases "shouldIndex e f")
      (auto simp: WriteField_def w s append_eqs field_bytes_def varint_zero accept_all_def Let_def)
  ultimately show ?thesis by simp
qed

lemma continue_field:
  assumes "table_ok (dtable (edynTab e))" and "length (ents (dtable (edynTab e))) < 2 ^ 34"
    and "WriteField accept_all e (plain_field '':status'' ''100'') = Inr (e', err)"
  shows "length (ebuf e') \<le> 20"
proof -
  let ?f = "plain_field '':status'' ''100''" and ?t = "dtable (edynTab e)"
  obtain i where i: "search True staticTable ?f = Inr (i, False)" "i \<noteq> 0" "i < 15"
  proof
    show "search True staticTable ?f = Inr (14, False)" by code_simp
  qed simp_all
  obtain j m where j: "best_match False ?t ?f = (j, m)" by force
  have d: "search False ?t ?f = Inr (j, m)" using search_best_match [OF assms(1)] j by simp
  have uj: "unat j \<le> length (ents ?t)" using best_match_bounds(2) [OF j] assms(2) by simp
  then have "unat (j + 61) = unat j + 61" using assms(2) by (subst unat_add_noov) simp_all
  then have vj: "length (varint 0x80 7 (j + 61)) \<le> 6"
    using length_varint [of "j + 61" 5 "0x80" 7] uj assms(2) by simp
  have vi: "length (varint t (if b then 6 else 4) i) \<le> 1" for t b
  proof -
    have "i < prefix_max (if b then 6 else 4)" using i(3) by (simp add: prefix_max_def shl_def word_less_nat_alt)
    then show ?thesis by (simp add: varint_def appendVarInt_small)
  qed
  have vs: "length (hpack_string ''100'') \<le> 3" by code_simp
  have len: "length (field_bytes e ?f (if m then j + 61 else i) m) \<le> 6"
    using i(2) vj vs vi [of "encodeTypeByte True False" True] vi [of "encodeTypeByte False False" False]
    by (auto simp: field_bytes_def Let_def plain_field_def)
  have "searchTable e ?f = Inr (if m then j + 61 else i, m)"
    using i(1,2) d by (simp add: searchTable_def)
  from WriteField_length [OF this assms(3)] len show ?thesis by simp
qed

lemma endWrite_length:
  "length (fr_w (fst (endWrite Buffer_Write f))) \<le> length (fr_w f) + length (wbuf f)"
  if "3 \<le> length (wbuf f)"
  using that by (simp add: endWrite_def Buffer_Write_def Let_def)

lemma settings_length:
  "length (wbuf (foldl (\<lambda>f s. writeUint32 (writeUint16 f (ID s)) (Val s)) f ss)) = length (wbuf f) + 6 * length ss"
  "fr_w (foldl (\<lambda>f s. writeUint32 (writeUint16 f (ID s)) (Val s)) f ss) = fr_w f"
  by (induction ss arbitrary: f) (simp_all add: writeUint32_def writeUint16_def)

text \<open>A response with one header.\<close>

definition example_response :: writeResHeaders where
  "example_response = \<lparr>rh_streamID = 1, httpResCode = 200, rh_h = [(''Accept-Encoding'', [''gzip, deflate''])],
     trailers = None, rh_endStream = True, date = '''', contentType = '''', contentLength = ''''\<rparr>"

lemma example_response_fields:
  "res_fields example_response = [plain_field '':status'' ''200'', plain_field ''accept-encoding'' ''gzip, deflate'']"
proof -
  have "asciiToLower ''Accept-Encoding'' = (''accept-encoding'', True)" by code_simp
  moreover have "validWireHeaderFieldName ''accept-encoding''" by (rule plain_wire_name) (simp_all add: plain_char_def)
  moreover have "ValidHeaderFieldValue ''gzip, deflate''" by (simp add: ValidHeaderFieldValue_def isCTL_def)
  ultimately show ?thesis
    by (simp add: res_fields_def example_response_def header_fields_def key_fields_def value_fields_def names_uncached
        Keys_def field_if_def httpCodeString_def)
qed

lemma example_response_ok:
  "\<forall>f \<in> set (res_fields example_response). unindexed example_encoder f" "res_fields example_response \<noteq> []"
  "list_size (res_fields example_response) \<le> 0x1000000" "validStreamID (rh_streamID example_response)"
  "ValidHeaderFieldValue (contentType example_response)" "ValidHeaderFieldValue (contentLength example_response)"
  "ValidHeaderFieldValue (date example_response)"
proof -
  have "searchTable example_encoder (plain_field '':status'' ''200'') = Inr (8, True)"
    "searchTable example_encoder (plain_field ''accept-encoding'' ''gzip, deflate'') = Inr (16, True)"
    by code_simp+
  then show "\<forall>f \<in> set (res_fields example_response). unindexed example_encoder f"
    unfolding example_response_fields by (simp add: unindexed_def)
  show "res_fields example_response \<noteq> []" unfolding example_response_fields by simp
  show "list_size (res_fields example_response) \<le> 0x1000000"
    unfolding example_response_fields by (simp add: list_size_def plain_field_def)
  show "validStreamID (rh_streamID example_response)" by (simp add: example_response_def validStreamID_def)
  show "ValidHeaderFieldValue (contentType example_response)" "ValidHeaderFieldValue (contentLength example_response)"
    "ValidHeaderFieldValue (date example_response)" by (simp_all add: example_response_def ValidHeaderFieldValue_def)
qed

section \<open>Properties\<close>

text \<open>
  C16: The headers of a response survive the wire. A handler's response (status, headers or trailers, content
  type and length, date), written by the server with \<open>writeFrame\<close>, is delivered by a client's framer, whose
  decoder is in step, as one list of exactly the fields \<open>res_fields w\<close> on the stream of the response, however
  many HEADERS and CONTINUATION frames \<open>splitHeaderBlock\<close> makes of the block and wherever it cuts it. The
  fields are to be ones that the encoder does not put into its dynamic table, and the list is to fit the
  client's default limit.
\<close>
theorem response_roundtrip:
  assumes "in_sync e d" and "\<not> tableSizeUpdate e" and "saveBuf d = []" and "dbuf d = []"
    and "\<forall>f \<in> set (res_fields w). unindexed e f" and "res_fields w \<noteq> []" and "validStreamID (rh_streamID w)"
    and "ValidHeaderFieldValue (contentType w)" and "ValidHeaderFieldValue (contentLength w)" and "ValidHeaderFieldValue (date w)"
    and "list_size (res_fields w) \<le> 0x1000000"
  shows "\<exists>c' fr h. writeFrame Buffer_Write fl \<lparr>wc_Framer = NewFramer [] r, wc_enc = e, wc_buf = b\<rparr> (writeResponse w) = Inr (c', None)
    \<and> ReadFrame Buffer_Read (NewFramer u (fr_w (wc_Framer c'))\<lparr>ReadMetaHeaders := Some d\<rparr>)
      = Some (Inr (fr, Inr (MetaHeadersFrame h zeroPriority \<lparr>mh_Fields = res_fields w, Truncated = False\<rparr>)))
    \<and> fh_StreamID h = rh_streamID w \<and> (Has (fh_Flags h) FlagHeadersEndStream \<longleftrightarrow> rh_endStream w) \<and> fr_r fr = []"
proof -
  let ?fs = "res_fields w" and ?d = "\<lambda>x. NewFramer u x\<lparr>ReadMetaHeaders := Some d\<rparr>"
  have ok: "valid_fields ?fs" "checkPseudos ?fs = None" by (rule res_fields_valid [OF assms(8-10)])+
  have new: "unat (maxHeaderListSize (?d x)) = 0x1000000" "framer_ok (?d x)" "\<not> AllowIllegalReads (?d x)"
    "lastHeaderStream (?d x) = 0" "unat (maxReadSize (?d x)) \<ge> splitSize" for x
    by (simp_all add: NewFramer_def SetMaxReadFrameSize_def maxFrameSize_def framer_ok_def maxHeaderListSize_def splitSize_def)
  define m where "m = meta_decoder (?d []) d"
  have m: "meta_decoder (?d x) d = m" for x
    by (simp add: m_def meta_decoder_def maxHeaderListSize_def maxHeaderStringLength_def NewFramer_def SetMaxReadFrameSize_def)
  have fits: "list_size ?fs \<le> unat (maxHeaderListSize (?d x))" for x using assms(11) by (simp only: new(1))
  have acc: "\<forall>f \<in> set ?fs. unindexed e f \<and> accepts m f" "keeps_emitting m ?fs" "in_sync e m" "saveBuf m = []" "dbuf m = []"
      "maxStrLen m < 2 ^ 35" "emitted m = []"
    using assms(1,3-5) meta_decoder_accepts [OF fits [of "[]"]] meta_decoder_keeps_emitting [OF ok(1) fits [of "[]"]]
    by (auto simp: m_def in_sync_def meta_decoder_def maxHeaderStringLength_def maxHeaderListSize_def NewFramer_def SetMaxReadFrameSize_def)
  obtain b' bs where enc: "encode_fields e ?fs = Inr (e\<lparr>ebuf := b'\<rparr>, bs)"
    using fields_roundtrip [OF acc(3) assms(2) acc(1,2)] by blast
  then have "encode_fields e ?fs = Inr (e\<lparr>ebuf := b'\<rparr>, concat (chop bs))" by (simp add: concat_chop)
  from write_pieces [OF acc(3) assms(2) acc(1,2,6,4,5) this]
  have dec: "decoder_Writes m (chop bs) = Inr (m\<lparr>emitted := ?fs, firstField := False\<rparr>, None)"
    using assms(6) acc(7) by simp
  have "bs \<noteq> []"
  proof
    assume "bs = []"
    with dec have "m = m\<lparr>emitted := ?fs, firstField := False\<rparr>" by simp
    from arg_cong [OF this, of emitted] acc(7) assms(6) show False by simp
  qed
  then obtain p ps where ps: "chop bs = p # ps" by (cases "chop bs") auto
  note legal = block_frames_legal [OF assms(7), of bs, unfolded ps]
  let ?c = "\<lparr>wc_Framer = NewFramer [] r, wc_enc = e\<lparr>ebuf := b'\<rparr>, wc_buf = bs\<rparr>"
  obtain f where f: "write_frames Buffer_Write (NewFramer [] r) (block_frames w (p # ps)) = (f, None)"
    "fr_w f = concat (map wire_of (block_frames w (p # ps)))"
    using mem.write_frames_wire [of "block_frames w (p # ps)" "NewFramer [] r"] legal
    by (auto simp: mem.writes_frame_def NewFramer_def SetMaxReadFrameSize_def)
  have w: "writeFrame Buffer_Write fl \<lparr>wc_Framer = NewFramer [] r, wc_enc = e, wc_buf = b\<rparr> (writeResponse w)
      = Inr (?c\<lparr>wc_Framer := f\<rparr>, None)"
    using \<open>bs \<noteq> []\<close> f(1) by (simp add: res_writeFrame_eq enc split_frames ps with_framer_def)
  have "fr_r (?d (fr_w f)) = concat (map wire_of (block_frames w (p # ps))) @ []"
    using f(2) by (simp add: NewFramer_def SetMaxReadFrameSize_def)
  moreover have "\<forall>x \<in> set (block_frames w (p # ps)). legal x \<and> length (payload_of x) \<le> unat (maxReadSize (?d (fr_w f)))"
    using legal new(5) [of "fr_w f"] le_trans by blast
  moreover have "decoder_Writes (meta_decoder (?d (fr_w f)) d) (p # ps) = Inr (m\<lparr>emitted := ?fs, firstField := False\<rparr>, None)"
    using dec by (simp only: m ps)
  ultimately have "\<exists>fr' h. ReadFrame Buffer_Read (?d (fr_w f))
      = Some (Inr (fr', Inr (MetaHeadersFrame h zeroPriority \<lparr>mh_Fields = ?fs, Truncated = False\<rparr>)))
      \<and> fr_r fr' = [] \<and> fh_StreamID h = rh_streamID w \<and> (Has (fh_Flags h) FlagHeadersEndStream \<longleftrightarrow> rh_endStream w)"
    using buffer.ReadFrame_frames [OF _ _ new(2-4) _ _ _ _ ok(2,1) fits, of "fr_w f" w p ps "[]" d] acc(4)
    by (simp del: block_frames.simps decoder_Writes.simps)
  with w show ?thesis by auto
qed

theorem response_roundtrip_witness:
  "\<exists>c' fr h. writeFrame Buffer_Write (\<lambda>w. (w, None)) \<lparr>wc_Framer = NewFramer [] (), wc_enc = example_encoder, wc_buf = []\<rparr>
      (writeResponse example_response) = Inr (c', None)
    \<and> ReadFrame Buffer_Read (NewFramer () (fr_w (wc_Framer c'))\<lparr>ReadMetaHeaders := Some example_decoder\<rparr>)
      = Some (Inr (fr, Inr (MetaHeadersFrame h zeroPriority \<lparr>mh_Fields = res_fields example_response, Truncated = False\<rparr>)))
    \<and> fh_StreamID h = rh_streamID example_response
    \<and> (Has (fh_Flags h) FlagHeadersEndStream \<longleftrightarrow> rh_endStream example_response) \<and> fr_r fr = []"
  by (rule response_roundtrip [OF example_sync])
    (use example_response_ok in \<open>auto simp: example_encoder_def example_decoder_def\<close>)

text \<open>
  C28: The cache of common header names is invisible: \<open>lowerHeader\<close> and \<open>canonicalHeader\<close> return for every name
  what the uncached conversions return, so that the table that \<open>buildCommonHeaderMaps\<close> builds only saves time.
\<close>
theorem lowerHeader_eq: "lowerHeader v = asciiToLower v \<and> canonicalHeader v = CanonicalHeaderKey v"
  by (rule names_uncached)

text \<open>
  C27: A write request that says that it stays within \<open>max\<close> bytes of the server's buffered writer writes at
  most that many bytes, whatever its arguments: a \<open>100 Continue\<close> too, whose estimate of the size of the
  header block has to cover pending updates of the table size and the field in any of its encodings.
\<close>
theorem stays_within_buffer:
  assumes "staysWithinBuffer x mx" and "writeFrame Buffer_Write fl c x = Inr (c', err)"
    and "table_ok (dtable (edynTab (wc_enc c)))" and "length (ents (dtable (edynTab (wc_enc c)))) < 2 ^ 34"
  shows "int (length (fr_w (wc_Framer c'))) \<le> int (length (fr_w (wc_Framer c))) + mx"
proof -
  note len = writeFrame_defs with_framer_def startWrite_def writeUint32_def writeBytes_def writeByte_def
  let ?f = "wc_Framer c"
  have fits: "int (length (fr_w (fst (endWrite Buffer_Write g)))) \<le> int (length (fr_w ?f)) + mx"
    if "fr_w g = fr_w ?f" "3 \<le> length (wbuf g)" "int (length (wbuf g)) \<le> mx" for g :: "('a, u8 list) Framer"
    using endWrite_length [OF that(2)] that(1,3) by simp
  show ?thesis
    using assms(1,2)
  proof (cases x)
    case (writeSettings ss)
    then show ?thesis using assms(1,2) by (auto simp: writeFrame_defs with_framer_def WriteSettings_def settings_length Let_def startWrite_def intro!: fits)
  next
    case (write100ContinueHeadersFrame sid)
    then obtain e err' where e: "WriteField accept_all (wc_enc c) (plain_field '':status'' ''100'') = Inr (e, err')"
      "c' = fst (with_framer (c\<lparr>wc_enc := e, wc_buf := ebuf e\<rparr>) (WriteHeaders Buffer_Write ?f
        \<lparr>hp_StreamID = sid, hp_BlockFragment = ebuf e, hp_EndStream = False, hp_EndHeaders = True, hp_PadLength = 0,
         hp_Priority = zeroPriority\<rparr>))"
      using assms(2) by (auto simp: writeFrame_defs go_bind_eq_Inr encKV_def resetBuffer_def plain_field_def)
    with continue_field [OF assms(3,4) e(1)] assms(1) write100ContinueHeadersFrame show ?thesis
      by (auto simp: len WriteHeaders_def IsZero_def zeroPriority_def Let_def intro!: fits)
  qed (auto simp: len WriteData_def WriteDataPadded_def startWriteDataPadded_def
       WriteRSTStream_def WritePing_def WriteSettingsAck_def WriteWindowUpdate_def Let_def intro!: fits split: option.splits)
qed

theorem stays_within_buffer_witness:
  "staysWithinBuffer (write100ContinueHeadersFrame 1) 29
    \<and> (\<exists>c' err. writeFrame Buffer_Write (\<lambda>w. (w, None)) \<lparr>wc_Framer = NewFramer [] (), wc_enc = example_encoder, wc_buf = []\<rparr>
        (write100ContinueHeadersFrame 1) = Inr (c', err) \<and> int (length (fr_w (wc_Framer c'))) \<le> 29)"
proof -
  let ?c = "\<lparr>wc_Framer = NewFramer [] (), wc_enc = example_encoder, wc_buf = []\<rparr> :: (unit, u8 list) writeContext"
  have stay: "staysWithinBuffer (write100ContinueHeadersFrame 1) 29" by simp
  have s: "searchTable example_encoder (plain_field '':status'' ''100'') = Inr (14, False)" by code_simp
  have "\<not> tableSizeUpdate example_encoder" by (simp add: example_encoder_def)
  then have "\<exists>e err. WriteField accept_all example_encoder (plain_field '':status'' ''100'') = Inr (e, err)"
    by (simp add: WriteField_eq [OF _ s] split_def Let_def)
  then obtain c' err where w: "writeFrame Buffer_Write (\<lambda>w. (w, None)) ?c (write100ContinueHeadersFrame 1) = Inr (c', err)"
    by (auto simp: writeFrame_defs encKV_def resetBuffer_def plain_field_def with_framer_def)
  have t: "table_ok (dtable (edynTab (wc_enc ?c)))" "length (ents (dtable (edynTab (wc_enc ?c)))) < 2 ^ 34"
    using example_sync by (simp_all add: in_sync_def dynamicTable_ok_def example_encoder_def)
      (simp add: emptyDynamicTable_def emptyTable_def table_init_def)
  have "int (length (fr_w (wc_Framer c'))) \<le> int (length (fr_w (wc_Framer ?c))) + 29"
    by (rule stays_within_buffer [OF stay w t])
  with stay w show ?thesis by (auto simp: NewFramer_def SetMaxReadFrameSize_def)
qed

end
