(* ===== verification/Chunked.thy ===== *)
theory Chunked
  imports GoPrelude
begin

text \<open>
  The chunked transfer encoding of HTTP (\<open>src/http/http/internal/chunked.go\<close>). The reader sits on a
  \<open>bufio.Reader\<close> of the standard library, of which the parts that it uses are modelled: a buffer in front of a
  connection that delivers its bytes in segments, one for each read, and then the end of the file. The writer
  writes to any writer.
\<close>

section \<open>Errors and bytes\<close>

datatype ioerr = IoEOF | IoUnexpectedEOF | BufferFull | LineTooLong | ShortWrite | NewError string | OtherError nat

definition CR :: u8 where [simp]: "CR = 13"
definition LF :: u8 where [simp]: "LF = 10"

section \<open>Buffered reading\<close>

record bufreader =
  br_buf :: "u8 list"
  br_src :: "u8 list list"
  br_size :: nat

definition Buffered :: "bufreader \<Rightarrow> nat" where
  "Buffered b = length (br_buf b)"

definition Peek :: "bufreader \<Rightarrow> nat \<Rightarrow> u8 list" where
  "Peek b n = take n (br_buf b)"

text \<open>One read of at most \<open>k\<close> bytes from the connection.\<close>

fun net_read :: "nat \<Rightarrow> u8 list list \<Rightarrow> (u8 list \<times> u8 list list) option" where
  "net_read k [] = None"
| "net_read k (seg # segs) = Some (take k seg, if length seg \<le> k then segs else drop k seg # segs)"

definition br_measure :: "bufreader \<Rightarrow> nat" where
  "br_measure b = length (br_buf b) + length (concat (br_src b)) + length (br_src b)"

function ReadSlice :: "bufreader \<Rightarrow> u8 \<Rightarrow> bufreader \<times> u8 list \<times> ioerr option" where
  "ReadSlice b delim =
     (if delim \<in> set (br_buf b)
      then let line = takeWhile (\<lambda>x. x \<noteq> delim) (br_buf b) @ [delim]
           in (b\<lparr>br_buf := drop (length line) (br_buf b)\<rparr>, line, None)
      else if br_size b \<le> length (br_buf b) then (b\<lparr>br_buf := []\<rparr>, br_buf b, Some BufferFull)
      else case net_read (br_size b - length (br_buf b)) (br_src b) of
        None \<Rightarrow> (b\<lparr>br_buf := []\<rparr>, br_buf b, Some IoEOF)
      | Some (x, src) \<Rightarrow> ReadSlice (b\<lparr>br_buf := br_buf b @ x, br_src := src\<rparr>) delim)"
  by pat_completeness auto

lemma net_read_less:
  "net_read k segs = Some (x, segs') \<Longrightarrow> 0 < k \<Longrightarrow>
    length (concat segs') + length segs' < length (concat segs) + length segs \<and> concat segs = x @ concat segs'
    \<and> length segs' \<le> length segs"
  by (cases segs) (auto simp: min_def split: if_splits)

termination ReadSlice
  by (relation "measure (\<lambda>(b, _). length (concat (br_src b)) + length (br_src b))") (auto dest!: net_read_less)

declare ReadSlice.simps [simp del]

definition buf_Read :: "bufreader \<Rightarrow> nat \<Rightarrow> bufreader \<times> u8 list \<times> ioerr option" where
  "buf_Read b k =
     (if k = 0 then (b, [], None)
      else if br_buf b = []
      then case net_read (if br_size b \<le> k then k else br_size b) (br_src b) of
             None \<Rightarrow> (b, [], Some IoEOF)
           | Some (x, src) \<Rightarrow> (b\<lparr>br_buf := drop k x, br_src := src\<rparr>, take k x, None)
      else (b\<lparr>br_buf := drop k (br_buf b)\<rparr>, take k (br_buf b), None))"

text \<open>\<open>io.ReadFull\<close> for \<open>k\<close> bytes.\<close>

function readFull :: "bufreader \<Rightarrow> nat \<Rightarrow> u8 list \<Rightarrow> bufreader \<times> u8 list \<times> ioerr option" where
  "readFull b k acc =
     (if k = 0 then (b, acc, None)
      else case buf_Read b k of
        (b', x, None) \<Rightarrow> readFull b' (k - length x) (acc @ x)
      | (b', x, Some e) \<Rightarrow> (b', acc @ x, Some (if acc @ x \<noteq> [] \<and> e = IoEOF then IoUnexpectedEOF else e)))"
  by pat_completeness auto

lemma buf_Read_less:
  assumes "buf_Read b k = (b', x, None)" and "k \<noteq> 0"
  shows "br_measure b' < br_measure b"
proof (cases "br_buf b = []")
  case True
  then obtain y where y: "net_read (if br_size b \<le> k then k else br_size b) (br_src b) = Some (y, br_src b')" "br_buf b' = drop k y"
    using assms by (auto simp: buf_Read_def split: option.splits prod.splits)
  have "0 < (if br_size b \<le> k then k else br_size b)" using assms(2) by simp
  note n = net_read_less [OF y(1) this]
  with n y(2) True assms(2) show ?thesis by (cases "y = []") (auto simp: br_measure_def)
next
  case False
  then show ?thesis using assms by (auto simp: buf_Read_def br_measure_def)
qed

termination readFull
  by (relation "measure (\<lambda>(b, _, _). br_measure b)") (auto dest: buf_Read_less [OF sym])

declare readFull.simps [simp del]

section \<open>The chunk line\<close>

definition maxLineLength :: nat where
  "maxLineLength = 4096"

definition isASCIISpace :: "u8 \<Rightarrow> bool" where
  "isASCIISpace b \<longleftrightarrow> b = 32 \<or> b = 9 \<or> b = 10 \<or> b = 13"

function trimTrailingWhitespace :: "u8 list \<Rightarrow> u8 list" where
  "trimTrailingWhitespace b =
     (if length b > 0 \<and> isASCIISpace (b ! (length b - 1)) then trimTrailingWhitespace (take (length b - 1) b) else b)"
  by pat_completeness auto
termination by (relation "measure length") auto

declare trimTrailingWhitespace.simps [simp del]

definition semi :: u8 where
  "semi = 59"

text \<open>The part of \<open>bytes.Cut\<close> before the separator.\<close>

definition removeChunkExtension :: "u8 list \<Rightarrow> u8 list \<times> ioerr option" where
  "removeChunkExtension p = (takeWhile (\<lambda>x. x \<noteq> semi) p, None)"

definition readChunkLine :: "bufreader \<Rightarrow> bufreader \<times> u8 list \<times> ioerr option" where
  "readChunkLine b =
     (case ReadSlice b LF of (b, p, err) \<Rightarrow>
        case err of
          Some e \<Rightarrow> (b, [], Some (if e = IoEOF then IoUnexpectedEOF else if e = BufferFull then LineTooLong else e))
        | None \<Rightarrow>
            if length p \<ge> maxLineLength then (b, [], Some LineTooLong)
            else case removeChunkExtension (trimTrailingWhitespace p) of (p, err) \<Rightarrow>
              if err \<noteq> None then (b, [], err) else (b, p, None))"

fun parseHexUint_loop :: "nat \<Rightarrow> u8 list \<Rightarrow> u64 \<Rightarrow> u64 \<times> ioerr option" where
  "parseHexUint_loop i [] n = (n, None)"
| "parseHexUint_loop i (b # v) n =
     (let d = (if 48 \<le> b \<and> b \<le> 57 then Some (b - 48)
               else if 97 \<le> b \<and> b \<le> 102 then Some (b - 97 + 10)
               else if 65 \<le> b \<and> b \<le> 70 then Some (b - 65 + 10)
               else None)
      in case d of
           None \<Rightarrow> (0, Some (NewError ''invalid byte in chunk length''))
         | Some b \<Rightarrow>
             if i = 16 then (0, Some (NewError ''http chunk length too large''))
             else parseHexUint_loop (i + 1) v (or (push_bit 4 n) (ucast b)))"

definition parseHexUint :: "u8 list \<Rightarrow> u64 \<times> ioerr option" where
  "parseHexUint v = parseHexUint_loop 0 v 0"

section \<open>The reader\<close>

record chunkedReader =
  cr_r :: bufreader
  cr_n :: u64
  cr_err :: "ioerr option"
  cr_buf :: "u8 list"
  checkEnd :: bool

definition NewChunkedReader :: "bufreader \<Rightarrow> chunkedReader" where
  "NewChunkedReader r = \<lparr>cr_r = r, cr_n = 0, cr_err = None, cr_buf = [0, 0], checkEnd = False\<rparr>"

definition beginChunk :: "chunkedReader \<Rightarrow> chunkedReader" where
  "beginChunk cr =
     (case readChunkLine (cr_r cr) of (r, line, err) \<Rightarrow>
        let cr = cr\<lparr>cr_r := r, cr_err := err\<rparr>
        in if cr_err cr \<noteq> None then cr
           else case parseHexUint line of (n, err) \<Rightarrow>
             let cr = cr\<lparr>cr_n := n, cr_err := err\<rparr>
             in if cr_err cr \<noteq> None then cr
                else if cr_n cr = 0 then cr\<lparr>cr_err := Some IoEOF\<rparr> else cr)"

definition chunkHeaderAvailable :: "chunkedReader \<Rightarrow> bool" where
  "chunkHeaderAvailable cr =
     (let n = Buffered (cr_r cr) in if n > 0 then LF \<in> set (Peek (cr_r cr) n) else False)"

text \<open>The check of the two bytes behind a chunk; the second result tells to leave the loop.\<close>

definition checkFooter :: "chunkedReader \<Rightarrow> chunkedReader \<times> bool" where
  "checkFooter cr =
     (case readFull (cr_r cr) 2 [] of (r, x, err) \<Rightarrow>
        let cr = cr\<lparr>cr_r := r, cr_buf := x @ drop (length x) (cr_buf cr)\<rparr>
        in if err = None
           then if cr_buf cr \<noteq> [CR, LF] then (cr\<lparr>cr_err := Some (NewError ''malformed chunked encoding'')\<rparr>, True)
                else (cr\<lparr>checkEnd := False\<rparr>, False)
           else (if cr_err cr = Some IoEOF then cr\<lparr>cr_err := Some IoUnexpectedEOF\<rparr> else cr, True))"

text \<open>The loop of \<open>Read\<close>: \<open>k\<close> is what is left of the length of the caller's slice, \<open>out\<close> what was stored in it.\<close>

partial_function (option) Read_loop :: "chunkedReader \<Rightarrow> nat \<Rightarrow> u8 list \<Rightarrow> (chunkedReader \<times> u8 list) option" where
  "Read_loop cr k out =
     (if cr_err cr \<noteq> None then Some (cr, out)
      else if checkEnd cr \<and> length out > 0 \<and> Buffered (cr_r cr) < 2 then Some (cr, out)
      else case (if checkEnd cr then checkFooter cr else (cr, False)) of (cr, stop) \<Rightarrow>
        if stop then Some (cr, out)
        else if cr_n cr = 0
        then if length out > 0 \<and> \<not> chunkHeaderAvailable cr then Some (cr, out)
             else Read_loop (beginChunk cr) k out
        else if k = 0 then Some (cr, out)
        else let m = (if of_nat k > cr_n cr then unat (cr_n cr) else k)
             in case buf_Read (cr_r cr) m of (r, x, err) \<Rightarrow>
                  let cr = cr\<lparr>cr_r := r, cr_err := err, cr_n := cr_n cr - of_nat (length x)\<rparr>;
                      cr = (if cr_n cr = 0 \<and> cr_err cr = None then cr\<lparr>checkEnd := True\<rparr>
                            else if cr_err cr = Some IoEOF then cr\<lparr>cr_err := Some IoUnexpectedEOF\<rparr> else cr)
                  in Read_loop cr (k - length x) (out @ x))"

definition chunked_Read :: "chunkedReader \<Rightarrow> nat \<Rightarrow> (chunkedReader \<times> u8 list \<times> ioerr option) option" where
  "chunked_Read cr k = map_option (\<lambda>(cr, out). (cr, out, cr_err cr)) (Read_loop cr k [])"

section \<open>The writer\<close>

text \<open>The writer below is \<open>wr\<close> over a state; \<open>flush\<close> is there when it is a \<open>FlushAfterChunkWriter\<close>.\<close>

type_synonym 's wire_writer = "'s \<Rightarrow> u8 list \<Rightarrow> 's \<times> nat \<times> ioerr option"

record 's chunkedWriter =
  Wire :: "'s wire_writer"
  wire_flush :: "('s \<Rightarrow> 's \<times> ioerr option) option"

definition hex_digit :: "nat \<Rightarrow> u8" where
  "hex_digit d = (if d < 10 then of_nat (48 + d) else of_nat (97 + (d - 10)))"

text \<open>The verb \<open>%x\<close>.\<close>

fun format_x :: "nat \<Rightarrow> u8 list" where
  "format_x n = (if n < 16 then [hex_digit n] else format_x (n div 16) @ [hex_digit (n mod 16)])"

declare format_x.simps [simp del]

definition chunked_Write :: "'s chunkedWriter \<Rightarrow> 's \<Rightarrow> u8 list \<Rightarrow> 's \<times> nat \<times> ioerr option" where
  "chunked_Write cw s data =
     (if length data = 0 then (s, 0, None)
      else case Wire cw s (format_x (length data) @ [CR, LF]) of (s, _, err) \<Rightarrow>
        if err \<noteq> None then (s, 0, err)
        else case Wire cw s data of (s, n, err) \<Rightarrow>
          if err \<noteq> None then (s, n, err)
          else if n \<noteq> length data then (s, n, Some ShortWrite)
          else case Wire cw s [CR, LF] of (s, _, err) \<Rightarrow>
            if err \<noteq> None then (s, n, err)
            else case wire_flush cw of
                   Some f \<Rightarrow> (case f s of (s, err) \<Rightarrow> (s, n, err))
                 | None \<Rightarrow> (s, n, None))"

definition chunked_Close :: "'s chunkedWriter \<Rightarrow> 's \<Rightarrow> 's \<times> ioerr option" where
  "chunked_Close cw s = (case Wire cw s [48, CR, LF] of (s, _, err) \<Rightarrow> (s, err))"

end
