(* ===== verification/ChunkedCodec.thy ===== *)
theory ChunkedCodec
  imports Chunked
begin

text \<open>
  The chunked encoding from the writer to the reader, however the connection cuts the bytes into segments and whatever
  lengths the caller reads.
\<close>

unbundle bit_operations_syntax

section \<open>Buffered reading of a stream\<close>

definition stream :: "bufreader \<Rightarrow> u8 list" where
  "stream b = br_buf b @ concat (br_src b)"

text \<open>A connection does not deliver empty segments.\<close>

definition alive :: "bufreader \<Rightarrow> bool" where
  "alive b \<longleftrightarrow> [] \<notin> set (br_src b)"

lemma net_read_alive: "net_read k segs = Some (x, segs') \<Longrightarrow> [] \<notin> set segs \<Longrightarrow> 0 < k \<Longrightarrow> x \<noteq> [] \<and> [] \<notin> set segs'"
  by (cases segs) (auto split: if_splits)

lemma net_read_None: "net_read k segs = None \<longleftrightarrow> segs = []"
  by (cases segs) auto

lemma ReadSlice_correct:
  assumes "stream b = l @ delim # rest" and "delim \<notin> set l" and "length l < br_size b" and "alive b"
  shows "\<exists>b'. ReadSlice b delim = (b', l @ [delim], None) \<and> stream b' = rest \<and> alive b' \<and> br_size b' = br_size b"
  using assms
proof (induction b delim rule: ReadSlice.induct)
  case (1 b delim)
  show ?case
  proof (cases "delim \<in> set (br_buf b)")
    case True
    then obtain l' r where l: "br_buf b = l' @ delim # r" "delim \<notin> set l'" by (meson split_list_first)
    then have e: "l' @ delim # (r @ concat (br_src b)) = l @ delim # rest" using 1(2) by (simp add: stream_def)
    have "takeWhile (\<lambda>x. x \<noteq> delim) (l' @ delim # (r @ concat (br_src b))) = l'" using l(2) by (auto simp: takeWhile_tail)
    moreover have "takeWhile (\<lambda>x. x \<noteq> delim) (l @ delim # rest) = l" using 1(3) by (auto simp: takeWhile_tail)
    ultimately have "l' = l" unfolding e by simp
    moreover have "takeWhile (\<lambda>x. x \<noteq> delim) (br_buf b) = l'" unfolding l(1) using l(2) by (auto simp: takeWhile_tail)
    ultimately show ?thesis using True l(1) e 1(5) by (simp add: ReadSlice.simps [of b] stream_def alive_def Let_def)
  next
    case False
    have "\<not> br_size b \<le> length (br_buf b)"
    proof
      assume "br_size b \<le> length (br_buf b)"
      then have "length l < length (br_buf b)" using 1(4) by simp
      moreover have "br_buf b @ concat (br_src b) = l @ delim # rest" using 1(2) by (simp add: stream_def)
      ultimately have "br_buf b ! length l = delim" by (metis nth_append nth_append_length)
      with \<open>length l < length (br_buf b)\<close> False show False by (metis nth_mem)
    qed
    moreover have "br_src b \<noteq> []" using 1(2) False by (auto simp: stream_def)
    then obtain x src where n: "net_read (br_size b - length (br_buf b)) (br_src b) = Some (x, src)"
      using net_read_None by (metis not_None_eq surj_pair)
    moreover have "stream (b\<lparr>br_buf := br_buf b @ x, br_src := src\<rparr>) = stream b" "alive (b\<lparr>br_buf := br_buf b @ x, br_src := src\<rparr>)"
      using net_read_less [OF n] net_read_alive [OF n] calculation 1(5) by (simp_all add: stream_def alive_def)
    ultimately show ?thesis using 1(1) [OF False _ n refl] 1(2-4) False by (subst ReadSlice.simps) simp
  qed
qed

lemma buf_Read_correct:
  assumes "alive b" and "0 < k" and "stream b \<noteq> []"
  shows "\<exists>b' x. buf_Read b k = (b', x, None) \<and> x \<noteq> [] \<and> length x \<le> k \<and> stream b = x @ stream b' \<and> alive b' \<and> br_size b' = br_size b"
proof (cases "br_buf b = []")
  case True
  let ?k = "if br_size b \<le> k then k else br_size b"
  have "0 < ?k" using assms(2) by simp
  moreover have "br_src b \<noteq> []" using assms(3) True by (auto simp: stream_def)
  then obtain x src where n: "net_read ?k (br_src b) = Some (x, src)" using net_read_None by (metis not_None_eq surj_pair)
  ultimately have "concat (br_src b) = x @ concat src" "x \<noteq> [] \<and> [] \<notin> set src"
    using net_read_less [OF n] net_read_alive [OF n] assms(1) by (auto simp: alive_def)
  then show ?thesis using True assms(2) n by (auto simp: buf_Read_def stream_def alive_def)
next
  case False
  then show ?thesis using assms(1,2) by (auto simp: buf_Read_def stream_def alive_def)
qed

lemma buf_Read_end: "stream b = [] \<Longrightarrow> alive b \<Longrightarrow> 0 < k \<Longrightarrow> buf_Read b k = (b, [], Some IoEOF)"
  by (cases "br_src b") (auto simp: buf_Read_def stream_def alive_def)

lemma readFull_correct:
  assumes "alive b" and "stream b = x @ rest"
  shows "\<exists>b'. readFull b (length x) acc = (b', acc @ x, None) \<and> stream b' = rest \<and> alive b' \<and> br_size b' = br_size b"
  using assms
proof (induction "length x" arbitrary: b x acc rule: less_induct)
  case less
  show ?case
  proof (cases "x = []")
    case True
    then show ?thesis using less.prems by (simp add: readFull.simps)
  next
    case False
    then have "0 < length x" "stream b \<noteq> []" using less.prems(2) by auto
    then obtain b' y where y: "buf_Read b (length x) = (b', y, None)" "y \<noteq> []" "length y \<le> length x" "stream b = y @ stream b'" "alive b'"
      "br_size b' = br_size b" using buf_Read_correct [OF less.prems(1)] by blast
    have e: "x @ rest = y @ stream b'" using less.prems(2) y(4) by simp
    have "take (length y) (x @ rest) = y" unfolding e by simp
    then have "x = y @ drop (length y) x" using y(3) by (metis append_take_drop_id append_Nil2 diff_is_0_eq take0 take_append)
    then obtain z where z: "x = y @ z" "stream b' = z @ rest" using e by (metis append.assoc same_append_eq)
    have "length z < length x" using z(1) y(2) by simp
    from less.hyps [OF this y(5) z(2), of "acc @ y"] show ?thesis
      using y(1,2,6) z(1) by (subst readFull.simps) simp
  qed
qed

lemma readFull_short:
  assumes "alive b" and "length (stream b) < k"
  shows "\<exists>b' e. readFull b k acc = (b', acc @ stream b, Some e) \<and> stream b' = [] \<and> alive b'"
  using assms
proof (induction "length (stream b)" arbitrary: b k acc rule: less_induct)
  case less
  show ?case
  proof (cases "stream b = []")
    case True
    then show ?thesis using less.prems by (subst readFull.simps) (simp add: buf_Read_end)
  next
    case False
    then obtain b' y where y: "buf_Read b k = (b', y, None)" "y \<noteq> []" "stream b = y @ stream b'" "alive b'"
      using buf_Read_correct [OF less.prems(1), of k] less.prems(2) by auto
    then show ?thesis using less.hyps [OF _ y(4), of "k - length y" "acc @ y"] less.prems(2) by (subst readFull.simps) auto
  qed
qed

section \<open>The length of a chunk\<close>

lemma digit_cases:
  fixes d :: nat
  assumes "d < 16"
  shows "d = 0 \<or> d = 1 \<or> d = 2 \<or> d = 3 \<or> d = 4 \<or> d = 5 \<or> d = 6 \<or> d = 7 \<or> d = 8 \<or> d = 9 \<or> d = 10 \<or> d = 11 \<or> d = 12
    \<or> d = 13 \<or> d = 14 \<or> d = 15"
  using assms by presburger

lemma parse_digit:
  "d < 16 \<Longrightarrow> i \<noteq> 16 \<Longrightarrow> parseHexUint_loop i (hex_digit d # v) n = parseHexUint_loop (i + 1) v (push_bit 4 n OR of_nat d)"
  by (drule digit_cases, elim disjE) (simp_all add: hex_digit_def)

lemma hex_digit_plain: "d < 16 \<Longrightarrow> \<not> isASCIISpace (hex_digit d) \<and> hex_digit d \<noteq> semi \<and> hex_digit d \<noteq> LF"
  by (drule digit_cases, elim disjE) (simp_all add: hex_digit_def isASCIISpace_def semi_def)

lemma format_x_plain: "c \<in> set (format_x n) \<Longrightarrow> \<not> isASCIISpace c \<and> c \<noteq> semi \<and> c \<noteq> LF"
proof (induction n rule: format_x.induct)
  case (1 n)
  have "c = hex_digit n \<and> n < 16 \<or> c = hex_digit (n mod 16) \<or> \<not> n < 16 \<and> c \<in> set (format_x (n div 16))"
    using 1(2) by (subst (asm) format_x.simps) (auto split: if_splits)
  then show ?case using 1(1) hex_digit_plain [of n] hex_digit_plain [of "n mod 16"] by auto
qed

lemma length_format_x: "n < 16 ^ k \<Longrightarrow> 0 < k \<Longrightarrow> length (format_x n) \<le> k"
proof (induction n arbitrary: k rule: format_x.induct)
  case (1 n)
  show ?case
  proof (cases "n < 16")
    case True
    then show ?thesis using 1(3) by (simp add: format_x.simps)
  next
    case False
    then obtain j where k: "k = Suc j" "0 < j" using 1(2,3) by (cases k; cases "k - 1") auto
    then have "n div 16 < 16 ^ j" using 1(2) by (simp add: less_mult_imp_div_less)
    then show ?thesis using 1(1) [OF False, of j] False k by (simp add: format_x.simps [of n])
  qed
qed

lemma shift_in: "push_bit 4 (of_nat (n div 16)) OR of_nat (n mod 16) = (of_nat n :: u64)"
proof (rule bit_eqI)
  fix k
  have "n div 16 = drop_bit 4 n" "n mod 16 = take_bit 4 n" by (simp_all add: drop_bit_eq_div take_bit_eq_mod)
  then show "bit (push_bit 4 (of_nat (n div 16)) OR of_nat (n mod 16) :: u64) k \<longleftrightarrow> bit (of_nat n :: u64) k"
    by (auto simp: bit_simps)
qed

lemma parse_format:
  assumes "n < 2 ^ 64"
  shows "parseHexUint_loop 0 (format_x n @ v) 0 = parseHexUint_loop (length (format_x n)) v (of_nat n)"
  using assms
proof (induction n arbitrary: v rule: format_x.induct)
  case (1 n)
  show ?case
  proof (cases "n < 16")
    case True
    then show ?thesis using parse_digit [of n 0 v 0] by (simp add: format_x.simps)
  next
    case False
    have "n div 16 < 16 ^ 15" using 1(2) by (simp add: less_mult_imp_div_less)
    then have "length (format_x (n div 16)) \<le> 15" by (rule length_format_x) simp
    then have d: "parseHexUint_loop (length (format_x (n div 16))) (hex_digit (n mod 16) # v) (of_nat (n div 16))
        = parseHexUint_loop (length (format_x (n div 16)) + 1) v (push_bit 4 (of_nat (n div 16)) OR of_nat (n mod 16))"
      by (intro parse_digit) simp_all
    have "n div 16 < 2 ^ 64" using 1(2) by simp
    from 1(1) [OF False this, of "hex_digit (n mod 16) # v"] have "parseHexUint_loop 0 (format_x n @ v) 0
        = parseHexUint_loop (length (format_x (n div 16)) + 1) v (push_bit 4 (of_nat (n div 16)) OR of_nat (n mod 16))"
      unfolding d using False by (simp add: format_x.simps [of n] del: parseHexUint_loop.simps)
    then show ?thesis unfolding shift_in using False by (simp add: format_x.simps [of n])
  qed
qed

lemma parseHexUint_format: "n < 2 ^ 64 \<Longrightarrow> parseHexUint (format_x n) = (of_nat n, None)"
  using parse_format [of n "[]"] by (simp add: parseHexUint_def)

lemma trim_space: "isASCIISpace c \<Longrightarrow> trimTrailingWhitespace (v @ [c]) = trimTrailingWhitespace v"
  by (subst trimTrailingWhitespace.simps) simp

lemma trim_plain: "(\<And>c. c \<in> set v \<Longrightarrow> \<not> isASCIISpace c) \<Longrightarrow> trimTrailingWhitespace v = v"
  by (subst trimTrailingWhitespace.simps) (metis Suc_pred' length_greater_0_conv lessI nth_mem)

text \<open>Reading the line of a chunk.\<close>

lemma readChunkLine_correct:
  assumes "stream b = format_x n @ CR # LF # rest" and "n < 2 ^ 64" and "alive b" and "17 < br_size b"
  shows "\<exists>b'. readChunkLine b = (b', format_x n, None) \<and> stream b' = rest \<and> alive b' \<and> br_size b' = br_size b"
proof -
  have len: "length (format_x n) \<le> 16" using assms(2) by (intro length_format_x) simp_all
  have plain: "LF \<notin> set (format_x n @ [CR])" using format_x_plain [of LF n] by auto
  obtain b' where b': "ReadSlice b LF = (b', (format_x n @ [CR]) @ [LF], None)" "stream b' = rest" "alive b'" "br_size b' = br_size b"
    using ReadSlice_correct [of b "format_x n @ [CR]" LF rest] assms(1,3,4) plain len by auto
  have "trimTrailingWhitespace ((format_x n @ [CR]) @ [LF]) = format_x n"
    using format_x_plain by (simp add: trim_space trim_plain isASCIISpace_def del: append_assoc)
  moreover have "takeWhile (\<lambda>x. x \<noteq> semi) (format_x n) = format_x n" using format_x_plain by (simp add: takeWhile_eq_all_conv)
  ultimately show ?thesis using b' len by (simp add: readChunkLine_def removeChunkExtension_def maxLineLength_def)
qed

section \<open>The states of the reader\<close>

definition chunk :: "u8 list \<Rightarrow> u8 list" where
  "chunk d = format_x (length d) @ [CR, LF] @ d @ [CR, LF]"

definition chunk_wire :: "u8 list list \<Rightarrow> u8 list" where
  "chunk_wire ds = concat (map chunk ds) @ [48, CR, LF]"

definition chunks_ok :: "u8 list list \<Rightarrow> bool" where
  "chunks_ok ds \<longleftrightarrow> [] \<notin> set ds \<and> (\<forall>d \<in> set ds. length d < 2 ^ 63)"

definition reader_ok :: "chunkedReader \<Rightarrow> bool" where
  "reader_ok cr \<longleftrightarrow> alive (cr_r cr) \<and> 17 < br_size (cr_r cr) \<and> length (cr_buf cr) = 2"

text \<open>
  The reader is in front of the line of a chunk, inside of a chunk, behind its data, or at the end. It has still to
  deliver \<open>left\<close>, and \<open>rest\<close> follows on the connection.
\<close>

inductive reading :: "chunkedReader \<Rightarrow> u8 list \<Rightarrow> u8 list \<Rightarrow> bool" where
  at_line: "reader_ok cr \<Longrightarrow> chunks_ok ds \<Longrightarrow> cr_err cr = None \<Longrightarrow> cr_n cr = 0 \<Longrightarrow> \<not> checkEnd cr
    \<Longrightarrow> stream (cr_r cr) = chunk_wire ds @ rest \<Longrightarrow> left = concat ds \<Longrightarrow> reading cr left rest"
| in_chunk: "reader_ok cr \<Longrightarrow> chunks_ok ds \<Longrightarrow> cr_err cr = None \<Longrightarrow> length d = unat (cr_n cr) \<Longrightarrow> d \<noteq> [] \<Longrightarrow> \<not> checkEnd cr
    \<Longrightarrow> stream (cr_r cr) = d @ CR # LF # chunk_wire ds @ rest \<Longrightarrow> left = d @ concat ds \<Longrightarrow> reading cr left rest"
| at_footer: "reader_ok cr \<Longrightarrow> chunks_ok ds \<Longrightarrow> cr_err cr = None \<Longrightarrow> cr_n cr = 0 \<Longrightarrow> checkEnd cr
    \<Longrightarrow> stream (cr_r cr) = CR # LF # chunk_wire ds @ rest \<Longrightarrow> left = concat ds \<Longrightarrow> reading cr left rest"
| at_end: "reader_ok cr \<Longrightarrow> cr_err cr = Some IoEOF \<Longrightarrow> stream (cr_r cr) = rest \<Longrightarrow> left = [] \<Longrightarrow> reading cr left rest"

lemma beginChunk_correct:
  assumes "reader_ok cr" and "chunks_ok ds" and "\<not> checkEnd cr" and "stream (cr_r cr) = chunk_wire ds @ rest"
  shows "reading (beginChunk cr) (concat ds) rest" "length (stream (cr_r (beginChunk cr))) < length (stream (cr_r cr))"
proof -
  define n where "n = (case ds of [] \<Rightarrow> 0 | d # _ \<Rightarrow> length d)"
  define tail where "tail = (case ds of [] \<Rightarrow> rest | d # ds \<Rightarrow> d @ CR # LF # chunk_wire ds @ rest)"
  have f0: "format_x 0 = [48]" by (simp add: format_x.simps hex_digit_def)
  have n: "n < 2 ^ 63" using assms(2) by (auto simp: n_def chunks_ok_def split: list.splits)
  then have n64: "n < 2 ^ 64" by simp
  have un: "unat (of_nat n :: u64) = n" by (rule unat_of_nat64 [OF n64])
  have s: "stream (cr_r cr) = format_x n @ CR # LF # tail"
    using assms(4) f0 by (cases ds) (auto simp: n_def tail_def chunk_wire_def chunk_def)
  have ok: "alive (cr_r cr)" "17 < br_size (cr_r cr)" using assms(1) by (simp_all add: reader_ok_def)
  obtain r where r: "readChunkLine (cr_r cr) = (r, format_x n, None)" "stream r = tail" "alive r" "br_size r = br_size (cr_r cr)"
    using readChunkLine_correct [OF s n64 ok] by blast
  have z: "(of_nat n :: u64) = 0 \<longleftrightarrow> n = 0" using unat_eq_zero [of "of_nat n :: u64"] unfolding un by blast
  have b: "beginChunk cr = cr\<lparr>cr_r := r, cr_n := of_nat n, cr_err := (if n = 0 then Some IoEOF else None)\<rparr>"
    using z by (simp add: beginChunk_def r(1) parseHexUint_format [OF n64] Let_def)
  show "length (stream (cr_r (beginChunk cr))) < length (stream (cr_r cr))" using b r(2) s by simp
  have ok': "reader_ok (beginChunk cr)" using assms(1) b r(3,4) by (simp add: reader_ok_def)
  show "reading (beginChunk cr) (concat ds) rest"
  proof (cases ds)
    case Nil
    then show ?thesis using b r(2) ok' by (intro at_end) (simp_all add: n_def tail_def)
  next
    case (Cons d ds')
    then have "d \<noteq> []" "chunks_ok ds'" using assms(2) by (auto simp: chunks_ok_def)
    then show ?thesis using Cons b r(2) ok' un assms(3)
      by (intro in_chunk [of _ ds' d]) (simp_all add: n_def tail_def)
  qed
qed

lemma checkFooter_correct:
  assumes "reader_ok cr" and "stream (cr_r cr) = CR # LF # rest"
  shows "\<exists>r. checkFooter cr = (cr\<lparr>cr_r := r, cr_buf := [CR, LF], checkEnd := False\<rparr>, False) \<and> stream r = rest
    \<and> reader_ok (cr\<lparr>cr_r := r, cr_buf := [CR, LF], checkEnd := False\<rparr>)"
proof -
  have "alive (cr_r cr)" "stream (cr_r cr) = [CR, LF] @ rest" using assms by (simp_all add: reader_ok_def)
  from readFull_correct [OF this, of "[]"] obtain r where r: "readFull (cr_r cr) 2 [] = (r, [CR, LF], None)" "stream r = rest" "alive r"
    "br_size r = br_size (cr_r cr)" by (auto simp: numeral_2_eq_2)
  have "drop 2 (cr_buf cr) = []" using assms(1) by (simp add: reader_ok_def)
  then show ?thesis using r assms(1) by (intro exI [of _ r]) (simp add: checkFooter_def reader_ok_def Let_def)
qed

text \<open>One read inside of a chunk.\<close>

lemma read_data:
  assumes "reader_ok cr" and "chunks_ok ds" and "cr_err cr = None" and "length d = unat (cr_n cr)" and "d \<noteq> []" and "\<not> checkEnd cr"
    and "stream (cr_r cr) = d @ CR # LF # chunk_wire ds @ rest" and "0 < k" and "k < 2 ^ 64"
  obtains cr' x y where "Read_loop cr k out = Read_loop cr' (k - length x) (out @ x)" "x \<noteq> []" "d = x @ y"
    "reading cr' (y @ concat ds) rest" "length (stream (cr_r cr')) < length (stream (cr_r cr))"
proof -
  have nz: "cr_n cr \<noteq> 0" using assms(4,5) by auto
  define m where "m = (if of_nat k > cr_n cr then unat (cr_n cr) else k)"
  have m: "0 < m" "m \<le> length d"
  proof -
    show "0 < m" using assms(8) nz by (simp add: m_def unat_gt_0)
    have "unat (of_nat k :: u64) = k" by (rule unat_of_nat64 [OF assms(9)])
    then show "m \<le> length d" using assms(4) by (auto simp: m_def word_less_nat_alt)
  qed
  have "alive (cr_r cr)" "stream (cr_r cr) \<noteq> []" using assms(1,7) by (simp_all add: reader_ok_def)
  then obtain r x where r: "buf_Read (cr_r cr) m = (r, x, None)" "x \<noteq> []" "length x \<le> m" "stream (cr_r cr) = x @ stream r" "alive r"
    "br_size r = br_size (cr_r cr)" using buf_Read_correct [OF _ m(1)] by blast
  have len: "length x \<le> length d" using r(3) m(2) by simp
  have e: "d @ CR # LF # chunk_wire ds @ rest = x @ stream r" using r(4) assms(7) by simp
  have "take (length x) (d @ CR # LF # chunk_wire ds @ rest) = x" unfolding e by simp
  then have d: "d = x @ drop (length x) d" using len by (metis append_take_drop_id append_Nil2 diff_is_0_eq take0 take_append)
  define y where "y = drop (length x) d"
  have sy: "stream r = y @ CR # LF # chunk_wire ds @ rest" using e d by (metis append.assoc same_append_eq y_def)
  have "length x < 2 ^ 64" using len assms(4) unsigned_less [of "cr_n cr", where 'a = nat] by simp
  then have "unat (of_nat (length x) :: u64) = length x" by (rule unat_of_nat64)
  then have ny: "unat (cr_n cr - of_nat (length x)) = length y"
    using len assms(4) by (simp add: y_def unat_sub word_le_nat_alt)
  define c where "c = cr\<lparr>cr_r := r, cr_err := None, cr_n := cr_n cr - of_nat (length x)\<rparr>"
  define cr' where "cr' = (if y = [] then c\<lparr>checkEnd := True\<rparr> else c)"
  have z: "cr_n cr - of_nat (length x) = 0 \<longleftrightarrow> y = []" using ny by (metis length_0_conv unat_eq_zero)
  show thesis
  proof (rule that [OF _ r(2)])
    show "Read_loop cr k out = Read_loop cr' (k - length x) (out @ x)"
      using assms(3,6,8) nz r(1) z by (subst Read_loop.simps) (simp add: m_def [symmetric] cr'_def c_def Let_def)
    show "d = x @ y" using d by (simp add: y_def)
    have ok: "reader_ok cr'" using assms(1) r(5,6) by (simp add: reader_ok_def cr'_def c_def)
    show "reading cr' (y @ concat ds) rest"
    proof (cases "y = []")
      case True
      then show ?thesis using ok assms(2,3) z sy by (intro at_footer [of _ ds]) (simp_all add: cr'_def c_def)
    next
      case False
      then show ?thesis using ok assms(2,3,6) ny sy by (intro in_chunk [of _ ds y]) (simp_all add: cr'_def c_def)
    qed
    show "length (stream (cr_r cr')) < length (stream (cr_r cr))" using r(2,4) by (simp add: cr'_def c_def)
  qed
qed

lemma Read_loop_footer:
  assumes "cr_err cr = None" and "cr_n cr = 0" and "checkEnd cr" and "\<not> (length out > 0 \<and> Buffered (cr_r cr) < 2)"
    and "checkFooter cr = (cr', False)" and "cr_err cr' = None" and "cr_n cr' = 0" and "\<not> checkEnd cr'"
  shows "Read_loop cr k out = Read_loop cr' k out"
  using assms by (subst (1 2) Read_loop.simps) auto

lemma Read_loop_correct:
  assumes "reading cr left rest" and "k < 2 ^ 64"
  shows "\<exists>cr' x left'. Read_loop cr k out = Some (cr', out @ x) \<and> reading cr' left' rest \<and> left = x @ left'
    \<and> (out = [] \<longrightarrow> 0 < k \<longrightarrow> x \<noteq> [] \<or> cr_err cr' \<noteq> None)"
  using assms
proof (induction "length (stream (cr_r cr))" arbitrary: cr left k out rule: less_induct)
  case less
  from less.prems(1) show ?case
  proof cases
    case (at_line ds)
    show ?thesis
    proof (cases "length out > 0 \<and> \<not> chunkHeaderAvailable cr")
      case True
      then have "Read_loop cr k out = Some (cr, out @ [])" using at_line by (subst Read_loop.simps) simp
      with less.prems(1) True show ?thesis by blast
    next
      case False
      then have "Read_loop cr k out = Read_loop (beginChunk cr) k out" using at_line by (subst Read_loop.simps) auto
      with less.hyps beginChunk_correct [OF at_line(1,2,5,6)] less.prems(2) at_line(7) show ?thesis by metis
    qed
  next
    case (in_chunk ds d)
    show ?thesis
    proof (cases "k = 0")
      case True
      then have "Read_loop cr k out = Some (cr, out @ [])" using in_chunk by (subst Read_loop.simps) auto
      with less.prems(1) True show ?thesis by blast
    next
      case False
      then have "0 < k" by simp
      obtain cr1 x y where r: "Read_loop cr k out = Read_loop cr1 (k - length x) (out @ x)" "x \<noteq> []" "d = x @ y"
        "reading cr1 (y @ concat ds) rest" "length (stream (cr_r cr1)) < length (stream (cr_r cr))"
        by (rule read_data [OF in_chunk(1-7) \<open>0 < k\<close> less.prems(2)])
      have "k - length x < 2 ^ 64" using less.prems(2) by simp
      from less.hyps [OF r(5,4) this, of "out @ x"] obtain cr' z left' where
        "Read_loop cr1 (k - length x) (out @ x) = Some (cr', (out @ x) @ z)" "reading cr' left' rest" "y @ concat ds = z @ left'"
        by blast
      then show ?thesis using r(1-3) in_chunk(8) by (intro exI [of _ cr'] exI [of _ "x @ z"] exI [of _ left']) simp
    qed
  next
    case (at_footer ds)
    show ?thesis
    proof (cases "length out > 0 \<and> Buffered (cr_r cr) < 2")
      case True
      then have "Read_loop cr k out = Some (cr, out @ [])" using at_footer by (subst Read_loop.simps) simp
      with less.prems(1) True show ?thesis by blast
    next
      case False
      obtain r where r: "checkFooter cr = (cr\<lparr>cr_r := r, cr_buf := [CR, LF], checkEnd := False\<rparr>, False)" "stream r = chunk_wire ds @ rest"
        "reader_ok (cr\<lparr>cr_r := r, cr_buf := [CR, LF], checkEnd := False\<rparr>)"
        using checkFooter_correct [OF at_footer(1,6)] by blast
      let ?cr = "cr\<lparr>cr_r := r, cr_buf := [CR, LF], checkEnd := False\<rparr>"
      have "Read_loop cr k out = Read_loop ?cr k out" using at_footer False r(1) by (intro Read_loop_footer) simp_all
      moreover have "reading ?cr left rest" using r(2,3) at_footer by (intro at_line [of _ ds]) simp_all
      moreover have "length (stream (cr_r ?cr)) < length (stream (cr_r cr))" using r(2) at_footer(6) by simp
      ultimately show ?thesis using less.hyps [of ?cr left k out] less.prems(2) by metis
    qed
  next
    case at_end
    then have "Read_loop cr k out = Some (cr, out @ [])" by (subst Read_loop.simps) simp
    with less.prems(1) at_end(2) show ?thesis by (metis append_Nil option.distinct(1))
  qed
qed

text \<open>Reading with slices of length \<open>k\<close> up to an error, as \<open>io.ReadAll\<close> does.\<close>

partial_function (option) read_all :: "nat \<Rightarrow> chunkedReader \<Rightarrow> u8 list \<Rightarrow> (u8 list \<times> ioerr \<times> chunkedReader) option" where
  "read_all k cr acc =
     (case chunked_Read cr k of
        None \<Rightarrow> None
      | Some (cr, x, err) \<Rightarrow> (case err of None \<Rightarrow> read_all k cr (acc @ x) | Some e \<Rightarrow> Some (acc @ x, e, cr)))"

lemma reading_end: "reading cr left rest \<Longrightarrow> cr_err cr = Some e \<Longrightarrow> e = IoEOF \<and> left = [] \<and> stream (cr_r cr) = rest"
  by (auto elim: reading.cases)

lemma read_all_correct:
  assumes "reading cr left rest" and "0 < k" and "k < 2 ^ 64"
  shows "\<exists>cr'. read_all k cr acc = Some (acc @ left, IoEOF, cr') \<and> stream (cr_r cr') = rest"
  using assms(1)
proof (induction "length left" arbitrary: cr left acc rule: less_induct)
  case less
  obtain cr' x left' where r: "Read_loop cr k [] = Some (cr', x)" "reading cr' left' rest" "left = x @ left'" "x \<noteq> [] \<or> cr_err cr' \<noteq> None"
    using Read_loop_correct [OF less.prems assms(3), of "[]"] assms(2) by auto
  show ?case
  proof (cases "cr_err cr'")
    case None
    then have "length left' < length left" using r(3,4) by simp
    from less.hyps [OF this r(2), of "acc @ x"] show ?thesis
      using None r(1,3) by (subst read_all.simps) (simp add: chunked_Read_def)
  next
    case (Some e)
    with reading_end [OF r(2) Some] r(1,3) show ?thesis by (subst read_all.simps) (simp add: chunked_Read_def)
  qed
qed

section \<open>Writing\<close>

text \<open>What the writer below is relied on for: it takes all the bytes it is given, and flushing loses none.\<close>

locale wire_sink =
  fixes cw :: "'s chunkedWriter" and content :: "'s \<Rightarrow> u8 list"
  assumes takes: "\<exists>s'. Wire cw s x = (s', length x, None) \<and> content s' = content s @ x"
    and flushes: "wire_flush cw = Some f \<Longrightarrow> \<exists>s'. f s = (s', None) \<and> content s' = content s"
begin

lemma Write_wire:
  "\<exists>s'. chunked_Write cw s d = (s', length d, None) \<and> content s' = content s @ (if d = [] then [] else chunk d)"
proof -
  obtain s1 where 1: "Wire cw s (format_x (length d) @ [CR, LF]) = (s1, length (format_x (length d) @ [CR, LF]), None)"
    "content s1 = content s @ format_x (length d) @ [CR, LF]" using takes by blast
  obtain s2 where 2: "Wire cw s1 d = (s2, length d, None)" "content s2 = content s1 @ d" using takes by blast
  obtain s3 where 3: "Wire cw s2 [CR, LF] = (s3, length [CR, LF], None)" "content s3 = content s2 @ [CR, LF]" using takes by blast
  show ?thesis
  proof (cases "wire_flush cw")
    case None
    with 1 2 3 show ?thesis by (simp add: chunked_Write_def chunk_def)
  next
    case (Some f)
    then obtain s4 where "f s3 = (s4, None)" "content s4 = content s3" using flushes by blast
    with Some 1 2 3 show ?thesis by (simp add: chunked_Write_def chunk_def)
  qed
qed

lemma Close_wire: "\<exists>s'. chunked_Close cw s = (s', None) \<and> content s' = content s @ [48, CR, LF]"
  using takes [of s "[48, CR, LF]"] by (auto simp: chunked_Close_def)

end

text \<open>Several writes and the final \<open>Close\<close>, stopping at the first error.\<close>

fun write_all :: "'s chunkedWriter \<Rightarrow> 's \<Rightarrow> u8 list list \<Rightarrow> 's \<times> ioerr option" where
  "write_all cw s [] = chunked_Close cw s"
| "write_all cw s (d # ds) =
     (case chunked_Write cw s d of (s, _, err) \<Rightarrow> if err \<noteq> None then (s, err) else write_all cw s ds)"

context wire_sink
begin

lemma write_all_wire:
  "\<exists>s'. write_all cw s ds = (s', None) \<and> content s' = content s @ chunk_wire (filter (\<lambda>d. d \<noteq> []) ds)"
proof (induction ds arbitrary: s)
  case Nil
  then show ?case using Close_wire [of s] by (simp add: chunk_wire_def)
next
  case (Cons d ds)
  obtain s1 where s1: "chunked_Write cw s d = (s1, length d, None)" "content s1 = content s @ (if d = [] then [] else chunk d)"
    using Write_wire by blast
  with Cons.IH [of s1] show ?case by (auto simp: chunk_wire_def)
qed

end

text \<open>A writer into memory, as a \<open>bytes.Buffer\<close> or the buffer of a \<open>bufio.Writer\<close> that is flushed behind each chunk.\<close>

definition buffer_writer :: "u8 list chunkedWriter" where
  "buffer_writer = \<lparr>Wire = (\<lambda>s x. (s @ x, length x, None)), wire_flush = None\<rparr>"

definition flushing_writer :: "(u8 list \<times> u8 list) chunkedWriter" where
  "flushing_writer = \<lparr>Wire = (\<lambda>(out, buf) x. ((out, buf @ x), length x, None)),
     wire_flush = Some (\<lambda>(out, buf). ((out @ buf, []), None))\<rparr>"

interpretation plain_sink: wire_sink buffer_writer "\<lambda>s. s"
  by unfold_locales (simp_all add: buffer_writer_def)

interpretation flushing_sink: wire_sink flushing_writer "\<lambda>(out, buf). out @ buf"
  by unfold_locales (auto simp: flushing_writer_def)

lemma concat_filter: "concat (filter (\<lambda>d. d \<noteq> []) ds) = concat ds"
  by (induction ds) auto

lemma reading_New:
  assumes "\<forall>d \<in> set ds. length d < 2 ^ 63" and "concat segs = chunk_wire (filter (\<lambda>d. d \<noteq> []) ds) @ rest" and "[] \<notin> set segs" and "17 < sz"
  shows "reading (NewChunkedReader \<lparr>br_buf = [], br_src = segs, br_size = sz\<rparr>) (concat ds) rest"
  using assms by (intro at_line [of _ "filter (\<lambda>d. d \<noteq> []) ds"])
    (auto simp: NewChunkedReader_def reader_ok_def alive_def stream_def chunks_ok_def concat_filter)

section \<open>Properties\<close>

text \<open>
  C8: The chunked encoding round trip: whatever pieces are written to a chunked writer over a writer that takes
  what it is given, with a \<open>Close\<close> at the end, however the connection cuts the bytes into non-empty segments
  and whatever non-zero length of slice the receiver reads with, the reader returns the concatenation of the
  pieces and then the end of the file, and leaves what follows on the connection.
\<close>

theorem chunked_roundtrip:
  assumes "wire_sink cw content" and "content s = []" and "\<forall>d \<in> set ds. length d < 2 ^ 63"
    and "17 < sz" and "0 < k" and "k < 2 ^ 64"
  shows "\<exists>s'. write_all cw s ds = (s', None) \<and>
    (\<forall>segs rest. [] \<notin> set segs \<longrightarrow> concat segs = content s' @ rest \<longrightarrow>
      (\<exists>cr. read_all k (NewChunkedReader \<lparr>br_buf = [], br_src = segs, br_size = sz\<rparr>) [] = Some (concat ds, IoEOF, cr)
         \<and> stream (cr_r cr) = rest))"
proof -
  obtain s' where s': "write_all cw s ds = (s', None)" "content s' = chunk_wire (filter (\<lambda>d. d \<noteq> []) ds)"
    using wire_sink.write_all_wire [OF assms(1), of s ds] assms(2) by auto
  have "reading (NewChunkedReader \<lparr>br_buf = [], br_src = segs, br_size = sz\<rparr>) (concat ds) rest"
    if "[] \<notin> set segs" "concat segs = content s' @ rest" for segs rest
    using that s'(2) assms(3,4) by (intro reading_New) simp_all
  from this [THEN read_all_correct, OF _ _ assms(5,6), of _ _ "[]"] s'(1) show ?thesis by auto
qed

theorem chunked_roundtrip_witness:
  "\<exists>cr. read_all 2 (NewChunkedReader \<lparr>br_buf = [], br_src = [[51, 13], [10, 1, 2, 3, 13], [10, 48, 13, 10, 9]], br_size = 4096\<rparr>) []
     = Some ([1, 2, 3], IoEOF, cr) \<and> stream (cr_r cr) = [9]"
proof -
  have f: "format_x (Suc (Suc (Suc 0))) = [51]" by (simp add: format_x.simps hex_digit_def)
  have w: "write_all flushing_writer ([], []) [[1, 2, 3], []] = (([51, 13, 10, 1, 2, 3, 13, 10], [48, 13, 10]), None)"
    by (simp add: flushing_writer_def chunked_Write_def chunked_Close_def f)
  from chunked_roundtrip [OF flushing_sink.wire_sink_axioms, of "([], [])" "[[1, 2, 3], []]" 4096 2] show ?thesis unfolding w
    by (auto elim!: allE [of _ "[[51, 13], [10, 1, 2, 3, 13], [10, 48, 13, 10, 9]]"])
qed

text \<open>
  A connection that ends behind the data of a chunk is not reported: the error of reading the two bytes that
  have to follow is dropped, because the code looks at the error of the reader instead. \<open>Read\<close> returns no
  bytes and no error then, and is in the same situation again.
\<close>

lemma truncated_chunk_stalls:
  assumes "cr_err cr = None" and "checkEnd cr" and "alive (cr_r cr)" and "length (stream (cr_r cr)) < 2"
  shows "\<exists>cr'. chunked_Read cr k = Some (cr', [], None) \<and> cr_err cr' = None \<and> checkEnd cr'
    \<and> alive (cr_r cr') \<and> length (stream (cr_r cr')) < 2"
proof -
  obtain b e where "readFull (cr_r cr) 2 [] = (b, stream (cr_r cr), Some e)" "stream b = []" "alive b"
    using readFull_short [OF assms(3,4), of "[]"] by auto
  then show ?thesis using assms(1,2) by (simp add: chunked_Read_def Read_loop.simps checkFooter_def Let_def)
qed

end
