(* ===== verification/RunQueue.thy ===== *)
theory RunQueue
  imports GoPrelude
begin

text \<open>
  Goroutines and the queues they wait in to run (\<open>src/channels_and_select/proc.go\<close> and the types of
  \<open>runtime2.go\<close>). A goroutine is known by its pointer, a number that is not 0, and its fields are in a store,
  because the queues are lists linked through the field \<open>schedlink\<close>. The state \<open>rt\<close> is the part of the runtime
  these functions share: the goroutines, the processor \<open>pp\<close> with its run queue, the scheduler and the goroutine
  that runs. One thread runs at a time, so locks have no effect and a compare-and-swap fails only when the value
  differs; a loop that waits for another thread does not end.
\<close>

unbundle bit_operations_syntax

section \<open>State\<close>

type_synonym gptr = nat

definition Gidle :: u32 where [simp]: "Gidle = 0"
definition Grunnable :: u32 where [simp]: "Grunnable = 1"
definition Grunning :: u32 where [simp]: "Grunning = 2"
definition Gwaiting :: u32 where [simp]: "Gwaiting = 4"
definition Gscan :: u32 where [simp]: "Gscan = 0x1000"
definition Gscanrunning :: u32 where [simp]: "Gscanrunning = 0x1002"

record g =
  atomicstatus :: u32
  schedlink :: gptr
  g_param :: nat
  waitreason :: u8
  g_m :: bool
  g_waiting :: nat
  activeStackChans :: bool
  parkingOnChan :: bool

type_synonym gstore = "gptr \<Rightarrow> g"

record gQueue =
  q_head :: gptr
  q_tail :: gptr

record gList =
  l_head :: gptr

record p =
  schedtick :: u32
  runqhead :: u32
  runqtail :: u32
  runq :: "gptr list"
  runnext :: gptr
  p_sudogcache :: "nat list"

record schedt =
  sched_sudogcache :: nat
  sched_runq :: gQueue
  runqsize :: u32

record rt =
  gs :: gstore
  pp :: p
  sched :: schedt
  curg :: gptr

definition set_link :: "gstore \<Rightarrow> gptr \<Rightarrow> gptr \<Rightarrow> gstore" where
  "set_link s x y = s(x := (s x)\<lparr>schedlink := y\<rparr>)"

section \<open>Linked queues\<close>

definition gQueue_empty :: "gQueue \<Rightarrow> bool" where
  "gQueue_empty q = (q_head q = 0)"

definition gQueue_push :: "gstore \<Rightarrow> gQueue \<Rightarrow> gptr \<Rightarrow> gstore \<times> gQueue" where
  "gQueue_push s q gp =
     (set_link s gp (q_head q), \<lparr>q_head = gp, q_tail = (if q_tail q = 0 then gp else q_tail q)\<rparr>)"

definition gQueue_pushBack :: "gstore \<Rightarrow> gQueue \<Rightarrow> gptr \<Rightarrow> gstore \<times> gQueue" where
  "gQueue_pushBack s q gp =
     (let s = set_link s gp 0
      in if q_tail q \<noteq> 0 then (set_link s (q_tail q) gp, q\<lparr>q_tail := gp\<rparr>)
         else (s, \<lparr>q_head = gp, q_tail = gp\<rparr>))"

definition gQueue_pushBackAll :: "gstore \<Rightarrow> gQueue \<Rightarrow> gQueue \<Rightarrow> gstore \<times> gQueue" where
  "gQueue_pushBackAll s q q2 =
     (if q_tail q2 = 0 then (s, q)
      else let s = set_link s (q_tail q2) 0
           in if q_tail q \<noteq> 0 then (set_link s (q_tail q) (q_head q2), q\<lparr>q_tail := q_tail q2\<rparr>)
              else (s, \<lparr>q_head = q_head q2, q_tail = q_tail q2\<rparr>))"

definition gQueue_pop :: "gstore \<Rightarrow> gQueue \<Rightarrow> gstore \<times> gQueue \<times> gptr" where
  "gQueue_pop s q =
     (let gp = q_head q
      in if gp \<noteq> 0
         then let h = schedlink (s gp)
              in (s, \<lparr>q_head = h, q_tail = (if h = 0 then 0 else q_tail q)\<rparr>, gp)
         else (s, q, gp))"

definition gList_empty :: "gList \<Rightarrow> bool" where
  "gList_empty l = (l_head l = 0)"

definition gList_push :: "gstore \<Rightarrow> gList \<Rightarrow> gptr \<Rightarrow> gstore \<times> gList" where
  "gList_push s l gp = (set_link s gp (l_head l), \<lparr>l_head = gp\<rparr>)"

definition gList_pushAll :: "gstore \<Rightarrow> gList \<Rightarrow> gQueue \<Rightarrow> gstore \<times> gList" where
  "gList_pushAll s l q =
     (if \<not> gQueue_empty q then (set_link s (q_tail q) (l_head l), \<lparr>l_head = q_head q\<rparr>) else (s, l))"

definition gList_pop :: "gstore \<Rightarrow> gList \<Rightarrow> gList \<times> gptr" where
  "gList_pop s l = (let gp = l_head l in (if gp \<noteq> 0 then \<lparr>l_head = schedlink (s gp)\<rparr> else l, gp))"

section \<open>The status of a goroutine\<close>

definition readgstatus :: "gstore \<Rightarrow> gptr \<Rightarrow> u32" where
  "readgstatus s gp = atomicstatus (s gp)"

text \<open>
  The loop ends when the swap succeeds. In another status the loop waits for a scan by the garbage collector
  to end, which with one thread of control does not happen.
\<close>

definition casgstatus :: "gstore \<Rightarrow> gptr \<Rightarrow> u32 \<Rightarrow> u32 \<Rightarrow> gstore res" where
  "casgstatus s gp oldval newval =
     (if oldval AND Gscan \<noteq> 0 \<or> newval AND Gscan \<noteq> 0 \<or> oldval = newval
      then Inl (Throw ''casgstatus: bad incoming values'')
      else if atomicstatus (s gp) = oldval then Inr (s(gp := (s gp)\<lparr>atomicstatus := newval\<rparr>))
      else if oldval = Gwaiting \<and> atomicstatus (s gp) = Grunnable
      then Inl (Throw ''casgstatus: waiting for Gwaiting but is Grunnable'')
      else Inl Loops)"

section \<open>Run queues\<close>

definition globrunqputbatch :: "'a rt_scheme \<Rightarrow> gQueue \<Rightarrow> u32 \<Rightarrow> 'a rt_scheme" where
  "globrunqputbatch w batch n =
     (case gQueue_pushBackAll (gs w) (sched_runq (sched w)) batch of (s, q) \<Rightarrow>
        w\<lparr>gs := s, sched := (sched w)\<lparr>sched_runq := q, runqsize := runqsize (sched w) + n\<rparr>\<rparr>)"

text \<open>Linking the goroutines of a batch.\<close>

fun link_batch :: "gstore \<Rightarrow> gptr list \<Rightarrow> gstore res" where
  "link_batch s (x # y # zs) = (if x = 0 then Inl NilPanic else link_batch (set_link s x y) (y # zs))"
| "link_batch s xs = Inr s"

definition runqputslow :: "'a rt_scheme \<Rightarrow> gptr \<Rightarrow> u32 \<Rightarrow> u32 \<Rightarrow> ('a rt_scheme \<times> bool) res" where
  "runqputslow w gp h t =
     (let n = (t - h) div 2
      in if n \<noteq> 128 then Inl (Throw ''runqputslow: queue is not full'')
         else let batch = map (\<lambda>i. runq (pp w) ! unat ((h + of_nat i) mod 256)) [0..<unat n]
              in if runqhead (pp w) \<noteq> h then Inr (w, False)
                 else let w = w\<lparr>pp := (pp w)\<lparr>runqhead := h + n\<rparr>\<rparr>;
                          batch = batch @ [gp]
                      in go_bind (link_batch (gs w) batch) (\<lambda>s.
                           Inr (globrunqputbatch (w\<lparr>gs := s\<rparr>)
                                  \<lparr>q_head = batch ! 0, q_tail = batch ! unat n\<rparr> (n + 1), True)))"

partial_function (option) runqput_retry :: "'a rt_scheme \<Rightarrow> gptr \<Rightarrow> 'a rt_scheme res option" where
  "runqput_retry w gp =
     (let h = runqhead (pp w); t = runqtail (pp w);
          w = (if t - h < 256
               then w\<lparr>pp := (pp w)\<lparr>runq := (runq (pp w))[unat (t mod 256) := gp], runqtail := t + 1\<rparr>\<rparr>
               else w)
      in case runqputslow w gp h t of
           Inl e \<Rightarrow> Some (Inl e)
         | Inr (w, ok) \<Rightarrow> if ok then Some (Inr w) else runqput_retry w gp)"

definition runqput :: "'a rt_scheme \<Rightarrow> gptr \<Rightarrow> bool \<Rightarrow> 'a rt_scheme res" where
  "runqput w gp next =
     (let oldnext = runnext (pp w)
      in if next
         then let w = w\<lparr>pp := (pp w)\<lparr>runnext := gp\<rparr>\<rparr>
              in if oldnext = 0 then Inr w else go_bind (returns (runqput_retry w oldnext)) (\<lambda>r. r)
         else go_bind (returns (runqput_retry w gp)) (\<lambda>r. r))"

section \<open>Waking and parking\<close>

definition ready :: "'a rt_scheme \<Rightarrow> gptr \<Rightarrow> bool \<Rightarrow> 'a rt_scheme res" where
  "ready w gp next =
     (let status = readgstatus (gs w) gp
      in if andnot status Gscan \<noteq> Gwaiting then Inl (Throw ''bad g->statius in ready'')
         else go_bind (casgstatus (gs w) gp Gwaiting Grunnable) (\<lambda>s. runqput (w\<lparr>gs := s\<rparr>) gp next))"

definition goready :: "'a rt_scheme \<Rightarrow> gptr \<Rightarrow> 'a rt_scheme res" where
  "goready w gp = ready w gp True"

definition execute :: "'a rt_scheme \<Rightarrow> gptr \<Rightarrow> bool \<Rightarrow> 'a rt_scheme res" where
  "execute w gp inheritTime =
     (let w = w\<lparr>curg := gp, gs := (gs w)(gp := (gs w gp)\<lparr>g_m := True\<rparr>)\<rparr>
      in go_bind (casgstatus (gs w) gp Grunnable Grunning) (\<lambda>s.
           let w = w\<lparr>gs := s\<rparr>
           in Inr (if \<not> inheritTime then w\<lparr>pp := (pp w)\<lparr>schedtick := schedtick (pp w) + 1\<rparr>\<rparr> else w)))"

definition dropg :: "'a rt_scheme \<Rightarrow> 'a rt_scheme res" where
  "dropg w =
     (if curg w = 0 then Inl NilPanic
      else Inr (w\<lparr>gs := (gs w)(curg w := (gs w (curg w))\<lparr>g_m := False\<rparr>), curg := 0\<rparr>))"

text \<open>
  \<open>park_m\<close> runs on the scheduling stack. The function \<open>unlockf\<close> decides whether the goroutine stays parked. The
  result tells whether it does; \<open>schedule\<close> has an empty body in the sources.
\<close>

type_synonym 'a unlockfun = "'a rt_scheme \<Rightarrow> gptr \<Rightarrow> 'a rt_scheme \<times> bool"

definition park_m :: "'a rt_scheme \<Rightarrow> gptr \<Rightarrow> 'a unlockfun option \<Rightarrow> ('a rt_scheme \<times> bool) res" where
  "park_m w gp unlockf =
     go_bind (casgstatus (gs w) gp Grunning Gwaiting) (\<lambda>s.
     go_bind (dropg (w\<lparr>gs := s\<rparr>)) (\<lambda>w.
       case unlockf of
         None \<Rightarrow> Inr (w, True)
       | Some fn \<Rightarrow> (case fn w gp of (w, ok) \<Rightarrow>
           if \<not> ok
           then go_bind (casgstatus (gs w) gp Gwaiting Grunnable) (\<lambda>s.
                go_bind (execute (w\<lparr>gs := s\<rparr>) gp True) (\<lambda>w. Inr (w, False)))
           else Inr (w, True))))"

definition gopark :: "'a rt_scheme \<Rightarrow> 'a unlockfun option \<Rightarrow> u8 \<Rightarrow> ('a rt_scheme \<times> bool) res" where
  "gopark w unlockf reason =
     (let gp = curg w
      in if gp = 0 then Inl NilPanic
         else let status = readgstatus (gs w) gp
              in if status \<noteq> Grunning \<and> status \<noteq> Gscanrunning then Inl (Throw ''gopark: bad g status'')
                 else park_m (w\<lparr>gs := (gs w)(gp := (gs w gp)\<lparr>waitreason := reason\<rparr>)\<rparr>) gp unlockf)"

section \<open>Queues as lists\<close>

text \<open>
  What a client sees of a linked queue: a list of pointers. The links are in a store that other objects share,
  so the contract of an operation is a relation between the store, the queue and the list.
\<close>

datatype queue_op = Enqueue nat | Dequeue

fun list_run :: "nat list \<Rightarrow> queue_op list \<Rightarrow> nat list \<times> nat list" where
  "list_run xs [] = (xs, [])"
| "list_run xs (Enqueue x # ops) = list_run (xs @ [x]) ops"
| "list_run xs (Dequeue # ops) =
     (case list_run (tl xs) ops of (ys, out) \<Rightarrow> (ys, (if xs = [] then 0 else hd xs) # out))"

text \<open>A pointer is put into the queue only when it is valid and not in it.\<close>

fun legal_ops :: "nat list \<Rightarrow> queue_op list \<Rightarrow> bool" where
  "legal_ops xs [] = True"
| "legal_ops xs (Enqueue x # ops) \<longleftrightarrow> x \<noteq> 0 \<and> x \<notin> set xs \<and> legal_ops (xs @ [x]) ops"
| "legal_ops xs (Dequeue # ops) \<longleftrightarrow> legal_ops (tl xs) ops"

fun queue_run :: "('s \<Rightarrow> 'q \<Rightarrow> nat \<Rightarrow> 's \<times> 'q) \<Rightarrow> ('s \<Rightarrow> 'q \<Rightarrow> 's \<times> 'q \<times> nat) \<Rightarrow> 's \<Rightarrow> 'q \<Rightarrow> queue_op list
    \<Rightarrow> 's \<times> 'q \<times> nat list" where
  "queue_run enq deq s q [] = (s, q, [])"
| "queue_run enq deq s q (Enqueue x # ops) = (case enq s q x of (s, q) \<Rightarrow> queue_run enq deq s q ops)"
| "queue_run enq deq s q (Dequeue # ops) =
     (case deq s q of (s, q, x) \<Rightarrow> case queue_run enq deq s q ops of (s, q, out) \<Rightarrow> (s, q, x # out))"

locale linked_queue =
  fixes rep :: "'s \<Rightarrow> 'q \<Rightarrow> nat list \<Rightarrow> bool"
    and enq :: "'s \<Rightarrow> 'q \<Rightarrow> nat \<Rightarrow> 's \<times> 'q"
    and deq :: "'s \<Rightarrow> 'q \<Rightarrow> 's \<times> 'q \<times> nat"
  assumes enq_rep: "rep s q xs \<Longrightarrow> x \<noteq> 0 \<Longrightarrow> x \<notin> set xs \<Longrightarrow> enq s q x = (s', q') \<Longrightarrow> rep s' q' (xs @ [x])"
    and deq_rep: "rep s q xs \<Longrightarrow> deq s q = (s', q', x) \<Longrightarrow> rep s' q' (tl xs) \<and> x = (if xs = [] then 0 else hd xs)"
begin

lemma run_refines:
  assumes "rep s q xs" and "legal_ops xs ops" and "queue_run enq deq s q ops = (s', q', out)"
  shows "list_run xs ops = (ys, out') \<Longrightarrow> rep s' q' ys \<and> out = out'"
  using assms
proof (induction xs ops arbitrary: s q out ys out' rule: list_run.induct)
  case (2 xs x ops)
  then show ?case by (auto split: prod.splits dest: enq_rep)
next
  case (3 xs ops)
  obtain s1 q1 x where d: "deq s q = (s1, q1, x)" by (metis prod_cases3)
  obtain o1 where o1: "queue_run enq deq s1 q1 ops = (s', q', o1)" "out = x # o1"
    using "3.prems"(4) d by (auto split: prod.splits)
  obtain o2 where o2: "list_run (tl xs) ops = (ys, o2)" "out' = (if xs = [] then 0 else hd xs) # o2"
    using "3.prems"(1) by (auto split: prod.splits)
  note r = deq_rep [OF "3.prems"(2) d]
  have "rep s' q' ys \<and> o1 = o2" using "3.prems"(3) r by (intro "3.IH" [OF o2(1) _ _ o1(1)]) simp_all
  with r o1(2) o2(2) show ?case by simp
qed auto

end

section \<open>Queues of goroutines\<close>

fun seg :: "gstore \<Rightarrow> gptr \<Rightarrow> gptr list \<Rightarrow> gptr \<Rightarrow> bool" where
  "seg s x [] y \<longleftrightarrow> x = y"
| "seg s x (z # zs) y \<longleftrightarrow> x = z \<and> z \<noteq> 0 \<and> seg s (schedlink (s z)) zs y"

lemma seg_append: "seg s x (xs @ ys) y \<longleftrightarrow> (\<exists>z. seg s x xs z \<and> seg s z ys y)"
  by (induction xs arbitrary: x) auto

lemma schedlink_set [simp]: "schedlink (set_link s x y z) = (if z = x then y else schedlink (s z))"
  by (simp add: set_link_def)

lemma seg_frame [simp]: "x \<notin> set xs \<Longrightarrow> seg (set_link s x z) a xs b = seg s a xs b"
  by (induction xs arbitrary: a) auto

lemma seg_cong: "(\<And>x. x \<in> set xs \<Longrightarrow> schedlink (s' x) = schedlink (s x)) \<Longrightarrow> seg s' a xs b = seg s a xs b"
  by (induction xs arbitrary: a) auto

lemma seg_nonzero: "seg s a xs b \<Longrightarrow> 0 \<notin> set xs"
  by (induction xs arbitrary: a) auto

text \<open>Changing the last link.\<close>

lemma seg_last:
  assumes "seg s a xs b" and "xs \<noteq> []" and "distinct xs"
  shows "seg (set_link s (last xs) c) a xs c"
proof -
  obtain ys z where xs: "xs = ys @ [z]" using assms(2) by (metis rev_exhaust)
  with assms show ?thesis by (auto simp: seg_append)
qed

definition gqueue :: "gstore \<Rightarrow> gQueue \<Rightarrow> gptr list \<Rightarrow> bool" where
  "gqueue s q xs \<longleftrightarrow> seg s (q_head q) xs 0 \<and> distinct xs \<and> q_tail q = (if xs = [] then 0 else last xs)"

text \<open>A batch is a queue whose last link is not yet set.\<close>

definition gbatch :: "gstore \<Rightarrow> gQueue \<Rightarrow> gptr list \<Rightarrow> bool" where
  "gbatch s q xs \<longleftrightarrow> (\<exists>b. seg s (q_head q) xs b) \<and> distinct xs \<and> q_tail q = (if xs = [] then 0 else last xs)"

lemma gqueue_batch: "gqueue s q xs \<Longrightarrow> gbatch s q xs"
  by (auto simp: gqueue_def gbatch_def)

lemma gbatch_tail: "gbatch s q xs \<Longrightarrow> q_tail q = 0 \<longleftrightarrow> xs = []"
  by (auto simp: gbatch_def dest!: seg_nonzero) (metis gr0I last_in_set)

lemmas gqueue_tail = gbatch_tail [OF gqueue_batch]

lemma gQueue_pushBackAll_correct:
  assumes "gqueue s q xs" and "gbatch s q2 ys" and "set xs \<inter> set ys = {}" and "gQueue_pushBackAll s q q2 = (s', q')"
  shows "gqueue s' q' (xs @ ys)"
proof (cases "ys = []")
  case True
  then show ?thesis using assms(1,2,4) gbatch_tail [OF assms(2)] by (simp add: gQueue_pushBackAll_def)
next
  case False
  let ?s = "set_link s (last ys) 0"
  have ys: "seg ?s (q_head q2) ys 0" "q_tail q2 = last ys" "last ys \<notin> set xs" "q_tail q2 \<noteq> 0"
    using assms(2,3) False seg_last [of s "q_head q2" ys _ 0] gbatch_tail [OF assms(2)] by (auto simp: gbatch_def)
  show ?thesis
  proof (cases "xs = []")
    case True
    then show ?thesis using assms(1,2,4) False ys gqueue_tail [OF assms(1)]
      by (auto simp: gQueue_pushBackAll_def gqueue_def gbatch_def Let_def)
  next
    case nonempty: False
    then have xs: "q_tail q = last xs" "q_tail q \<noteq> 0" "last xs \<notin> set ys"
      using assms(1,3) gqueue_tail [OF assms(1)] last_in_set [OF nonempty] by (auto simp: gqueue_def disjoint_iff)
    have "seg ?s (q_head q) xs 0" using assms(1) ys(3) by (simp add: gqueue_def)
    then have "seg (set_link ?s (last xs) (q_head q2)) (q_head q) xs (q_head q2)"
      using seg_last nonempty assms(1) by (auto simp: gqueue_def)
    moreover have "seg (set_link ?s (last xs) (q_head q2)) (q_head q2) ys 0" using ys(1) xs(3) by simp
    ultimately show ?thesis using assms xs(1,2) ys(2,4) False
      by (auto simp: gQueue_pushBackAll_def gqueue_def gbatch_def seg_append Let_def)
  qed
qed

lemma gqueue_single: "x \<noteq> 0 \<Longrightarrow> gqueue (set_link s x 0) \<lparr>q_head = x, q_tail = x\<rparr> [x]"
  by (simp add: gqueue_def)

lemma gqueue_frame: "gqueue s q xs \<Longrightarrow> x \<notin> set xs \<Longrightarrow> gqueue (set_link s x y) q xs"
  by (simp add: gqueue_def)

lemma set_link_twice [simp]: "set_link (set_link s x y) x z = set_link s x z"
  by (simp add: set_link_def fun_eq_iff)

lemma pushBack_all: "x \<noteq> 0 \<Longrightarrow>
  gQueue_pushBack s q x = gQueue_pushBackAll (set_link s x 0) q \<lparr>q_head = x, q_tail = x\<rparr>"
  by (simp add: gQueue_pushBack_def gQueue_pushBackAll_def Let_def)

lemma gQueue_pop_correct:
  assumes "gqueue s q xs" and "gQueue_pop s q = (s', q', x)"
  shows "gqueue s' q' (tl xs) \<and> x = (if xs = [] then 0 else hd xs) \<and> s' = s"
proof (cases xs)
  case (Cons y ys)
  then show ?thesis using assms gqueue_tail [OF assms(1)]
    by (cases ys) (auto simp: gQueue_pop_def gqueue_def Let_def)
qed (use assms in \<open>auto simp: gQueue_pop_def gqueue_def\<close>)

interpretation gq: linked_queue gqueue gQueue_pushBack gQueue_pop
proof
  fix s :: gstore and q xs x s' q'
  assume "gqueue s q xs" "x \<noteq> 0" "x \<notin> set xs" "gQueue_pushBack s q x = (s', q')"
  then show "gqueue s' q' (xs @ [x])"
    using gQueue_pushBackAll_correct [of "set_link s x 0" q xs "\<lparr>q_head = x, q_tail = x\<rparr>" "[x]"]
    by (simp add: pushBack_all gqueue_single gqueue_batch gqueue_frame)
next
  fix s :: gstore and q xs s' q' x
  assume "gqueue s q xs" "gQueue_pop s q = (s', q', x)"
  then show "gqueue s' q' (tl xs) \<and> x = (if xs = [] then 0 else hd xs)" using gQueue_pop_correct by blast
qed

section \<open>The local run queue\<close>

text \<open>
  The goroutines in the ring, oldest first. The indices run over all 32-bit numbers and wrap around; the slot
  is the index modulo 256.
\<close>

definition runq_list :: "p \<Rightarrow> gptr list" where
  "runq_list q = map (\<lambda>i. runq q ! unat ((runqhead q + of_nat i) mod 256)) [0..<unat (runqtail q - runqhead q)]"

definition runq_ok :: "p \<Rightarrow> bool" where
  "runq_ok q \<longleftrightarrow> length (runq q) = 256 \<and> unat (runqtail q - runqhead q) \<le> 256"

text \<open>Operations on queues change nothing but links.\<close>

definition relinked :: "gstore \<Rightarrow> gstore \<Rightarrow> bool" where
  "relinked s s' \<longleftrightarrow> (\<forall>x. \<exists>l. s' x = (s x)\<lparr>schedlink := l\<rparr>)"

lemma relinked_refl [simp]: "relinked s s"
proof -
  have "s x = (s x)\<lparr>schedlink := schedlink (s x)\<rparr>" for x by simp
  then show ?thesis unfolding relinked_def by blast
qed

lemma relinked_set [simp]: "relinked s (set_link s x y)"
proof -
  have "set_link s x y z = (s z)\<lparr>schedlink := (if z = x then y else schedlink (s z))\<rparr>" for z by (simp add: set_link_def)
  then show ?thesis unfolding relinked_def by blast
qed

lemma relinked_trans:
  assumes "relinked s s1" and "relinked s1 s2"
  shows "relinked s s2"
  unfolding relinked_def
proof
  fix x
  obtain l l' where "s1 x = (s x)\<lparr>schedlink := l\<rparr>" "s2 x = (s1 x)\<lparr>schedlink := l'\<rparr>"
    using assms unfolding relinked_def by blast
  then have "s2 x = (s x)\<lparr>schedlink := l'\<rparr>" by simp
  then show "\<exists>l. s2 x = (s x)\<lparr>schedlink := l\<rparr>" ..
qed

lemma relinked_fields:
  assumes "relinked s s'"
  shows "atomicstatus (s' x) = atomicstatus (s x)" "g_param (s' x) = g_param (s x)"
    "g_waiting (s' x) = g_waiting (s x)"
proof -
  obtain l where "s' x = (s x)\<lparr>schedlink := l\<rparr>" using assms unfolding relinked_def by blast
  then show "atomicstatus (s' x) = atomicstatus (s x)" "g_param (s' x) = g_param (s x)"
    "g_waiting (s' x) = g_waiting (s x)" by simp_all
qed

lemma link_batch_relinked: "link_batch s xs = Inr s' \<Longrightarrow> relinked s s'"
proof (induction s xs rule: link_batch.induct)
  case (1 s x y zs)
  then show ?case using relinked_trans [OF relinked_set] by (auto split: if_splits)
qed simp_all

lemma link_batch_correct:
  assumes "distinct (xs @ [y])" and "0 \<notin> set xs" and "link_batch s (xs @ [y]) = Inr s'"
  shows "(y \<noteq> 0 \<longrightarrow> (\<exists>b. seg s' (hd (xs @ [y])) (xs @ [y]) b)) \<and> (\<forall>x. x \<notin> set xs \<longrightarrow> s' x = s x)"
  using assms
proof (induction xs arbitrary: s)
  case Nil
  have "y \<noteq> 0 \<longrightarrow> seg s' y [y] (schedlink (s' y))" by simp
  with Nil show ?case by auto
next
  case (Cons x xs)
  let ?z = "hd (xs @ [y])"
  have "link_batch s ((x # xs) @ [y]) = link_batch (set_link s x ?z) (xs @ [y])"
    using Cons.prems(2) by (cases xs) simp_all
  with Cons.prems(3) have "link_batch (set_link s x ?z) (xs @ [y]) = Inr s'" by argo
  moreover have "distinct (xs @ [y])" "0 \<notin> set xs" using Cons.prems(1,2) by simp_all
  ultimately have IH: "y \<noteq> 0 \<longrightarrow> (\<exists>b. seg s' ?z (xs @ [y]) b)" "\<forall>u. u \<notin> set xs \<longrightarrow> s' u = set_link s x ?z u"
    using Cons.IH [of "set_link s x ?z"] by blast+
  then have "schedlink (s' x) = ?z" using Cons.prems(1) by simp
  moreover have "x \<noteq> 0" using Cons.prems(2) by simp
  ultimately have "y \<noteq> 0 \<longrightarrow> (\<exists>b. seg s' x (x # xs @ [y]) b)" using IH(1) by simp
  moreover have "s' u = s u" if "u \<notin> set (x # xs)" for u using IH(2) that by (simp add: set_link_def)
  ultimately show ?case by simp
qed

lemma link_batch_total: "0 \<notin> set xs \<Longrightarrow> \<exists>s'. link_batch s (xs @ [y]) = Inr s'"
proof (induction xs arbitrary: s)
  case (Cons x xs)
  then show ?case by (cases xs) auto
qed simp


lemma pushBackAll_relinked: "gQueue_pushBackAll s q q2 = (s', q') \<Longrightarrow> relinked s s'"
  using relinked_trans [OF relinked_set relinked_set] by (auto simp: gQueue_pushBackAll_def Let_def split: if_splits)

lemma gqueue_cong: "(\<And>x. x \<in> set xs \<Longrightarrow> s' x = s x) \<Longrightarrow> gqueue s' q xs = gqueue s q xs"
  using seg_cong [of xs s' s] by (simp add: gqueue_def)

lemma length_runq_list [simp]: "length (runq_list q) = unat (runqtail q - runqhead q)"
  by (simp add: runq_list_def)

lemma runq_list_drop:
  assumes "unat (runqtail q - runqhead q) = 256"
  shows "runq_list (q\<lparr>runqhead := runqhead q + 128\<rparr>) = drop 128 (runq_list q)"
proof -
  have t: "runqtail q - runqhead q = 256" using assms by (simp add: word_unat_eq_iff)
  have "runqtail q - (runqhead q + 128) = (runqtail q - runqhead q) - 128" by simp
  also have "\<dots> = 128" using t by simp
  finally have t2: "runqtail q - (runqhead q + 128) = 128" .
  have "runqhead q + 128 + of_nat i = runqhead q + of_nat (128 + i)" for i by simp
  then have "map (\<lambda>i. runq q ! unat ((runqhead q + 128 + of_nat i) mod 256)) [0..<128]
      = drop 128 (map (\<lambda>i. runq q ! unat ((runqhead q + of_nat i) mod 256)) [0..<256])"
    by (intro nth_equalityI) (simp_all add: nth_append add.assoc)
  then show ?thesis by (simp add: runq_list_def t t2)
qed

text \<open>A full queue gives its older half and the new goroutine to the scheduler.\<close>

lemma runqputslow_full:
  assumes "unat (runqtail (pp w) - runqhead (pp w)) = 256"
    and "gqueue (gs w) (sched_runq (sched w)) qs" and "distinct (runq_list (pp w) @ gp # qs)"
    and "0 \<notin> set (gp # runq_list (pp w))"
  shows "\<exists>w'. runqputslow w gp (runqhead (pp w)) (runqtail (pp w)) = Inr (w', True)
    \<and> pp w' = (pp w)\<lparr>runqhead := runqhead (pp w) + 128\<rparr> \<and> relinked (gs w) (gs w')
    \<and> gqueue (gs w') (sched_runq (sched w')) (qs @ take 128 (runq_list (pp w)) @ [gp])
    \<and> runqsize (sched w') = runqsize (sched w) + 129 \<and> rt.more w' = rt.more w \<and> curg w' = curg w"
proof -
  let ?h = "runqhead (pp w)" and ?b = "take 128 (runq_list (pp w))"
  have t: "runqtail (pp w) - ?h = 256" using assms(1) by (simp add: word_unat_eq_iff)
  have b: "map (\<lambda>i. runq (pp w) ! unat ((?h + of_nat i) mod 256)) [0..<128] = ?b" "length ?b = 128"
    by (simp_all add: runq_list_def t take_map)
  have nz: "0 \<notin> set ?b" "distinct (?b @ [gp])" "gp \<noteq> 0" "set qs \<inter> set (?b @ [gp]) = {}"
    using assms(3,4) set_take_subset [of 128 "runq_list (pp w)"] by (auto intro: distinct_take)
  obtain s1 where s1: "link_batch (gs w) (?b @ [gp]) = Inr s1" using link_batch_total [OF nz(1)] by blast
  note l = link_batch_correct [OF nz(2,1) s1]
  let ?q2 = "\<lparr>q_head = (?b @ [gp]) ! 0, q_tail = (?b @ [gp]) ! 128\<rparr>"
  have "?b \<noteq> []" using b(2) by force
  then have h: "(?b @ [gp]) ! 0 = hd (?b @ [gp])" "(?b @ [gp]) ! 128 = gp"
    using b(2) by (simp_all add: hd_conv_nth nth_append)
  have q2: "gbatch s1 ?q2 (?b @ [gp])" using l nz(2,3) by (simp add: gbatch_def h del: hd_append)
  have qs: "gqueue s1 (sched_runq (sched w)) qs"
    using assms(2) gqueue_cong [of qs s1 "gs w"] l nz(4) by auto
  obtain s2 q' where p: "gQueue_pushBackAll s1 (sched_runq (sched w)) ?q2 = (s2, q')" by force
  have "gqueue s2 q' (qs @ ?b @ [gp])" by (rule gQueue_pushBackAll_correct [OF qs q2 nz(4) p])
  moreover have "relinked (gs w) s2"
    using relinked_trans [OF link_batch_relinked [OF s1] pushBackAll_relinked [OF p]] .
  ultimately show ?thesis
    by (simp add: runqputslow_def t b s1 p globrunqputbatch_def Let_def del: append_assoc)
qed


lemma runqput_retry_full:
  assumes "unat (runqtail (pp w) - runqhead (pp w)) = 256"
    and "runqputslow w gp (runqhead (pp w)) (runqtail (pp w)) = Inr (w', True)"
  shows "runqput_retry w gp = Some (Inr w')"
proof -
  have "runqtail (pp w) - runqhead (pp w) = 256" using assms(1) by (simp add: word_unat_eq_iff)
  with assms(2) show ?thesis by (simp add: runqput_retry.simps [of w] Let_def)
qed

text \<open>A queue that is not full is followed by the slow path, which throws.\<close>

lemma runqput_retry_throws:
  assumes "runqtail (pp w) - runqhead (pp w) < 256"
  shows "runqput_retry w gp = Some (Inl (Throw ''runqputslow: queue is not full''))"
proof -
  have "unat (runqtail (pp w) - runqhead (pp w)) < 256" using assms by (simp add: word_less_nat_alt)
  then have "unat ((runqtail (pp w) - runqhead (pp w)) div 2) < 128" by (simp add: unat_div)
  then have "(runqtail (pp w) - runqhead (pp w)) div 2 \<noteq> 128" by auto
  then show ?thesis by (simp add: runqput_retry.simps [of w] runqputslow_def Let_def)
qed

lemma runqput_throws:
  assumes "runqtail (pp w) - runqhead (pp w) < 256" and "next \<longrightarrow> runnext (pp w) \<noteq> 0"
  shows "runqput w gp next = Inl (Throw ''runqputslow: queue is not full'')"
  using assms runqput_retry_throws [of w gp] runqput_retry_throws [of "w\<lparr>pp := (pp w)\<lparr>runnext := gp\<rparr>\<rparr>"]
  by (auto simp: runqput_def Let_def)

text \<open>Waking a goroutine when no other waits to run next.\<close>

lemma goready_next:
  assumes "atomicstatus (gs w gp) = Gwaiting" and "runnext (pp w) = 0"
  shows "goready w gp = Inr (w\<lparr>gs := (gs w)(gp := (gs w gp)\<lparr>atomicstatus := Grunnable\<rparr>), pp := (pp w)\<lparr>runnext := gp\<rparr>\<rparr>)"
  using assms by (simp add: goready_def ready_def readgstatus_def casgstatus_def runqput_def andnot_def Let_def)

lemma goready_occupied:
  assumes "atomicstatus (gs w gp) = Gwaiting" and "runnext (pp w) \<noteq> 0" and "runqtail (pp w) - runqhead (pp w) < 256"
  shows "goready w gp = Inl (Throw ''runqputslow: queue is not full'')"
  using assms by (simp add: goready_def ready_def readgstatus_def casgstatus_def runqput_throws andnot_def Let_def)

lemma gopark_parks:
  assumes "curg w \<noteq> 0" and "atomicstatus (gs w (curg w)) = Grunning"
  shows "gopark w None reason = Inr (w\<lparr>gs := (gs w)(curg w := (gs w (curg w))\<lparr>waitreason := reason, atomicstatus := Gwaiting,
    g_m := False\<rparr>), curg := 0\<rparr>, True)"
  using assms by (simp add: gopark_def park_m_def readgstatus_def casgstatus_def dropg_def Let_def)

text \<open>A processor with a full queue, whose indices are about to wrap around.\<close>

definition example_g :: g where
  "example_g = \<lparr>atomicstatus = Gwaiting, schedlink = 0, g_param = 0, waitreason = 0, g_m = False, g_waiting = 0,
     activeStackChans = False, parkingOnChan = False\<rparr>"

definition example_p :: p where
  "example_p = \<lparr>schedtick = 0, runqhead = 0xFFFFFF80, runqtail = 0x80, runq = [1..<257], runnext = 0, p_sudogcache = []\<rparr>"

definition example_rt :: rt where
  "example_rt = \<lparr>gs = (\<lambda>_. example_g), pp = example_p,
     sched = \<lparr>sched_sudogcache = 0, sched_runq = \<lparr>q_head = 0, q_tail = 0\<rparr>, runqsize = 0\<rparr>, curg = 0\<rparr>"

lemma example_full: "unat (runqtail (pp example_rt) - runqhead (pp example_rt)) = 256"
  by (simp add: example_rt_def example_p_def)

lemma example_runq: "runq_list (pp example_rt) = [129..<257] @ [1..<129]"
  by (simp add: runq_list_def example_rt_def example_p_def) code_simp

section \<open>Properties\<close>

text \<open>
  C24: The queue of goroutines linked through \<open>schedlink\<close> is a FIFO queue: any sequence of \<open>pushBack\<close> and \<open>pop\<close>
  returns what the same operations return on a list, and leaves the same goroutines in the same order, linked
  without a cycle and with the right tail.
\<close>
theorem gQueue_sequence:
  assumes "gqueue s q xs" and "legal_ops xs ops" and "queue_run gQueue_pushBack gQueue_pop s q ops = (s', q', out)"
  shows "gqueue s' q' (fst (list_run xs ops)) \<and> out = snd (list_run xs ops)"
  using gq.run_refines [OF assms, of "fst (list_run xs ops)" "snd (list_run xs ops)"] by simp

theorem gQueue_sequence_witness:
  "\<exists>s' q'. queue_run gQueue_pushBack gQueue_pop (\<lambda>_. example_g) \<lparr>q_head = 0, q_tail = 0\<rparr>
      [Enqueue 3, Enqueue 5, Dequeue, Enqueue 7, Dequeue, Dequeue, Dequeue] = (s', q', [3, 5, 7, 0])"
proof -
  let ?ops = "[Enqueue 3, Enqueue 5, Dequeue, Enqueue 7, Dequeue, Dequeue, Dequeue]"
  obtain s' q' out where r: "queue_run gQueue_pushBack gQueue_pop (\<lambda>_. example_g) \<lparr>q_head = 0, q_tail = 0\<rparr> ?ops = (s', q', out)"
    by (metis prod_cases3)
  have "gqueue (\<lambda>_. example_g) \<lparr>q_head = 0, q_tail = 0\<rparr> []" "legal_ops [] ?ops" by (simp_all add: gqueue_def)
  from gQueue_sequence [OF this r] r show ?thesis by auto
qed

text \<open>
  C12: What \<open>runqput\<close> does when the local run queue is full. With \<open>next\<close> (the way \<open>goready\<close> calls it) the new goroutine
  takes the slot \<open>runnext\<close>; if the slot was free, nothing else happens, and otherwise the goroutine that was in
  the slot has to move. Without \<open>next\<close> the new goroutine itself moves, and the slot stays as it is. Moving appends
  the older half of the local queue and then the goroutine to the end of the global queue and keeps the newer half, in
  order: no goroutine is lost, duplicated or overtaken, and the status of none changes. This holds for all
  values of the 32-bit indices, also when they wrap around.
\<close>
theorem runqput_full:
  assumes "runq_ok (pp w)" and "unat (runqtail (pp w) - runqhead (pp w)) = 256"
    and "gqueue (gs w) (sched_runq (sched w)) qs" and "gp \<noteq> 0" and "0 \<notin> set (runq_list (pp w))"
    and "moved = (if next then runnext (pp w) else gp)" and "distinct (runq_list (pp w) @ moved # qs)"
  shows "if moved = 0 then runqput w gp next = Inr (w\<lparr>pp := (pp w)\<lparr>runnext := gp\<rparr>\<rparr>)
    else \<exists>w'. runqput w gp next = Inr w' \<and> runq_ok (pp w') \<and> runq_list (pp w') = drop 128 (runq_list (pp w))
      \<and> gqueue (gs w') (sched_runq (sched w')) (qs @ take 128 (runq_list (pp w)) @ [moved])
      \<and> runqsize (sched w') = runqsize (sched w) + 129 \<and> runnext (pp w') = (if next then gp else runnext (pp w))
      \<and> relinked (gs w) (gs w')"
proof (cases "moved = 0")
  case True
  then show ?thesis using assms(4,6) by (simp add: runqput_def Let_def split: if_splits)
next
  case False
  define v where "v = (if next then w\<lparr>pp := (pp w)\<lparr>runnext := gp\<rparr>\<rparr> else w)"
  have v: "gs v = gs w" "sched v = sched w" "runqhead (pp v) = runqhead (pp w)" "runqtail (pp v) = runqtail (pp w)"
    "runq (pp v) = runq (pp w)" "runnext (pp v) = (if next then gp else runnext (pp w))" by (simp_all add: v_def)
  then have l: "runq_list (pp v) = runq_list (pp w)" "runq_ok (pp v) = runq_ok (pp w)"
    by (simp_all add: runq_list_def runq_ok_def)
  have full: "unat (runqtail (pp v) - runqhead (pp v)) = 256" using assms(2) v by simp
  obtain w' where w': "runqputslow v moved (runqhead (pp v)) (runqtail (pp v)) = Inr (w', True)"
    "pp w' = (pp v)\<lparr>runqhead := runqhead (pp v) + 128\<rparr>" "relinked (gs v) (gs w')"
    "gqueue (gs w') (sched_runq (sched w')) (qs @ take 128 (runq_list (pp v)) @ [moved])"
    "runqsize (sched w') = runqsize (sched v) + 129"
    using runqputslow_full [OF full, of qs moved] assms(3,5,7) False v l by auto
  have d: "runq_list (pp w') = drop 128 (runq_list (pp w))" using runq_list_drop [OF full] w'(2) l by simp
  moreover have "runq_ok (pp w')" using assms(1) full arg_cong [OF d, of length] w'(2) l v by (simp add: runq_ok_def)
  moreover have "runqput w gp next = Inr w'"
    using runqput_retry_full [OF full w'(1)] False assms(6) by (auto simp: runqput_def v_def Let_def split: if_splits)
  ultimately show ?thesis using False w' v l by simp
qed

theorem runqput_full_witness:
  "\<exists>w'. runqput (example_rt\<lparr>pp := example_p\<lparr>runnext := 300\<rparr>\<rparr>) 301 True = Inr w' \<and> runq_list (pp w') = [1..<129]
    \<and> gqueue (gs w') (sched_runq (sched w')) ([129..<257] @ [300]) \<and> runnext (pp w') = 301"
proof -
  let ?w = "example_rt\<lparr>pp := example_p\<lparr>runnext := 300\<rparr>\<rparr>"
  have l: "runq_list (pp ?w) = [129..<257] @ [1..<129]"
    using example_runq by (simp add: runq_list_def example_rt_def)
  have ok: "runq_ok (pp ?w)" by (simp add: runq_ok_def example_p_def)
  have full: "unat (runqtail (pp ?w) - runqhead (pp ?w)) = 256" using example_full by (simp add: example_rt_def)
  have q: "gqueue (gs ?w) (sched_runq (sched ?w)) []" by (simp add: gqueue_def example_rt_def)
  have "distinct (runq_list (pp ?w) @ 300 # [])" "0 \<notin> set (runq_list (pp ?w))" unfolding l by auto
  from runqput_full [OF ok full q _ this(2) _ this(1), of 301 True] show ?thesis unfolding l by auto
qed

text \<open>
  \<open>runqput\<close> has no return after storing the goroutine in the local queue, so when a goroutine is made ready
  while another one waits to run next, and the local queue is not full, the slow path is taken and the
  runtime throws. Waking a goroutine works only while the slot \<open>runnext\<close> is free.
\<close>
lemma goready_needs_free_slot:
  assumes "atomicstatus (gs w gp) = Gwaiting" and "runqtail (pp w) - runqhead (pp w) < 256"
  shows "goready w gp = (if runnext (pp w) = 0
    then Inr (w\<lparr>gs := (gs w)(gp := (gs w gp)\<lparr>atomicstatus := Grunnable\<rparr>), pp := (pp w)\<lparr>runnext := gp\<rparr>\<rparr>)
    else Inl (Throw ''runqputslow: queue is not full''))"
  using goready_next [OF assms(1)] goready_occupied [OF assms(1)] assms(2) by simp

end
