(* ===== verification/Channel.thy ===== *)
theory Channel
  imports RunQueue
begin

text \<open>
  Channels (\<open>src/channels_and_select/chan.go\<close> with \<open>acquireSudog\<close> of \<open>proc.go\<close>, \<open>MulUintptr\<close> of \<open>math.go\<close> and the
  types of \<open>runtime2.go\<close> and \<open>type.go\<close>). The state \<open>world\<close> extends that of the scheduler by the channels, the
  sudogs (a goroutine in a wait list) and the memory, which is bytes at 64-bit addresses: the buffer of a channel
  and the variables of its users are regions of it. Pointers to channels, sudogs and goroutines are numbers, 0 is
  nil.

  The functions that copy and clear memory and the allocator have no body in the sources (\<open>memmove\<close>, \<open>mallocgc\<close>) or an
  empty one (\<open>typedmemmove\<close>, \<open>typedmemclr\<close>); they are the parameter \<open>F\<close> of the operations. A call that blocks ends in \<open>Parked\<close>: the goroutine is in a wait list, and
  when it is woken the call returns true.
\<close>

unbundle bit_operations_syntax

section \<open>State\<close>

record rtype =
  t_size :: u64
  t_ptrdata :: u64
  t_align :: u8

record sudog =
  sg_g :: gptr
  sg_next :: nat
  sg_prev :: nat
  sg_elem :: u64
  releasetime :: u64
  isSelect :: bool
  success :: bool
  waitlink :: nat
  sg_c :: nat

record waitq =
  wq_first :: nat
  wq_last :: nat

record hchan =
  qcount :: u64
  dataqsiz :: u64
  buf :: u64
  elemsize :: u16
  closed :: u32
  elemtype :: rtype
  sendx :: u64
  recvx :: u64
  recvq :: waitq
  sendq :: waitq

type_synonym memory = "u64 \<Rightarrow> u8"
type_synonym sstore = "nat \<Rightarrow> sudog"

record world = rt +
  sudogs :: sstore
  newsudog :: nat
  sudogcap :: nat
  chans :: "nat \<Rightarrow> hchan"
  mem :: memory

record memfuns =
  f_typedmemmove :: "rtype \<Rightarrow> u64 \<Rightarrow> u64 \<Rightarrow> memory \<Rightarrow> memory"
  f_typedmemclr :: "rtype \<Rightarrow> u64 \<Rightarrow> memory \<Rightarrow> memory"
  f_memmove :: "u64 \<Rightarrow> u64 \<Rightarrow> u64 \<Rightarrow> memory \<Rightarrow> memory"
  f_mallocgc :: "u64 \<Rightarrow> u64"

datatype 'a outcome = Returned 'a | Parked

definition waitReasonChanReceiveNilChan :: u8 where [simp]: "waitReasonChanReceiveNilChan = 3"
definition waitReasonChanSendNilChan :: u8 where [simp]: "waitReasonChanSendNilChan = 4"
definition waitReasonChanReceive :: u8 where [simp]: "waitReasonChanReceive = 14"
definition waitReasonChanSend :: u8 where [simp]: "waitReasonChanSend = 15"

section \<open>Wait queues\<close>

definition enqueue :: "sstore \<Rightarrow> waitq \<Rightarrow> nat \<Rightarrow> sstore \<times> waitq" where
  "enqueue s q sgp =
     (let s = s(sgp := (s sgp)\<lparr>sg_next := 0\<rparr>);
          x = wq_last q
      in if x = 0 then (s(sgp := (s sgp)\<lparr>sg_prev := 0\<rparr>), \<lparr>wq_first = sgp, wq_last = sgp\<rparr>)
         else let s = s(sgp := (s sgp)\<lparr>sg_prev := x\<rparr>);
                  s = s(x := (s x)\<lparr>sg_next := sgp\<rparr>)
              in (s, q\<lparr>wq_last := sgp\<rparr>))"

definition dequeue :: "sstore \<Rightarrow> waitq \<Rightarrow> sstore \<times> waitq \<times> nat" where
  "dequeue s q =
     (let sgp = wq_first q
      in if sgp = 0 then (s, q, 0)
         else let y = sg_next (s sgp)
              in if y = 0 then (s, \<lparr>wq_first = 0, wq_last = 0\<rparr>, sgp)
                 else let s = s(y := (s y)\<lparr>sg_prev := 0\<rparr>);
                          s = s(sgp := (s sgp)\<lparr>sg_next := 0\<rparr>)
                      in (s, q\<lparr>wq_first := y\<rparr>, sgp))"

section \<open>The cache of sudogs\<close>

definition zero_sudog :: sudog where
  "zero_sudog = \<lparr>sg_g = 0, sg_next = 0, sg_prev = 0, sg_elem = 0, releasetime = 0, isSelect = False, success = False,
     waitlink = 0, sg_c = 0\<rparr>"

definition get_cache :: "world \<Rightarrow> nat list" where
  "get_cache w = p_sudogcache (pp w)"

definition set_cache :: "world \<Rightarrow> nat list \<Rightarrow> world" where
  "set_cache w xs = w\<lparr>pp := (pp w)\<lparr>p_sudogcache := xs\<rparr>\<rparr>"

text \<open>Filling the local cache from the central one, up to half of its capacity.\<close>

function refill :: "world \<Rightarrow> world" where
  "refill w =
     (let s = sched_sudogcache (sched w)
      in if length (get_cache w) < sudogcap w div 2 \<and> s \<noteq> 0
         then let w = w\<lparr>sched := (sched w)\<lparr>sched_sudogcache := sg_next (sudogs w s)\<rparr>,
                        sudogs := (sudogs w)(s := (sudogs w s)\<lparr>sg_next := 0\<rparr>)\<rparr>
              in refill (set_cache w (get_cache w @ [s]))
         else w)"
  by pat_completeness auto
termination
  by (relation "measure (\<lambda>w. sudogcap w div 2 - length (get_cache w))") (auto simp: set_cache_def get_cache_def)

declare refill.simps [simp del]

definition acquireSudog :: "world \<Rightarrow> (world \<times> nat) res" where
  "acquireSudog w =
     (let w = (if length (get_cache w) = 0
               then let w = refill w
                    in if length (get_cache w) = 0
                       then set_cache (w\<lparr>sudogs := (sudogs w)(newsudog w := zero_sudog), newsudog := newsudog w + 1,
                                         sudogcap := max 1 (sudogcap w)\<rparr>) [newsudog w]
                       else w
               else w);
          n = length (get_cache w);
          s = get_cache w ! (n - 1);
          w = set_cache w (take (n - 1) (get_cache w))
      in if sg_elem (sudogs w s) \<noteq> 0 then Inl (Throw ''acquireSudog: found s.elem != nil in cache'')
         else Inr (w, s))"

section \<open>Creating channels\<close>

definition hchanSize :: u64 where
  "hchanSize = 96"

definition maxAlloc :: u64 where
  "maxAlloc = 2 ^ 48"

definition MaxUintptr :: u64 where
  "MaxUintptr = NOT 0"

definition MulUintptr :: "u64 \<Rightarrow> u64 \<Rightarrow> u64 \<times> bool" where
  "MulUintptr a b =
     (if a OR b < 2 ^ 32 \<or> a = 0 then (a * b, False)
      else let overflow = b > MaxUintptr div a in (a * b, overflow))"

definition makechan :: "memfuns \<Rightarrow> rtype \<Rightarrow> u64 \<Rightarrow> hchan res" where
  "makechan F elem sz =
     (if t_size elem \<ge> 2 ^ 16 then Inl (Throw ''makechan: invalid channel element type'')
      else if hchanSize mod 8 \<noteq> 0 \<or> t_align elem > 8 then Inl (Throw ''makechan: bad alignment'')
      else case MulUintptr (t_size elem) sz of (m, overflow) \<Rightarrow>
        if overflow \<or> m > maxAlloc - hchanSize \<or> sint sz < 0 then Inl (Panic ''makechan: size out of range'')
        else let b = (if m = 0 then f_mallocgc F hchanSize + 16
                      else if t_ptrdata elem = 0 then f_mallocgc F (hchanSize + m) + hchanSize
                      else f_mallocgc F m)
             in Inr \<lparr>qcount = 0, dataqsiz = sz, buf = b, elemsize = ucast (t_size elem), closed = 0, elemtype = elem,
                     sendx = 0, recvx = 0, recvq = \<lparr>wq_first = 0, wq_last = 0\<rparr>, sendq = \<lparr>wq_first = 0, wq_last = 0\<rparr>\<rparr>)"

definition reflect_makechan :: "memfuns \<Rightarrow> rtype \<Rightarrow> u64 \<Rightarrow> hchan res" where
  "reflect_makechan F elem sz = makechan F elem sz"

text \<open>An \<open>int\<close> has 64 bits, as \<open>int64\<close>.\<close>

definition makechan64 :: "memfuns \<Rightarrow> rtype \<Rightarrow> 64 word \<Rightarrow> hchan res" where
  "makechan64 F elem sz =
     (if (scast (scast sz :: u64) :: 64 word) \<noteq> sz then Inl (Panic ''makechan: size out of range'')
      else makechan F elem (scast sz))"

section \<open>Sending\<close>

definition chanbuf :: "hchan \<Rightarrow> u64 \<Rightarrow> u64" where
  "chanbuf c i = buf c + i * ucast (elemsize c)"

definition full :: "hchan \<Rightarrow> bool" where
  "full c = (if dataqsiz c = 0 then wq_first (recvq c) = 0 else qcount c = dataqsiz c)"

definition chan_empty :: "hchan \<Rightarrow> bool" where
  "chan_empty c = (if dataqsiz c = 0 then wq_first (sendq c) = 0 else qcount c = 0)"

definition put_chan :: "world \<Rightarrow> nat \<Rightarrow> hchan \<Rightarrow> world" where
  "put_chan w cp c = w\<lparr>chans := (chans w)(cp := c)\<rparr>"

definition chanparkcommit :: "world \<Rightarrow> gptr \<Rightarrow> world \<times> bool" where
  "chanparkcommit w gp =
     (w\<lparr>gs := (gs w)(gp := (gs w gp)\<lparr>activeStackChans := True, parkingOnChan := False\<rparr>)\<rparr>, True)"

text \<open>The steps from \<open>acquireSudog\<close> up to the call of \<open>gopark\<close>, with the wait queue \<open>q\<close> and the channel \<open>c\<close> of the sudog.\<close>

definition join_queue :: "world \<Rightarrow> waitq \<Rightarrow> u64 \<Rightarrow> (sudog \<Rightarrow> sudog) \<Rightarrow> (world \<times> waitq) res" where
  "join_queue w q ep setc =
     (let gp = curg w
      in go_bind (acquireSudog w) (\<lambda>(w, mysg).
           let sg = setc ((sudogs w mysg)\<lparr>releasetime := 0, sg_elem := ep, waitlink := 0, sg_g := gp, isSelect := False\<rparr>);
               w = w\<lparr>sudogs := (sudogs w)(mysg := sg),
                     gs := (gs w)(gp := (gs w gp)\<lparr>g_waiting := mysg, g_param := 0\<rparr>)\<rparr>
           in case enqueue (sudogs w) q mysg of (s, q) \<Rightarrow>
                Inr (w\<lparr>sudogs := s, gs := (gs w)(gp := (gs w gp)\<lparr>parkingOnChan := True\<rparr>)\<rparr>, q)))"

definition chansend :: "memfuns \<Rightarrow> world \<Rightarrow> nat \<Rightarrow> u64 \<Rightarrow> bool \<Rightarrow> (world \<times> bool outcome) res" where
  "chansend F w cp ep block =
     (if cp = 0
      then if \<not> block then Inr (w, Returned False)
           else go_bind (gopark w None waitReasonChanSendNilChan) (\<lambda>(w, _). Inr (w, Parked))
      else let c = chans w cp
      in if \<not> block \<and> closed c = 0 \<and> full c then Inr (w, Returned False)
      else if closed c \<noteq> 0 then Inl (Panic ''send on closed channel'')
      else case dequeue (sudogs w) (recvq c) of (s, q, sg) \<Rightarrow>
        let w = w\<lparr>sudogs := s\<rparr>; c = c\<lparr>recvq := q\<rparr>
        in if sg \<noteq> 0 then Inr (put_chan w cp c, Returned True)
        else if qcount c < dataqsiz c
        then let w = w\<lparr>mem := f_typedmemmove F (elemtype c) (chanbuf c (sendx c)) ep (mem w)\<rparr>;
                 sx = sendx c + 1;
                 c = c\<lparr>sendx := (if sx = dataqsiz c then 0 else sx), qcount := qcount c + 1\<rparr>
             in Inr (put_chan w cp c, Returned True)
        else if \<not> block then Inr (put_chan w cp c, Returned False)
        else go_bind (join_queue w (sendq c) ep (\<lambda>sg. sg\<lparr>sg_c := cp\<rparr>)) (\<lambda>(w, q).
             go_bind (gopark (put_chan w cp (c\<lparr>sendq := q\<rparr>)) (Some chanparkcommit) waitReasonChanSend) (\<lambda>(w, _).
               Inr (w, Parked))))"

text \<open>The call of \<open>send\<close> is commented out in \<open>chansend\<close>.\<close>

definition sendDirect :: "memfuns \<Rightarrow> world \<Rightarrow> rtype \<Rightarrow> nat \<Rightarrow> u64 \<Rightarrow> world" where
  "sendDirect F w t sg src = w\<lparr>mem := f_memmove F (sg_elem (sudogs w sg)) src (t_size t) (mem w)\<rparr>"

definition recvDirect :: "memfuns \<Rightarrow> world \<Rightarrow> rtype \<Rightarrow> nat \<Rightarrow> u64 \<Rightarrow> world" where
  "recvDirect F w t sg dst = w\<lparr>mem := f_memmove F dst (sg_elem (sudogs w sg)) (t_size t) (mem w)\<rparr>"

definition send :: "memfuns \<Rightarrow> world \<Rightarrow> hchan \<Rightarrow> nat \<Rightarrow> u64 \<Rightarrow> world res" where
  "send F w c sg ep =
     (let w = (if sg_elem (sudogs w sg) \<noteq> 0
               then let w = sendDirect F w (elemtype c) sg ep
                    in w\<lparr>sudogs := (sudogs w)(sg := (sudogs w sg)\<lparr>sg_elem := 0\<rparr>)\<rparr>
               else w);
          gp = sg_g (sudogs w sg);
          w = w\<lparr>gs := (gs w)(gp := (gs w gp)\<lparr>g_param := sg\<rparr>), sudogs := (sudogs w)(sg := (sudogs w sg)\<lparr>success := True\<rparr>)\<rparr>
      in goready w gp)"

section \<open>Closing\<close>

text \<open>The loops that empty the wait queues, and the loop that wakes the goroutines.\<close>

partial_function (option) release_readers :: "memfuns \<Rightarrow> world \<Rightarrow> hchan \<Rightarrow> gList \<Rightarrow> (world \<times> hchan \<times> gList) option" where
  "release_readers F w c l =
     (case dequeue (sudogs w) (recvq c) of (s, q, sg) \<Rightarrow>
        let w = w\<lparr>sudogs := s\<rparr>; c = c\<lparr>recvq := q\<rparr>
        in if sg = 0 then Some (w, c, l)
           else let w = (if sg_elem (sudogs w sg) \<noteq> 0
                         then w\<lparr>mem := f_typedmemclr F (elemtype c) (sg_elem (sudogs w sg)) (mem w),
                                sudogs := (sudogs w)(sg := (sudogs w sg)\<lparr>sg_elem := 0\<rparr>)\<rparr>
                         else w);
                    gp = sg_g (sudogs w sg);
                    w = w\<lparr>gs := (gs w)(gp := (gs w gp)\<lparr>g_param := sg\<rparr>),
                          sudogs := (sudogs w)(sg := (sudogs w sg)\<lparr>success := False\<rparr>)\<rparr>
                in case gList_push (gs w) l gp of (s, l) \<Rightarrow> release_readers F (w\<lparr>gs := s\<rparr>) c l)"

partial_function (option) release_writers :: "world \<Rightarrow> hchan \<Rightarrow> gList \<Rightarrow> (world \<times> hchan \<times> gList) option" where
  "release_writers w c l =
     (case dequeue (sudogs w) (sendq c) of (s, q, sg) \<Rightarrow>
        let w = w\<lparr>sudogs := s\<rparr>; c = c\<lparr>sendq := q\<rparr>
        in if sg = 0 then Some (w, c, l)
           else let gp = sg_g (sudogs w sg);
                    w = w\<lparr>sudogs := (sudogs w)(sg := (sudogs w sg)\<lparr>sg_elem := 0, success := False\<rparr>)\<rparr>
                in case gList_push (gs w) l gp of (s, l) \<Rightarrow> release_writers (w\<lparr>gs := s\<rparr>) c l)"

partial_function (option) ready_all :: "world \<Rightarrow> gList \<Rightarrow> world res option" where
  "ready_all w l =
     (if gList_empty l then Some (Inr w)
      else case gList_pop (gs w) l of (l, gp) \<Rightarrow>
        case goready (w\<lparr>gs := set_link (gs w) gp 0\<rparr>) gp of
          Inl e \<Rightarrow> Some (Inl e)
        | Inr w \<Rightarrow> ready_all w l)"

definition closechan :: "memfuns \<Rightarrow> world \<Rightarrow> nat \<Rightarrow> world res" where
  "closechan F w cp =
     (if cp = 0 then Inl (Panic ''close of nil channel'')
      else let c = chans w cp
      in if closed c \<noteq> 0 then Inl (Panic ''close of closed channel'')
      else go_bind (returns (release_readers F w (c\<lparr>closed := 1\<rparr>) \<lparr>l_head = 0\<rparr>)) (\<lambda>(w, c, l).
           go_bind (returns (release_writers w c l)) (\<lambda>(w, c, l).
           go_bind (returns (ready_all (put_chan w cp c) l)) (\<lambda>r. r))))"

section \<open>Receiving\<close>

definition clear_at :: "memfuns \<Rightarrow> world \<Rightarrow> hchan \<Rightarrow> u64 \<Rightarrow> world" where
  "clear_at F w c ep = (if ep \<noteq> 0 then w\<lparr>mem := f_typedmemclr F (elemtype c) ep (mem w)\<rparr> else w)"

definition recv :: "memfuns \<Rightarrow> world \<Rightarrow> nat \<Rightarrow> hchan \<Rightarrow> nat \<Rightarrow> u64 \<Rightarrow> world res" where
  "recv F w cp c sg ep =
     (let (w, c) =
            (if dataqsiz c = 0 then (if ep \<noteq> 0 then recvDirect F w (elemtype c) sg ep else w, c)
             else let qp = chanbuf c (recvx c);
                      w = (if ep \<noteq> 0 then w\<lparr>mem := f_typedmemmove F (elemtype c) ep qp (mem w)\<rparr> else w);
                      w = w\<lparr>mem := f_typedmemmove F (elemtype c) qp (sg_elem (sudogs w sg)) (mem w)\<rparr>;
                      rx = recvx c + 1;
                      rx = (if rx = dataqsiz c then 0 else rx)
                  in (w, c\<lparr>recvx := rx, sendx := rx\<rparr>));
          w = w\<lparr>sudogs := (sudogs w)(sg := (sudogs w sg)\<lparr>sg_elem := 0\<rparr>)\<rparr>;
          gp = sg_g (sudogs w sg);
          w = put_chan w cp c;
          w = w\<lparr>sudogs := (sudogs w)(sg := (sudogs w sg)\<lparr>success := True\<rparr>)\<rparr>
      in goready w gp)"

definition chanrecv :: "memfuns \<Rightarrow> world \<Rightarrow> nat \<Rightarrow> u64 \<Rightarrow> bool \<Rightarrow> (world \<times> (bool \<times> bool) outcome) res" where
  "chanrecv F w cp ep block =
     (if cp = 0
      then if \<not> block then Inr (w, Returned (False, False))
           else go_bind (gopark w None waitReasonChanReceiveNilChan) (\<lambda>(w, _). Inr (w, Parked))
      else let c = chans w cp
      in if \<not> block \<and> chan_empty c \<and> closed c = 0 then Inr (w, Returned (False, False))
      else if \<not> block \<and> chan_empty c then Inr (clear_at F w c ep, Returned (True, False))
      else if closed c \<noteq> 0 \<and> qcount c = 0 then Inr (clear_at F w c ep, Returned (True, False))
      else case (if closed c = 0 then dequeue (sudogs w) (sendq c) else (sudogs w, sendq c, 0)) of (s, q, sg) \<Rightarrow>
        let w = w\<lparr>sudogs := s\<rparr>; c = c\<lparr>sendq := q\<rparr>
        in if sg \<noteq> 0 then go_bind (recv F w cp c sg ep) (\<lambda>w. Inr (w, Returned (True, True)))
        else if qcount c > 0
        then let qp = chanbuf c (recvx c);
                 w = (if ep \<noteq> 0 then w\<lparr>mem := f_typedmemmove F (elemtype c) ep qp (mem w)\<rparr> else w);
                 w = w\<lparr>mem := f_typedmemclr F (elemtype c) qp (mem w)\<rparr>;
                 rx = recvx c + 1;
                 c = c\<lparr>recvx := (if rx = dataqsiz c then 0 else rx), qcount := qcount c - 1\<rparr>
             in Inr (put_chan w cp c, Returned (True, True))
        else if \<not> block then Inr (put_chan w cp c, Returned (False, False))
        else go_bind (join_queue w (recvq c) ep (\<lambda>sg. sg)) (\<lambda>(w, q).
             go_bind (gopark (put_chan w cp (c\<lparr>recvq := q\<rparr>)) (Some chanparkcommit) waitReasonChanReceive) (\<lambda>(w, _).
               Inr (w, Parked))))"

end
