(* ===== verification/ChanQueue.thy ===== *)
theory ChanQueue
  imports Channel
begin

text \<open>
  What the parts of a channel mean: the wait queue as a list (an interpretation of \<open>linked_queue\<close>), regions of
  memory as byte lists, and the circular buffer as the list of its elements.
\<close>

unbundle bit_operations_syntax

section \<open>Wait queues as lists\<close>

text \<open>The doubly linked list of \<open>xs\<close> from \<open>x\<close> to \<open>y\<close>, with the element before it \<open>a\<close>.\<close>

fun dseg :: "sstore \<Rightarrow> nat \<Rightarrow> nat \<Rightarrow> nat list \<Rightarrow> nat \<Rightarrow> bool" where
  "dseg s a x [] y \<longleftrightarrow> x = y"
| "dseg s a x (z # zs) y \<longleftrightarrow> x = z \<and> z \<noteq> 0 \<and> sg_prev (s z) = a \<and> dseg s z (sg_next (s z)) zs y"

lemma dseg_append: "dseg s a x (xs @ ys) y \<longleftrightarrow> (\<exists>z. dseg s a x xs z \<and> dseg s (if xs = [] then a else last xs) z ys y)"
  by (induction xs arbitrary: a x) auto

lemma dseg_cong:
  "(\<And>z. z \<in> set xs \<Longrightarrow> sg_next (s' z) = sg_next (s z) \<and> sg_prev (s' z) = sg_prev (s z))
    \<Longrightarrow> dseg s' a x xs y = dseg s a x xs y"
  by (induction xs arbitrary: a x) auto

lemma dseg_nonzero: "dseg s a x xs y \<Longrightarrow> 0 \<notin> set xs"
  by (induction xs arbitrary: a x) auto

definition wqueue :: "sstore \<Rightarrow> waitq \<Rightarrow> nat list \<Rightarrow> bool" where
  "wqueue s q xs \<longleftrightarrow> dseg s 0 (wq_first q) xs 0 \<and> distinct xs \<and> wq_last q = (if xs = [] then 0 else last xs)"

lemma wqueue_first: "wqueue s q xs \<Longrightarrow> wq_first q = (if xs = [] then 0 else hd xs)"
  by (cases xs) (auto simp: wqueue_def)

lemma wqueue_nonzero: "wqueue s q xs \<Longrightarrow> 0 \<notin> set xs"
  by (auto simp: wqueue_def dest: dseg_nonzero)

lemma wqueue_cong:
  assumes "\<And>z. z \<in> set xs \<Longrightarrow> sg_next (s' z) = sg_next (s z) \<and> sg_prev (s' z) = sg_prev (s z)"
  shows "wqueue s' q xs = wqueue s q xs"
  using dseg_cong [OF assms, where a = 0 and x = "wq_first q" and y = 0] by (simp add: wqueue_def)

lemma wqueue_Nil: "wqueue s \<lparr>wq_first = 0, wq_last = 0\<rparr> []"
  by (simp add: wqueue_def)

lemma wqueue_empty: "wqueue s q [] \<longleftrightarrow> q = \<lparr>wq_first = 0, wq_last = 0\<rparr>"
  by (cases q) (auto simp: wqueue_def)

lemma enqueue_correct:
  assumes "wqueue s q xs" and "x \<noteq> 0" and "x \<notin> set xs" and "enqueue s q x = (s', q')"
  shows "wqueue s' q' (xs @ [x])"
proof (cases "xs = []")
  case True
  with assms show ?thesis by (auto simp: enqueue_def wqueue_def Let_def)
next
  case False
  obtain ys z where xs: "xs = ys @ [z]" using False by (metis rev_exhaust)
  have z: "wq_last q = z" "z \<noteq> 0" "z \<noteq> x" "z \<notin> set ys" "x \<notin> set ys"
    using assms(1,3) wqueue_nonzero [OF assms(1)] xs by (auto simp: wqueue_def)
  let ?s = "s(x := (s x)\<lparr>sg_next := 0, sg_prev := z\<rparr>, z := (s z)\<lparr>sg_next := x\<rparr>)"
  have e: "s' = ?s" "q' = q\<lparr>wq_last := x\<rparr>"
    using assms(4) z(1-3) by (auto simp: enqueue_def fun_eq_iff Let_def)
  have d: "dseg s 0 (wq_first q) ys z" "sg_prev (s z) = (if ys = [] then 0 else last ys)"
    using assms(1) xs z by (auto simp: wqueue_def dseg_append)
  have "dseg ?s 0 (wq_first q) ys z" using d(1) z by (subst dseg_cong [of ys _ s]) auto
  then have "dseg ?s 0 (wq_first q) ((ys @ [z]) @ [x]) 0"
    using d(2) z(2,3) assms(2) by (auto simp: dseg_append)
  then show ?thesis using e assms(1,3) xs by (simp add: wqueue_def)
qed

lemma dequeue_correct:
  assumes "wqueue s q xs" and "dequeue s q = (s', q', x)"
  shows "wqueue s' q' (tl xs) \<and> x = (if xs = [] then 0 else hd xs)"
proof (cases xs)
  case Nil
  with assms show ?thesis by (auto simp: dequeue_def wqueue_def)
next
  case (Cons y ys)
  show ?thesis
  proof (cases ys)
    case Nil
    with Cons assms show ?thesis by (auto simp: dequeue_def wqueue_def Let_def)
  next
    case (Cons z zs)
    have xs: "xs = y # z # zs" using \<open>xs = y # ys\<close> Cons by simp
    let ?s = "s(z := (s z)\<lparr>sg_prev := 0\<rparr>, y := (s y)\<lparr>sg_next := 0\<rparr>)"
    have y: "wq_first q = y" "sg_next (s y) = z" "y \<noteq> 0" "z \<noteq> 0" "y \<noteq> z" "y \<notin> set zs" "z \<notin> set zs"
      "dseg s z (sg_next (s z)) zs 0"
      using assms(1) xs by (auto simp: wqueue_def)
    then have e: "s' = ?s" "q' = q\<lparr>wq_first := z\<rparr>" "x = y"
      using assms(2) by (auto simp: dequeue_def Let_def)
    have "dseg ?s z (sg_next (s z)) zs 0" using y by (subst dseg_cong [of zs _ s]) auto
    then show ?thesis using e y xs assms(1) by (simp add: wqueue_def)
  qed
qed

interpretation wq: linked_queue wqueue enqueue dequeue
  by unfold_locales (use enqueue_correct dequeue_correct in blast)+

lemma dequeue_empty: "wqueue s q [] \<Longrightarrow> dequeue s q = (s, q, 0)"
  by (simp add: dequeue_def wqueue_empty)

text \<open>Taking an element changes links only.\<close>

lemma dequeue_fields:
  assumes "dequeue s q = (s', q', x)"
  shows "sg_elem (s' z) = sg_elem (s z)" "sg_g (s' z) = sg_g (s z)" "success (s' z) = success (s z)"
  using assms by (auto simp: dequeue_def Let_def split: if_splits)

section \<open>Memory\<close>

definition bytes :: "memory \<Rightarrow> u64 \<Rightarrow> nat \<Rightarrow> u8 list" where
  "bytes m x n = map (\<lambda>i. m (x + of_nat i)) [0..<n]"

definition copy_bytes :: "nat \<Rightarrow> u64 \<Rightarrow> u64 \<Rightarrow> memory \<Rightarrow> memory" where
  "copy_bytes n dst src m = (\<lambda>a. if unat (a - dst) < n then m (src + (a - dst)) else m a)"

definition clear_bytes :: "nat \<Rightarrow> u64 \<Rightarrow> memory \<Rightarrow> memory" where
  "clear_bytes n dst m = (\<lambda>a. if unat (a - dst) < n then 0 else m a)"

text \<open>Two regions of \<open>n\<close> bytes do not overlap, around the end of the address space either.\<close>

definition apart :: "nat \<Rightarrow> u64 \<Rightarrow> u64 \<Rightarrow> bool" where
  "apart n x y \<longleftrightarrow> n \<le> unat (x - y) \<and> n \<le> unat (y - x)"

lemma apart_sym: "apart n x y \<longleftrightarrow> apart n y x"
  by (auto simp: apart_def)

lemma length_bytes [simp]: "length (bytes m x n) = n"
  by (simp add: bytes_def)

text \<open>What the runtime's memory functions do.\<close>

definition memory_functions :: "memfuns \<Rightarrow> bool" where
  "memory_functions F \<longleftrightarrow>
     (\<forall>t dst src m. f_typedmemmove F t dst src m = copy_bytes (unat (t_size t)) dst src m)
     \<and> (\<forall>t dst m. f_typedmemclr F t dst m = clear_bytes (unat (t_size t)) dst m)
     \<and> (\<forall>dst src n m. f_memmove F dst src n m = copy_bytes (unat n) dst src m)"

definition byte_memory :: memfuns where
  "byte_memory = \<lparr>f_typedmemmove = (\<lambda>t. copy_bytes (unat (t_size t))), f_typedmemclr = (\<lambda>t. clear_bytes (unat (t_size t))),
     f_memmove = (\<lambda>dst src n. copy_bytes (unat n) dst src), f_mallocgc = (\<lambda>_. 0x10000)\<rparr>"

lemma byte_memory_ok: "memory_functions byte_memory"
  by (simp add: memory_functions_def byte_memory_def)

lemma unat_neg: "x \<noteq> 0 \<Longrightarrow> unat x + unat (- x) = 2 ^ 64" for x :: u64
proof -
  assume "x \<noteq> 0"
  have sum: "a + b = M" if "(a + b) mod M = 0" "a < M" "b < M" "0 < a" for a b M :: nat
  proof -
    have "M dvd a + b" using that(1) by (simp add: dvd_eq_mod_eq_0)
    then obtain k where k: "a + b = M * k" by (rule dvdE)
    with that have "M * k < M * 2" "0 < M * k" by linarith+
    then have "k < 2" "0 < k" by simp_all
    then have "k = 1" by simp
    with k show ?thesis by simp
  qed
  have "(unat x + unat (- x)) mod 2 ^ 64 = 0" using unat_word_ariths(1) [of x "- x"] by simp
  moreover have "unat x < 2 ^ 64" "unat (- x) < 2 ^ 64"
    using unsigned_less [of x, where 'a = nat] unsigned_less [of "- x", where 'a = nat] by simp_all
  moreover have "0 < unat x" using \<open>x \<noteq> 0\<close> by (simp add: unat_gt_0)
  ultimately show ?thesis by (rule sum)
qed

lemma offset_small: "i < n \<Longrightarrow> n \<le> 2 ^ 64 \<Longrightarrow> unat (of_nat i :: u64) = i"
  by (simp add: unat_of_nat64)

lemma bytes_copy_dst: "n \<le> 2 ^ 64 \<Longrightarrow> bytes (copy_bytes n dst src m) dst n = bytes m src n"
  by (auto simp: bytes_def copy_bytes_def offset_small)

lemma bytes_clear_dst: "n \<le> 2 ^ 64 \<Longrightarrow> bytes (clear_bytes n dst m) dst n = replicate n 0"
  by (intro nth_equalityI) (auto simp: bytes_def clear_bytes_def offset_small)

text \<open>A byte of a region lies outside a region apart from it.\<close>

lemma apart_outside:
  assumes "apart n x y" and "i < n"
  shows "\<not> unat (x + of_nat i - y) < n"
proof -
  let ?d = "x - y"
  have d: "n \<le> unat ?d" "n \<le> unat (- ?d)" using assms(1) by (simp_all add: apart_def)
  then have "?d \<noteq> 0" using assms(2) by auto
  then have "unat ?d + unat (- ?d) = 2 ^ 64" by (rule unat_neg)
  then have lim: "unat ?d + n \<le> 2 ^ 64" using d(2) by simp
  then have i: "unat (of_nat i :: u64) = i" using assms(2) by (intro unat_of_nat64) simp
  have "unat (?d + of_nat i) = unat ?d + i"
    using lim assms(2) i by (subst unat_add_noov) simp_all
  then have "n \<le> unat (?d + of_nat i)" using d(1) by simp
  moreover have "?d + of_nat i = x + of_nat i - y" by simp
  ultimately show ?thesis by (simp only: not_less)
qed

lemma bytes_copy_apart: "apart n x dst \<Longrightarrow> bytes (copy_bytes n dst src m) x n = bytes m x n"
  by (auto simp: bytes_def copy_bytes_def apart_outside)

lemma bytes_clear_apart: "apart n x dst \<Longrightarrow> bytes (clear_bytes n dst m) x n = bytes m x n"
  by (auto simp: bytes_def clear_bytes_def apart_outside)

section \<open>The circular buffer\<close>

definition slot :: "hchan \<Rightarrow> nat \<Rightarrow> u64" where
  "slot c i = buf c + of_nat (i * unat (t_size (elemtype c)))"

text \<open>
  The type invariant of a channel: the buffer does not wrap around the address space onto itself, and the
  indices fit the number of elements.
\<close>

definition chan_ok :: "hchan \<Rightarrow> bool" where
  "chan_ok c \<longleftrightarrow> unat (t_size (elemtype c)) < 2 ^ 16 \<and> elemsize c = ucast (t_size (elemtype c))
     \<and> unat (dataqsiz c) * unat (t_size (elemtype c)) \<le> 2 ^ 48 \<and> unat (dataqsiz c) < 2 ^ 63
     \<and> qcount c \<le> dataqsiz c
     \<and> (if dataqsiz c = 0 then sendx c = 0 \<and> recvx c = 0
        else recvx c < dataqsiz c \<and> unat (sendx c) = (unat (recvx c) + unat (qcount c)) mod unat (dataqsiz c))"

definition slot_of :: "hchan \<Rightarrow> nat \<Rightarrow> nat" where
  "slot_of c i = (unat (recvx c) + i) mod unat (dataqsiz c)"

definition items :: "memory \<Rightarrow> hchan \<Rightarrow> u8 list list" where
  "items m c = map (\<lambda>i. bytes m (slot c (slot_of c i)) (unat (t_size (elemtype c)))) [0..<unat (qcount c)]"

lemma chanbuf_slot:
  assumes "chan_ok c"
  shows "chanbuf c i = slot c (unat i)"
proof -
  let ?x = "t_size (elemtype c)"
  have "unat (ucast ?x :: u16) = unat ?x" using assms by (simp add: chan_ok_def unsigned_ucast_eq take_bit_nat_eq_self)
  then have "unat (ucast (ucast ?x :: u16) :: u64) = unat ?x"
    by (subst unsigned_ucast_eq) (use unsigned_less [of ?x, where 'a = nat] in \<open>simp add: take_bit_nat_eq_self\<close>)
  then have "(ucast (ucast ?x :: u16) :: u64) = ?x" by (simp only: word_unat_eq_iff)
  then show ?thesis using assms by (simp add: chanbuf_def slot_def chan_ok_def)
qed

text \<open>The slots of the buffer do not overlap.\<close>

lemma slots_apart:
  assumes "chan_ok c" and "i < unat (dataqsiz c)" and "j < unat (dataqsiz c)" and "i \<noteq> j"
  shows "apart (unat (t_size (elemtype c))) (slot c i) (slot c j)"
proof -
  let ?n = "unat (t_size (elemtype c))"
  have main: "?n \<le> unat (slot c a - slot c b) \<and> ?n \<le> unat (slot c b - slot c a)"
    if "a < b" "b < unat (dataqsiz c)" for a b
  proof -
    have "Suc a * ?n \<le> b * ?n" "Suc b * ?n \<le> unat (dataqsiz c) * ?n" using that by (intro mult_le_mono1; simp)+
    then have le: "a * ?n + ?n \<le> b * ?n" "b * ?n + ?n \<le> 2 ^ 48" using assms(1) by (auto simp: chan_ok_def)
    define k where "k = b * ?n - a * ?n"
    have k: "?n \<le> k" "k + ?n \<le> 2 ^ 48" "b * ?n = a * ?n + k" using le by (auto simp: k_def)
    have ba: "slot c b - slot c a = of_nat k" by (simp add: slot_def k(3))
    then have ab: "slot c a - slot c b = - of_nat k" by (metis minus_diff_eq)
    have uk: "unat (of_nat k :: u64) = k" using k(2) by (intro unat_of_nat64) simp
    show ?thesis
    proof (cases "k = 0")
      case False
      then have "(of_nat k :: u64) \<noteq> 0" using uk by (metis unat_0)
      from unat_neg [OF this] uk have "k + unat (- of_nat k :: u64) = 2 ^ 64" by simp
      then show ?thesis using ba ab uk k(1,2) by simp
    qed (use k(1) in simp)
  qed
  show ?thesis
    using main [of i j] main [of j i] assms(2-4) by (cases "i < j") (auto simp: apart_def)
qed

lemma slot_of_less: "dataqsiz c \<noteq> 0 \<Longrightarrow> slot_of c i < unat (dataqsiz c)"
  by (simp add: slot_of_def unat_gt_0)

lemma slot_of_inj:
  assumes "dataqsiz c \<noteq> 0" and "i < unat (dataqsiz c)" and "j < unat (dataqsiz c)" and "slot_of c i = slot_of c j"
  shows "i = j"
proof (rule ccontr)
  let ?r = "unat (recvx c)" and ?n = "unat (dataqsiz c)"
  assume "i \<noteq> j"
  have False if "a < b" "b < ?n" "(?r + a) mod ?n = (?r + b) mod ?n" for a b
  proof -
    have "?n dvd (?r + b) - (?r + a)" using that(1,3) by (metis add_le_mono1 add.commute less_imp_le mod_eq_dvd_iff_nat)
    then have "?n dvd b - a" by simp
    with that(1,2) show False using nat_dvd_not_less by fastforce
  qed
  from this [of i j] this [of j i] assms(2-4) \<open>i \<noteq> j\<close> show False by (auto simp: slot_of_def nat_neq_iff)
qed

lemma length_items [simp]: "length (items m c) = unat (qcount c)"
  by (simp add: items_def)

text \<open>Storing behind the last element, and taking the first one.\<close>

lemma chan_not_empty: "chan_ok c \<Longrightarrow> qcount c \<noteq> 0 \<Longrightarrow> dataqsiz c \<noteq> 0"
  by (auto simp: chan_ok_def)

lemma sendx_slot: "chan_ok c \<Longrightarrow> dataqsiz c \<noteq> 0 \<Longrightarrow> unat (sendx c) = slot_of c (unat (qcount c))"
  by (simp add: chan_ok_def slot_of_def)

lemma recvx_slot: "chan_ok c \<Longrightarrow> dataqsiz c \<noteq> 0 \<Longrightarrow> unat (recvx c) = slot_of c 0"
  by (auto simp: chan_ok_def slot_of_def word_less_nat_alt)

text \<open>Advancing an index.\<close>

lemma next_index:
  fixes x n :: u64
  assumes "x < n"
  shows "unat (if x + 1 = n then 0 else x + 1) = Suc (unat x) mod unat n" "(if x + 1 = n then 0 else x + 1) < n"
proof -
  have x: "unat (x + 1) = Suc (unat x)" using assms unat_inc_below by blast
  then show "unat (if x + 1 = n then 0 else x + 1) = Suc (unat x) mod unat n"
    "(if x + 1 = n then 0 else x + 1) < n"
    using assms by (auto simp: word_less_nat_alt word_unat_eq_iff)
qed

definition pushed :: "hchan \<Rightarrow> hchan" where
  "pushed c = c\<lparr>sendx := (if sendx c + 1 = dataqsiz c then 0 else sendx c + 1), qcount := qcount c + 1\<rparr>"

definition popped :: "hchan \<Rightarrow> hchan" where
  "popped c = c\<lparr>recvx := (if recvx c + 1 = dataqsiz c then 0 else recvx c + 1), qcount := qcount c - 1\<rparr>"

lemma pushed_ok:
  assumes "chan_ok c" and "qcount c < dataqsiz c"
  shows "chan_ok (pushed c)"
proof -
  have nz: "dataqsiz c \<noteq> 0" using assms(2) by auto
  have s: "sendx c < dataqsiz c" using sendx_slot [OF assms(1) nz] slot_of_less [OF nz] by (simp add: word_less_nat_alt)
  have q: "unat (qcount c + 1) = Suc (unat (qcount c))" using assms(2) unat_inc_below by blast
  then have "qcount c + 1 \<le> dataqsiz c" using assms(2) by (simp add: word_le_nat_alt word_less_nat_alt)
  with assms(1) nz next_index(1) [OF s] q show ?thesis by (simp add: chan_ok_def pushed_def mod_Suc_eq)
qed

lemma popped_ok:
  assumes "chan_ok c" and "qcount c \<noteq> 0"
  shows "chan_ok (popped c)"
proof -
  have nz: "dataqsiz c \<noteq> 0" by (rule chan_not_empty [OF assms])
  have r: "recvx c < dataqsiz c" using assms(1) nz by (simp add: chan_ok_def)
  have q: "unat (qcount c - 1) = unat (qcount c) - 1" "0 < unat (qcount c)"
    using assms(2) by (simp_all add: unat_gt_0 unat_sub word_le_nat_alt Suc_le_eq)
  moreover have "unat (qcount c) \<le> unat (dataqsiz c)" using assms(1) by (simp add: word_le_nat_alt chan_ok_def)
  ultimately have "qcount c - 1 \<le> dataqsiz c" by (simp add: word_le_nat_alt)
  moreover have "(Suc (unat (recvx c)) mod unat (dataqsiz c) + (unat (qcount c) - 1)) mod unat (dataqsiz c)
      = (unat (recvx c) + unat (qcount c)) mod unat (dataqsiz c)"
  proof -
    obtain k where "unat (qcount c) = Suc k" using q(2) gr0_implies_Suc by blast
    then show ?thesis by (simp add: mod_add_left_eq)
  qed
  ultimately show ?thesis using assms(1) nz next_index [OF r] q by (simp add: chan_ok_def popped_def)
qed

lemma items_pushed:
  assumes "chan_ok c" and "qcount c < dataqsiz c"
  shows "items (copy_bytes (unat (t_size (elemtype c))) (chanbuf c (sendx c)) ep m) (pushed c)
    = items m c @ [bytes m ep (unat (t_size (elemtype c)))]"
proof -
  let ?n = "unat (t_size (elemtype c))" and ?q = "unat (qcount c)"
  let ?m = "copy_bytes ?n (chanbuf c (sendx c)) ep m"
  have nz: "dataqsiz c \<noteq> 0" using assms(2) by auto
  have n: "?n \<le> 2 ^ 64" using assms(1) by (simp add: chan_ok_def)
  have q: "unat (qcount c + 1) = Suc ?q" "?q < unat (dataqsiz c)"
    using assms(2) unat_inc_below by (blast, simp add: word_less_nat_alt)
  have dst: "chanbuf c (sendx c) = slot c (slot_of c ?q)" using chanbuf_slot sendx_slot assms(1) nz by metis
  have same: "slot (pushed c) = slot c" "slot_of (pushed c) = slot_of c" by (simp_all add: fun_eq_iff slot_def slot_of_def pushed_def)
  have "bytes ?m (slot c (slot_of c i)) ?n = bytes m (slot c (slot_of c i)) ?n" if "i < ?q" for i
  proof -
    have "slot_of c i \<noteq> slot_of c ?q" using slot_of_inj [OF nz _ q(2)] that q(2) by (metis less_trans nat_neq_iff)
    then show ?thesis
      unfolding dst by (intro bytes_copy_apart slots_apart [OF assms(1)] slot_of_less [OF nz])
  qed
  moreover have "bytes ?m (slot c (slot_of c ?q)) ?n = bytes m ep ?n" unfolding dst by (rule bytes_copy_dst [OF n])
  ultimately show ?thesis by (simp add: items_def same) (simp add: pushed_def q(1))
qed

lemma items_hd: "chan_ok c \<Longrightarrow> qcount c \<noteq> 0 \<Longrightarrow>
  items m c \<noteq> [] \<and> hd (items m c) = bytes m (chanbuf c (recvx c)) (unat (t_size (elemtype c)))"
  using recvx_slot [of c] chan_not_empty [of c] by (auto simp: items_def hd_map chanbuf_slot upt_rec [of 0] unat_gt_0)

lemma items_popped:
  assumes "chan_ok c" and "qcount c \<noteq> 0"
  shows "items (clear_bytes (unat (t_size (elemtype c))) (chanbuf c (recvx c)) m) (popped c) = tl (items m c)"
proof -
  let ?n = "unat (t_size (elemtype c))" and ?q = "unat (qcount c)"
  let ?m = "clear_bytes ?n (chanbuf c (recvx c)) m"
  have nz: "dataqsiz c \<noteq> 0" by (rule chan_not_empty [OF assms])
  have r: "recvx c < dataqsiz c" and q: "?q \<le> unat (dataqsiz c)"
    using assms(1) nz by (simp_all add: chan_ok_def word_le_nat_alt)
  have q1: "unat (qcount c - 1) = ?q - 1" "0 < ?q"
    using assms(2) by (simp_all add: unat_gt_0 unat_sub word_le_nat_alt Suc_le_eq)
  have dst: "chanbuf c (recvx c) = slot c (slot_of c 0)" using chanbuf_slot recvx_slot assms(1) nz by metis
  have s: "slot (popped c) = slot c" "slot_of (popped c) i = slot_of c (Suc i)" for i
    using next_index(1) [OF r] by (simp_all add: fun_eq_iff slot_def slot_of_def popped_def mod_add_left_eq)
  have "bytes ?m (slot c (slot_of c (Suc i))) ?n = bytes m (slot c (slot_of c (Suc i))) ?n" if "Suc i < ?q" for i
  proof -
    have "slot_of c (Suc i) \<noteq> slot_of c 0" using slot_of_inj [OF nz, of "Suc i" 0] that q q1 by auto
    then show ?thesis
      unfolding dst by (intro bytes_clear_apart slots_apart [OF assms(1)] slot_of_less [OF nz])
  qed
  moreover have "qcount (popped c) = qcount c - 1" "elemtype (popped c) = elemtype c" by (simp_all add: popped_def)
  ultimately show ?thesis
    by (intro nth_equalityI) (simp_all add: items_def s nth_tl q1(1) less_diff_conv)
qed

text \<open>A variable outside the buffer.\<close>

definition outside :: "hchan \<Rightarrow> u64 \<Rightarrow> bool" where
  "outside c ep \<longleftrightarrow> (\<forall>i < unat (dataqsiz c). apart (unat (t_size (elemtype c))) (slot c i) ep)"

lemma items_cong:
  assumes "chan_ok c" and "\<And>i. i < unat (dataqsiz c) \<Longrightarrow>
    bytes m' (slot c i) (unat (t_size (elemtype c))) = bytes m (slot c i) (unat (t_size (elemtype c)))"
  shows "items m' c = items m c"
proof (cases "qcount c = 0")
  case False
  then show ?thesis using assms(2) slot_of_less [OF chan_not_empty [OF assms(1) False]] by (simp add: items_def)
qed (simp add: items_def)

lemma items_outside:
  assumes "chan_ok c" and "outside c ep"
  shows "items (copy_bytes (unat (t_size (elemtype c))) ep src m) c = items m c"
    "items (clear_bytes (unat (t_size (elemtype c))) ep m) c = items m c"
  using assms(2) by (auto intro!: items_cong [OF assms(1)] bytes_copy_apart bytes_clear_apart simp: outside_def)

end
