(* ===== verification/ChanSpec.thy ===== *)
theory ChanSpec
  imports ChanQueue
begin

text \<open>
  The specification of a channel that nobody waits on, a bounded queue with a flag that it is closed
  (\<open>spec_op\<close>), and the proof that sending, receiving and closing without blocking behave in every sequence of
  calls as the specification says, panics included.
\<close>

unbundle bit_operations_syntax

section \<open>Creating a channel\<close>

lemma MulUintptr_correct: "MulUintptr a b = (a * b, 2 ^ 64 \<le> unat a * unat b)"
proof (cases "a OR b < 2 ^ 32 \<or> a = 0")
  case True
  have "unat a * unat b < 2 ^ 64" if "a OR b < 2 ^ 32"
  proof -
    have small: "unat x < 2 ^ 32" if "x OR y < 2 ^ 32" for x y :: u64
    proof -
      have "unat (x OR y) < 2 ^ 32" using that by (simp add: word_less_nat_alt)
      then have "k < 32" if "bit x k" for k using that less_exp_bit [of "x OR y" 32 k] by (simp add: bit_or_iff)
      then have "take_bit 32 x = x" by (auto intro!: bit_eqI simp: bit_take_bit_iff)
      then show ?thesis by (metis take_bit_nat_less_exp unsigned_take_bit_eq)
    qed
    have "unat a < 2 ^ 32" "unat b < 2 ^ 32" using small [of a b] small [of b a] that by (simp_all add: or.commute)
    then have "unat a * unat b < 2 ^ 32 * 2 ^ 32" by (rule mult_strict_mono) simp_all
    then show ?thesis by simp
  qed
  with True show ?thesis by (auto simp: MulUintptr_def)
next
  case False
  have m: "unat MaxUintptr = 2 ^ 64 - 1" by (simp add: MaxUintptr_def unsigned_minus_1_eq_mask mask_eq_exp_minus_1)
  have "0 < unat a" using False by (simp add: unat_gt_0)
  have "(b > MaxUintptr div a) \<longleftrightarrow> (2 ^ 64 - 1) div unat a < unat b"
    by (simp only: word_less_nat_alt unat_div m)
  also have "\<dots> \<longleftrightarrow> 2 ^ 64 - 1 < unat b * unat a" using \<open>0 < unat a\<close> by (rule div_less_iff_less_mult)
  also have "\<dots> \<longleftrightarrow> 2 ^ 64 \<le> unat a * unat b" by (simp add: mult.commute) linarith
  finally show ?thesis using False by (simp add: MulUintptr_def Let_def)
qed

lemma makechan_ok:
  assumes "makechan F t sz = Inr c"
  shows "chan_ok c" "elemtype c = t" "dataqsiz c = sz" "qcount c = 0" "closed c = 0"
    "recvq c = \<lparr>wq_first = 0, wq_last = 0\<rparr>" "sendq c = \<lparr>wq_first = 0, wq_last = 0\<rparr>"
proof -
  obtain m ov where mu: "MulUintptr (t_size t) sz = (m, ov)" by force
  have c: "t_size t < 2 ^ 16" "\<not> ov" "m \<le> maxAlloc - hchanSize" "0 \<le> sint sz"
    using assms mu by (auto simp: makechan_def Let_def not_le not_less split: if_splits)
  have sel: "elemtype c = t" "dataqsiz c = sz" "qcount c = 0" "closed c = 0" "elemsize c = ucast (t_size t)"
    "sendx c = 0" "recvx c = 0" "recvq c = \<lparr>wq_first = 0, wq_last = 0\<rparr>" "sendq c = \<lparr>wq_first = 0, wq_last = 0\<rparr>"
    using assms mu by (auto simp: makechan_def Let_def split: if_splits)
  then show "elemtype c = t" "dataqsiz c = sz" "qcount c = 0" "closed c = 0"
    "recvq c = \<lparr>wq_first = 0, wq_last = 0\<rparr>" "sendq c = \<lparr>wq_first = 0, wq_last = 0\<rparr>" by simp_all
  have ts: "unat (t_size t) < 2 ^ 16" using c(1) by (simp add: word_less_nat_alt)
  have prod: "unat (t_size t) * unat sz < 2 ^ 64" "m = t_size t * sz" using mu c(2) by (simp_all add: MulUintptr_correct)
  then have "unat m = unat (t_size t) * unat sz" by (simp add: unat_word_ariths)
  moreover have "unat m \<le> 2 ^ 48" using c(3) by (simp add: maxAlloc_def hchanSize_def word_le_nat_alt)
  moreover have "unat sz < 2 ^ 63"
  proof -
    have "sint sz < 2 ^ 63" using sint_lt [of sz] by simp
    then have "uint sz = sint sz" using uint_sint [of sz] c(4) by (simp add: take_bit_int_eq_self)
    then have "int (unat sz) < 2 ^ 63" using \<open>sint sz < 2 ^ 63\<close> by simp
    then show ?thesis by (simp only: of_nat_less_numeral_power_cancel_iff)
  qed
  ultimately show "chan_ok c" using sel ts by (simp add: chan_ok_def mult.commute word_gt_0)
qed

section \<open>The specification\<close>

record achan =
  a_items :: "u8 list list"
  a_cap :: nat
  a_closed :: bool

datatype chan_op = TrySend "u8 list" | TryRecv | Close

datatype chan_result = Sent bool | Received bool bool "u8 list" | Closed | Blocks

text \<open>A value is as many bytes as the element type has.\<close>

definition spec_op :: "nat \<Rightarrow> achan \<Rightarrow> chan_op \<Rightarrow> (achan \<times> chan_result) res" where
  "spec_op n a x = (case x of
     TrySend v \<Rightarrow> if a_closed a then Inl (Panic ''send on closed channel'')
                  else if length (a_items a) = a_cap a then Inr (a, Sent False)
                  else Inr (a\<lparr>a_items := a_items a @ [v]\<rparr>, Sent True)
   | TryRecv \<Rightarrow> (case a_items a of
        [] \<Rightarrow> Inr (a, if a_closed a then Received True False (replicate n 0) else Received False False [])
      | v # vs \<Rightarrow> Inr (a\<lparr>a_items := vs\<rparr>, Received True True v))
   | Close \<Rightarrow> if a_closed a then Inl (Panic ''close of closed channel'') else Inr (a\<lparr>a_closed := True\<rparr>, Closed))"

text \<open>The calls on the model: the user's variable is at \<open>ep\<close>.\<close>

definition store_bytes :: "u64 \<Rightarrow> u8 list \<Rightarrow> memory \<Rightarrow> memory" where
  "store_bytes x v m = (\<lambda>a. if unat (a - x) < length v then v ! unat (a - x) else m a)"

definition chan_do :: "memfuns \<Rightarrow> u64 \<Rightarrow> nat \<Rightarrow> world \<Rightarrow> chan_op \<Rightarrow> (world \<times> chan_result) res" where
  "chan_do F ep cp w x = (case x of
     TrySend v \<Rightarrow> go_bind (chansend F (w\<lparr>mem := store_bytes ep v (mem w)\<rparr>) cp ep False) (\<lambda>(w, r).
       Inr (w, case r of Returned b \<Rightarrow> Sent b | Parked \<Rightarrow> Blocks))
   | TryRecv \<Rightarrow> go_bind (chanrecv F w cp ep False) (\<lambda>(w, r).
       Inr (w, case r of Returned (selected, rcvd) \<Rightarrow>
           Received selected rcvd (if selected then bytes (mem w) ep (unat (t_size (elemtype (chans w cp)))) else [])
         | Parked \<Rightarrow> Blocks))
   | Close \<Rightarrow> go_bind (closechan F w cp) (\<lambda>w. Inr (w, Closed)))"

text \<open>A sequence of calls up to the first panic: the results, and the panic.\<close>

fun run_calls :: "('s \<Rightarrow> chan_op \<Rightarrow> ('s \<times> chan_result) res) \<Rightarrow> 's \<Rightarrow> chan_op list \<Rightarrow> chan_result list \<times> gofail option" where
  "run_calls f s [] = ([], None)"
| "run_calls f s (x # xs) = (case f s x of
     Inl e \<Rightarrow> ([], Some e)
   | Inr (s, r) \<Rightarrow> (case run_calls f s xs of (rs, e) \<Rightarrow> (r # rs, e)))"

section \<open>Refinement\<close>

definition no_waiters :: "hchan \<Rightarrow> bool" where
  "no_waiters c \<longleftrightarrow> recvq c = \<lparr>wq_first = 0, wq_last = 0\<rparr> \<and> sendq c = \<lparr>wq_first = 0, wq_last = 0\<rparr>"

definition sim :: "u64 \<Rightarrow> nat \<Rightarrow> nat \<Rightarrow> world \<Rightarrow> achan \<Rightarrow> bool" where
  "sim ep cp n w a \<longleftrightarrow> cp \<noteq> 0 \<and> ep \<noteq> 0 \<and> chan_ok (chans w cp) \<and> outside (chans w cp) ep \<and> no_waiters (chans w cp)
     \<and> unat (t_size (elemtype (chans w cp))) = n \<and> a_items a = items (mem w) (chans w cp)
     \<and> a_cap a = unat (dataqsiz (chans w cp)) \<and> (a_closed a \<longleftrightarrow> closed (chans w cp) \<noteq> 0)"

lemma bytes_store: "length v = n \<Longrightarrow> n \<le> 2 ^ 64 \<Longrightarrow> bytes (store_bytes x v m) x n = v"
  by (intro nth_equalityI) (auto simp: bytes_def store_bytes_def offset_small)

lemma bytes_store_apart: "length v = n \<Longrightarrow> apart n y x \<Longrightarrow> bytes (store_bytes x v m) y n = bytes m y n"
  by (auto simp: bytes_def store_bytes_def apart_outside)

lemma dequeue_none: "dequeue s \<lparr>wq_first = 0, wq_last = 0\<rparr> = (s, \<lparr>wq_first = 0, wq_last = 0\<rparr>, 0)"
  by (simp add: dequeue_def)

lemma put_chan_simps [simp]:
  "chans (put_chan w cp c) cp = c" "mem (put_chan w cp c) = mem w" "gs (put_chan w cp c) = gs w"
  "sudogs (put_chan w cp c) = sudogs w" "pp (put_chan w cp c) = pp w" "curg (put_chan w cp c) = curg w"
  by (simp_all add: put_chan_def)

lemma no_waiters_dequeue:
  "no_waiters c \<Longrightarrow> dequeue s (recvq c) = (s, recvq c, 0)" "no_waiters c \<Longrightarrow> dequeue s (sendq c) = (s, sendq c, 0)"
  by (simp_all add: no_waiters_def dequeue_def)

text \<open>The branches without blocking.\<close>

lemma chansend_buffered:
  assumes "cp \<noteq> 0" and "closed (chans w cp) = 0" and "dequeue (sudogs w) (recvq (chans w cp)) = (sudogs w, recvq (chans w cp), 0)"
    and "qcount (chans w cp) < dataqsiz (chans w cp)"
  shows "chansend F w cp ep block = Inr (put_chan (w\<lparr>mem := f_typedmemmove F (elemtype (chans w cp))
    (chanbuf (chans w cp) (sendx (chans w cp))) ep (mem w)\<rparr>) cp (pushed (chans w cp)), Returned True)"
proof -
  have "\<not> full (chans w cp)" using assms(4) by (auto simp: full_def)
  then show ?thesis using assms by (simp add: chansend_def pushed_def Let_def)
qed

lemma chanrecv_buffered:
  assumes "cp \<noteq> 0" and "dequeue (sudogs w) (sendq (chans w cp)) = (sudogs w, sendq (chans w cp), 0)"
    and "chan_ok (chans w cp)" and "qcount (chans w cp) \<noteq> 0" and "ep \<noteq> 0"
  shows "chanrecv F w cp ep block = Inr (put_chan (w\<lparr>mem := f_typedmemclr F (elemtype (chans w cp)) (chanbuf (chans w cp) (recvx (chans w cp)))
    (f_typedmemmove F (elemtype (chans w cp)) ep (chanbuf (chans w cp) (recvx (chans w cp))) (mem w))\<rparr>) cp (popped (chans w cp)),
    Returned (True, True))"
proof -
  have "\<not> chan_empty (chans w cp)" using assms(4) chan_not_empty [OF assms(3,4)] by (simp add: chan_empty_def)
  moreover have "0 < qcount (chans w cp)" using assms(4) by (simp add: word_gt_0)
  ultimately show ?thesis using assms(1,2,4,5) by (simp add: chanrecv_def popped_def Let_def)
qed

lemma outside_upd [simp]: "outside (pushed c) ep = outside c ep" "outside (popped c) ep = outside c ep"
  by (simp_all add: outside_def slot_def pushed_def popped_def)

lemma sim_send:
  assumes "sim ep cp n w a" and "memory_functions F" and "length v = n"
  shows "case spec_op n a (TrySend v) of Inl e \<Rightarrow> chan_do F ep cp w (TrySend v) = Inl e
    | Inr (a', r) \<Rightarrow> \<exists>w'. chan_do F ep cp w (TrySend v) = Inr (w', r) \<and> sim ep cp n w' a'"
proof -
  let ?c = "chans w cp" and ?m = "store_bytes ep v (mem w)"
  have c: "cp \<noteq> 0" "chan_ok ?c" "outside ?c ep" "no_waiters ?c" "unat (t_size (elemtype ?c)) = n"
    using assms(1) by (simp_all add: sim_def)
  have n: "n \<le> 2 ^ 64" using c(2,5) by (simp add: chan_ok_def)
  have it: "items ?m ?c = items (mem w) ?c"
    using c(3,5) assms(3) by (intro items_cong [OF c(2)]) (simp add: bytes_store_apart outside_def)
  have le: "unat (qcount ?c) \<le> unat (dataqsiz ?c)" using c(2) by (simp add: chan_ok_def word_le_nat_alt)
  have fl: "full ?c \<longleftrightarrow> length (items (mem w) ?c) = unat (dataqsiz ?c)"
    using c(4) le by (auto simp: full_def no_waiters_def word_unat_eq_iff)
  let ?w = "w\<lparr>mem := ?m\<rparr>"
  consider "closed ?c \<noteq> 0" | "closed ?c = 0" "full ?c" | "closed ?c = 0" "\<not> full ?c" by blast
  then show ?thesis
  proof cases
    case 1
    then show ?thesis using assms(1) c(1) by (simp add: spec_op_def chan_do_def chansend_def sim_def Let_def)
  next
    case 2
    then have "chan_do F ep cp w (TrySend v) = Inr (?w, Sent False)"
      using c(1) by (simp add: chan_do_def chansend_def Let_def)
    moreover have "spec_op n a (TrySend v) = Inr (a, Sent False)" using 2 fl assms(1) by (simp add: spec_op_def sim_def)
    ultimately show ?thesis using assms(1) it by (simp add: sim_def)
  next
    case 3
    then have "qcount ?c < dataqsiz ?c" using fl le by (simp add: word_less_nat_alt)
    note push = this pushed_ok [OF c(2) this] items_pushed [OF c(2) this, of ep ?m]
    let ?w' = "put_chan (?w\<lparr>mem := copy_bytes n (chanbuf ?c (sendx ?c)) ep ?m\<rparr>) cp (pushed ?c)"
    have mv: "f_typedmemmove F (elemtype ?c) = copy_bytes n"
      using assms(2) c(5) by (auto simp: memory_functions_def fun_eq_iff)
    have "chansend F ?w cp ep False = Inr (?w', Returned True)"
      using chansend_buffered [of cp ?w F ep False] 3 c(1,4) push(1) mv by (simp add: no_waiters_dequeue)
    then have "chan_do F ep cp w (TrySend v) = Inr (?w', Sent True)" by (simp add: chan_do_def)
    moreover have "spec_op n a (TrySend v) = Inr (a\<lparr>a_items := a_items a @ [v]\<rparr>, Sent True)"
      using 3 fl assms(1) by (simp add: spec_op_def sim_def)
    moreover have "sim ep cp n ?w' (a\<lparr>a_items := a_items a @ [v]\<rparr>)"
      using assms(1,3) push(2,3) it bytes_store [OF assms(3) n] c(3,4,5)
      by (simp add: sim_def) (simp add: pushed_def no_waiters_def)
    ultimately show ?thesis by simp
  qed
qed

lemma sim_recv:
  assumes "sim ep cp n w a" and "memory_functions F"
  shows "case spec_op n a TryRecv of Inl e \<Rightarrow> chan_do F ep cp w TryRecv = Inl e
    | Inr (a', r) \<Rightarrow> \<exists>w'. chan_do F ep cp w TryRecv = Inr (w', r) \<and> sim ep cp n w' a'"
proof -
  let ?c = "chans w cp" and ?m = "mem w"
  have c: "cp \<noteq> 0" "ep \<noteq> 0" "chan_ok ?c" "outside ?c ep" "no_waiters ?c" "unat (t_size (elemtype ?c)) = n"
    using assms(1) by (simp_all add: sim_def)
  have n: "n \<le> 2 ^ 64" using c(3,6) by (simp add: chan_ok_def)
  have f: "f_typedmemmove F (elemtype ?c) = copy_bytes n" "f_typedmemclr F (elemtype ?c) = clear_bytes n"
    using assms(2) c(6) by (auto simp: memory_functions_def fun_eq_iff)
  show ?thesis
  proof (cases "qcount ?c = 0")
    case True
    then have e: "chan_empty ?c" "items ?m ?c = []" using c(5) by (simp_all add: chan_empty_def no_waiters_def items_def)
    show ?thesis
    proof (cases "closed ?c = 0")
      case True
      then show ?thesis using e assms(1) c(1) by (simp add: spec_op_def chan_do_def chanrecv_def sim_def Let_def)
    next
      case False
      let ?w' = "w\<lparr>mem := clear_bytes n ep ?m\<rparr>"
      have "chan_do F ep cp w TryRecv = Inr (?w', Received True False (replicate n 0))"
        using False e(1) c(1,2,6) bytes_clear_dst [OF n, of ep ?m]
        by (simp add: chan_do_def chanrecv_def clear_at_def f Let_def)
      moreover have "sim ep cp n ?w' a" using assms(1) items_outside(2) [OF c(3,4)] c(6) by (simp add: sim_def)
      ultimately show ?thesis using False e(2) assms(1) by (simp add: spec_op_def sim_def)
    qed
  next
    case False
    let ?x = "chanbuf ?c (recvx ?c)"
    let ?w' = "put_chan (w\<lparr>mem := clear_bytes n ?x (copy_bytes n ep ?x ?m)\<rparr>) cp (popped ?c)"
    have nz: "dataqsiz ?c \<noteq> 0" by (rule chan_not_empty [OF c(3) False])
    have x: "?x = slot ?c (slot_of ?c 0)" using chanbuf_slot [OF c(3)] recvx_slot [OF c(3) nz] by metis
    have "apart n ?x ep" using c(4,6) slot_of_less [OF nz] unfolding x outside_def by blast
    then have out: "bytes (clear_bytes n ?x (copy_bytes n ep ?x ?m)) ep n = hd (items ?m ?c)"
      using items_hd [OF c(3) False, of ?m] c(6) n
      by (simp add: bytes_clear_apart [of n ep ?x] apart_sym [of n ep] bytes_copy_dst)
    have it: "items (mem ?w') (popped ?c) = tl (items ?m ?c)"
      using items_popped [OF c(3) False, of "copy_bytes n ep ?x ?m"] items_outside(1) [OF c(3,4), of ?x ?m] c(6) by simp
    have "chanrecv F w cp ep False = Inr (?w', Returned (True, True))"
      using chanrecv_buffered [OF c(1) _ c(3) False c(2), of F False] c(5) f by (simp add: no_waiters_dequeue)
    then have "chan_do F ep cp w TryRecv = Inr (?w', Received True True (hd (items ?m ?c)))"
      using out c(6) by (simp add: chan_do_def popped_def)
    moreover have "items ?m ?c = hd (items ?m ?c) # tl (items ?m ?c)"
      using items_hd [OF c(3) False, of ?m] by (metis list.collapse)
    then have "spec_op n a TryRecv = Inr (a\<lparr>a_items := tl (items ?m ?c)\<rparr>, Received True True (hd (items ?m ?c)))"
      using assms(1) by (cases "items ?m ?c") (simp_all add: spec_op_def sim_def)
    moreover have "sim ep cp n ?w' (a\<lparr>a_items := tl (items ?m ?c)\<rparr>)"
      using assms(1) it popped_ok [OF c(3) False] c(4-6) by (simp add: sim_def) (simp add: popped_def no_waiters_def)
    ultimately show ?thesis by simp
  qed
qed

lemma release_none:
  "no_waiters c \<Longrightarrow> release_readers F w c l = Some (w, c, l)" "no_waiters c \<Longrightarrow> release_writers w c l = Some (w, c, l)"
  by (simp_all add: release_readers.simps [of F w] release_writers.simps [of w] no_waiters_dequeue)

lemma closechan_idle:
  assumes "cp \<noteq> 0" and "closed (chans w cp) = 0" and "no_waiters (chans w cp)"
  shows "closechan F w cp = Inr (put_chan w cp ((chans w cp)\<lparr>closed := 1\<rparr>))"
proof -
  have "no_waiters ((chans w cp)\<lparr>closed := 1\<rparr>)" using assms(3) by (simp add: no_waiters_def)
  then show ?thesis using assms(1,2)
    by (simp add: closechan_def release_none ready_all.simps [of "put_chan w cp _"] gList_empty_def Let_def)
qed

lemma sim_close:
  assumes "sim ep cp n w a"
  shows "case spec_op n a Close of Inl e \<Rightarrow> chan_do F ep cp w Close = Inl e
    | Inr (a', r) \<Rightarrow> \<exists>w'. chan_do F ep cp w Close = Inr (w', r) \<and> sim ep cp n w' a'"
proof (cases "closed (chans w cp) = 0")
  case True
  let ?c = "(chans w cp)\<lparr>closed := 1\<rparr>"
  have "chan_do F ep cp w Close = Inr (put_chan w cp ?c, Closed)"
    using closechan_idle [OF _ True] assms by (simp add: chan_do_def sim_def)
  moreover have "items (mem w) ?c = items (mem w) (chans w cp)" "outside ?c ep = outside (chans w cp) ep"
    "chan_ok ?c = chan_ok (chans w cp)"
    by (simp_all add: items_def slot_def slot_of_def outside_def chan_ok_def)
  ultimately show ?thesis using assms True by (simp add: spec_op_def sim_def no_waiters_def)
qed (use assms in \<open>simp add: spec_op_def chan_do_def closechan_def sim_def Let_def\<close>)

definition op_ok :: "nat \<Rightarrow> chan_op \<Rightarrow> bool" where
  "op_ok n x \<longleftrightarrow> (case x of TrySend v \<Rightarrow> length v = n | _ \<Rightarrow> True)"

lemma calls_refine:
  assumes "sim ep cp n w a" and "memory_functions F" and "list_all (op_ok n) xs"
  shows "run_calls (chan_do F ep cp) w xs = run_calls (spec_op n) a xs"
  using assms(1,3)
proof (induction xs arbitrary: w a)
  case (Cons x xs)
  have step: "case spec_op n a x of Inl e \<Rightarrow> chan_do F ep cp w x = Inl e
      | Inr (a', r) \<Rightarrow> \<exists>w'. chan_do F ep cp w x = Inr (w', r) \<and> sim ep cp n w' a'"
  proof (cases x)
    case (TrySend v)
    then have "length v = n" using Cons.prems(2) by (simp add: op_ok_def)
    from sim_send [OF Cons.prems(1) assms(2) this] show ?thesis unfolding TrySend .
  next
    case TryRecv
    from sim_recv [OF Cons.prems(1) assms(2)] show ?thesis unfolding TryRecv .
  next
    case Close
    from sim_close [OF Cons.prems(1)] show ?thesis unfolding Close .
  qed
  show ?case
  proof (cases "spec_op n a x")
    case (Inl e)
    with step show ?thesis by simp
  next
    case (Inr y)
    with step Cons.IH Cons.prems(2) show ?thesis by (cases y) auto
  qed
qed simp

section \<open>Properties\<close>

text \<open>
  C2: A channel is a bounded FIFO queue. On a channel made by \<open>makechan\<close> that nobody waits on, every sequence of
  sends and receives that do not block, and of calls of \<open>close\<close>, has exactly the results of the specification: values
  arrive once and in order, a send on a full channel and a receive on an empty one are refused, after \<open>close\<close> the
  values in the buffer are still received and then zeros, and a send or a second \<open>close\<close> panics. The circular
  buffer is in byte-addressed memory, and the user's variable is outside of it.
\<close>
theorem channel_refines:
  assumes "memory_functions F" and "makechan F t sz = Inr c" and "chans w cp = c" and "cp \<noteq> 0" and "ep \<noteq> 0"
    and "outside c ep" and "list_all (op_ok (unat (t_size t))) xs"
  shows "run_calls (chan_do F ep cp) w xs
    = run_calls (spec_op (unat (t_size t))) \<lparr>a_items = [], a_cap = unat sz, a_closed = False\<rparr> xs"
proof (rule calls_refine [OF _ assms(1,7)])
  note mk = makechan_ok [OF assms(2)]
  show "sim ep cp (unat (t_size t)) w \<lparr>a_items = [], a_cap = unat sz, a_closed = False\<rparr>"
    using mk assms(3-6) by (simp add: sim_def no_waiters_def items_def)
qed

text \<open>A channel of two bytes, whose buffer wraps around.\<close>

definition example_type :: rtype where
  "example_type = \<lparr>t_size = 1, t_ptrdata = 0, t_align = 1\<rparr>"

definition example_chan :: hchan where
  "example_chan = \<lparr>qcount = 0, dataqsiz = 2, buf = 0x10060, elemsize = 1, closed = 0, elemtype = example_type,
     sendx = 0, recvx = 0, recvq = \<lparr>wq_first = 0, wq_last = 0\<rparr>, sendq = \<lparr>wq_first = 0, wq_last = 0\<rparr>\<rparr>"

definition example_world :: world where
  "example_world = \<lparr>gs = (\<lambda>_. example_g\<lparr>atomicstatus := Grunning\<rparr>), pp = example_p\<lparr>runqhead := 7, runqtail := 7\<rparr>,
     sched = \<lparr>sched_sudogcache = 0, sched_runq = \<lparr>q_head = 0, q_tail = 0\<rparr>, runqsize = 0\<rparr>, curg = 3,
     sudogs = (\<lambda>_. zero_sudog), newsudog = 1, sudogcap = 0, chans = (\<lambda>_. example_chan), mem = (\<lambda>_. 0)\<rparr>"

lemma example_makechan: "makechan byte_memory example_type 2 = Inr example_chan"
proof -
  have "\<not> 2 ^ 16 \<le> (1 :: u64)" "\<not> 8 < (1 :: u8)" by (simp_all add: word_le_nat_alt word_less_nat_alt)
  then show ?thesis
    by (simp add: makechan_def MulUintptr_correct example_type_def example_chan_def byte_memory_def hchanSize_def maxAlloc_def
        word_le_nat_alt Let_def)
qed

lemma example_outside: "outside example_chan 0x500"
proof -
  have "apart 1 (slot example_chan 0) 0x500" "apart 1 (slot example_chan 1) 0x500"
    by (simp_all add: apart_def slot_def example_chan_def example_type_def)
  moreover have "i = 0 \<or> i = 1" if "i < 2" for i :: nat using that by linarith
  moreover have "unat (dataqsiz example_chan) = 2" "unat (t_size (elemtype example_chan)) = 1"
    by (simp_all add: example_chan_def example_type_def)
  ultimately show ?thesis unfolding outside_def by metis
qed

theorem channel_refines_witness:
  "run_calls (chan_do byte_memory 0x500 9) example_world
      [TrySend [7], TrySend [8], TrySend [9], TryRecv, TrySend [5], Close, TryRecv, TryRecv, TryRecv, Close]
    = ([Sent True, Sent True, Sent False, Received True True [7], Sent True, Closed, Received True True [8],
        Received True True [5], Received True False [0]], Some (Panic ''close of closed channel''))"
  by (subst channel_refines [OF byte_memory_ok example_makechan _ _ _ example_outside])
    (simp_all add: example_world_def example_type_def op_ok_def spec_op_def)

end
