(* ===== verification/ChanBlock.thy ===== *)
theory ChanBlock
  imports ChanSpec
begin

text \<open>
  Channels with goroutines that wait: the invariant of the wait queues in every state that the operations can
  reach (\<open>chan_step\<close>), and what happens to the goroutines that wait.
\<close>

unbundle bit_operations_syntax

section \<open>Waking a goroutine changes nothing of a channel\<close>

definition same_cache :: "'a rt_scheme \<Rightarrow> 'a rt_scheme \<Rightarrow> bool" where
  "same_cache w w' \<longleftrightarrow> rt.more w' = rt.more w \<and> curg w' = curg w \<and> p_sudogcache (pp w') = p_sudogcache (pp w)
     \<and> sched_sudogcache (sched w') = sched_sudogcache (sched w)"

lemma runqputslow_frame:
  assumes "runqputslow w gp (runqhead (pp w)) t = Inr (w', ok)"
  shows "ok" "relinked (gs w) (gs w')" "same_cache w w'"
proof -
  obtain batch s where b: "link_batch (gs w) batch = Inr s"
    "ok" "\<exists>q n. w' = globrunqputbatch (w\<lparr>pp := (pp w)\<lparr>runqhead := runqhead (pp w) + 128\<rparr>, gs := s\<rparr>) q n"
    using assms by (auto simp: runqputslow_def Let_def go_bind_eq_Inr split: if_splits)
  then obtain q n where w': "w' = globrunqputbatch (w\<lparr>pp := (pp w)\<lparr>runqhead := runqhead (pp w) + 128\<rparr>, gs := s\<rparr>) q n" by blast
  obtain s2 q2 where p: "gQueue_pushBackAll s (sched_runq (sched w)) q = (s2, q2)" by force
  show "ok" by (rule b(2))
  show "relinked (gs w) (gs w')"
    using relinked_trans [OF link_batch_relinked [OF b(1)] pushBackAll_relinked [OF p]] w' p by (simp add: globrunqputbatch_def)
  show "same_cache w w'" using w' p by (simp add: globrunqputbatch_def same_cache_def)
qed

lemma runqput_retry_frame:
  assumes "runqput_retry w gp = Some (Inr w')"
  shows "relinked (gs w) (gs w') \<and> same_cache w w'"
proof -
  let ?h = "runqhead (pp w)" and ?t = "runqtail (pp w)"
  define w1 where "w1 = (if ?t - ?h < 256
    then w\<lparr>pp := (pp w)\<lparr>runq := (runq (pp w))[unat (?t mod 256) := gp], runqtail := ?t + 1\<rparr>\<rparr> else w)"
  have w1: "gs w1 = gs w" "runqhead (pp w1) = ?h" "same_cache w w1" by (simp_all add: w1_def same_cache_def)
  from assms have "\<exists>w2 ok. runqputslow w1 gp ?h ?t = Inr (w2, ok) \<and> (if ok then w' = w2 else True)"
    by (subst (asm) runqput_retry.simps) (auto simp: w1_def [symmetric] Let_def split: sum.splits prod.splits if_splits)
  then obtain w2 ok where w2: "runqputslow w1 gp ?h ?t = Inr (w2, ok)" "ok \<longrightarrow> w' = w2" by auto
  note f = runqputslow_frame [of w1 gp ?t w2 ok, unfolded w1(2), OF w2(1)]
  with w2(2) w1(1,3) show ?thesis by (auto simp: same_cache_def)
qed

lemma runqput_frame:
  assumes "runqput w gp next = Inr w'"
  shows "relinked (gs w) (gs w') \<and> same_cache w w'"
proof -
  have flat: "r = Some (Inr w')" if "go_bind (returns r) (\<lambda>r. r) = Inr w'" for r :: "'a rt_scheme res option"
    using that by (cases r) auto
  let ?w = "w\<lparr>pp := (pp w)\<lparr>runnext := gp\<rparr>\<rparr>"
  have w: "gs ?w = gs w" "same_cache w ?w" by (simp_all add: same_cache_def)
  show ?thesis
  proof (cases "next \<and> runnext (pp w) = 0")
    case True
    then show ?thesis using assms w by (auto simp: runqput_def Let_def)
  next
    case False
    then obtain v x where "runqput_retry v x = Some (Inr w')" "v = w \<or> v = ?w"
      using assms flat by (auto simp: runqput_def Let_def split: if_splits)
    with runqput_retry_frame [of v x w'] w show ?thesis by (auto simp: same_cache_def)
  qed
qed

lemma goready_frame:
  assumes "goready w gp = Inr w'"
  shows "same_cache w w'" "atomicstatus (gs w gp) = Gwaiting" "atomicstatus (gs w' gp) = Grunnable"
    "x \<noteq> gp \<Longrightarrow> atomicstatus (gs w' x) = atomicstatus (gs w x)"
proof -
  let ?s = "(gs w)(gp := (gs w gp)\<lparr>atomicstatus := Grunnable\<rparr>)"
  from assms have st: "atomicstatus (gs w gp) = Gwaiting" and r: "runqput (w\<lparr>gs := ?s\<rparr>) gp True = Inr w'"
    by (auto simp: goready_def ready_def readgstatus_def casgstatus_def go_bind_eq_Inr Let_def split: if_splits)
  note f = runqput_frame [OF r]
  show "same_cache w w'" using f by (simp add: same_cache_def)
  show "atomicstatus (gs w gp) = Gwaiting" by (rule st)
  show "atomicstatus (gs w' gp) = Grunnable" using relinked_fields(1) f by fastforce
  show "x \<noteq> gp \<Longrightarrow> atomicstatus (gs w' x) = atomicstatus (gs w x)" using relinked_fields(1) f by fastforce
qed

text \<open>Parking the running goroutine.\<close>

lemma gopark_frame:
  assumes "gopark w (Some chanparkcommit) reason = Inr (w', b)"
  shows "sudogs w' = sudogs w" "chans w' = chans w" "mem w' = mem w" "newsudog w' = newsudog w" "pp w' = pp w"
    "sched w' = sched w" "curg w \<noteq> 0" "atomicstatus (gs w (curg w)) = Grunning"
    "atomicstatus (gs w' x) = (if x = curg w then Gwaiting else atomicstatus (gs w x))"
  using assms by (auto simp: gopark_def park_m_def readgstatus_def casgstatus_def dropg_def chanparkcommit_def Let_def go_bind_eq_Inr
      split: if_splits)

section \<open>The pool of sudogs\<close>

text \<open>
  The sudogs \<open>used\<close> are in wait queues. Nothing in the sources gives sudogs back, so the central cache is empty.
\<close>

definition pool :: "world \<Rightarrow> nat list \<Rightarrow> bool" where
  "pool w used \<longleftrightarrow> sched_sudogcache (sched w) = 0 \<and> distinct (get_cache w @ used) \<and> 0 \<notin> set (get_cache w @ used)
     \<and> (\<forall>x \<in> set (get_cache w @ used). x < newsudog w) \<and> 0 < newsudog w \<and> (\<forall>x \<in> set (get_cache w). sg_elem (sudogs w x) = 0)"

lemma refill_none: "sched_sudogcache (sched w) = 0 \<Longrightarrow> refill w = w"
  by (simp add: refill.simps)

lemma acquireSudog_pool:
  assumes "pool w used"
  obtains w' sg where "acquireSudog w = Inr (w', sg)" "pool w' (sg # used)" "sg \<notin> set used" "sg \<noteq> 0"
    "gs w' = gs w" "chans w' = chans w" "mem w' = mem w" "curg w' = curg w" "sched w' = sched w"
    "\<And>x. x \<in> set used \<Longrightarrow> sudogs w' x = sudogs w x" "runnext (pp w') = runnext (pp w)"
    "runqhead (pp w') = runqhead (pp w)" "runqtail (pp w') = runqtail (pp w)"
proof (cases "get_cache w = []")
  case True
  let ?n = "newsudog w"
  let ?w = "set_cache (w\<lparr>sudogs := (sudogs w)(?n := zero_sudog), newsudog := ?n + 1, sudogcap := max 1 (sudogcap w)\<rparr>) []"
  have "acquireSudog w = Inr (?w, ?n)"
    using True assms by (simp add: acquireSudog_def pool_def refill_none set_cache_def get_cache_def zero_sudog_def Let_def)
  moreover have "?n \<notin> set used" "?n \<noteq> 0" using assms by (auto simp: pool_def)
  moreover have "pool ?w (?n # used)" using True assms by (auto simp: pool_def set_cache_def get_cache_def)
  moreover have "sudogs ?w x = sudogs w x" if "x \<in> set used" for x using that assms by (auto simp: pool_def set_cache_def)
  ultimately show thesis by (intro that [of ?w ?n]) (simp_all add: set_cache_def)
next
  case False
  let ?s = "last (get_cache w)" and ?w = "set_cache w (butlast (get_cache w))"
  have c: "get_cache w = butlast (get_cache w) @ [?s]" using False by simp
  have s: "get_cache w ! (length (get_cache w) - 1) = ?s" "take (length (get_cache w) - 1) (get_cache w) = butlast (get_cache w)"
    using False by (simp_all add: last_conv_nth butlast_conv_take)
  have "?s \<in> set (get_cache w)" using False by simp
  then have ok: "sg_elem (sudogs w ?s) = 0" "?s \<noteq> 0" "?s \<notin> set used" using assms by (auto simp: pool_def)
  have "acquireSudog w = Inr (?w, ?s)" using False ok s by (simp add: acquireSudog_def set_cache_def Let_def)
  moreover have "distinct (butlast (get_cache w) @ ?s # used)" "set (butlast (get_cache w) @ ?s # used) = set (get_cache w @ used)"
    using assms arg_cong [OF c, of set] by (subst (asm) pool_def, subst (asm) c, auto)
  then have "pool ?w (?s # used)" using assms unfolding pool_def
    by (auto simp: set_cache_def get_cache_def dest: in_set_butlastD)
  ultimately show thesis using ok by (intro that [of ?w ?s]) (simp_all add: set_cache_def)
qed

section \<open>Frames of the wait queues\<close>

lemma enqueue_frame:
  assumes "wqueue s q xs" and "enqueue s q x = (s', q')"
  shows "y \<notin> set (x # xs) \<Longrightarrow> s' y = s y" "sg_elem (s' z) = sg_elem (s z)" "sg_g (s' z) = sg_g (s z)"
proof -
  have "wq_last q \<in> set xs" if "wq_last q \<noteq> 0" using assms(1) that by (auto simp: wqueue_def)
  then show "y \<notin> set (x # xs) \<Longrightarrow> s' y = s y"
    using assms(2) by (auto simp: enqueue_def Let_def split: if_splits)
  show "sg_elem (s' z) = sg_elem (s z)" "sg_g (s' z) = sg_g (s z)"
    using assms(2) by (auto simp: enqueue_def Let_def split: if_splits)
qed

lemma dequeue_frame:
  assumes "wqueue s q xs" and "dequeue s q = (s', q', x)" and "y \<notin> set xs"
  shows "s' y = s y"
proof (cases xs)
  case (Cons z zs)
  then have "wq_first q = z" "sg_next (s z) = 0 \<or> sg_next (s z) \<in> set xs"
    using assms(1) by (cases zs; auto simp: wqueue_def)+
  with assms(2,3) Cons show ?thesis by (auto simp: dequeue_def Let_def split: if_splits)
qed (use assms in \<open>auto simp: dequeue_def wqueue_def\<close>)

lemma join_queue_correct:
  assumes "pool w used" and "wqueue (sudogs w) q xs" and "set xs \<subseteq> set used"
    and "\<And>sg. setc sg = sg \<or> setc sg = sg\<lparr>sg_c := cp\<rparr>"
  obtains w' q' sg where "join_queue w q ep setc = Inr (w', q')" "wqueue (sudogs w') q' (xs @ [sg])" "pool w' (sg # used)"
    "sg \<notin> set used" "sg_elem (sudogs w' sg) = ep" "sg_g (sudogs w' sg) = curg w"
    "\<And>x. x \<in> set used \<Longrightarrow> sg_elem (sudogs w' x) = sg_elem (sudogs w x) \<and> sg_g (sudogs w' x) = sg_g (sudogs w x)"
    "\<And>x. x \<in> set used - set xs \<Longrightarrow> sudogs w' x = sudogs w x"
    "\<And>x. atomicstatus (gs w' x) = atomicstatus (gs w x)" "chans w' = chans w" "mem w' = mem w" "curg w' = curg w"
    "runnext (pp w') = runnext (pp w)" "runqhead (pp w') = runqhead (pp w)" "runqtail (pp w') = runqtail (pp w)"
proof -
  obtain w1 sg where a: "acquireSudog w = Inr (w1, sg)" "pool w1 (sg # used)" "sg \<notin> set used" "sg \<noteq> 0"
    "gs w1 = gs w" "chans w1 = chans w" "mem w1 = mem w" "curg w1 = curg w" "sched w1 = sched w"
    "\<And>x. x \<in> set used \<Longrightarrow> sudogs w1 x = sudogs w x" "runnext (pp w1) = runnext (pp w)"
    "runqhead (pp w1) = runqhead (pp w)" "runqtail (pp w1) = runqtail (pp w)"
    by (rule acquireSudog_pool [OF assms(1)]) blast
  define v where "v = setc ((sudogs w1 sg)\<lparr>releasetime := 0, sg_elem := ep, waitlink := 0, sg_g := curg w, isSelect := False\<rparr>)"
  have v: "sg_elem v = ep" "sg_g v = curg w"
    using assms(4) [of "(sudogs w1 sg)\<lparr>releasetime := 0, sg_elem := ep, waitlink := 0, sg_g := curg w, isSelect := False\<rparr>"]
    by (auto simp: v_def)
  define s1 where "s1 = (sudogs w1)(sg := v)"
  have s1: "s1 sg = v" "\<And>x. x \<in> set used \<Longrightarrow> s1 x = sudogs w x" "\<And>x. x \<noteq> sg \<Longrightarrow> s1 x = sudogs w1 x"
    using a(3,10) by (auto simp: s1_def)
  have "sg_next (s1 z) = sg_next (sudogs w z) \<and> sg_prev (s1 z) = sg_prev (sudogs w z)" if "z \<in> set xs" for z
    using s1(2) [of z] assms(3) that by auto
  then have q1: "wqueue s1 q xs" using assms(2) wqueue_cong [of xs s1 "sudogs w" q] by blast
  obtain s2 q' where e: "enqueue s1 q sg = (s2, q')" by force
  note fr = enqueue_frame [OF q1 e]
  define g2 where "g2 = (gs w)(curg w := (gs w (curg w))\<lparr>g_waiting := sg, g_param := 0, parkingOnChan := True\<rparr>)"
  define w2 where "w2 = w1\<lparr>sudogs := s2, gs := g2\<rparr>"
  have sgx: "sg \<notin> set xs" using a(3) assms(3) by blast
  have "join_queue w q ep setc = Inr (w2, q')"
    using a(1,5) e by (simp add: join_queue_def v_def [symmetric] s1_def [symmetric] w2_def g2_def Let_def)
  moreover have "wqueue (sudogs w2) q' (xs @ [sg])"
    using enqueue_correct [OF q1 a(4) sgx e] by (simp add: w2_def)
  moreover have "pool w2 (sg # used)"
  proof -
    have "sg_elem (s2 x) = sg_elem (sudogs w1 x)" if "x \<in> set (get_cache w1)" for x
    proof -
      have "x \<noteq> sg" using a(2) that by (auto simp: pool_def)
      then show ?thesis using fr(2) s1(3) by simp
    qed
    then show ?thesis using a(2) by (simp add: pool_def w2_def get_cache_def)
  qed
  moreover have "sg_elem (sudogs w2 sg) = ep" "sg_g (sudogs w2 sg) = curg w" using fr(2,3) s1(1) v by (simp_all add: w2_def)
  moreover have "sg_elem (sudogs w2 x) = sg_elem (sudogs w x) \<and> sg_g (sudogs w2 x) = sg_g (sudogs w x)" if "x \<in> set used" for x
    using fr(2,3) s1(2) [OF that] by (simp add: w2_def)
  moreover have "sudogs w2 x = sudogs w x" if "x \<in> set used - set xs" for x
    using fr(1) [of x] s1(2) [of x] that a(3) by (auto simp: w2_def)
  moreover have "atomicstatus (gs w2 x) = atomicstatus (gs w x)" for x by (simp add: w2_def g2_def)
  ultimately show thesis using a by (intro that [of w2 q' sg]) (simp_all add: w2_def)
qed

section \<open>The invariant\<close>

definition waits :: "world \<Rightarrow> nat list \<Rightarrow> bool" where
  "waits w xs \<longleftrightarrow> distinct (map (\<lambda>x. sg_g (sudogs w x)) xs) 
     \<and> (\<forall>x \<in> set xs. sg_g (sudogs w x) \<noteq> 0 \<and> atomicstatus (gs w (sg_g (sudogs w x))) = Gwaiting)"

definition chan_inv :: "nat \<Rightarrow> world \<Rightarrow> nat list \<Rightarrow> nat list \<Rightarrow> bool" where
  "chan_inv cp w rs ss \<longleftrightarrow> chan_ok (chans w cp) \<and> wqueue (sudogs w) (recvq (chans w cp)) rs
     \<and> wqueue (sudogs w) (sendq (chans w cp)) ss \<and> pool w (rs @ ss) \<and> waits w (rs @ ss)
     \<and> (rs \<noteq> [] \<longrightarrow> qcount (chans w cp) = 0) \<and> (ss \<noteq> [] \<longrightarrow> qcount (chans w cp) = dataqsiz (chans w cp))
     \<and> (rs = [] \<or> ss = []) \<and> (closed (chans w cp) \<noteq> 0 \<longrightarrow> rs = [] \<and> ss = [])"

text \<open>
  The steps of a program that uses the channel \<open>cp\<close>: any call on it, by the goroutine that runs, that returns or
  parks, and in \<open>other\<close> whatever else the program and the scheduler do: they may run and wake goroutines, change
  memory and other channels and take sudogs from the pool, but they leave alone this channel, the sudogs in its
  queues and the goroutines of these.
\<close>

definition other :: "nat \<Rightarrow> world \<Rightarrow> world \<Rightarrow> bool" where
  "other cp w w' \<longleftrightarrow> chans w' cp = chans w cp \<and> pool w' [] \<and> newsudog w \<le> newsudog w'
     \<and> (\<forall>rs ss. wqueue (sudogs w) (recvq (chans w cp)) rs \<longrightarrow> wqueue (sudogs w) (sendq (chans w cp)) ss \<longrightarrow>
         (\<forall>x \<in> set (rs @ ss). sudogs w' x = sudogs w x \<and> x \<notin> set (get_cache w')
            \<and> (atomicstatus (gs w (sg_g (sudogs w x))) = Gwaiting \<longrightarrow> atomicstatus (gs w' (sg_g (sudogs w x))) = Gwaiting)))"

inductive chan_step :: "memfuns \<Rightarrow> nat \<Rightarrow> world \<Rightarrow> world \<Rightarrow> bool" for F cp where
  step_send: "chansend F w cp ep block = Inr (w', r) \<Longrightarrow> chan_step F cp w w'"
| step_recv: "chanrecv F w cp ep block = Inr (w', r') \<Longrightarrow> chan_step F cp w w'"
| step_close: "closechan F w cp = Inr w' \<Longrightarrow> chan_step F cp w w'"
| step_other: "other cp w w' \<Longrightarrow> chan_step F cp w w'"

lemma waits_tl: "waits w (x # xs) \<Longrightarrow> waits w xs"
  by (simp add: waits_def)

lemma waits_cong:
  assumes "\<And>x. x \<in> set xs \<Longrightarrow> sg_g (sudogs w' x) = sg_g (sudogs w x)"
    and "\<And>x. x \<in> set xs \<Longrightarrow> atomicstatus (gs w (sg_g (sudogs w x))) = Gwaiting \<Longrightarrow> atomicstatus (gs w' (sg_g (sudogs w x))) = Gwaiting"
    and "waits w xs"
  shows "waits w' xs"
proof -
  have m: "map (\<lambda>x. sg_g (sudogs w' x)) xs = map (\<lambda>x. sg_g (sudogs w x)) xs" using assms(1) by simp
  show ?thesis unfolding waits_def m using assms by (simp add: waits_def)
qed

lemma pool_mono: "pool w used \<Longrightarrow> set used' \<subseteq> set used \<Longrightarrow> distinct used' \<Longrightarrow> pool w used'"
  by (auto simp: pool_def)

lemma pool_union:
  assumes "pool w []" and "distinct ys" and "0 \<notin> set ys" and "\<And>x. x \<in> set ys \<Longrightarrow> x < newsudog w" and "set (get_cache w) \<inter> set ys = {}"
  shows "pool w ys"
  using assms by (auto simp: pool_def)

lemma inv_other:
  assumes "chan_inv cp w rs ss" and "other cp w w'"
  shows "chan_inv cp w' rs ss"
proof -
  have i: "wqueue (sudogs w) (recvq (chans w cp)) rs" "wqueue (sudogs w) (sendq (chans w cp)) ss" "pool w (rs @ ss)" "waits w (rs @ ss)"
    using assms(1) by (simp_all add: chan_inv_def)
  have o: "sudogs w' x = sudogs w x" "x \<notin> set (get_cache w')"
    "atomicstatus (gs w (sg_g (sudogs w x))) = Gwaiting \<Longrightarrow> atomicstatus (gs w' (sg_g (sudogs w x))) = Gwaiting"
    if "x \<in> set (rs @ ss)" for x
    using assms(2) i(1,2) that unfolding other_def by blast+
  have n: "pool w' []" "newsudog w \<le> newsudog w'" "chans w' cp = chans w cp" using assms(2) by (simp_all add: other_def)
  have "distinct (rs @ ss)" "0 \<notin> set (rs @ ss)" and less: "\<And>x. x \<in> set (rs @ ss) \<Longrightarrow> x < newsudog w"
    using i(3) by (auto simp: pool_def)
  moreover have "x < newsudog w'" if "x \<in> set (rs @ ss)" for x using less [OF that] n(2) by simp
  moreover have "set (get_cache w') \<inter> set (rs @ ss) = {}" using o(2) by blast
  ultimately have "pool w' (rs @ ss)" using pool_union [OF n(1)] by blast
  moreover have "waits w' (rs @ ss)" by (rule waits_cong [OF _ _ i(4)]) (simp_all add: o)
  moreover have "wqueue (sudogs w') (recvq (chans w cp)) rs" using i(1) o(1) by (subst wqueue_cong [of rs _ "sudogs w"]) auto
  moreover have "wqueue (sudogs w') (sendq (chans w cp)) ss" using i(2) o(1) by (subst wqueue_cong [of ss _ "sudogs w"]) auto
  ultimately show ?thesis using assms(1) n(3) by (simp add: chan_inv_def)
qed

lemma inv_same:
  assumes "chan_inv cp w rs ss" and "chans w' cp = chans w cp" "sudogs w' = sudogs w" "newsudog w' = newsudog w"
    "get_cache w' = get_cache w" "sched_sudogcache (sched w') = sched_sudogcache (sched w)"
    and "\<And>x. atomicstatus (gs w x) = Gwaiting \<Longrightarrow> atomicstatus (gs w' x) = Gwaiting"
  shows "chan_inv cp w' rs ss"
  using assms waits_cong [of "rs @ ss" w' w] by (auto simp: chan_inv_def pool_def)

lemma pool_cong:
  assumes "pool w used" and "get_cache w' = get_cache w" and "sched_sudogcache (sched w') = sched_sudogcache (sched w)"
    and "newsudog w' = newsudog w" and "\<And>x. x \<in> set (get_cache w) \<Longrightarrow> sg_elem (sudogs w' x) = sg_elem (sudogs w x)"
  shows "pool w' used"
  using assms by (simp add: pool_def)

section \<open>Sending keeps the invariant\<close>

lemma inv_send_receiver:
  assumes "chan_inv cp w (r # rs) ss" and "dequeue (sudogs w) (recvq (chans w cp)) = (s, q, sg)"
  shows "sg = r" "ss = []" "closed (chans w cp) = 0" "r \<noteq> 0"
    "chan_inv cp (put_chan (w\<lparr>sudogs := s\<rparr>) cp ((chans w cp)\<lparr>recvq := q\<rparr>)) rs []"
proof -
  let ?w = "put_chan (w\<lparr>sudogs := s\<rparr>) cp ((chans w cp)\<lparr>recvq := q\<rparr>)"
  have i: "chan_ok (chans w cp)" "wqueue (sudogs w) (recvq (chans w cp)) (r # rs)" "wqueue (sudogs w) (sendq (chans w cp)) ss"
    "pool w ((r # rs) @ ss)" "waits w ((r # rs) @ ss)" "qcount (chans w cp) = 0" and ss: "ss = []"
    and cl: "closed (chans w cp) = 0" using assms(1) by (auto simp: chan_inv_def)
  note d = dequeue_correct [OF i(2) assms(2)]
  show "sg = r" "ss = []" "closed (chans w cp) = 0" using d ss cl by simp_all
  show "r \<noteq> 0" using wqueue_nonzero [OF i(2)] by auto
  have "pool ?w rs"
    using i(4) ss by (intro pool_cong [OF pool_mono [OF i(4)]]) (auto simp: pool_def get_cache_def put_chan_def dequeue_fields [OF assms(2)])
  moreover have "waits w rs" using i(5) ss waits_tl by simp
  then have "waits ?w rs" by (rule waits_cong [rotated 2]) (simp_all add: dequeue_fields [OF assms(2)])
  moreover have "chan_ok ((chans w cp)\<lparr>recvq := q\<rparr>)" using i(1) by (simp add: chan_ok_def)
  moreover have "wqueue s (sendq (chans w cp)) []" using i(3) ss by (simp add: wqueue_empty)
  ultimately show "chan_inv cp ?w rs []" using d i(6) cl by (simp add: chan_inv_def)
qed

lemma inv_idle:
  assumes "chan_inv cp w [] []" and "chan_ok c" and "recvq c = recvq (chans w cp)" and "sendq c = sendq (chans w cp)"
    and "gs w' = gs w" "sudogs w' = sudogs w" "pp w' = pp w" "sched w' = sched w" "newsudog w' = newsudog w"
  shows "chan_inv cp (put_chan w' cp c) [] []"
  using assms by (auto simp: chan_inv_def waits_def pool_def get_cache_def wqueue_empty put_chan_def)

lemma put_chan_same: "put_chan w cp (chans w cp) = w"
  by (simp add: put_chan_def)

text \<open>Blocking: the goroutine is put at the end of the queue and parked.\<close>

lemma park_correct:
  assumes "pool w xs" and "waits w xs" and "wqueue (sudogs w) q xs" and "\<And>sg. setc sg = sg \<or> setc sg = sg\<lparr>sg_c := x\<rparr>"
    and "go_bind (join_queue w q ep setc) (\<lambda>(w, q).
      go_bind (gopark (put_chan w cp (c q)) (Some chanparkcommit) reason) (\<lambda>(w, _). Inr (w, r))) = Inr (w', r')"
  obtains q' sg where "r' = r" "wqueue (sudogs w') q' (xs @ [sg])" "pool w' (xs @ [sg])" "waits w' (xs @ [sg])"
    "chans w' cp = c q'" "sg_g (sudogs w' sg) = curg w" "sg_elem (sudogs w' sg) = ep"
proof -
  obtain w1 q' sg where j: "join_queue w q ep setc = Inr (w1, q')" "wqueue (sudogs w1) q' (xs @ [sg])" "pool w1 (sg # xs)"
    "sg \<notin> set xs" "sg_elem (sudogs w1 sg) = ep" "sg_g (sudogs w1 sg) = curg w"
    "\<And>x. x \<in> set xs \<Longrightarrow> sg_elem (sudogs w1 x) = sg_elem (sudogs w x) \<and> sg_g (sudogs w1 x) = sg_g (sudogs w x)"
    "\<And>x. atomicstatus (gs w1 x) = atomicstatus (gs w x)" "curg w1 = curg w"
    by (rule join_queue_correct [OF assms(1,3) subset_refl assms(4)]) blast
  obtain b where p: "gopark (put_chan w1 cp (c q')) (Some chanparkcommit) reason = Inr (w', b)" and r: "r' = r"
    using assms(5) j(1) by (auto simp: go_bind_eq_Inr)
  note g = gopark_frame [OF p]
  have s: "sudogs w' = sudogs w1" "newsudog w' = newsudog w1" "get_cache w' = get_cache w1" "sched w' = sched w1"
    using g by (simp_all add: get_cache_def put_chan_def)
  have "pool w1 (xs @ [sg])" using j(3,4) by (intro pool_mono [OF j(3)]) (auto simp: pool_def)
  then have "pool w' (xs @ [sg])" by (rule pool_cong) (simp_all add: s)
  moreover have "waits w' (xs @ [sg])"
  proof -
    have "waits w' xs" using g(9) j(7,8) by (intro waits_cong [OF _ _ assms(2)]) (simp_all add: s)
    moreover have "curg w \<noteq> sg_g (sudogs w x)" if "x \<in> set xs" for x
      using assms(2) that g(8) j(8,9) by (auto simp: waits_def)
    ultimately show ?thesis using g(7) g(9) [of "curg w"] j(6,7,9) s(1) by (auto simp: waits_def)
  qed
  ultimately show thesis using r j g(2) s by (intro that [of q' sg]) simp_all
qed

lemma inv_gopark: "chan_inv cp w rs ss \<Longrightarrow> gopark w None reason = Inr (w', b) \<Longrightarrow> chan_inv cp w' rs ss"
  by (erule inv_same) (auto simp: gopark_def park_m_def readgstatus_def casgstatus_def dropg_def get_cache_def Let_def go_bind_eq_Inr
      split: if_splits)

lemma inv_send:
  assumes "chan_inv cp w rs ss" and "chansend F w cp ep block = Inr (w', r)"
  shows "\<exists>rs ss. chan_inv cp w' rs ss"
proof (cases "cp = 0 \<or> \<not> block \<and> closed (chans w cp) = 0 \<and> full (chans w cp)")
  case True
  then have "w' = w \<or> (\<exists>b. gopark w None waitReasonChanSendNilChan = Inr (w', b))"
    using assms(2) by (auto simp: chansend_def go_bind_eq_Inr Let_def split: if_splits)
  then show ?thesis using assms(1) inv_gopark by blast
next
  case False
  let ?c = "chans w cp"
  have cl: "closed ?c = 0" using False assms(2) by (auto simp: chansend_def Let_def split: if_splits)
  have br: "(cp = 0) = False" "(\<not> block \<and> full ?c) = False" using False cl by auto
  obtain s q sg where d: "dequeue (sudogs w) (recvq ?c) = (s, q, sg)" by (metis prod_cases3)
  have i: "chan_ok ?c" "wqueue (sudogs w) (recvq ?c) rs" "wqueue (sudogs w) (sendq ?c) ss" "pool w (rs @ ss)" "waits w (rs @ ss)"
    "ss \<noteq> [] \<longrightarrow> qcount ?c = dataqsiz ?c"
    using assms(1) by (auto simp: chan_inv_def)
  show ?thesis
  proof (cases rs)
    case (Cons x xs)
    note v = inv_send_receiver [OF assms(1) [unfolded Cons] d]
    have "w' = put_chan (w\<lparr>sudogs := s\<rparr>) cp (?c\<lparr>recvq := q\<rparr>)"
      using assms(2) v(1,4) by (simp add: chansend_def br cl d Let_def)
    with v(5) show ?thesis by blast
  next
    case Nil
    then have d0: "dequeue (sudogs w) (recvq ?c) = (sudogs w, recvq ?c, 0)" using i(2) dequeue_empty by blast
    consider "qcount ?c < dataqsiz ?c" | "\<not> qcount ?c < dataqsiz ?c" "\<not> block" | "\<not> qcount ?c < dataqsiz ?c" "block" by blast
    then show ?thesis
    proof cases
      case 1
      then have "chan_inv cp w [] []" using assms(1) Nil i(6) by auto
      moreover have "w' = put_chan (w\<lparr>mem := f_typedmemmove F (elemtype ?c) (chanbuf ?c (sendx ?c)) ep (mem w)\<rparr>) cp (pushed ?c)"
        using chansend_buffered [OF _ cl d0 1, of F ep block] assms(2) False by simp
      ultimately show ?thesis using pushed_ok [OF i(1) 1] by (auto simp: pushed_def intro!: exI [of _ "[]"] inv_idle)
    next
      case 2
      then have "w' = w" using assms(2) br(2) by (simp add: chansend_def br(1) cl d0 put_chan_same Let_def)
      then show ?thesis using assms(1) by blast
    next
      case 3
      have full: "qcount ?c = dataqsiz ?c" using 3(1) i(1) by (simp add: chan_ok_def)
      have p: "pool w ss" "waits w ss" using i(4,5) Nil by simp_all
      have "go_bind (join_queue w (sendq ?c) ep (\<lambda>sg. sg\<lparr>sg_c := cp\<rparr>)) (\<lambda>(w, q).
          go_bind (gopark (put_chan w cp (?c\<lparr>sendq := q\<rparr>)) (Some chanparkcommit) waitReasonChanSend) (\<lambda>(w, _). Inr (w, Parked))) = Inr (w', r)"
        using assms(2) 3 by (simp add: chansend_def br cl d0 Let_def)
      then obtain q' sg where a: "wqueue (sudogs w') q' (ss @ [sg])" "pool w' (ss @ [sg])" "waits w' (ss @ [sg])"
        "chans w' cp = ?c\<lparr>sendq := q'\<rparr>"
        by (rule park_correct [OF p i(3), rotated]) auto
      have "chan_ok (?c\<lparr>sendq := q'\<rparr>)" using i(1) by (simp add: chan_ok_def)
      moreover have "wqueue (sudogs w') (recvq ?c) []" using i(2) Nil by (simp add: wqueue_empty)
      ultimately have "chan_inv cp w' [] (ss @ [sg])" using a full cl by (simp add: chan_inv_def)
      then show ?thesis by blast
    qed
  qed
qed

section \<open>Receiving keeps the invariant\<close>

text \<open>What \<open>recv\<close> leaves behind before it wakes the sender.\<close>

definition took :: "hchan \<Rightarrow> hchan" where
  "took c = (if dataqsiz c = 0 then c
     else c\<lparr>recvx := (if recvx c + 1 = dataqsiz c then 0 else recvx c + 1), sendx := (if recvx c + 1 = dataqsiz c then 0 else recvx c + 1)\<rparr>)"

lemma took_simps [simp]:
  "qcount (took c) = qcount c" "dataqsiz (took c) = dataqsiz c" "recvq (took c) = recvq c" "sendq (took c) = sendq c"
  "closed (took c) = closed c" "elemtype (took c) = elemtype c" "buf (took c) = buf c"
  by (simp_all add: took_def)

lemma took_ok:
  assumes "chan_ok c" and "qcount c = dataqsiz c"
  shows "chan_ok (took c)"
proof (cases "dataqsiz c = 0")
  case False
  then have "recvx c < dataqsiz c" using assms(1) by (simp add: chan_ok_def)
  from next_index [OF this] False assms show ?thesis by (simp add: chan_ok_def took_def word_less_nat_alt)
qed (use assms in \<open>simp add: took_def\<close>)

definition recv_mem :: "memfuns \<Rightarrow> hchan \<Rightarrow> u64 \<Rightarrow> u64 \<Rightarrow> memory \<Rightarrow> memory" where
  "recv_mem F c ep src m = (if dataqsiz c = 0 then (if ep \<noteq> 0 then f_memmove F ep src (t_size (elemtype c)) m else m)
     else f_typedmemmove F (elemtype c) (chanbuf c (recvx c)) src
       (if ep \<noteq> 0 then f_typedmemmove F (elemtype c) ep (chanbuf c (recvx c)) m else m))"

definition recv_world :: "memfuns \<Rightarrow> world \<Rightarrow> nat \<Rightarrow> hchan \<Rightarrow> nat \<Rightarrow> u64 \<Rightarrow> world" where
  "recv_world F w cp c sg ep = (put_chan (w\<lparr>mem := recv_mem F c ep (sg_elem (sudogs w sg)) (mem w)\<rparr>) cp (took c))
     \<lparr>sudogs := (sudogs w)(sg := (sudogs w sg)\<lparr>sg_elem := 0, success := True\<rparr>)\<rparr>"

lemma recv_eq: "recv F w cp c sg ep = goready (recv_world F w cp c sg ep) (sg_g (sudogs w sg))"
  by (simp add: recv_def recv_world_def recv_mem_def took_def recvDirect_def put_chan_def Let_def)

lemma inv_recv_sender:
  assumes "chan_inv cp w rs (x # ss)" and "dequeue (sudogs w) (sendq (chans w cp)) = (s, q, sg)"
    and "goready (recv_world F (w\<lparr>sudogs := s\<rparr>) cp ((chans w cp)\<lparr>sendq := q\<rparr>) sg ep) (sg_g (s sg)) = Inr w'"
  shows "chan_inv cp w' [] ss"
proof -
  let ?c = "chans w cp"
  let ?w = "recv_world F (w\<lparr>sudogs := s\<rparr>) cp (?c\<lparr>sendq := q\<rparr>) sg ep"
  have i: "chan_ok ?c" "wqueue (sudogs w) (recvq ?c) []" "wqueue (sudogs w) (sendq ?c) (x # ss)" "pool w (x # ss)" "waits w (x # ss)"
    "qcount ?c = dataqsiz ?c" "closed ?c = 0" and rs: "rs = []" using assms(1) by (auto simp: chan_inv_def)
  note d = dequeue_correct [OF i(3) assms(2)] and f = dequeue_fields [OF assms(2)] and g = goready_frame [OF assms(3)]
  have sg: "sg = x" using d by simp
  have w: "chans ?w cp = took (?c\<lparr>sendq := q\<rparr>)" "gs ?w = gs w" "get_cache ?w = get_cache w" "sched ?w = sched w"
    "newsudog ?w = newsudog w" "sudogs ?w = s(sg := (s sg)\<lparr>sg_elem := 0, success := True\<rparr>)"
    by (simp_all add: recv_world_def put_chan_def get_cache_def)
  have w': "chans w' = chans ?w" "sudogs w' = sudogs ?w" "newsudog w' = newsudog ?w" "get_cache w' = get_cache ?w"
    "sched_sudogcache (sched w') = sched_sudogcache (sched ?w)"
    using g(1) by (simp_all add: same_cache_def get_cache_def) (cases w'; cases ?w; simp)+
  have "sg \<notin> set (get_cache w)" "distinct ss" using i(4) sg by (auto simp: pool_def)
  then have "pool w' ss"
    by (intro pool_cong [OF pool_mono [OF i(4)]]) (auto simp: w w' f)
  moreover have "waits w' ss"
  proof (rule waits_cong [OF _ _ waits_tl [OF i(5)]])
    fix y assume y: "y \<in> set ss"
    then show gy: "sg_g (sudogs w' y) = sg_g (sudogs w y)" by (simp add: w w' f)
    have "sg_g (sudogs w y) \<noteq> sg_g (s sg)" using i(5) y sg by (auto simp: waits_def image_iff f)
    then show "atomicstatus (gs w' (sg_g (sudogs w y))) = Gwaiting" if "atomicstatus (gs w (sg_g (sudogs w y))) = Gwaiting"
      using g(4) [of "sg_g (sudogs w y)"] that by (simp add: w)
  qed
  moreover have "wqueue (sudogs w') q ss"
    using conjunct1 [OF d] by (subst wqueue_cong [of ss _ s]) (auto simp: w w')
  moreover have "chan_ok (took (?c\<lparr>sendq := q\<rparr>))" using i(1,6) by (intro took_ok) (simp_all add: chan_ok_def)
  moreover have "wqueue (sudogs w') (recvq ?c) []" using i(2) by (simp add: wqueue_empty)
  ultimately show ?thesis using i(6,7) w(1) by (simp add: chan_inv_def w'(1))
qed

lemma inv_clear: "chan_inv cp w rs ss \<Longrightarrow> chan_inv cp (clear_at F w c ep) rs ss"
  by (erule inv_same) (simp_all add: clear_at_def get_cache_def)

lemma inv_recv:
  assumes "chan_inv cp w rs ss" and "chanrecv F w cp ep block = Inr (w', r)"
  shows "\<exists>rs ss. chan_inv cp w' rs ss"
proof (cases "cp = 0 \<or> \<not> block \<and> chan_empty (chans w cp) \<or> closed (chans w cp) \<noteq> 0 \<and> qcount (chans w cp) = 0")
  case True
  then have "w' = w \<or> w' = clear_at F w (chans w cp) ep \<or> (\<exists>b. gopark w None waitReasonChanReceiveNilChan = Inr (w', b))"
    using assms(2) by (auto simp: chanrecv_def go_bind_eq_Inr Let_def split: if_splits)
  then show ?thesis using assms(1) inv_gopark inv_clear by blast
next
  case False
  let ?c = "chans w cp"
  have br: "(cp = 0) = False" "(\<not> block \<and> chan_empty ?c) = False" "(closed ?c \<noteq> 0 \<and> qcount ?c = 0) = False"
    "(\<not> block \<and> chan_empty ?c \<and> closed ?c = 0) = False" using False by auto
  have i: "chan_ok ?c" "wqueue (sudogs w) (recvq ?c) rs" "wqueue (sudogs w) (sendq ?c) ss" "pool w (rs @ ss)" "waits w (rs @ ss)"
    "rs \<noteq> [] \<longrightarrow> qcount ?c = 0" "closed ?c \<noteq> 0 \<longrightarrow> ss = []"
    using assms(1) by (auto simp: chan_inv_def)
  have eq: "chanrecv F w cp ep block = (case (if closed ?c = 0 then dequeue (sudogs w) (sendq ?c) else (sudogs w, sendq ?c, 0)) of (s, q, sg) \<Rightarrow>
     if sg \<noteq> 0 then go_bind (recv F (w\<lparr>sudogs := s\<rparr>) cp (?c\<lparr>sendq := q\<rparr>) sg ep) (\<lambda>w. Inr (w, Returned (True, True)))
     else chanrecv F w cp ep block)"
    unfolding chanrecv_def using br by (auto simp: Let_def split: prod.splits)
  show ?thesis
  proof (cases ss)
    case (Cons x xs)
    then have cl: "closed ?c = 0" using i(7) by auto
    obtain s q sg where d: "dequeue (sudogs w) (sendq ?c) = (s, q, sg)" by (metis prod_cases3)
    have "sg \<noteq> 0" using dequeue_correct [OF i(3) d] wqueue_nonzero [OF i(3)] Cons by auto
    then have "goready (recv_world F (w\<lparr>sudogs := s\<rparr>) cp (?c\<lparr>sendq := q\<rparr>) sg ep) (sg_g (s sg)) = Inr w'"
      using trans [OF eq [symmetric] assms(2)] by (simp add: cl d recv_eq go_bind_eq_Inr)
    from inv_recv_sender [OF assms(1) [unfolded Cons] d this] show ?thesis by blast
  next
    case Nil
    have d: "(if closed ?c = 0 then dequeue (sudogs w) (sendq ?c) else (sudogs w, sendq ?c, 0)) = (sudogs w, sendq ?c, 0)"
      using i(3) Nil dequeue_empty by simp
    consider "qcount ?c \<noteq> 0" | "qcount ?c = 0" "\<not> block" | "qcount ?c = 0" "block" by blast
    then show ?thesis
    proof cases
      case 1
      then have idle: "chan_inv cp w [] []" using assms(1) Nil i(6) by auto
      have "\<exists>m. w' = put_chan (w\<lparr>mem := m\<rparr>) cp (popped ?c)"
        using assms(2) 1 unfolding chanrecv_def by (auto simp: br d popped_def word_gt_0 Let_def)
      then show ?thesis using popped_ok [OF i(1) 1] idle by (auto simp: popped_def intro!: exI [of _ "[]"] inv_idle)
    next
      case 2
      have cl: "closed ?c = 0" "\<not> chan_empty ?c" using br(2,3) 2 by auto
      have "w' = w" using assms(2) 2 d by (simp add: chanrecv_def br(1) cl put_chan_same Let_def)
      then show ?thesis using assms(1) by blast
    next
      case 3
      have cl: "closed ?c = 0" using br(3) 3(1) by auto
      have p: "pool w rs" "waits w rs" using i(4,5) Nil by simp_all
      have "go_bind (join_queue w (recvq ?c) ep (\<lambda>sg. sg)) (\<lambda>(w, q).
          go_bind (gopark (put_chan w cp (?c\<lparr>recvq := q\<rparr>)) (Some chanparkcommit) waitReasonChanReceive) (\<lambda>(w, _). Inr (w, Parked))) = Inr (w', r)"
        using assms(2) 3 cl d by (simp add: chanrecv_def br(1) Let_def)
      then obtain q' sg where a: "wqueue (sudogs w') q' (rs @ [sg])" "pool w' (rs @ [sg])" "waits w' (rs @ [sg])"
        "chans w' cp = ?c\<lparr>recvq := q'\<rparr>"
        by (rule park_correct [OF p i(2), rotated]) auto
      have "chan_ok (?c\<lparr>recvq := q'\<rparr>)" using i(1) by (simp add: chan_ok_def)
      moreover have "wqueue (sudogs w') (sendq ?c) []" using i(3) Nil by (simp add: wqueue_empty)
      ultimately have "chan_inv cp w' (rs @ [sg]) []" using a cl 3(1) by (simp add: chan_inv_def)
      then show ?thesis by blast
    qed
  qed
qed

section \<open>Closing keeps the invariant\<close>

definition released :: "world \<Rightarrow> world \<Rightarrow> bool" where
  "released w w' \<longleftrightarrow> pp w' = pp w \<and> sched w' = sched w \<and> newsudog w' = newsudog w \<and> curg w' = curg w \<and> chans w' = chans w
     \<and> (\<forall>x. sg_elem (sudogs w' x) = 0 \<or> sg_elem (sudogs w' x) = sg_elem (sudogs w x)) \<and> (\<forall>x. sg_g (sudogs w' x) = sg_g (sudogs w x))
     \<and> (\<forall>x. atomicstatus (gs w' x) = atomicstatus (gs w x))"

lemma released_refl: "released w w"
  by (simp add: released_def)

lemma released_trans: "released w w1 \<Longrightarrow> released w1 w2 \<Longrightarrow> released w w2"
  unfolding released_def by metis

lemma pool_released: "pool w used \<Longrightarrow> released w w' \<Longrightarrow> pool w' []"
  unfolding pool_def released_def get_cache_def by auto

text \<open>One round of either loop, on the lists.\<close>

lemma release_step:
  assumes "wqueue (sudogs w) q (x # xs)" and "dequeue (sudogs w) q = (s, q', sg)" and "seg (gs w) (l_head l) ys 0"
    and "distinct (map (\<lambda>x. sg_g (sudogs w x)) (x # xs) @ ys)" and "\<forall>y \<in> set (x # xs). sg_g (sudogs w y) \<noteq> 0"
    and "sudogs w' = s(sg := v)" "sg_next v = sg_next (s sg)" "sg_prev v = sg_prev (s sg)" "sg_g v = sg_g (s sg)"
    and "\<And>y. schedlink (gs w' y) = schedlink (set_link (gs w) (sg_g (s sg)) (l_head l) y)"
  shows "sg \<noteq> 0" "wqueue (sudogs w') q' xs" "seg (gs w') (sg_g (s sg)) (sg_g (sudogs w x) # ys) 0"
    "map (\<lambda>x. sg_g (sudogs w' x)) xs = map (\<lambda>x. sg_g (sudogs w x)) xs"
    "distinct (map (\<lambda>x. sg_g (sudogs w' x)) xs @ sg_g (sudogs w x) # ys)" "\<forall>y \<in> set xs. sg_g (sudogs w' y) \<noteq> 0"
proof -
  have d: "wqueue s q' xs" "sg = x" using dequeue_correct [OF assms(1,2)] by simp_all
  have f: "sg_g (s y) = sg_g (sudogs w y)" for y by (rule dequeue_fields [OF assms(2)])
  show "sg \<noteq> 0" using wqueue_nonzero [OF assms(1)] d(2) by auto
  show "wqueue (sudogs w') q' xs" using d(1) assms(6-8) by (subst wqueue_cong [of xs _ s]) auto
  have same: "sg_g (sudogs w' y) = sg_g (sudogs w y)" for y using assms(6,9) f by simp
  then show m: "map (\<lambda>x. sg_g (sudogs w' x)) xs = map (\<lambda>x. sg_g (sudogs w x)) xs" by simp
  show "distinct (map (\<lambda>x. sg_g (sudogs w' x)) xs @ sg_g (sudogs w x) # ys)" unfolding m using assms(4) by auto
  show "\<forall>y \<in> set xs. sg_g (sudogs w' y) \<noteq> 0" using assms(5) same by simp
  have "seg (gs w') (l_head l) ys 0"
    using assms(3,4,10) d(2) by (subst seg_cong [of ys _ "gs w"]) (auto simp: set_link_def f)
  moreover have "schedlink (gs w' (sg_g (s sg))) = l_head l" by (simp add: assms(10) set_link_def)
  ultimately show "seg (gs w') (sg_g (s sg)) (sg_g (sudogs w x) # ys) 0" using assms(5) d(2) f by simp
qed

lemma release_readers_correct:
  assumes "wqueue (sudogs w) (recvq c) rs" and "seg (gs w) (l_head l) ys 0"
    and "distinct (map (\<lambda>x. sg_g (sudogs w x)) rs @ ys)" and "\<forall>x \<in> set rs. sg_g (sudogs w x) \<noteq> 0"
  shows "\<exists>w' l'. release_readers F w c l = Some (w', c\<lparr>recvq := \<lparr>wq_first = 0, wq_last = 0\<rparr>\<rparr>, l') \<and> released w w'
    \<and> seg (gs w') (l_head l') (rev (map (\<lambda>x. sg_g (sudogs w x)) rs) @ ys) 0"
  using assms
proof (induction rs arbitrary: w c l ys)
  case Nil
  then have "release_readers F w c l = Some (w, c, l)" "c\<lparr>recvq := \<lparr>wq_first = 0, wq_last = 0\<rparr>\<rparr> = c"
    by (cases c; simp add: release_readers.simps [of F w] dequeue_empty wqueue_empty)+
  with Nil.prems(2) released_refl show ?case by auto
next
  case (Cons x xs)
  obtain s q sg where d: "dequeue (sudogs w) (recvq c) = (s, q, sg)" by (metis prod_cases3)
  let ?gp = "sg_g (s sg)"
  define v where "v = (s sg)\<lparr>sg_elem := 0, success := False\<rparr>"
  define w1 where "w1 = w\<lparr>sudogs := s(sg := v), gs := set_link ((gs w)(?gp := (gs w ?gp)\<lparr>g_param := sg\<rparr>)) ?gp (l_head l),
    mem := (if sg_elem (s sg) \<noteq> 0 then f_typedmemclr F (elemtype c) (sg_elem (s sg)) (mem w) else mem w)\<rparr>"
  have w1: "sudogs w1 = s(sg := v)" "sg_next v = sg_next (s sg)" "sg_prev v = sg_prev (s sg)" "sg_g v = sg_g (s sg)"
    "schedlink (gs w1 y) = schedlink (set_link (gs w) ?gp (l_head l) y)" for y
    by (auto simp: w1_def v_def set_link_def)
  note st = release_step [OF Cons.prems(1) d Cons.prems(2-4) w1]
  have v: "v = (if sg_elem (s sg) = 0 then (s sg)\<lparr>success := False\<rparr> else (s sg)\<lparr>sg_elem := 0, success := False\<rparr>)"
    by (cases "s sg") (simp add: v_def)
  have "release_readers F w c l = release_readers F w1 (c\<lparr>recvq := q\<rparr>) \<lparr>l_head = ?gp\<rparr>"
    using st(1) d by (cases w) (subst release_readers.simps, simp add: w1_def v gList_push_def Let_def)
  moreover obtain w' l' where IH: "release_readers F w1 (c\<lparr>recvq := q\<rparr>) \<lparr>l_head = ?gp\<rparr>
      = Some (w', c\<lparr>recvq := \<lparr>wq_first = 0, wq_last = 0\<rparr>\<rparr>, l')" "released w1 w'"
    "seg (gs w') (l_head l') (rev (map (\<lambda>x. sg_g (sudogs w1 x)) xs) @ sg_g (sudogs w x) # ys) 0"
    using Cons.IH [of w1 "c\<lparr>recvq := q\<rparr>" "\<lparr>l_head = ?gp\<rparr>", OF _ _ st(5,6)] st(2,3) by auto
  moreover have "released w w1" by (auto simp: released_def w1_def v_def set_link_def dequeue_fields [OF d])
  ultimately show ?case using released_trans IH(3) [unfolded st(4)] by fastforce
qed

lemma release_writers_correct:
  assumes "wqueue (sudogs w) (sendq c) ss" and "seg (gs w) (l_head l) ys 0"
    and "distinct (map (\<lambda>x. sg_g (sudogs w x)) ss @ ys)" and "\<forall>x \<in> set ss. sg_g (sudogs w x) \<noteq> 0"
  shows "\<exists>w' l'. release_writers w c l = Some (w', c\<lparr>sendq := \<lparr>wq_first = 0, wq_last = 0\<rparr>\<rparr>, l') \<and> released w w'
    \<and> seg (gs w') (l_head l') (rev (map (\<lambda>x. sg_g (sudogs w x)) ss) @ ys) 0"
  using assms
proof (induction ss arbitrary: w c l ys)
  case Nil
  then have "release_writers w c l = Some (w, c, l)" "c\<lparr>sendq := \<lparr>wq_first = 0, wq_last = 0\<rparr>\<rparr> = c"
    by (cases c; simp add: release_writers.simps [of w] dequeue_empty wqueue_empty)+
  with Nil.prems(2) released_refl show ?case by auto
next
  case (Cons x xs)
  obtain s q sg where d: "dequeue (sudogs w) (sendq c) = (s, q, sg)" by (metis prod_cases3)
  let ?gp = "sg_g (s sg)"
  define v where "v = (s sg)\<lparr>sg_elem := 0, success := False\<rparr>"
  define w1 where "w1 = w\<lparr>sudogs := s(sg := v), gs := set_link (gs w) ?gp (l_head l)\<rparr>"
  have w1: "sudogs w1 = s(sg := v)" "sg_next v = sg_next (s sg)" "sg_prev v = sg_prev (s sg)" "sg_g v = sg_g (s sg)"
    "schedlink (gs w1 y) = schedlink (set_link (gs w) ?gp (l_head l) y)" for y
    by (auto simp: w1_def v_def)
  note st = release_step [OF Cons.prems(1) d Cons.prems(2-4) w1]
  have "release_writers w c l = release_writers w1 (c\<lparr>sendq := q\<rparr>) \<lparr>l_head = ?gp\<rparr>"
    using st(1) by (subst release_writers.simps) (simp add: d w1_def v_def gList_push_def Let_def)
  moreover obtain w' l' where IH: "release_writers w1 (c\<lparr>sendq := q\<rparr>) \<lparr>l_head = ?gp\<rparr>
      = Some (w', c\<lparr>sendq := \<lparr>wq_first = 0, wq_last = 0\<rparr>\<rparr>, l')" "released w1 w'"
    "seg (gs w') (l_head l') (rev (map (\<lambda>x. sg_g (sudogs w1 x)) xs) @ sg_g (sudogs w x) # ys) 0"
    using Cons.IH [of w1 "c\<lparr>sendq := q\<rparr>" "\<lparr>l_head = ?gp\<rparr>", OF _ _ st(5,6)] st(2,3) by auto
  moreover have "released w w1" by (auto simp: released_def w1_def v_def set_link_def dequeue_fields [OF d])
  ultimately show ?case using released_trans IH(3) [unfolded st(4)] by fastforce
qed

text \<open>Waking the goroutines of the list.\<close>

lemma ready_all_frame:
  assumes "ready_all w l = Some r"
  shows "\<forall>w'. r = Inr w' \<longrightarrow> same_cache w w'"
proof (rule ready_all.raw_induct [OF _ assms])
  fix f and w :: world and l r
  assume 1: "\<And>w l r. f w l = Some r \<Longrightarrow> \<forall>w'. r = Inr w' \<longrightarrow> same_cache w w'"
    "(if gList_empty l then Some (Inr w)
      else case gList_pop (gs w) l of (l, gp) \<Rightarrow>
        case goready (w\<lparr>gs := set_link (gs w) gp 0\<rparr>) gp of Inl e \<Rightarrow> Some (Inl e) | Inr w \<Rightarrow> f w l) = Some r"
  have "same_cache w w'" if r: "r = Inr w'" for w'
  proof (cases "gList_empty l")
    case True
    then show ?thesis using 1(2) r by (auto simp: same_cache_def)
  next
    case False
    obtain l1 gp where p: "gList_pop (gs w) l = (l1, gp)" by force
    let ?w = "w\<lparr>gs := set_link (gs w) gp 0\<rparr>"
    obtain w1 where g: "goready ?w gp = Inr w1" "f w1 l1 = Some r"
      using 1(2) r False p by (auto split: sum.splits)
    have "same_cache ?w w1" by (rule goready_frame(1) [OF g(1)])
    moreover have "same_cache w1 w'" using 1(1) [OF g(2)] r by blast
    ultimately show ?thesis by (simp add: same_cache_def)
  qed
  then show "\<forall>w'. r = Inr w' \<longrightarrow> same_cache w w'" by blast
qed

lemma ready_all_one:
  assumes "seg (gs w) (l_head l) [gp] 0" and "atomicstatus (gs w gp) = Gwaiting" and "runnext (pp w) = 0"
  shows "\<exists>w'. ready_all w l = Some (Inr w') \<and> same_cache w w' \<and> atomicstatus (gs w' gp) = Grunnable \<and> runnext (pp w') = gp"
proof -
  let ?w = "w\<lparr>gs := set_link (gs w) gp 0\<rparr>"
  have l: "l_head l = gp" "gp \<noteq> 0" "schedlink (gs w gp) = 0" using assms(1) by auto
  obtain w' where g: "goready ?w gp = Inr w'" "runnext (pp w') = gp"
    using goready_next [of ?w gp] assms(2,3) by (simp add: set_link_def)
  have "ready_all w l = ready_all w' \<lparr>l_head = 0\<rparr>"
    using l g(1) by (subst ready_all.simps) (simp add: gList_empty_def gList_pop_def Let_def)
  also have "\<dots> = Some (Inr w')" by (subst ready_all.simps) (simp add: gList_empty_def)
  finally show ?thesis using goready_frame(1,3) [OF g(1)] g(2) by (simp add: same_cache_def)
qed

lemma ready_all_occupied:
  assumes "seg (gs w) (l_head l) (gp # gps) 0" and "atomicstatus (gs w gp) = Gwaiting" and "runnext (pp w) \<noteq> 0"
    and "runqtail (pp w) - runqhead (pp w) < 256"
  shows "ready_all w l = Some (Inl (Throw ''runqputslow: queue is not full''))"
proof -
  have "goready (w\<lparr>gs := set_link (gs w) gp 0\<rparr>) gp = Inl (Throw ''runqputslow: queue is not full'')"
    using assms(2-4) by (intro goready_occupied) (simp_all add: set_link_def)
  then show ?thesis using assms(1) by (subst ready_all.simps) (simp add: gList_empty_def gList_pop_def Let_def)
qed

lemma ready_all_two:
  assumes "seg (gs w) (l_head l) (gp # gp2 # gps) 0" and "distinct (gp # gp2 # gps)" and "runnext (pp w) = 0"
    and "atomicstatus (gs w gp) = Gwaiting" and "atomicstatus (gs w gp2) = Gwaiting" and "runqtail (pp w) - runqhead (pp w) < 256"
  shows "ready_all w l = Some (Inl (Throw ''runqputslow: queue is not full''))"
proof -
  let ?w = "w\<lparr>gs := set_link (gs w) gp 0\<rparr>"
  define w1 where "w1 = ?w\<lparr>gs := (gs ?w)(gp := (gs ?w gp)\<lparr>atomicstatus := Grunnable\<rparr>), pp := (pp w)\<lparr>runnext := gp\<rparr>\<rparr>"
  have l: "l_head l = gp" "gp \<noteq> 0" "schedlink (gs w gp) = gp2" "gp2 \<noteq> 0" "gp2 \<noteq> gp" using assms(1,2) by auto
  have g: "goready ?w gp = Inr w1" using goready_next [of ?w gp] assms(3,4) by (simp add: w1_def set_link_def)
  have g2: "goready (w1\<lparr>gs := set_link (gs w1) gp2 0\<rparr>) gp2 = Inl (Throw ''runqputslow: queue is not full'')"
    using assms(5,6) l by (intro goready_occupied) (simp_all add: w1_def set_link_def)
  have "ready_all w l = ready_all w1 \<lparr>l_head = gp2\<rparr>"
    using l g by (subst ready_all.simps) (simp add: gList_empty_def gList_pop_def Let_def)
  also have "\<dots> = Some (Inl (Throw ''runqputslow: queue is not full''))"
    using l g2 by (subst ready_all.simps) (simp add: gList_empty_def gList_pop_def Let_def)
  finally show ?thesis .
qed

text \<open>Both loops of \<open>closechan\<close>: only one of the queues has elements.\<close>

lemma closechan_waking:
  assumes "chan_inv cp w rs ss" and "cp \<noteq> 0" and "closed (chans w cp) = 0"
  obtains w1 l where "closechan F w cp = go_bind (returns (ready_all w1 l)) (\<lambda>r. r)" "chan_inv cp w1 [] []" "closed (chans w1 cp) \<noteq> 0"
    "seg (gs w1) (l_head l) (rev (map (\<lambda>x. sg_g (sudogs w x)) (rs @ ss))) 0" "pp w1 = pp w"
    "\<And>x. atomicstatus (gs w1 x) = atomicstatus (gs w x)"
proof -
  let ?c = "chans w cp" and ?e = "\<lparr>wq_first = 0, wq_last = 0\<rparr>"
  have i: "chan_ok ?c" "wqueue (sudogs w) (recvq ?c) rs" "wqueue (sudogs w) (sendq ?c) ss" "pool w (rs @ ss)" "waits w (rs @ ss)"
    "rs = [] \<or> ss = []" using assms(1) by (auto simp: chan_inv_def)
  have w: "distinct (map (\<lambda>x. sg_g (sudogs w x)) (rs @ ss))" "\<forall>x \<in> set (rs @ ss). sg_g (sudogs w x) \<noteq> 0"
    using i(5) by (auto simp: waits_def)
  let ?c1 = "?c\<lparr>closed := 1\<rparr>" and ?c2 = "?c\<lparr>closed := 1, recvq := ?e\<rparr>" and ?c3 = "?c\<lparr>closed := 1, recvq := ?e, sendq := ?e\<rparr>"
  have "\<exists>wa wb la lb. release_readers F w ?c1 \<lparr>l_head = 0\<rparr> = Some (wa, ?c2, la) \<and> release_writers wa ?c2 la = Some (wb, ?c3, lb)
    \<and> released w wb \<and> seg (gs wb) (l_head lb) (rev (map (\<lambda>x. sg_g (sudogs w x)) (rs @ ss))) 0"
  proof (cases "ss = []")
    case True
    then obtain wa la where r: "release_readers F w ?c1 \<lparr>l_head = 0\<rparr> = Some (wa, ?c2, la)" "released w wa"
      "seg (gs wa) (l_head la) (rev (map (\<lambda>x. sg_g (sudogs w x)) rs)) 0"
      using release_readers_correct [of w ?c1 rs "\<lparr>l_head = 0\<rparr>" "[]" F] i(2) w by auto
    have "sendq ?c = ?e" using i(3) True by (simp add: wqueue_empty)
    then have "release_writers wa ?c2 la = Some (wa, ?c2, la)" "?c3 = ?c2"
      by (simp_all add: release_writers.simps [of wa] dequeue_none)
    with r True show ?thesis by auto
  next
    case False
    then have rs: "rs = []" using i(6) by simp
    then have "recvq ?c = ?e" using i(2) by (simp add: wqueue_empty)
    then have "release_readers F w ?c1 \<lparr>l_head = 0\<rparr> = Some (w, ?c2, \<lparr>l_head = 0\<rparr>)"
      by (simp add: release_readers.simps [of F w] dequeue_none)
    moreover obtain wb lb where "release_writers w ?c2 \<lparr>l_head = 0\<rparr> = Some (wb, ?c3, lb)" "released w wb"
      "seg (gs wb) (l_head lb) (rev (map (\<lambda>x. sg_g (sudogs w x)) ss)) 0"
      using release_writers_correct [of w ?c2 ss "\<lparr>l_head = 0\<rparr>" "[]"] i(3) w rs by auto
    ultimately show ?thesis using rs by auto
  qed
  then obtain wa wb la lb where r: "release_readers F w ?c1 \<lparr>l_head = 0\<rparr> = Some (wa, ?c2, la)" "release_writers wa ?c2 la = Some (wb, ?c3, lb)"
    "released w wb" "seg (gs wb) (l_head lb) (rev (map (\<lambda>x. sg_g (sudogs w x)) (rs @ ss))) 0" by blast
  show thesis
  proof (rule that [of "put_chan wb cp ?c3" lb])
    show "closechan F w cp = go_bind (returns (ready_all (put_chan wb cp ?c3) lb)) (\<lambda>r. r)"
      using assms(2,3) r(1,2) by (simp add: closechan_def Let_def)
    have "pool wb []" by (rule pool_released [OF i(4) r(3)])
    then have "pool (put_chan wb cp ?c3) []" by (simp add: pool_def get_cache_def put_chan_def)
    moreover have "chan_ok ?c3" using i(1) by (simp add: chan_ok_def)
    ultimately show "chan_inv cp (put_chan wb cp ?c3) [] []" by (simp add: chan_inv_def waits_def wqueue_empty)
  qed (use r in \<open>simp_all add: released_def\<close>)
qed

lemma inv_close:
  assumes "chan_inv cp w rs ss" and "closechan F w cp = Inr w'"
  shows "chan_inv cp w' [] []"
proof -
  have c: "cp \<noteq> 0" "closed (chans w cp) = 0" using assms(2) by (auto simp: closechan_def Let_def split: if_splits)
  obtain w1 l where k: "closechan F w cp = go_bind (returns (ready_all w1 l)) (\<lambda>r. r)" "chan_inv cp w1 [] []"
    by (rule closechan_waking [OF assms(1) c]) blast
  then have "ready_all w1 l = Some (Inr w')" using assms(2) by (cases "ready_all w1 l") auto
  then have "same_cache w1 w'" using ready_all_frame by blast
  then have "chans w' = chans w1" "sudogs w' = sudogs w1" "newsudog w' = newsudog w1" "get_cache w' = get_cache w1"
    "sched_sudogcache (sched w') = sched_sudogcache (sched w1)"
    by (cases w'; cases w1; simp add: same_cache_def get_cache_def)+
  with k(2) show ?thesis by (simp add: chan_inv_def pool_def waits_def wqueue_empty)
qed

section \<open>Properties\<close>

lemma inv_step:
  assumes "chan_step F cp w w'" and "chan_inv cp w rs ss"
  shows "\<exists>rs ss. chan_inv cp w' rs ss"
  using assms(1)
proof cases
  case step_send
  then show ?thesis by (rule inv_send [OF assms(2)])
next
  case step_recv
  then show ?thesis by (rule inv_recv [OF assms(2)])
next
  case step_close
  then show ?thesis using inv_close [OF assms(2)] by blast
next
  case step_other
  then show ?thesis using inv_other [OF assms(2)] by blast
qed

text \<open>
  C3: In every state that a program can reach with a channel made by \<open>makechan\<close>, by sends, receives and \<open>close\<close>,
  blocking or not, and anything else that leaves the channel alone: the indices of the circular buffer fit
  the count, both wait queues are doubly linked lists of distinct sudogs of distinct parked goroutines, none of
  them is in the pool of free sudogs, receivers wait only on an empty buffer and senders only on a full one, never
  both, and nobody waits on a closed channel.
\<close>
theorem channel_invariant:
  assumes "makechan F t sz = Inr (chans w cp)" and "pool w []" and "(chan_step F cp)\<^sup>*\<^sup>* w w'"
  shows "\<exists>rs ss. chan_inv cp w' rs ss"
  using assms(3)
proof induction
  case base
  from makechan_ok [OF assms(1)] assms(2) have "chan_inv cp w [] []" by (simp add: chan_inv_def wqueue_Nil waits_def)
  then show ?case by blast
next
  case (step w1 w2)
  then show ?case using inv_step by blast
qed

lemma example_parks: "\<exists>w'. chanrecv byte_memory example_world 9 0x500 True = Inr (w', Parked)"
  by (simp add: chanrecv_def example_world_def example_chan_def example_p_def example_g_def dequeue_def join_queue_def acquireSudog_def
      get_cache_def set_cache_def refill_none enqueue_def put_chan_def gopark_def park_m_def readgstatus_def casgstatus_def dropg_def
      chanparkcommit_def zero_sudog_def Let_def)

lemma example_pool: "pool example_world []"
  by (simp add: pool_def example_world_def example_p_def get_cache_def)

theorem channel_invariant_witness:
  "\<exists>w' rs ss. chanrecv byte_memory example_world 9 0x500 True = Inr (w', Parked) \<and> chan_inv 9 w' rs ss"
proof -
  obtain w' where w': "chanrecv byte_memory example_world 9 0x500 True = Inr (w', Parked)" using example_parks by blast
  then have "(chan_step byte_memory 9)\<^sup>*\<^sup>* example_world w'" using step_recv by blast
  moreover have "makechan byte_memory example_type 2 = Inr (chans example_world 9)"
    using example_makechan by (simp add: example_world_def)
  ultimately have "\<exists>rs ss. chan_inv 9 w' rs ss" using channel_invariant example_pool by blast
  with w' show ?thesis by blast
qed

end
