(* ===== verification/ChanWait.thy ===== *)
theory ChanWait
  imports ChanBlock
begin

text \<open>
  What happens to the goroutines that wait on a channel: a receive serves the first of the blocked senders, a
  value sent to a waiting receiver is lost, and \<open>close\<close> can wake one goroutine only.
\<close>

unbundle bit_operations_syntax

section \<open>Receiving from a blocked sender\<close>

lemma items_rest:
  assumes "chan_ok c" and "qcount c \<noteq> 0"
  shows "items m (popped c) = tl (items m c)"
proof -
  have nz: "dataqsiz c \<noteq> 0" by (rule chan_not_empty [OF assms])
  have r: "recvx c < dataqsiz c" using assms(1) nz by (simp add: chan_ok_def)
  have s: "slot (popped c) = slot c" "slot_of (popped c) i = slot_of c (Suc i)" for i
    using next_index(1) [OF r] by (simp_all add: fun_eq_iff slot_def slot_of_def popped_def mod_add_left_eq)
  have q: "unat (qcount (popped c)) = unat (qcount c) - 1" "elemtype (popped c) = elemtype c"
    using assms(2) by (simp_all add: popped_def unat_sub word_le_nat_alt Suc_le_eq unat_gt_0)
  show ?thesis by (intro nth_equalityI) (simp_all add: items_def s q nth_tl less_diff_conv)
qed

text \<open>On a full buffer, taking the first element and storing another one behind the last.\<close>

lemma took_eq:
  assumes "chan_ok c" and "qcount c = dataqsiz c" and "dataqsiz c \<noteq> 0"
  shows "took c = pushed (popped c)" "sendx c = recvx c"
proof -
  have "unat (sendx c) = unat (recvx c)" using assms by (simp add: chan_ok_def word_less_nat_alt)
  then show "sendx c = recvx c" by (simp add: word_unat_eq_iff)
  then show "took c = pushed (popped c)" using assms(2,3) by (cases c) (simp add: took_def pushed_def popped_def)
qed

lemma recv_mem_correct:
  fixes c :: hchan
  defines "n \<equiv> unat (t_size (elemtype c))"
  assumes "memory_functions F" and "chan_ok c" and "qcount c = dataqsiz c" and "ep \<noteq> 0" and "outside c ep" and "apart n src ep"
  shows "bytes (recv_mem F c ep src m) ep n # items (recv_mem F c ep src m) (took c) = items m c @ [bytes m src n]"
proof -
  have n: "n \<le> 2 ^ 64" using assms(3) by (simp add: n_def chan_ok_def)
  have f: "f_typedmemmove F (elemtype c) = copy_bytes n" "f_memmove F ep src (t_size (elemtype c)) = copy_bytes n ep src"
    using assms(2) by (auto simp: memory_functions_def fun_eq_iff n_def)
  show ?thesis
  proof (cases "dataqsiz c = 0")
    case True
    then have "items m' (took c) = []" "items m c = []" for m' using assms(4) by (simp_all add: items_def)
    then show ?thesis using True assms(5) bytes_copy_dst [OF n] by (simp add: recv_mem_def f)
  next
    case False
    let ?x = "chanbuf c (recvx c)"
    define m1 where "m1 = copy_bytes n ep ?x m"
    have m: "recv_mem F c ep src m = copy_bytes n ?x src m1" using False assms(5) by (simp add: recv_mem_def f m1_def)
    have q: "qcount c \<noteq> 0" using False assms(4) by simp
    have "unat (qcount c - 1) = unat (dataqsiz c) - 1"
      using q assms(4) by (simp add: unat_sub word_le_nat_alt Suc_le_eq unat_gt_0)
    moreover have "0 < unat (dataqsiz c)" using False by (simp add: unat_gt_0)
    ultimately have p: "qcount (popped c) < dataqsiz (popped c)" by (simp add: popped_def word_less_nat_alt)
    have x: "chanbuf (popped c) (sendx (popped c)) = ?x" "elemtype (popped c) = elemtype c"
      using took_eq(2) [OF assms(3,4) False] by (simp_all add: popped_def chanbuf_def)
    have "items (copy_bytes n ?x src m1) (took c) = items m1 (popped c) @ [bytes m1 src n]"
      using items_pushed [OF popped_ok [OF assms(3) q] p, of src m1] x took_eq(1) [OF assms(3,4) False] by (simp add: n_def)
    also have "\<dots> = tl (items m c) @ [bytes m src n]"
      using items_rest [OF assms(3) q] items_outside(1) [OF assms(3,6), of ?x m] bytes_copy_apart [OF assms(7)]
      by (simp add: m1_def n_def)
    finally have it: "items (recv_mem F c ep src m) (took c) = tl (items m c) @ [bytes m src n]" unfolding m .
    have "?x = slot c (slot_of c 0)" using chanbuf_slot recvx_slot assms(3) False by metis
    then have "apart n ep ?x" using assms(6) slot_of_less [OF False] apart_sym unfolding outside_def n_def by metis
    then have "bytes (recv_mem F c ep src m) ep n = bytes m ?x n"
      unfolding m by (simp add: bytes_copy_apart) (simp add: m1_def bytes_copy_dst [OF n])
    moreover have "bytes m ?x n = hd (items m c)" "items m c \<noteq> []" using items_hd [OF assms(3) q, of m] by (simp_all add: n_def)
    ultimately show ?thesis unfolding it by simp
  qed
qed

text \<open>A receive that finds a sender waiting does its work and then wakes the sender.\<close>

lemma chanrecv_sender:
  fixes F :: memfuns and ep :: u64
  assumes "chan_inv cp w rs (x # ss)" and "cp \<noteq> 0" and "dequeue (sudogs w) (sendq (chans w cp)) = (s, q, sg)"
  defines "w1 \<equiv> recv_world F (w\<lparr>sudogs := s\<rparr>) cp ((chans w cp)\<lparr>sendq := q\<rparr>) x ep"
  shows "chanrecv F w cp ep block = go_bind (goready w1 (sg_g (sudogs w x))) (\<lambda>w. Inr (w, Returned (True, True)))"
    "goready w1 (sg_g (sudogs w x)) = Inr w' \<Longrightarrow> chan_inv cp w' [] ss"
    "gs w1 = gs w" "pp w1 = pp w" "atomicstatus (gs w (sg_g (sudogs w x))) = Gwaiting"
proof -
  let ?c = "chans w cp"
  have i: "chan_ok ?c" "wqueue (sudogs w) (sendq ?c) (x # ss)" "waits w (x # ss)"
    "qcount ?c = dataqsiz ?c" "closed ?c = 0" using assms(1) by (auto simp: chan_inv_def)
  have sg: "sg = x" "sg \<noteq> 0" using dequeue_correct [OF i(2) assms(3)] wqueue_nonzero [OF i(2)] by auto
  have gp: "sg_g (s sg) = sg_g (sudogs w x)" using dequeue_fields(2) [OF assms(3)] sg by simp
  have "\<not> chan_empty ?c" using i(4) wqueue_first [OF i(2)] wqueue_nonzero [OF i(2)] by (auto simp: chan_empty_def)
  then show "chanrecv F w cp ep block = go_bind (goready w1 (sg_g (sudogs w x))) (\<lambda>w. Inr (w, Returned (True, True)))"
    using assms(2,3) i(5) sg gp by (simp add: chanrecv_def recv_eq w1_def Let_def)
  show "goready w1 (sg_g (sudogs w x)) = Inr w' \<Longrightarrow> chan_inv cp w' [] ss"
    using inv_recv_sender [OF assms(1,3), of F ep w'] gp sg(1) by (simp add: w1_def)
  show "gs w1 = gs w" "pp w1 = pp w" by (simp_all add: w1_def recv_world_def)
  show "atomicstatus (gs w (sg_g (sudogs w x))) = Gwaiting" using i(3) by (simp add: waits_def)
qed

text \<open>The value in the variable of a blocked sender.\<close>

definition sent_value :: "world \<Rightarrow> nat \<Rightarrow> nat \<Rightarrow> u8 list" where
  "sent_value w cp x = bytes (mem w) (sg_elem (sudogs w x)) (unat (t_size (elemtype (chans w cp))))"

section \<open>Sending to a blocked receiver\<close>

lemma chansend_receiver:
  assumes "chan_inv cp w (r # rs) ss" and "cp \<noteq> 0"
  obtains w' where "chansend F w cp ep block = Inr (w', Returned True)" "chan_inv cp w' rs []" "mem w' = mem w" "gs w' = gs w" "pp w' = pp w"
    "items (mem w') (chans w' cp) = []" "elemtype (chans w' cp) = elemtype (chans w cp)"
    "\<And>x. sg_elem (sudogs w' x) = sg_elem (sudogs w x) \<and> sg_g (sudogs w' x) = sg_g (sudogs w x)"
proof -
  obtain s q sg where d: "dequeue (sudogs w) (recvq (chans w cp)) = (s, q, sg)" by (metis prod_cases3)
  note v = inv_send_receiver [OF assms(1) d]
  have q: "qcount (chans w cp) = 0" "wqueue (sudogs w) (recvq (chans w cp)) (r # rs)" using assms(1) by (auto simp: chan_inv_def)
  then have nf: "\<not> full (chans w cp)" using v(4) wqueue_first [OF q(2)] by (auto simp: full_def)
  show thesis
  proof (rule that [of "put_chan (w\<lparr>sudogs := s\<rparr>) cp ((chans w cp)\<lparr>recvq := q\<rparr>)", OF _ v(5)])
    show "chansend F w cp ep block = Inr (put_chan (w\<lparr>sudogs := s\<rparr>) cp ((chans w cp)\<lparr>recvq := q\<rparr>), Returned True)"
      using assms(2) nf d v(1,3,4) by (simp add: chansend_def Let_def)
  qed (use q dequeue_fields [OF d] in \<open>simp_all add: items_def\<close>)
qed

lemma send_correct:
  assumes "memory_functions F" and "atomicstatus (gs w (sg_g (sudogs w r))) = Gwaiting" and "runnext (pp w) = 0"
    and "sg_elem (sudogs w r) \<noteq> 0"
  shows "\<exists>w'. send F w c r ep = Inr w' \<and> atomicstatus (gs w' (sg_g (sudogs w r))) = Grunnable
    \<and> bytes (mem w') (sg_elem (sudogs w r)) (unat (t_size (elemtype c))) = bytes (mem w) ep (unat (t_size (elemtype c)))"
proof -
  let ?n = "unat (t_size (elemtype c))" and ?gp = "sg_g (sudogs w r)" and ?dst = "sg_elem (sudogs w r)"
  have "f_memmove F ?dst ep (t_size (elemtype c)) (mem w) = copy_bytes ?n ?dst ep (mem w)" using assms(1) by (simp add: memory_functions_def)
  moreover have "?n \<le> 2 ^ 64" using unsigned_less [of "t_size (elemtype c)", where 'a = nat] by simp
  ultimately show ?thesis
    using assms(2-4) by (simp add: send_def sendDirect_def goready_next bytes_copy_dst Let_def)
qed

section \<open>Properties\<close>

text \<open>
  C11: A receive, blocking or not, on a channel on which senders wait serves the first of them, if the slot \<open>runnext\<close> of the
  processor is free: it succeeds, the value received and then those left in the buffer are those that were in the
  buffer followed by the sender's value (so values arrive in the order in which they were sent, also on an unbuffered
  channel, where the value goes from one variable to the other), the sender becomes runnable and next to run, no other
  goroutine changes its status, and the others keep waiting. While another goroutine is in \<open>runnext\<close>, as after a first
  such receive, the runtime throws instead, because \<open>runqput\<close> has no return. The local run queue is not full, and the
  receiver's variable is outside of the buffer and does not overlap the sender's.
\<close>
theorem blocked_sender_served:
  assumes "memory_functions F" and "cp \<noteq> 0" and "chan_inv cp w [] (x # ss)" and "runqtail (pp w) - runqhead (pp w) < 256"
    and "ep \<noteq> 0" and "outside (chans w cp) ep" and "apart (unat (t_size (elemtype (chans w cp)))) (sg_elem (sudogs w x)) ep"
  shows "if runnext (pp w) \<noteq> 0 then chanrecv F w cp ep block = Inl (Throw ''runqputslow: queue is not full'')
    else \<exists>w'. chanrecv F w cp ep block = Inr (w', Returned (True, True)) \<and> chan_inv cp w' [] ss
      \<and> bytes (mem w') ep (unat (t_size (elemtype (chans w cp)))) # items (mem w') (chans w' cp)
        = items (mem w) (chans w cp) @ [sent_value w cp x]
      \<and> runnext (pp w') = sg_g (sudogs w x)
      \<and> (\<forall>g. atomicstatus (gs w' g) = (if g = sg_g (sudogs w x) then Grunnable else atomicstatus (gs w g)))"
proof -
  let ?c = "chans w cp" and ?gp = "sg_g (sudogs w x)"
  obtain s q sg where d: "dequeue (sudogs w) (sendq ?c) = (s, q, sg)" by (metis prod_cases3)
  let ?c1 = "?c\<lparr>sendq := q\<rparr>"
  define w1 where "w1 = recv_world F (w\<lparr>sudogs := s\<rparr>) cp ?c1 x ep"
  note r = chanrecv_sender(1-4) [where F = F and ep = ep, OF assms(3,2) d, folded w1_def] and wt = chanrecv_sender(5) [OF assms(3,2) d]
  show ?thesis
  proof (cases "runnext (pp w) = 0")
    case True
    define v where "v = w1\<lparr>gs := (gs w)(?gp := (gs w ?gp)\<lparr>atomicstatus := Grunnable\<rparr>), pp := (pp w)\<lparr>runnext := ?gp\<rparr>\<rparr>"
    have g: "goready w1 ?gp = Inr v" using goready_next [of w1 ?gp] True r(3,4) wt by (simp add: v_def)
    have c1: "chan_ok ?c1" "outside ?c1 y = outside ?c y" "items m ?c1 = items m ?c" "qcount ?c1 = dataqsiz ?c1" for y m
      using assms(3) by (auto simp: chan_inv_def chan_ok_def outside_def slot_def items_def slot_of_def)
    have "mem v = recv_mem F ?c1 ep (sg_elem (sudogs w x)) (mem w)" "chans v cp = took ?c1"
      by (simp_all add: v_def w1_def recv_world_def dequeue_fields [OF d] put_chan_def)
    then have "bytes (mem v) ep (unat (t_size (elemtype ?c))) # items (mem v) (chans v cp) = items (mem w) ?c @ [sent_value w cp x]"
      using recv_mem_correct [where src = "sg_elem (sudogs w x)" and m = "mem w", OF assms(1) c1(1,4) assms(5)] assms(6,7) c1 by (simp add: sent_value_def)
    then show ?thesis using True r(1) r(2) [OF g] g by (auto simp: v_def)
  next
    case False
    then show ?thesis using r(1) goready_occupied [of w1 ?gp] r(3,4) wt assms(4) by simp
  qed
qed

text \<open>Two goroutines wait, on a channel with a buffer of one element: as senders or as receivers.\<close>

definition example_waiting :: "world" where
  "example_waiting = example_world\<lparr>gs := (\<lambda>_. example_g), newsudog := 3,
     sudogs := (\<lambda>_. zero_sudog)(1 := zero_sudog\<lparr>sg_g := 5, sg_next := 2, sg_elem := 0x600\<rparr>,
       2 := zero_sudog\<lparr>sg_g := 6, sg_prev := 1, sg_elem := 0x700\<rparr>),
     mem := (\<lambda>_. 0)(0x10060 := 9, 0x600 := 7, 0x700 := 8, 0x500 := 4)\<rparr>"

definition example_senders :: world where
  "example_senders = example_waiting\<lparr>chans := (\<lambda>_. example_chan\<lparr>dataqsiz := 1, qcount := 1, sendq := \<lparr>wq_first = 1, wq_last = 2\<rparr>\<rparr>)\<rparr>"

definition example_receivers :: world where
  "example_receivers = example_waiting\<lparr>chans := (\<lambda>_. example_chan\<lparr>dataqsiz := 1, recvq := \<lparr>wq_first = 1, wq_last = 2\<rparr>\<rparr>)\<rparr>"

lemmas example_waiting_defs = example_waiting_def example_world_def example_chan_def example_type_def example_p_def example_g_def
  zero_sudog_def

lemma example_senders_inv: "chan_inv 9 example_senders [] [1, 2]"
  by (simp add: chan_inv_def chan_ok_def wqueue_def pool_def waits_def example_senders_def example_waiting_defs get_cache_def)

lemma example_receivers_inv: "chan_inv 9 example_receivers [1, 2] []"
  by (simp add: chan_inv_def chan_ok_def wqueue_def pool_def waits_def example_receivers_def example_waiting_defs get_cache_def)

lemma example_values:
  "items (mem example_senders) (chans example_senders 9) = [[9]]" "sent_value example_senders 9 1 = [7]"
  by (simp_all add: items_def sent_value_def bytes_def slot_def slot_of_def example_senders_def example_waiting_defs)

theorem blocked_sender_served_witness:
  "\<exists>w'. chanrecv byte_memory example_senders 9 0x500 True = Inr (w', Returned (True, True))
    \<and> bytes (mem w') 0x500 1 # items (mem w') (chans w' 9) = [[9], [7]] \<and> chan_inv 9 w' [] [2]
    \<and> atomicstatus (gs w' 5) = Grunnable \<and> atomicstatus (gs w' 6) = Gwaiting"
proof -
  have e: "runnext (pp example_senders) = 0" "runqtail (pp example_senders) - runqhead (pp example_senders) < 256"
    "outside (chans example_senders 9) 0x500" "unat (t_size (elemtype (chans example_senders 9))) = 1"
    "apart 1 (sg_elem (sudogs example_senders 1)) 0x500" "sg_g (sudogs example_senders 1) = 5"
    "atomicstatus (gs example_senders 6) = Gwaiting"
    by (simp_all add: outside_def apart_def slot_def example_senders_def example_waiting_defs)
  from blocked_sender_served [OF byte_memory_ok _ example_senders_inv e(2) _ e(3), where block = True, unfolded e(4) example_values] e
  show ?thesis by auto
qed

text \<open>
  C13: A value sent while a receiver waits is lost. The call of \<open>send\<close> in \<open>chansend\<close> is commented out, so the
  receiver is taken from the queue and the send reports success, but no memory changes, the buffer stays empty and
  the receiver is not woken: it is still parked, and in no queue. The call of \<open>send\<close> that is missing would copy the
  value to the receiver's variable and wake it.
\<close>
theorem value_for_receiver_lost:
  assumes "memory_functions F" and "chan_inv cp w (r # rs) ss" and "cp \<noteq> 0" and "runnext (pp w) = 0" and "sg_elem (sudogs w r) \<noteq> 0"
  shows "\<exists>w'. chansend F w cp ep block = Inr (w', Returned True) \<and> chan_inv cp w' rs [] \<and> r \<notin> set rs
    \<and> mem w' = mem w \<and> items (mem w') (chans w' cp) = [] \<and> atomicstatus (gs w' (sg_g (sudogs w r))) = Gwaiting
    \<and> (\<exists>w2. send F w' (chans w' cp) r ep = Inr w2 \<and> atomicstatus (gs w2 (sg_g (sudogs w r))) = Grunnable
        \<and> bytes (mem w2) (sg_elem (sudogs w r)) (unat (t_size (elemtype (chans w cp))))
          = bytes (mem w) ep (unat (t_size (elemtype (chans w cp)))))"
proof -
  obtain w' where w': "chansend F w cp ep block = Inr (w', Returned True)" "chan_inv cp w' rs []" "mem w' = mem w" "gs w' = gs w" "pp w' = pp w"
    "items (mem w') (chans w' cp) = []" "elemtype (chans w' cp) = elemtype (chans w cp)"
    "\<And>x. sg_elem (sudogs w' x) = sg_elem (sudogs w x) \<and> sg_g (sudogs w' x) = sg_g (sudogs w x)"
    by (rule chansend_receiver [OF assms(2,3), where block = block]) blast
  have st: "atomicstatus (gs w (sg_g (sudogs w r))) = Gwaiting" "r \<notin> set rs"
    using assms(2) by (simp_all add: chan_inv_def waits_def wqueue_def)
  have "\<exists>w2. send F w' (chans w' cp) r ep = Inr w2 \<and> atomicstatus (gs w2 (sg_g (sudogs w' r))) = Grunnable
    \<and> bytes (mem w2) (sg_elem (sudogs w' r)) (unat (t_size (elemtype (chans w' cp)))) = bytes (mem w') ep (unat (t_size (elemtype (chans w' cp))))"
    by (rule send_correct [OF assms(1)]) (use st assms(4,5) w'(4,5,8) in simp_all)
  with w' st show ?thesis by simp
qed

theorem value_for_receiver_lost_witness:
  "\<exists>w'. chansend byte_memory example_receivers 9 0x500 True = Inr (w', Returned True) \<and> chan_inv 9 w' [2] []
    \<and> mem w' = mem example_receivers \<and> atomicstatus (gs w' 5) = Gwaiting"
proof -
  have "runnext (pp example_receivers) = 0" "sg_elem (sudogs example_receivers 1) \<noteq> 0" "sg_g (sudogs example_receivers 1) = 5"
    by (simp_all add: example_receivers_def example_waiting_defs)
  with value_for_receiver_lost [OF byte_memory_ok example_receivers_inv, where ep = "0x500" and block = True] show ?thesis by auto
qed

text \<open>
  \<open>close\<close> takes every goroutine out of the wait queues and wakes them one after the other by \<open>goready\<close>, which needs a
  free slot \<open>runnext\<close> while the local run queue is not full (\<open>runqput\<close> has no return after storing in the local queue). So
  with nobody waiting \<open>close\<close> succeeds; a single goroutine that waits is made runnable and next to run if the slot was free, and
  otherwise the runtime throws; with two or more it throws in any case.
\<close>
lemma close_wakes_one:
  assumes "chan_inv cp w rs ss" and "cp \<noteq> 0" and "closed (chans w cp) = 0" and "runqtail (pp w) - runqhead (pp w) < 256"
  shows "case rev (rs @ ss) of
      [] \<Rightarrow> \<exists>w'. closechan F w cp = Inr w' \<and> closed (chans w' cp) \<noteq> 0
    | [x] \<Rightarrow> if runnext (pp w) = 0
        then \<exists>w'. closechan F w cp = Inr w' \<and> closed (chans w' cp) \<noteq> 0 \<and> runnext (pp w') = sg_g (sudogs w x)
          \<and> atomicstatus (gs w' (sg_g (sudogs w x))) = Grunnable
        else closechan F w cp = Inl (Throw ''runqputslow: queue is not full'')
    | _ # _ # _ \<Rightarrow> closechan F w cp = Inl (Throw ''runqputslow: queue is not full'')"
proof -
  obtain w1 l where k: "closechan F w cp = go_bind (returns (ready_all w1 l)) (\<lambda>r. r)" "chan_inv cp w1 [] []" "closed (chans w1 cp) \<noteq> 0"
    "seg (gs w1) (l_head l) (rev (map (\<lambda>x. sg_g (sudogs w x)) (rs @ ss))) 0" "pp w1 = pp w"
    "\<And>x. atomicstatus (gs w1 x) = atomicstatus (gs w x)"
    by (rule closechan_waking [OF assms(1-3), of F]) blast
  obtain xs where xs: "xs = rev (rs @ ss)" by simp
  have m: "rev (map (\<lambda>x. sg_g (sudogs w x)) (rs @ ss)) = map (\<lambda>x. sg_g (sudogs w x)) xs" unfolding xs by (simp add: rev_map)
  have wt: "distinct (map (\<lambda>x. sg_g (sudogs w x)) xs)" "\<And>x. x \<in> set xs \<Longrightarrow> atomicstatus (gs w (sg_g (sudogs w x))) = Gwaiting"
    using assms(1) unfolding m [symmetric] by (auto simp: chan_inv_def waits_def xs)
  have sg: "seg (gs w1) (l_head l) (map (\<lambda>x. sg_g (sudogs w x)) xs) 0" using k(4) unfolding m .
  have busy: "closechan F w cp = Inl (Throw ''runqputslow: queue is not full'')" if "xs = x # ys" "runnext (pp w) \<noteq> 0" for x ys
    using ready_all_occupied [of w1 l "sg_g (sudogs w x)" "map (\<lambda>x. sg_g (sudogs w x)) ys"] sg wt(2) [of x] k(1,5,6) assms(4) that
    by simp
  consider "xs = []" | x where "xs = [x]" | x y zs where "xs = x # y # zs" by (metis list.exhaust)
  then show ?thesis
  proof cases
    case 1
    then have "ready_all w1 l = Some (Inr w1)" using sg by (subst ready_all.simps) (simp add: gList_empty_def)
    with 1 k(1,3) show ?thesis unfolding xs [symmetric] by simp
  next
    case (2 x)
    show ?thesis
    proof (cases "runnext (pp w) = 0")
      case True
      with 2 obtain w' where w': "ready_all w1 l = Some (Inr w')" "same_cache w1 w'" "atomicstatus (gs w' (sg_g (sudogs w x))) = Grunnable"
        "runnext (pp w') = sg_g (sudogs w x)"
        using ready_all_one [of w1 l "sg_g (sudogs w x)"] sg wt(2) k(5,6) by auto
      then have "chans w' = chans w1" by (cases w'; cases w1; simp add: same_cache_def)
      with 2 w' k(1,3) True show ?thesis unfolding xs [symmetric] by simp
    next
      case False
      with 2 busy [of x "[]"] show ?thesis unfolding xs [symmetric] by simp
    qed
  next
    case (3 x y zs)
    have "closechan F w cp = Inl (Throw ''runqputslow: queue is not full'')"
    proof (cases "runnext (pp w) = 0")
      case True
      then have "ready_all w1 l = Some (Inl (Throw ''runqputslow: queue is not full''))"
        using sg wt k(5,6) assms(4) 3
        by (intro ready_all_two [of w1 l "sg_g (sudogs w x)" "sg_g (sudogs w y)" "map (\<lambda>x. sg_g (sudogs w x)) zs"]) simp_all
      then show ?thesis using k(1) by simp
    qed (use busy 3 in blast)
    with 3 show ?thesis unfolding xs [symmetric] by simp
  qed
qed

end
