(* ===== verification/Select.thy ===== *)
theory Select
  imports Channel "HOL-Library.Multiset"
begin

text \<open>
  The select statement (\<open>src/channels_and_select/select.go\<close>), as far as the sources go: \<open>selectgo\<close> drops the cases
  with nil channels and shuffles the others into the poll order, \<open>reflect_rselect\<close> sorts the cases of the reflect
  package into sends and receives. Choosing a case and locking are not in the sources: \<open>selectgo\<close> returns
  \<open>0, true\<close>, and \<open>reflect_rselect\<close> ends after the compaction.
\<close>

unbundle bit_operations_syntax

section \<open>Polling\<close>

record scase =
  sc_c :: nat
  sc_elem :: u64

text \<open>The source of random numbers is an argument, \<open>rnd k n\<close> for the call number \<open>k\<close>; that of the sources is constant.\<close>

definition fastrandn :: "nat \<Rightarrow> u32 \<Rightarrow> u32" where
  "fastrandn k n = 0"

fun poll_loop :: "(nat \<Rightarrow> u32 \<Rightarrow> u32) \<Rightarrow> nat \<Rightarrow> scase list \<Rightarrow> u16 list \<Rightarrow> nat \<Rightarrow> (scase list \<times> u16 list \<times> nat) res" where
  "poll_loop rnd i [] pollorder norder = Inr ([], pollorder, norder)"
| "poll_loop rnd i (cas # cs) pollorder norder =
     (if sc_c cas = 0
      then go_bind (poll_loop rnd (i + 1) cs pollorder norder) (\<lambda>(cs, r). Inr (cas\<lparr>sc_elem := 0\<rparr> # cs, r))
      else let j = ucast (rnd norder (of_nat norder + 1)) :: u64
           in go_bind (slice_get pollorder j) (\<lambda>v.
              go_bind (slice_set pollorder (of_nat norder) v) (\<lambda>pollorder.
              go_bind (slice_set pollorder j (of_nat i)) (\<lambda>pollorder.
              go_bind (poll_loop rnd (i + 1) cs pollorder (norder + 1)) (\<lambda>(cs, r). Inr (cas # cs, r))))))"

definition selectgo :: "(nat \<Rightarrow> u32 \<Rightarrow> u32) \<Rightarrow> scase list \<Rightarrow> u16 list \<Rightarrow> nat \<Rightarrow> nat
    \<Rightarrow> (scase list \<times> u16 list \<times> u16 list \<times> nat \<times> bool) res" where
  "selectgo rnd cas0 order0 nsends nrecvs =
     (let ncases = nsends + nrecvs;
          scases = take ncases cas0;
          pollorder = take ncases order0;
          lockorder = take ncases (drop ncases order0)
      in go_bind (poll_loop rnd 0 scases pollorder 0) (\<lambda>(scases, pollorder, norder).
           Inr (scases, take norder pollorder, take norder lockorder, 0, True)))"

section \<open>The cases of the reflect package\<close>

definition waitReasonSelectNoCases :: u8 where "waitReasonSelectNoCases = 10"

definition block :: "'a rt_scheme \<Rightarrow> ('a rt_scheme \<times> bool) res" where
  "block w = gopark w None waitReasonSelectNoCases"

definition selectSend :: nat where [simp]: "selectSend = 1"
definition selectRecv :: nat where [simp]: "selectRecv = 2"
definition selectDefault :: nat where [simp]: "selectDefault = 3"

record runtimeSelect =
  dir :: nat
  rs_typ :: u64
  rs_ch :: nat
  rs_val :: u64

record rselect =
  sel :: "scase list"
  orig :: "nat list"
  nsends :: nat
  nrecvs :: nat
  dflt :: int

text \<open>The loop over the cases; an unknown direction leaves the position 0.\<close>

fun rselect_loop :: "nat \<Rightarrow> nat \<Rightarrow> runtimeSelect list \<Rightarrow> rselect \<Rightarrow> rselect res" where
  "rselect_loop n i [] s = Inr s"
| "rselect_loop n i (rc # cases) s =
     (if dir rc = selectDefault then rselect_loop n (i + 1) cases (s\<lparr>dflt := int i\<rparr>)
      else let (j, s) = (if dir rc = selectSend then (nsends s, s\<lparr>nsends := nsends s + 1\<rparr>)
                         else if dir rc = selectRecv then (n - (nrecvs s + 1), s\<lparr>nrecvs := nrecvs s + 1\<rparr>)
                         else (0, s))
           in if j < n
              then rselect_loop n (i + 1) cases
                (s\<lparr>sel := (sel s)[j := \<lparr>sc_c = rs_ch rc, sc_elem = rs_val rc\<rparr>], orig := (orig s)[j := i]\<rparr>)
              else Inl IndexPanic)"

text \<open>The result is \<open>Inl\<close> of the index of the default case when there is no other, else what is passed on to \<open>selectgo\<close>.\<close>

definition reflect_rselect :: "'a rt_scheme \<Rightarrow> runtimeSelect list \<Rightarrow> ('a rt_scheme \<times> (int \<times> bool + rselect) outcome) res" where
  "reflect_rselect w cases =
     (if length cases = 0 then go_bind (block w) (\<lambda>(w, _). Inr (w, Parked))
      else let n = length cases;
               s = \<lparr>sel = replicate n \<lparr>sc_c = 0, sc_elem = 0\<rparr>, orig = replicate n 0, nsends = 0, nrecvs = 0, dflt = -1\<rparr>
      in go_bind (rselect_loop n 0 cases s) (\<lambda>s.
           if nsends s + nrecvs s = 0 then Inr (w, Returned (Inl (dflt s, False)))
           else if nsends s + nrecvs s < n
           then Inr (w, Returned (Inr (s\<lparr>sel := copy_at (sel s) (nsends s) (drop (n - nrecvs s) (sel s)),
                                         orig := copy_at (orig s) (nsends s) (drop (n - nrecvs s) (orig s))\<rparr>)))
           else Inr (w, Returned (Inr s))))"

section \<open>The poll order\<close>

text \<open>The positions of the elements with a property, counted from \<open>i\<close> on; the cases with a channel.\<close>

fun matching :: "('a \<Rightarrow> bool) \<Rightarrow> nat \<Rightarrow> 'a list \<Rightarrow> nat list" where
  "matching P i [] = []"
| "matching P i (x # xs) = (if P x then i # matching P (i + 1) xs else matching P (i + 1) xs)"

lemma matching_filter: "matching P i xs = map ((+) i) (filter (\<lambda>k. P (xs ! k)) [0..<length xs])"
proof (induction xs arbitrary: i)
  case (Cons x xs)
  have "[0..<length (x # xs)] = 0 # map Suc [0..<length xs]" by (simp add: map_Suc_upt upt_conv_Cons del: upt_Suc)
  then have "filter (\<lambda>k. P ((x # xs) ! k)) [0..<length (x # xs)]
      = (if P x then [0] else []) @ map Suc (filter (\<lambda>k. P (xs ! k)) [0..<length xs])"
    by (simp add: filter_map comp_def)
  then show ?case by (simp add: Cons.IH comp_def)
qed simp

lemma matching_0: "matching P 0 xs = filter (\<lambda>k. P (xs ! k)) [0..<length xs]"
  by (simp add: matching_filter map_idI)

abbreviation live_cases :: "nat \<Rightarrow> scase list \<Rightarrow> nat list" where
  "live_cases \<equiv> matching (\<lambda>c. sc_c c \<noteq> 0)"

text \<open>Inserting at a random position, on the part of the array that is in use.\<close>

lemma take_insert: "j < k \<Longrightarrow> k < length po \<Longrightarrow> take (Suc k) (po[k := v, j := x]) = (take k po)[j := x] @ [v]"
  by (intro nth_equalityI) (auto simp: nth_list_update nth_append less_Suc_eq)

lemma insert_step:
  assumes "j \<le> k" and "k < length po"
  shows "mset (take (k + 1) (po[k := po ! j, j := x])) = add_mset x (mset (take k po))"
proof (cases "j = k")
  case True
  then show ?thesis using assms by (simp add: take_Suc_conv_app_nth)
next
  case False
  then have j: "j < k" using assms(1) by simp
  then have "take (k + 1) (po[k := po ! j, j := x]) = (take k po)[j := x] @ [take k po ! j]"
    using assms(2) by (simp add: take_insert)
  moreover have "j < length (take k po)" using j assms(2) by simp
  then have "mset ((take k po)[j := x]) = add_mset x (mset (take k po) - {#take k po ! j#})" "take k po ! j \<in># mset (take k po)"
    by (rule mset_update, rule nth_mem_mset)
  ultimately show ?thesis by (simp add: add_mset_commute)
qed

lemma poll_loop_correct:
  assumes "\<And>k n. 0 < n \<Longrightarrow> rnd k n < n" and "length po < 2 ^ 32" and "k + length cs \<le> length po"
  shows "\<exists>cs' po'. poll_loop rnd i cs po k = Inr (cs', po', k + length (live_cases i cs)) \<and> length po' = length po
    \<and> mset (take (k + length (live_cases i cs)) po') = mset (take k po) + mset (map of_nat (live_cases i cs))
    \<and> cs' = map (\<lambda>c. if sc_c c = 0 then c\<lparr>sc_elem := 0\<rparr> else c) cs"
  using assms(2,3)
proof (induction cs arbitrary: i k po)
  case (Cons c cs)
  show ?case
  proof (cases "sc_c c = 0")
    case True
    then show ?thesis using Cons.IH [of po k "i + 1"] Cons.prems by auto
  next
    case False
    let ?n = "of_nat k + 1 :: u32" and ?r = "rnd k (of_nat k + 1)"
    have k: "k < length po" "Suc k < 2 ^ 32" using Cons.prems by simp_all
    have "?n = of_nat (Suc k)" by simp
    moreover have "unat (of_nat (Suc k) :: u32) = Suc k" using k(2) by (subst unat_of_nat) simp
    ultimately have n: "unat ?n = Suc k" by (simp only:)
    then have "0 < ?n" by (simp only: word_less_nat_alt unat_0 zero_less_Suc)
    then have "?r < ?n" by (rule assms(1))
    then have "unat ?r < Suc k" using n by (simp only: word_less_nat_alt)
    moreover have uj: "unat (ucast ?r :: u64) = unat ?r" 
      by (subst unsigned_ucast_eq) (use unsigned_less [of ?r, where 'a = nat] in \<open>simp add: take_bit_nat_eq_self\<close>)
    ultimately have j: "unat (ucast ?r :: u64) \<le> k" by simp
    have uk: "unat (of_nat k :: u64) = k" using k by (intro unat_of_nat64) simp
    let ?po = "po[k := po ! unat (ucast ?r :: u64), unat (ucast ?r :: u64) := of_nat i]"
    have "length ?po < 2 ^ 32" "Suc k + length cs \<le> length ?po" using Cons.prems by simp_all
    from Cons.IH [OF this, of "i + 1"] obtain cs' po' where IH:
      "poll_loop rnd (i + 1) cs ?po (Suc k) = Inr (cs', po', Suc k + length (live_cases (i + 1) cs))" "length po' = length po"
      "mset (take (Suc k + length (live_cases (i + 1) cs)) po') = mset (take (Suc k) ?po) + mset (map of_nat (live_cases (i + 1) cs))"
      "cs' = map (\<lambda>c. if sc_c c = 0 then c\<lparr>sc_elem := 0\<rparr> else c) cs" by auto
    have "poll_loop rnd i (c # cs) po k = Inr (c # cs', po', k + length (live_cases i (c # cs)))"
      using False k j uk IH(1) by (simp add: Let_def)
    moreover have "mset (take (Suc k) ?po) = add_mset (of_nat i) (mset (take k po))" using insert_step [OF j k(1)] by simp
    ultimately show ?thesis using IH(2-4) False by simp
  qed
qed simp

text \<open>With the constant random number the last case comes first, and then the others in their order.\<close>

definition constant_order :: "nat list \<Rightarrow> u16 list" where
  "constant_order xs = (if xs = [] then [] else of_nat (last xs) # map of_nat (butlast xs))"

lemma poll_loop_constant:
  assumes "length po < 2 ^ 32" and "length xs + length cs \<le> length po" and "take (length xs) po = constant_order xs"
  shows "\<exists>cs' po'. poll_loop fastrandn i cs po (length xs) = Inr (cs', po', length (xs @ live_cases i cs))
    \<and> take (length (xs @ live_cases i cs)) po' = constant_order (xs @ live_cases i cs)"
  using assms
proof (induction cs arbitrary: i xs po)
  case (Cons c cs)
  show ?case
  proof (cases "sc_c c = 0")
    case True
    then show ?thesis using Cons.IH [of po xs "i + 1"] Cons.prems by auto
  next
    case False
    let ?k = "length xs"
    have k: "?k < length po" "?k < 2 ^ 32" using Cons.prems by simp_all
    have uk: "unat (of_nat ?k :: u64) = ?k" using k by (intro unat_of_nat64) simp
    let ?po = "po[?k := po ! 0, 0 := of_nat i]"
    have "take (Suc ?k) ?po = constant_order (xs @ [i])"
    proof (cases xs)
      case Nil
      then show ?thesis using k(1) by (cases po) (simp_all add: constant_order_def)
    next
      case (Cons y ys)
      then have "po \<noteq> []" using k(1) by auto
      have t: "take ?k po = of_nat (last xs) # map of_nat (butlast xs)" using Cons.prems(3) Cons by (simp add: constant_order_def)
      then have "po ! 0 = of_nat (last xs)" using Cons by (metis length_Cons nth_Cons_0 nth_take zero_less_Suc)
      moreover have "take (Suc ?k) ?po = (take ?k po)[0 := of_nat i] @ [po ! 0]"
        using k(1) Cons by (intro take_insert) simp_all
      ultimately have "take (Suc ?k) ?po = of_nat i # map of_nat (butlast xs @ [last xs])" using t by simp
      moreover have "butlast xs @ [last xs] = xs" using Cons by simp
      ultimately show ?thesis by (simp add: constant_order_def)
    qed
    then obtain cs' po' where "poll_loop fastrandn (i + 1) cs ?po (length (xs @ [i])) = Inr (cs', po', length ((xs @ [i]) @ live_cases (i + 1) cs))"
      "take (length ((xs @ [i]) @ live_cases (i + 1) cs)) po' = constant_order ((xs @ [i]) @ live_cases (i + 1) cs)"
      using Cons.IH [of ?po "xs @ [i]" "i + 1"] Cons.prems(1,2) by auto
    moreover have "0 < length po" using k(1) by linarith
    then have "poll_loop fastrandn i (c # cs) po ?k = go_bind (poll_loop fastrandn (i + 1) cs ?po (?k + 1)) (\<lambda>(cs, r). Inr (c # cs, r))"
      using False k(1) uk by (simp add: fastrandn_def Let_def)
    ultimately show ?thesis using False by simp
  qed
qed simp

section \<open>Sorting the cases\<close>

definition conv :: "runtimeSelect \<Rightarrow> scase" where
  "conv rc = \<lparr>sc_c = rs_ch rc, sc_elem = rs_val rc\<rparr>"

text \<open>The sends \<open>S\<close> are at the front of the arrays, the receives \<open>R\<close> at the end and in reverse.\<close>

definition arranged :: "nat \<Rightarrow> (nat \<Rightarrow> scase) \<Rightarrow> nat list \<Rightarrow> nat list \<Rightarrow> rselect \<Rightarrow> bool" where
  "arranged n f S R s \<longleftrightarrow> nsends s = length S \<and> nrecvs s = length R \<and> length S + length R \<le> n
     \<and> sel s = map f S @ replicate (n - length S - length R) \<lparr>sc_c = 0, sc_elem = 0\<rparr> @ rev (map f R)
     \<and> orig s = S @ replicate (n - length S - length R) 0 @ rev R"

lemma store_front: "(xs @ replicate (Suc m) z @ ys)[length xs := v] = (xs @ [v]) @ replicate m z @ ys"
  by (simp add: list_update_append)

lemma store_back: "(xs @ replicate (Suc m) z @ ys)[length xs + m := v] = xs @ replicate m z @ v # ys"
proof -
  have "replicate (Suc m) z = replicate m z @ [z]" by (simp add: replicate_append_same)
  then have "xs @ replicate (Suc m) z @ ys = (xs @ replicate m z) @ z # ys" by simp
  moreover have "length xs + m = length (xs @ replicate m z)" by simp
  ultimately show ?thesis by (metis append.assoc list_update_length)
qed

lemma arranged_send:
  assumes "arranged n f S R s" and "length S + length R < n"
  shows "arranged n f (S @ [i]) R (s\<lparr>nsends := nsends s + 1, sel := (sel s)[length S := f i], orig := (orig s)[length S := i]\<rparr>)"
proof -
  obtain m where m: "n - length S - length R = Suc m" using assms(2) by (metis diff_diff_left zero_less_diff gr0_implies_Suc)
  have "n - length (S @ [i]) - length R = m" using m by simp
  with assms store_front [of "map f S" m] store_front [of S m] m show ?thesis by (simp add: arranged_def)
qed

lemma arranged_recv:
  assumes "arranged n f S R s" and "length S + length R < n"
  shows "arranged n f S (R @ [i]) (s\<lparr>nrecvs := nrecvs s + 1, sel := (sel s)[n - (length R + 1) := f i],
    orig := (orig s)[n - (length R + 1) := i]\<rparr>)"
proof -
  obtain m where m: "n - length S - length R = Suc m" using assms(2) by (metis diff_diff_left zero_less_diff gr0_implies_Suc)
  have "n - length S - length (R @ [i]) = m" "n - (length R + 1) = length S + m" using m by simp_all
  with assms store_back [of "map f S" m] store_back [of S m] m show ?thesis by (simp add: arranged_def)
qed

lemma rselect_loop_correct:
  assumes "\<And>k. k < length cs \<Longrightarrow> conv (cs ! k) = f (i + k)" and "\<forall>c \<in> set cs. dir c \<in> {selectSend, selectRecv, selectDefault}"
    and "arranged n f S R s" and "length S + length R + length cs \<le> n"
  shows "\<exists>s'. rselect_loop n i cs s = Inr s'
    \<and> arranged n f (S @ matching (\<lambda>c. dir c = selectSend) i cs) (R @ matching (\<lambda>c. dir c = selectRecv) i cs) s'"
  using assms
proof (induction cs arbitrary: i S R s)
  case (Cons c cs)
  have f: "conv (cs ! k) = f (i + 1 + k)" if "k < length cs" for k using Cons.prems(1) [of "Suc k"] that by simp
  have c: "\<lparr>sc_c = rs_ch c, sc_elem = rs_val c\<rparr> = f i" using Cons.prems(1) [of 0] by (simp add: conv_def)
  have d: "\<forall>c \<in> set cs. dir c \<in> {selectSend, selectRecv, selectDefault}" using Cons.prems(2) by simp
  have n: "nsends s = length S" "nrecvs s = length R" using Cons.prems(3) by (simp_all add: arranged_def)
  have room: "length S + length R < n" using Cons.prems(4) by simp
  consider "dir c = selectSend" | "dir c = selectRecv" | "dir c = selectDefault" using Cons.prems(2) by auto
  then show ?case
  proof cases
    case 1
    have "length (S @ [i]) + length R + length cs \<le> n" using Cons.prems(4) by simp
    from Cons.IH [OF f d arranged_send [OF Cons.prems(3) room] this] 1 show ?thesis using n c room by (simp add: Let_def)
  next
    case 2
    have "length S + length (R @ [i]) + length cs \<le> n" using Cons.prems(4) by simp
    from Cons.IH [OF f d arranged_recv [OF Cons.prems(3) room] this] 2 show ?thesis using n c room by (simp add: Let_def)
  next
    case 3
    have "arranged n f S R (s\<lparr>dflt := int i\<rparr>)" using Cons.prems(3) by (simp add: arranged_def)
    from Cons.IH [OF f d this] 3 Cons.prems(4) show ?thesis by simp
  qed
qed simp

lemma compacted: "take (length xs + length ys) (copy_at (xs @ zs @ ys) (length xs) ys) = xs @ ys"
  by (simp add: copy_at_def)

section \<open>Properties\<close>

text \<open>
  C25: For every source of random numbers below their bound, \<open>selectgo\<close> does not fail, and its poll order is a
  permutation of the cases whose channel is not nil, each of them once; the elements of the others are cleared. With
  \<open>fastrandn\<close> as it is in the sources, which returns zero, the order is always the same: the last of these cases,
  then the others in their order.
\<close>
theorem select_poll_order:
  assumes "\<And>k n. 0 < n \<Longrightarrow> rnd k n < n" and "length cas = ns + nr" and "ns + nr \<le> 2 ^ 16" and "length order = 2 * (ns + nr)"
  shows "(\<exists>po lo. selectgo rnd cas order ns nr
        = Inr (map (\<lambda>c. if sc_c c = 0 then c\<lparr>sc_elem := 0\<rparr> else c) cas, po, lo, 0, True)
      \<and> mset po = mset (map of_nat (filter (\<lambda>i. sc_c (cas ! i) \<noteq> 0) [0..<length cas])) \<and> length lo = length po)
    \<and> (\<exists>cas' lo. selectgo fastrandn cas order ns nr
        = Inr (cas', constant_order (filter (\<lambda>i. sc_c (cas ! i) \<noteq> 0) [0..<length cas]), lo, 0, True))"
proof -
  let ?po = "take (ns + nr) order" and ?lo = "take (ns + nr) (drop (ns + nr) order)" and ?n = "length (live_cases 0 cas)"
  have po: "length ?po < 2 ^ 32" "0 + length cas \<le> length ?po" using assms(2-4) by simp_all
  obtain cs' po' where r: "poll_loop rnd 0 cas ?po 0 = Inr (cs', po', 0 + ?n)" "length po' = length ?po"
    "mset (take (0 + ?n) po') = mset (take 0 ?po) + mset (map of_nat (live_cases 0 cas))"
    "cs' = map (\<lambda>c. if sc_c c = 0 then c\<lparr>sc_elem := 0\<rparr> else c) cas"
    using poll_loop_correct [of rnd ?po 0 cas 0, OF assms(1) po] by blast
  have n: "?n \<le> length cas" unfolding matching_0 using length_filter_le [of _ "[0..<length cas]"] by simp
  have "selectgo rnd cas order ns nr = Inr (cs', take ?n po', take ?n ?lo, 0, True)"
    using r(1) assms(2) by (simp add: selectgo_def Let_def)
  moreover have "length (take ?n ?lo) = length (take ?n po')" using n r(2) assms(2,4) by simp
  ultimately have random: "\<exists>po lo. selectgo rnd cas order ns nr
        = Inr (map (\<lambda>c. if sc_c c = 0 then c\<lparr>sc_elem := 0\<rparr> else c) cas, po, lo, 0, True)
      \<and> mset po = mset (map of_nat (filter (\<lambda>i. sc_c (cas ! i) \<noteq> 0) [0..<length cas])) \<and> length lo = length po"
    using r(3,4) by (auto simp: matching_0)
  have "take (length []) ?po = constant_order []" by (simp add: constant_order_def)
  from poll_loop_constant [of ?po "[]" cas 0, OF po(1) _ this] po(2)
  have "\<exists>cas' lo. selectgo fastrandn cas order ns nr
        = Inr (cas', constant_order (filter (\<lambda>i. sc_c (cas ! i) \<noteq> 0) [0..<length cas]), lo, 0, True)"
    using assms(2) by (auto simp: selectgo_def matching_0 Let_def)
  with random show ?thesis by blast
qed

theorem select_poll_order_witness:
  "\<exists>cas' lo. selectgo fastrandn [\<lparr>sc_c = 9, sc_elem = 1\<rparr>, \<lparr>sc_c = 0, sc_elem = 2\<rparr>, \<lparr>sc_c = 8, sc_elem = 3\<rparr>] (replicate 6 0xABCD) 1 2
    = Inr (cas', [2, 0], lo, 0, True)"
proof -
  let ?cas = "[\<lparr>sc_c = 9, sc_elem = 1\<rparr>, \<lparr>sc_c = 0, sc_elem = 2\<rparr>, \<lparr>sc_c = 8, sc_elem = 3\<rparr>]"
  have "constant_order (filter (\<lambda>i. sc_c (?cas ! i) \<noteq> 0) [0..<length ?cas]) = [2, 0]"
    by (simp add: constant_order_def upt_rec)
  with select_poll_order [of "\<lambda>k n. 0" ?cas 1 2 "replicate 6 0xABCD"] show ?thesis by simp
qed

text \<open>
  C26: \<open>reflect_rselect\<close> passes on every case except the default one: first the sends in the order of the program,
  then the receives in the opposite order, each with its channel and its variable, and \<open>orig\<close> maps it back to its
  position in the program.
\<close>
theorem select_cases_sorted:
  assumes "\<forall>c \<in> set cases. dir c \<in> {selectSend, selectRecv, selectDefault}"
    and "S = filter (\<lambda>i. dir (cases ! i) = selectSend) [0..<length cases]"
    and "R = filter (\<lambda>i. dir (cases ! i) = selectRecv) [0..<length cases]" and "S @ R \<noteq> []"
  shows "\<exists>s. reflect_rselect w cases = Inr (w, Returned (Inr s)) \<and> nsends s = length S \<and> nrecvs s = length R
    \<and> take (length S + length R) (orig s) = S @ rev R
    \<and> take (length S + length R) (sel s) = map (\<lambda>i. \<lparr>sc_c = rs_ch (cases ! i), sc_elem = rs_val (cases ! i)\<rparr>) (S @ rev R)"
proof -
  let ?n = "length cases" and ?f = "\<lambda>i. conv (cases ! i)"
  let ?s = "\<lparr>sel = replicate ?n \<lparr>sc_c = 0, sc_elem = 0\<rparr>, orig = replicate ?n 0, nsends = 0, nrecvs = 0, dflt = -1\<rparr>"
  have "arranged ?n ?f [] [] ?s" by (simp add: arranged_def)
  from rselect_loop_correct [of cases ?f 0 ?n "[]" "[]" ?s, OF _ assms(1) this] obtain s where
    s: "rselect_loop ?n 0 cases ?s = Inr s" "arranged ?n ?f S R s" using assms(2,3) by (auto simp: matching_0)
  have n: "nsends s = length S" "nrecvs s = length R" "length S + length R \<le> ?n" "nsends s + nrecvs s \<noteq> 0"
    using s(2) assms(4) by (auto simp: arranged_def)
  then have "cases \<noteq> []" by auto
  define s' where "s' = (if length S + length R < ?n
    then s\<lparr>sel := copy_at (sel s) (nsends s) (drop (?n - nrecvs s) (sel s)), orig := copy_at (orig s) (nsends s) (drop (?n - nrecvs s) (orig s))\<rparr> else s)"
  have "reflect_rselect w cases = Inr (w, Returned (Inr s'))"
    using s(1) n \<open>cases \<noteq> []\<close> by (simp add: reflect_rselect_def s'_def Let_def)
  moreover have "take (length S + length R) (orig s') = S @ rev R" "take (length S + length R) (sel s') = map ?f (S @ rev R)"
    using s(2) n compacted [of S "rev R"] compacted [of "map ?f S" "rev (map ?f R)"]
    by (auto simp: s'_def arranged_def rev_map)
  ultimately show ?thesis using n by (auto simp: s'_def conv_def)
qed

definition example_cases :: "runtimeSelect list" where
  "example_cases = [\<lparr>dir = 2, rs_typ = 0, rs_ch = 5, rs_val = 50\<rparr>, \<lparr>dir = 1, rs_typ = 0, rs_ch = 6, rs_val = 60\<rparr>,
     \<lparr>dir = 3, rs_typ = 0, rs_ch = 0, rs_val = 0\<rparr>, \<lparr>dir = 2, rs_typ = 0, rs_ch = 7, rs_val = 70\<rparr>,
     \<lparr>dir = 1, rs_typ = 0, rs_ch = 8, rs_val = 80\<rparr>]"

theorem select_cases_sorted_witness:
  "\<exists>s. reflect_rselect example_rt example_cases = Inr (example_rt, Returned (Inr s)) \<and> take 4 (orig s) = [1, 4, 3, 0]
    \<and> map sc_c (take 4 (sel s)) = [6, 8, 7, 5]"
proof -
  have f: "[1, 4] = filter (\<lambda>i. dir (example_cases ! i) = selectSend) [0..<length example_cases]"
    "[0, 3] = filter (\<lambda>i. dir (example_cases ! i) = selectRecv) [0..<length example_cases]"
    by (simp_all add: example_cases_def upt_rec)
  have "\<forall>c \<in> set example_cases. dir c \<in> {selectSend, selectRecv, selectDefault}" by (simp add: example_cases_def)
  from select_cases_sorted [OF this f, of example_rt] show ?thesis by (auto simp: example_cases_def numeral_eq_Suc)
qed

end
