(* ===== verification/Spec2Isabelle.thy ===== *)
theory Spec2Isabelle
  imports PageCache Http2Response ChunkedCodec ChanWait Select
begin

text \<open>
  A verification library for four subsystems of the repository: the page allocator of the Go runtime's
  heap (\<open>src/memory_and_heap\<close>), the framing layer of HTTP/2 with its header compression
  (\<open>src/http2/http2\<close>, \<open>src/http2/hpack\<close>), the chunked transfer encoding of HTTP (\<open>src/http/http/internal\<close>), and
  channels with the part of the scheduler that parks and wakes goroutines (\<open>src/channels_and_select\<close>). All are
  annotated copies of code of the Go project, and the copies differ from the original in places; the model
  follows the text under \<open>src/\<close>, and where that text does something else than intended the theorems state
  what it does.

  \<^bold>\<open>The parts of the program and how they interact.\<close>
  The page allocator hands out runs of 8 KiB pages. The address space is divided into chunks of 512
  pages, each with a bitmap of eight 64-bit words. Each chunk is summarised by three numbers (free pages
  at its start, in its longest run, at its end) packed in a word, and five levels of packed summaries
  form a radix tree, an entry of which summarises eight entries of the level below. The allocator
  searches the tree for a run, marks its pages in the bitmaps and updates the summaries upwards. It
  keeps the address ranges it owns as a sorted list, and processors take 64 pages at a time into a cache
  of their own. The header compression writes the header fields of a request as indices into a
  static and a dynamic table, or as literals with integers of variable length and Huffman-coded
  strings; encoder and decoder each keep a dynamic table and have to change it in the same way. The framer
  cuts a connection into frames. It parses the frames it reads, checks that header blocks are contiguous, and
  hands the fragments of a header block to the decoder, whose callback checks and collects the fields; it
  writes frames from checked arguments. A body in the chunked encoding is a sequence of pieces, each behind its
  length in hexadecimal, closed by a piece of length 0. A channel is a circular buffer in memory with a queue of goroutines
  that wait to receive and one of those that wait to send. A goroutine in a queue is represented by a sudog with the
  address of its variable; an operation that finds a partner waiting copies the value to or from that address and
  makes the partner runnable, which puts it into the slot \<open>runnext\<close> or the run queue of the processor.

  \<^bold>\<open>Theories and the code they model.\<close>
  \<^item> \<open>GoPrelude\<close>: words of 64, 32 and 8 bits with Go's shifts (a shift by the width or more gives 0), the
    result type \<open>res\<close> (a value, or a \<open>gofail\<close>: a panic, a \<open>throw\<close> of the runtime, a loop that does not
    end), its sequencing \<open>go_bind\<close>, slices with bounds checks, the counting loop \<open>go_for\<close>, and the
    generic lemmas on words.
  \<^item> \<open>BitOps\<close>: \<open>stubs.go\<close>: alignment and \<open>TrailingZeros64\<close> (by a de Bruijn table), \<open>Len64\<close> (by a byte
    table), \<open>OnesCount64\<close> (by parallel summing), each proved equal to a count over the bits of the word.
  \<^item> \<open>PallocBits\<close>, \<open>PallocFind\<close>: \<open>mpallocbits.go\<close>: \<open>pageBits\<close> as a list of eight words, its updates and
    counts; the three searches and their dispatch. Their common contract is the locale \<open>first_fit\<close>
    (a search returns the first run that fits, or reports that there is none), interpreted for \<open>find1\<close>,
    \<open>findSmallN\<close>, \<open>findLargeN\<close> and \<open>find\<close>.
  \<^item> \<open>PallocSummary\<close>: \<open>summarize\<close> of \<open>mpallocbits.go\<close>, and the packing and merging of summaries of
    \<open>mpagealloc.go\<close>, against the specification by \<open>lead\<close>, \<open>longest\<close> and \<open>trail\<close> on a list of pages.
  \<^item> \<open>Ranges\<close>: \<open>mranges.go\<close>: addresses in the linearised address space (the offset of the upper half is
    added with wrap-around), ranges, and the sorted list of ranges with the capacity of its slice. The
    locale \<open>address_set\<close> states what a client sees of it (a set of addresses that grows by the inserted
    range) and is interpreted on \<open>addrRanges\<close>.
  \<^item> \<open>PageAlloc\<close>: \<open>mpagealloc.go\<close> and the level tables of \<open>mpagealloc_64bit.go\<close>: the \<open>pageAlloc\<close> state
    as a record, indices of chunks and levels, \<open>update\<close>, \<open>allocRange\<close>, \<open>findMappedAddr\<close> and
    \<open>find\<close>.
  \<^item> \<open>PageCache\<close>: \<open>mpagecache.go\<close>: \<open>pageCache\<close> with \<open>empty\<close>, \<open>alloc\<close>, \<open>allocN\<close> and \<open>allocToCache\<close>.
  \<^item> \<open>HpackTables\<close>: \<open>headerFieldTable\<close> with its two maps and the static table (\<open>tables.go\<close>,
    \<open>static_table.go\<close>), \<open>dynamicTable\<close> (\<open>hpack.go\<close>). The locale \<open>fifo_table\<close> is the contract of a table
    that adds at one end and evicts at the other, interpreted on \<open>headerFieldTable\<close>.
  \<^item> \<open>HpackInt\<close>: \<open>appendVarInt\<close> (\<open>encode.go\<close>) and \<open>readVarInt\<close> (\<open>hpack.go\<close>) with the errors of the decoder.
  \<^item> \<open>HpackHuffman\<close>, \<open>HpackHuffmanDecode\<close>: \<open>huffman.go\<close> and the code tables of \<open>tables.go\<close>: the encoder
    that collects codes in a 64-bit accumulator, the 256-way decoding tree and its construction, and the
    decoder.
  \<^item> \<open>HpackEncode\<close>, \<open>HpackDecode\<close>: \<open>encode.go\<close> and \<open>hpack.go\<close>: the records \<open>Encoder\<close> and \<open>Decoder\<close> and
    one definition for each of their methods.
  \<^item> \<open>HpackCodec\<close>: the two ends together.
  \<^item> \<open>Http2Io\<close>: \<open>ReadAtLeast\<close> and \<open>ReadFull\<close> of \<open>io.go\<close> over any reader, and big-endian integers. The locale
    \<open>full_reader\<close> is the contract of a reader that hands out all it has, interpreted on a buffer.
  \<^item> \<open>Http2Frame\<close>, \<open>Http2Meta\<close>, \<open>Http2Write\<close>: \<open>frame.go\<close> with \<open>errors.go\<close>, the settings and the name check
    of \<open>http2.go\<close>, and \<open>httplex.go\<close>: the frames as a datatype, a parser and a \<open>Write\<close> method for each, the
    record \<open>Framer\<close>, the order check, and \<open>ReadFrame\<close> together with \<open>readMetaFrame\<close>, which call each other.
  \<^item> \<open>Http2Wire\<close>, \<open>Http2Codec\<close>: the wire format of every frame and the two ends together. The locale
    \<open>full_writer\<close> is the contract of a writer that takes all it is given, interpreted on a buffer.
  \<^item> \<open>Http2Safety\<close>, \<open>Http2Headers\<close>: reading from an arbitrary peer, arguments that are refused, and
    header lists from the encoder of one side to the fields delivered on the other.
  \<^item> \<open>HpackChunks\<close>: header blocks that reach the decoder in pieces.
  \<^item> \<open>Http2Server\<close>, \<open>Http2Response\<close>: \<open>write.go\<close> with \<open>headermap.go\<close> and \<open>ascii.go\<close>: the requests that a server
    schedules as the datatype \<open>writeFramer\<close>, a definition for each \<open>writeFrame\<close> method, the encoding of headers
    and the splitting of blocks; and a response from the handler's headers to the client.
  \<^item> \<open>Chunked\<close>, \<open>ChunkedCodec\<close>: \<open>chunked.go\<close>: the buffered reader of the standard library over a connection that
    delivers segments, the lines of chunks, the records \<open>chunkedReader\<close> and \<open>chunkedWriter\<close> with their methods; and the
    two ends together. The states of the reader are the inductive predicate \<open>reading\<close>, and the locale \<open>wire_sink\<close> is the
    contract of the writer below, interpreted on a buffer and on a buffer that is flushed behind each chunk.
  \<^item> \<open>RunQueue\<close>: \<open>proc.go\<close> and \<open>runtime2.go\<close>: goroutines with their status, the linked queues \<open>gQueue\<close> and \<open>gList\<close>,
    the run queue of a processor with its 32-bit indices and the global one, \<open>ready\<close>, \<open>goready\<close>, \<open>gopark\<close>. The locale
    \<open>linked_queue\<close> is the contract of a FIFO queue threaded through its elements, interpreted on \<open>gQueue\<close> here and on the
    wait queues of channels in \<open>ChanQueue\<close>.
  \<^item> \<open>Channel\<close>: \<open>chan.go\<close>, \<open>acquireSudog\<close> of \<open>proc.go\<close> and \<open>math.go\<close>: the records \<open>hchan\<close>, \<open>sudog\<close>, \<open>waitq\<close>, and one
    definition for each of \<open>makechan\<close>, \<open>chansend\<close>, \<open>send\<close>, \<open>closechan\<close>, \<open>chanrecv\<close>, \<open>recv\<close> and their helpers, over a
    memory of bytes at 64-bit addresses.
  \<^item> \<open>ChanQueue\<close>, \<open>ChanSpec\<close>: wait queues as lists, the buffer as a list of values, and the bounded queue that a channel
    implements. \<open>ChanBlock\<close>, \<open>ChanWait\<close>: the step relation \<open>chan_step\<close> with its invariant, and the goroutines that wait.
  \<^item> \<open>Select\<close>: \<open>select.go\<close>: the poll order of \<open>selectgo\<close> and the sorting of cases in \<open>reflect_rselect\<close>.

  \<^bold>\<open>What the lemmas show.\<close>
  \<^item> Pages: every search returns the first fit and ends; \<open>summarize\<close> computes the three numbers of the
    chunk and agrees with the search; merging summaries is summarising the concatenation; the exact
    effect of the bitmap updates, which is not the intended one for \<open>setRange\<close> and \<open>clearRange\<close>.
  \<^item> Ranges: \<open>add\<close> throws on every proper range, by the inverted test in \<open>size\<close>. The code behind that guard
    (\<open>addrRanges_insert\<close>) would keep the list sorted, disjoint and coalesced and add exactly the new addresses. The
    binary search finds the successor, and \<open>findAddrGreaterEqual\<close> the next address, but panics on the empty set.
  \<^item> Tree: \<open>update\<close> restores the invariant that every inner entry is the merge of its children; the
    mapping between addresses and indices of a level is invertible; \<open>find\<close> throws below the first root
    entry and runs out of the root level when memory is exhausted, by the tests in its loop.
  \<^item> Cache: allocation of one page is right; the mask of \<open>allocN\<close> is not, so a run at the start of the
    cache is handed out twice; the fast path of \<open>allocToCache\<close> ends in a nil dereference or a throw.
  \<^item> HPACK: integers, Huffman strings and lists of fields that the encoder does not index survive encoding and decoding; the index maps
    of a table always point at the newest entries, and searching is determined by the entries; size
    updates keep both ends in step; the decoder returns on every input without a panic. Fields with
    incremental indexing are always rejected, invalid Huffman data gives an empty string, and two
    size updates in a row are rejected, by three slips in \<open>hpack.go\<close>.
  \<^item> Frames: every sequence of legal frames that keeps the blocks opened by HEADERS contiguous is read back, and the
    first frame that does not is a protocol error; the continuation of a PUSH_PROMISE, which the comments require, is
    such a frame. \<open>ReadFrame\<close> returns on every input without a panic; illegal frames are not written; a delivered header
    list is well formed and within the limit, and the fields of a request arrive, if the encoder does not index them. A
    header block of such fields may be cut into frames anywhere, so a response of any length arrives as its fields; a
    write request stays within the bytes it announces. The error code of GOAWAY is read from the wrong bytes, and
    \<open>ReadAtLeast\<close> corrupts its buffer after a short read.
  \<^item> Chunked bodies: what is written in any pieces is read back, however it is cut on the way. A connection that ends
    behind the data of a chunk is not reported; reading then returns nothing for ever.
  \<^item> Channels: without blocking, a channel is a bounded FIFO queue with the results and panics of the specification; with
    blocking, its invariant holds in every reachable state (receivers wait on an empty buffer only, senders on a full one
    only), and a receive serves the first of the blocked senders while the slot \<open>runnext\<close> is free. While it is occupied, waking a
    goroutine ends the process, because \<open>runqput\<close> lacks a return; so does closing a channel on which two goroutines wait. A value sent to a waiting receiver is lost, because the call of
    \<open>send\<close> is commented out. The linked queues are FIFO, and a full run queue hands its older half over without losing a goroutine. The poll
    order of a select is a permutation of its cases.

  \<^bold>\<open>Loops.\<close>
  Loops over a fixed list are structural recursion. \<open>go_for\<close>, the binary search, the writing of integer
  groups, the construction of the Huffman tree and the loop of \<open>Decoder.Write\<close> are total functions with
  a measure: for \<open>Write\<close> it is the length of the buffer, of which every parsed representation consumes
  at least one byte. The word-level loops \<open>findBitRange64_loop\<close>, \<open>summarize_shrink\<close>, \<open>summarize_grow\<close>,
  \<open>whole_bytes\<close> and \<open>last_bits\<close>, whose end depends on the data, are partial functions into \<open>option\<close>, and
  the properties prove that the result is \<open>Some\<close>; so are \<open>readAtLeast_loop\<close> and \<open>read_run\<close>, which need not end
  for every reader, and the properties prove it for a \<open>full_reader\<close>; so is \<open>Read_loop\<close>, which is proved to end in every
  state of \<open>reading\<close>; so are \<open>runqput_retry\<close>, \<open>release_readers\<close>,
  \<open>release_writers\<close> and \<open>ready_all\<close>, which end on the states of the invariant. No definition runs on fuel.

  \<^bold>\<open>What stands for code outside the sources.\<close>
  The writer of an encoder, the reader and writer of a framer, and the writer below a chunked writer are parameters; the callback of a
  decoder is a log of the fields it was given, with a function that tells when it switches itself off. The table of arenas, which \<open>findMappedAddr\<close> reads and \<open>mheap.go\<close> owns,
  is an argument of the search. Copying and clearing of memory and the allocator of channels (\<open>typedmemmove\<close>, \<open>typedmemclr\<close>,
  \<open>memmove\<close>, \<open>mallocgc\<close>), which have no or an empty body in the sources, are the parameter \<open>F\<close> of the operations, and
  \<open>memory_functions\<close> states that they copy and clear bytes. The random numbers of \<open>selectgo\<close> are an argument. Locks have no effect in a model with one thread of control;
  the calls on a channel happen one after the other, which is what its lock is for. \<open>throw\<close>, whose body is empty in the
  sources and which ends the process in the runtime, ends the computation. The memory behind a slice
  of ranges or a chunk is the list itself: \<open>persistentalloc\<close> and \<open>sysAlloc\<close> are not modelled.

  \<^bold>\<open>Not modelled.\<close>
  \<^item> \<open>init\<close>, \<open>grow\<close>, \<open>sysInit\<close> and \<open>sysGrow\<close> of the page allocator, which reserve and map memory.
  \<^item> \<open>mheap.go\<close>, \<open>malloc.go\<close>, \<open>mfixalloc.go\<close>: spans, arenas, size classes and the fixed-size allocator.
    A store of memory blocks would be needed; they are the next step on the heap side.
  \<^item> \<open>mem_linux.go\<close> and the files in assembly: system calls.
  \<^item> \<open>chan.go\<close>: what a woken goroutine does, which the sources leave open after \<open>gopark\<close>; \<open>select.go\<close>: locking and choosing a
    case, which is not in the sources. \<open>proc.go\<close>: the loop of the scheduler and context switches (assembly).
  \<^item> \<open>frame.go\<close>: log output, and the sharing of the framer's buffer between frames; a frame is a value.
  \<^item> \<open>bufferedWriter\<close> of \<open>http2.go\<close>: a wrapper of the standard library's buffered writer.
  \<^item> The \<open>mime\<close> packages: planned.
  \<^item> The servers, poller examples and scheduler notes: input and output, or declarations only.
\<close>

end
